(* ===== verification/Prelude.thy ===== *)
theory Prelude
  imports Main "HOL-Library.Word"
begin

text \<open>
  Types, arithmetic and automation shared by every component: bytes, the fixed-width
  integers of the sources (\<open>quint32\<close> as \<open>nat\<close> and \<open>qint32\<close> as \<open>int\<close>, with the
  wrap-around written out), big-endian conversion, the most-significant-bit-first view
  of bytes as bit lists on which the stream and codec proofs rest, and the contract of an
  operation that keeps an invariant.
\<close>

unbundle bit_operations_syntax

named_theorems u32_simps \<open>arithmetic on 32-bit values that do not wrap\<close>
named_theorems bits_simps \<open>lengths and shapes of bit lists\<close>

subsection \<open>Bytes and fixed-width integers\<close>

type_synonym byte = "8 word"
type_synonym bytes = "byte list"

text \<open>The octets of a string literal of the sources.\<close>

definition chars :: "string \<Rightarrow> bytes" where
  "chars s = map of_char s"

definition add32 :: "nat \<Rightarrow> nat \<Rightarrow> nat" where
  "add32 a b = (a + b) mod 2 ^ 32"

definition sub32 :: "nat \<Rightarrow> nat \<Rightarrow> nat" where
  "sub32 a b = (a + (2 ^ 32 - b mod 2 ^ 32)) mod 2 ^ 32"

definition i32 :: "int \<Rightarrow> int" where
  "i32 x = (x + 2 ^ 31) mod 2 ^ 32 - 2 ^ 31"

lemma add32_exact [u32_simps]: "a + b < 2 ^ 32 \<Longrightarrow> add32 a b = a + b"
  by (simp add: add32_def)

lemma sub32_exact [u32_simps]:
  assumes "b \<le> a" "a < 2 ^ 32" shows "sub32 a b = a - b"
proof -
  have "sub32 a b = ((a - b) + 2 ^ 32) mod 2 ^ 32" using assms by (simp add: sub32_def)
  also have "\<dots> = (a - b) mod 2 ^ 32" by (rule mod_add_self2)
  also have "\<dots> = a - b" using assms by simp
  finally show ?thesis .
qed

lemma sub32_wraps:
  assumes "a < b" "b < 2 ^ 32" shows "sub32 a b = 2 ^ 32 - (b - a)"
  using assms by (simp add: sub32_def)

lemma add32_less [simp]: "add32 a b < 2 ^ 32" "add32 a b < 4294967296"
  by (simp_all add: add32_def)

lemma sub32_less [simp]: "sub32 a b < 2 ^ 32" "sub32 a b < 4294967296"
  by (simp_all add: sub32_def)

lemma i32_exact [u32_simps]: "- (2 ^ 31) \<le> x \<Longrightarrow> x < 2 ^ 31 \<Longrightarrow> i32 x = x"
  by (simp add: i32_def)

lemma i32_small: "0 \<le> x \<Longrightarrow> x < 2 ^ 31 \<Longrightarrow> i32 x = x"
  by (rule i32_exact) simp_all

lemma i32_bounds: "- (2 ^ 31) \<le> i32 x" "i32 x < 2 ^ 31"
proof -
  have "0 \<le> (x + 2 ^ 31) mod 2 ^ 32" "(x + 2 ^ 31) mod 2 ^ 32 < 2 ^ 32"
    by (rule pos_mod_sign, simp) (rule pos_mod_bound, simp)
  then show "- (2 ^ 31) \<le> i32 x" "i32 x < 2 ^ 31" by (simp_all add: i32_def)
qed

text \<open>\<open>qAddOverflow\<close> on \<open>qint32\<close>: \<open>None\<close> when the sum does not fit.\<close>

definition qAddOverflow32 :: "int \<Rightarrow> int \<Rightarrow> int option" where
  "qAddOverflow32 a b =
     (if - (2 ^ 31) \<le> a + b \<and> a + b < 2 ^ 31 then Some (a + b) else None)"

lemma qAddOverflow32_Some:
  "qAddOverflow32 a b = Some c \<longleftrightarrow> c = a + b \<and> - (2 ^ 31) \<le> c \<and> c < 2 ^ 31"
  by (auto simp: qAddOverflow32_def)

subsection \<open>Big-endian integers (qToBigEndian, qFromBigEndian)\<close>

definition be16 :: "nat \<Rightarrow> bytes" where
  "be16 n = [of_nat (n div 2 ^ 8), of_nat n]"

definition be32 :: "nat \<Rightarrow> bytes" where
  "be32 n = [of_nat (n div 2 ^ 24), of_nat (n div 2 ^ 16), of_nat (n div 2 ^ 8), of_nat n]"

fun from_be :: "bytes \<Rightarrow> nat" where
  "from_be [] = 0"
| "from_be (b # bs) = unat b * 256 ^ length bs + from_be bs"

lemma length_be [simp]: "length (be16 n) = 2" "length (be32 n) = 4"
  by (simp_all add: be16_def be32_def)

lemma unat_of_nat_byte: "unat (of_nat n :: byte) = n mod 256"
  by (simp add: unat_of_nat take_bit_eq_mod)

lemma from_be_be16: "n < 2 ^ 16 \<Longrightarrow> from_be (be16 n) = n"
  by (simp add: be16_def unat_of_nat_byte)

lemma from_be_be32: "n < 2 ^ 32 \<Longrightarrow> from_be (be32 n) = n"
proof -
  assume n: "n < 2 ^ 32"
  have "n = 16777216 * (n div 16777216) + n mod 16777216" by simp
  moreover have "n mod 16777216 = 65536 * (n div 65536 mod 256) + n mod 65536"
    using mod_mult2_eq [of n 65536 256] by simp
  moreover have "n mod 65536 = 256 * (n div 256 mod 256) + n mod 256"
    using mod_mult2_eq [of n 256 256] by simp
  moreover have "n div 16777216 < 256" using n by (simp add: div_less_iff_less_mult)
  ultimately show "from_be (be32 n) = n"
    by (simp add: be32_def unat_of_nat_byte)
qed

lemma from_be_less: "from_be bs < 256 ^ length bs"
proof (induction bs)
  case Nil then show ?case by simp
next
  case (Cons b bs)
  have "unat b < 256" using unsigned_less [of b] by simp
  then have "unat b * 256 ^ length bs \<le> 255 * 256 ^ length bs"
    by (intro mult_right_mono) simp_all
  from add_le_less_mono [OF this Cons] show ?case by simp
qed

subsection \<open>Bytes as bit lists, most significant bit first\<close>

definition word_bits :: "'a::len word \<Rightarrow> bool list" where
  "word_bits w = map (\<lambda>i. bit w (LENGTH('a) - 1 - i)) [0..<LENGTH('a)]"

definition low_bits :: "nat \<Rightarrow> 'a::len word \<Rightarrow> bool list" where
  "low_bits n w = map (\<lambda>i. bit w (n - 1 - i)) [0..<n]"

definition bits_of :: "bytes \<Rightarrow> bool list" where
  "bits_of bs = concat (map word_bits bs)"

fun bits_val :: "bool list \<Rightarrow> nat" where
  "bits_val [] = 0"
| "bits_val (b # bs) = of_bool b * 2 ^ length bs + bits_val bs"

lemma length_word_bits [bits_simps, simp]: "length (word_bits (w :: 'a::len word)) = LENGTH('a)"
  by (simp add: word_bits_def)

lemma length_low_bits [bits_simps, simp]: "length (low_bits n w) = n"
  by (simp add: low_bits_def)

lemma nth_word_bits: "i < LENGTH('a) \<Longrightarrow> word_bits (w :: 'a::len word) ! i = bit w (LENGTH('a) - 1 - i)"
  by (simp add: word_bits_def)

lemma nth_low_bits: "i < n \<Longrightarrow> low_bits n w ! i = bit w (n - 1 - i)"
  by (simp add: low_bits_def)

lemma bits_of_simps [simp]:
  "bits_of [] = []" "bits_of (b # bs) = word_bits b @ bits_of bs"
  "bits_of (bs @ cs) = bits_of bs @ bits_of cs"
  by (simp_all add: bits_of_def)

lemma length_bits_of [bits_simps, simp]: "length (bits_of bs) = 8 * length bs"
  by (induction bs) simp_all

lemma drop_bits_of: "drop (8 * n) (bits_of bs) = bits_of (drop n bs)"
proof (induction bs arbitrary: n)
  case Nil then show ?case by simp
next
  case (Cons b bs) then show ?case by (cases n) simp_all
qed

lemma take_bits_of: "take (8 * n) (bits_of bs) = bits_of (take n bs)"
proof (induction bs arbitrary: n)
  case Nil then show ?case by simp
next
  case (Cons b bs) then show ?case by (cases n) simp_all
qed

lemma word_bits_inject: "word_bits v = word_bits w \<longleftrightarrow> v = w"
  for v w :: "'a::len word"
proof
  assume eq: "word_bits v = word_bits w"
  show "v = w"
  proof (rule bit_word_eqI)
    fix n assume n: "n < LENGTH('a)"
    then have "LENGTH('a) - 1 - n < LENGTH('a)" by simp
    with eq have "bit v (LENGTH('a) - 1 - (LENGTH('a) - 1 - n)) = bit w (LENGTH('a) - 1 - (LENGTH('a) - 1 - n))"
      using nth_word_bits [of "LENGTH('a) - 1 - n"] by metis
    moreover have "LENGTH('a) - 1 - (LENGTH('a) - 1 - n) = n" using n by simp
    ultimately show "bit v n = bit w n" by simp
  qed
qed simp

lemma bits_of_inject: "bits_of xs = bits_of ys \<longleftrightarrow> xs = ys"
proof (induction xs arbitrary: ys)
  case Nil
  have "ys = []" if "bits_of [] = bits_of ys"
    using arg_cong [OF that, of length] by simp
  then show ?case by auto
next
  case (Cons x xs)
  show ?case
  proof (cases ys)
    case Nil
    then have "bits_of (x # xs) \<noteq> bits_of ys"
      using length_bits_of [of "x # xs"] by (metis bits_of_simps(1) length_bits_of list.distinct(1) list.size(3) length_0_conv mult_eq_0_iff zero_neq_numeral)
    with Nil show ?thesis by simp
  next
    case (Cons y zs)
    with Cons.IH show ?thesis by (simp add: word_bits_inject)
  qed
qed

lemma low_bits_append: "low_bits (m + n) w = low_bits m (drop_bit n w) @ low_bits n w"
  by (rule nth_equalityI) (auto simp: nth_append nth_low_bits bit_simps algebra_simps)

lemma word_bits_eq_low_bits: "word_bits (w :: 'a::len word) = low_bits LENGTH('a) w"
  by (simp add: word_bits_def low_bits_def)

lemma drop_word_bits: "n \<le> LENGTH('a) \<Longrightarrow> drop (LENGTH('a) - n) (word_bits (w :: 'a::len word)) = low_bits n w"
  by (rule nth_equalityI) (auto simp: nth_word_bits nth_low_bits)

lemma low_bits_Suc: "low_bits (Suc n) w = bit w n # low_bits n w"
  by (rule nth_equalityI) (auto simp: nth_Cons' nth_low_bits)

lemma bits_val_append: "bits_val (xs @ ys) = bits_val xs * 2 ^ length ys + bits_val ys"
  by (induction xs) (simp_all add: power_add algebra_simps)

lemma bits_val_low_bits: "bits_val (low_bits n w) = unat (take_bit n w)"
proof (induction n)
  case 0 then show ?case by (simp add: low_bits_def)
next
  case (Suc n)
  have "unat (take_bit (Suc n) w) = take_bit (Suc n) (unat w)"
    by (simp add: unsigned_take_bit_eq)
  also have "\<dots> = of_bool (bit w n) * 2 ^ n + take_bit n (unat w)"
    by (simp add: take_bit_Suc_from_most bit_unsigned_iff)
  also have "take_bit n (unat w) = unat (take_bit n w)"
    by (simp add: unsigned_take_bit_eq)
  finally show ?case using Suc by (simp add: low_bits_Suc)
qed

lemma bits_val_less: "bits_val bs < 2 ^ length bs"
  by (induction bs) (auto simp: less_imp_le)

lemma bits_val_inject: "length xs = length ys \<Longrightarrow> bits_val xs = bits_val ys \<longleftrightarrow> xs = ys"
proof (induction xs ys rule: list_induct2)
  case (Cons x xs y ys)
  then show ?case
    using bits_val_less [of xs] bits_val_less [of ys] by (auto split: if_splits)
qed simp

lemma bits_val_replicate [simp]: "bits_val (replicate n False) = 0"
  by (induction n) simp_all

lemma word_bits_or: "word_bits (v OR w) = map2 (\<or>) (word_bits v) (word_bits w)"
  by (rule nth_equalityI) (simp_all add: nth_word_bits bit_or_iff)

lemma word_bits_push_bit:
  "n \<le> LENGTH('a) \<Longrightarrow> word_bits (push_bit n w :: 'a::len word) = drop n (word_bits w) @ replicate n False"
  by (rule nth_equalityI) (auto simp: nth_append nth_word_bits bit_simps add.commute [of n])

lemma word_bits_drop_bit:
  "n \<le> LENGTH('a) \<Longrightarrow> word_bits (drop_bit n w :: 'a::len word) = replicate n False @ take (LENGTH('a) - n) (word_bits w)"
  by (rule nth_equalityI)
     (auto simp: nth_append nth_word_bits bit_simps add.commute dest!: bit_imp_le_length)

subsection \<open>Operations that keep an invariant\<close>

locale step_invariant =
  fixes step :: "'op \<Rightarrow> 's \<Rightarrow> 's" and allowed :: "'op \<Rightarrow> bool" and inv :: "'s \<Rightarrow> bool"
  assumes step_inv: "inv s \<Longrightarrow> allowed op \<Longrightarrow> inv (step op s)"
begin

lemma run_inv: "inv s \<Longrightarrow> list_all allowed ops \<Longrightarrow> inv (fold step ops s)"
  by (induction ops arbitrary: s) (simp_all add: step_inv)

lemma run_prefix_inv: "inv s \<Longrightarrow> list_all allowed ops \<Longrightarrow> inv (fold step (take n ops) s)"
  by (rule run_inv) (auto simp: list_all_iff dest: in_set_takeD)

end

end
