(* ===== verification/BitStreams.thy ===== *)
theory BitStreams
  imports Prelude
begin

text \<open>
  The HPACK bit streams of \<open>src/network/access/http2/bitstreams.cpp\<close> and
  \<open>bitstreams_p.h\<close>: \<open>BitOStream\<close> (\<open>writeBits\<close> and the prefix-coded integers of
  \<open>write(quint32)\<close>) and \<open>BitIStream\<close> (\<open>peekBits\<close>, \<open>skipBits\<close>, \<open>rewindOffset\<close> and
  \<open>read(quint32)\<close>). String literals need the Huffman code and follow in Huffman.
  A stream is specified by the list of its bits: \<open>os_bits\<close> for what has been written,
  \<open>bits_of\<close> the data for what is read. Bit offsets (\<open>quint64\<close>) are \<open>nat\<close>: they count the
  bits of a buffer in memory; the one offset kept in a \<open>quint32\<close> wraps explicitly.
\<close>

unbundle bit_operations_syntax

subsection \<open>BitOStream\<close>

record bit_ostream =
  os_buffer :: bytes
  os_bitsSet :: nat

definition BitOStream :: "bytes \<Rightarrow> bit_ostream" where
  "BitOStream b = \<lparr>os_buffer = b, os_bitsSet = 8 * length b\<rparr>"

definition writeBits :: "byte \<Rightarrow> nat \<Rightarrow> bit_ostream \<Rightarrow> bit_ostream" where
  "writeBits bits bitLength s =
     (let count = os_bitsSet s mod 8;
          bits' = push_bit (8 - bitLength) bits;
          buf = (if count \<noteq> 0
                 then (os_buffer s)[length (os_buffer s) - 1 := last (os_buffer s) OR drop_bit count bits']
                 else os_buffer s);
          count' = (if count \<noteq> 0 then 8 - count else 0)
      in \<lparr>os_buffer = (if bitLength > count' then buf @ [push_bit count' bits'] else buf),
          os_bitsSet = os_bitsSet s + bitLength\<rparr>)"

fun write_octets :: "nat \<Rightarrow> bit_ostream \<Rightarrow> bit_ostream" where
  "write_octets src s =
     (if 128 \<le> src
      then write_octets (src div 128)
             \<lparr>os_buffer = os_buffer s @ [of_nat (src mod 128 + 128)], os_bitsSet = os_bitsSet s + 8\<rparr>
      else \<lparr>os_buffer = os_buffer s @ [of_nat src], os_bitsSet = os_bitsSet s + 8\<rparr>)"

declare write_octets.simps [simp del]

definition write_u32 :: "nat \<Rightarrow> bit_ostream \<Rightarrow> bit_ostream" where
  "write_u32 src s =
     (let prefixLen = 8 - os_bitsSet s mod 8;
          fullPrefix = 2 ^ prefixLen - 1
      in if src < fullPrefix then writeBits (of_nat src) prefixLen s
         else write_octets (src - fullPrefix) (writeBits (of_nat fullPrefix) prefixLen s))"

definition os_clear :: "bit_ostream \<Rightarrow> bit_ostream" where
  "os_clear s = s\<lparr>os_buffer := [], os_bitsSet := 0\<rparr>"

definition os_wf :: "bit_ostream \<Rightarrow> bool" where
  "os_wf s \<longleftrightarrow> (\<exists>k < 8. bits_of (os_buffer s) = take (os_bitsSet s) (bits_of (os_buffer s)) @ replicate k False
                  \<and> 8 * length (os_buffer s) = os_bitsSet s + k)"

definition os_bits :: "bit_ostream \<Rightarrow> bool list" where
  "os_bits s = take (os_bitsSet s) (bits_of (os_buffer s))"

lemma word_bits_byte_push: "n \<le> 8 \<Longrightarrow> word_bits (push_bit (8 - n) w :: byte) = low_bits n w @ replicate (8 - n) False"
  using drop_word_bits [of n w] by (simp add: word_bits_push_bit)

lemma os_wf_cases:
  assumes "os_wf s"
  shows "os_bitsSet s mod 8 = 0 \<Longrightarrow> bits_of (os_buffer s) = os_bits s"
    and "os_bitsSet s mod 8 = c \<Longrightarrow> c \<noteq> 0 \<Longrightarrow>
         \<exists>bs l. os_buffer s = bs @ [l] \<and> 8 * length bs + c = os_bitsSet s
           \<and> word_bits l = take c (word_bits l) @ replicate (8 - c) False
           \<and> os_bits s = bits_of bs @ take c (word_bits l)"
proof -
  from assms obtain k where k: "k < 8"
    "bits_of (os_buffer s) = os_bits s @ replicate k False"
    "8 * length (os_buffer s) = os_bitsSet s + k"
    by (auto simp: os_wf_def os_bits_def)
  { assume "os_bitsSet s mod 8 = 0"
    with k(1,3) have "k = 0" by presburger
    with k show "bits_of (os_buffer s) = os_bits s" by simp }
  assume c: "os_bitsSet s mod 8 = c" "c \<noteq> 0"
  have "(os_bitsSet s + k) mod 8 = 0" using k(3) by (metis mod_mult_self1_is_0)
  with c(1) have "(c + k) mod 8 = 0" by (metis mod_add_left_eq)
  moreover have "c < 8" using c(1) by auto
  ultimately have kc: "k = 8 - c" "c < 8" using k(1) c(2) by presburger+
  have "os_buffer s \<noteq> []" using k(3) c by auto
  then obtain bs l where bl: "os_buffer s = bs @ [l]" by (metis rev_exhaust)
  have n: "8 * length bs + c = os_bitsSet s" using k(3) bl kc by simp
  have eq: "bits_of bs @ word_bits l = os_bits s @ replicate (8 - c) False"
    using k(2) bl kc by simp
  have len: "length (os_bits s) = 8 * length bs + c"
    using n [symmetric] bl kc(2) by (simp add: os_bits_def)
  have "take (length (bits_of bs) + c) (bits_of bs @ word_bits l) = os_bits s"
    using eq len by simp
  then have o: "os_bits s = bits_of bs @ take c (word_bits l)" by simp
  have "drop (length (bits_of bs) + c) (bits_of bs @ word_bits l) = replicate (8 - c) False"
    using eq len by simp
  then have "drop c (word_bits l) = replicate (8 - c) False" by simp
  then have "word_bits l = take c (word_bits l) @ replicate (8 - c) False"
    by (metis append_take_drop_id)
  with bl n o show "\<exists>bs l. os_buffer s = bs @ [l] \<and> 8 * length bs + c = os_bitsSet s
           \<and> word_bits l = take c (word_bits l) @ replicate (8 - c) False
           \<and> os_bits s = bits_of bs @ take c (word_bits l)" by blast
qed

lemma os_wfI:
  assumes "bits_of b = xs @ replicate k False" "length xs = n" "k < 8"
  shows "os_wf \<lparr>os_buffer = b, os_bitsSet = n\<rparr> \<and> os_bits \<lparr>os_buffer = b, os_bitsSet = n\<rparr> = xs"
proof -
  have "8 * length b = n + k" using arg_cong [OF assms(1), of length] assms(2) by simp
  with assms show ?thesis by (auto simp: os_wf_def os_bits_def intro!: exI [of _ k])
qed

lemma map2_or_False [simp]: "map2 (\<or>) xs (replicate (length xs) False) = xs"
  by (induction xs) simp_all

lemma map2_False_or [simp]: "map2 (\<or>) (replicate (length xs) False) xs = xs"
  by (induction xs) simp_all

lemma writeBits_spec:
  assumes "os_wf s" "n \<le> 8"
  shows "os_wf (writeBits b n s) \<and> os_bits (writeBits b n s) = os_bits s @ low_bits n b"
proof (cases "os_bitsSet s mod 8 = 0")
  case True
  have bo: "bits_of (os_buffer s) = os_bits s" by (rule os_wf_cases(1) [OF assms(1) True])
  then have len: "length (os_bits s) = os_bitsSet s"
    using assms(1) by (auto simp: os_wf_def os_bits_def)
  show ?thesis
  proof (cases "n = 0")
    case True
    then show ?thesis using assms(1) \<open>os_bitsSet s mod 8 = 0\<close>
      by (simp add: writeBits_def low_bits_def os_wf_def os_bits_def)
  next
    case False
    have "bits_of (os_buffer s @ [push_bit (8 - n) b]) = (os_bits s @ low_bits n b) @ replicate (8 - n) False"
      using assms(2) bo by (simp add: word_bits_byte_push)
    from os_wfI [OF this, of "os_bitsSet s + n"] show ?thesis
      using True False len assms(2) by (simp add: writeBits_def)
  qed
next
  case False
  define c where "c = os_bitsSet s mod 8"
  have c: "c \<noteq> 0" "c < 8" using False by (simp_all add: c_def)
  obtain bs l where bl: "os_buffer s = bs @ [l]" "8 * length bs + c = os_bitsSet s"
    "word_bits l = take c (word_bits l) @ replicate (8 - c) False"
    "os_bits s = bits_of bs @ take c (word_bits l)"
    using os_wf_cases(2) [OF assms(1) c_def [symmetric] c(1)] by blast
  define nb where "nb = push_bit (8 - n) b"
  have nbb: "word_bits nb = low_bits n b @ replicate (8 - n) False"
    unfolding nb_def using assms(2) by (rule word_bits_byte_push)
  have l': "word_bits (l OR drop_bit c nb) = take c (word_bits l) @ take (8 - c) (word_bits nb)"
  proof -
    have "word_bits (l OR drop_bit c nb) =
       map2 (\<or>) (take c (word_bits l) @ replicate (8 - c) False) (replicate c False @ take (8 - c) (word_bits nb))"
      using bl(3) c by (simp add: word_bits_or word_bits_drop_bit)
    moreover have "length (take c (word_bits l)) = c" "length (take (8 - c) (word_bits nb)) = 8 - c"
      using c by simp_all
    ultimately show ?thesis
      using map2_or_False [of "take c (word_bits l)"] map2_False_or [of "take (8 - c) (word_bits nb)"]
      by (simp del: map2_or_False map2_False_or)
  qed
  have w: "writeBits b n s =
      \<lparr>os_buffer = (if n > 8 - c then (bs @ [l OR drop_bit c nb]) @ [push_bit (8 - c) nb] else bs @ [l OR drop_bit c nb]),
       os_bitsSet = os_bitsSet s + n\<rparr>"
    using c(1) bl(1) by (simp add: writeBits_def Let_def c_def nb_def)
  show ?thesis
  proof (cases "n > 8 - c")
    case True
    have "word_bits (push_bit (8 - c) nb) = drop (8 - c) (word_bits nb) @ replicate (8 - c) False"
      by (rule word_bits_push_bit) simp
    then have "bits_of ((bs @ [l OR drop_bit c nb]) @ [push_bit (8 - c) nb])
        = os_bits s @ (take (8 - c) (word_bits nb) @ drop (8 - c) (word_bits nb)) @ replicate (8 - c) False"
      using l' bl(4) by (simp del: append_take_drop_id)
    then have "bits_of ((bs @ [l OR drop_bit c nb]) @ [push_bit (8 - c) nb])
        = (os_bits s @ low_bits n b) @ replicate (8 - n + (8 - c)) False"
      unfolding append_take_drop_id nbb by (simp add: replicate_add)
    from os_wfI [OF this, of "os_bitsSet s + n"] show ?thesis
      using w True bl(2,4) c assms(2) by simp
  next
    case F: False
    then have "take (8 - c) (word_bits nb) = low_bits n b @ replicate (8 - c - n) False"
      using nbb assms(2) c by (simp add: min_def)
    then have "bits_of (bs @ [l OR drop_bit c nb]) = (os_bits s @ low_bits n b) @ replicate (8 - c - n) False"
      using l' bl(4) by simp
    from os_wfI [OF this, of "os_bitsSet s + n"] show ?thesis
      using w F bl(2,4) c by simp
  qed
qed

lemma length_os_bits: "os_wf s \<Longrightarrow> length (os_bits s) = os_bitsSet s"
  by (auto simp: os_wf_def os_bits_def)

lemma push_octet:
  assumes "os_wf s" "os_bitsSet s mod 8 = 0"
  shows "os_wf \<lparr>os_buffer = os_buffer s @ [b], os_bitsSet = os_bitsSet s + 8\<rparr>
    \<and> os_bits \<lparr>os_buffer = os_buffer s @ [b], os_bitsSet = os_bitsSet s + 8\<rparr> = os_bits s @ word_bits b"
proof -
  have "bits_of (os_buffer s @ [b]) = (os_bits s @ word_bits b) @ replicate 0 False"
    using os_wf_cases(1) [OF assms] by simp
  from os_wfI [OF this, of "os_bitsSet s + 8"] show ?thesis
    using length_os_bits [OF assms(1)] by simp
qed

text \<open>The bits of the continuation octets, and of a whole integer with a \<open>p\<close>-bit prefix.\<close>

fun octets_bits :: "nat \<Rightarrow> bool list" where
  "octets_bits src =
     (if 128 \<le> src then word_bits (of_nat (src mod 128 + 128) :: byte) @ octets_bits (src div 128)
      else word_bits (of_nat src :: byte))"

declare octets_bits.simps [simp del]

definition int_bits :: "nat \<Rightarrow> nat \<Rightarrow> bool list" where
  "int_bits p src =
     (if src < 2 ^ p - 1 then low_bits p (of_nat src :: byte)
      else low_bits p (of_nat (2 ^ p - 1) :: byte) @ octets_bits (src - (2 ^ p - 1)))"

lemma write_octets_spec:
  "os_wf s \<Longrightarrow> os_bitsSet s mod 8 = 0 \<Longrightarrow>
   os_wf (write_octets src s) \<and> os_bitsSet (write_octets src s) mod 8 = 0
     \<and> os_bits (write_octets src s) = os_bits s @ octets_bits src"
proof (induction src s rule: write_octets.induct)
  case (1 src s)
  show ?case
  proof (cases "128 \<le> src")
    case True
    let ?t = "\<lparr>os_buffer = os_buffer s @ [of_nat (src mod 128 + 128)], os_bitsSet = os_bitsSet s + 8\<rparr>"
    have t: "os_wf ?t" "os_bits ?t = os_bits s @ word_bits (of_nat (src mod 128 + 128) :: byte)"
      using push_octet [OF "1.prems"] by auto
    with 1 True show ?thesis
      by (simp add: write_octets.simps [of src s] octets_bits.simps [of src])
  next
    case False
    with push_octet [OF "1.prems", of "of_nat src"] "1.prems" show ?thesis
      by (simp add: write_octets.simps [of src s] octets_bits.simps [of src])
  qed
qed

lemma write_u32_spec:
  assumes "os_wf s"
  shows "os_wf (write_u32 src s) \<and> os_bitsSet (write_u32 src s) mod 8 = 0
    \<and> os_bits (write_u32 src s) = os_bits s @ int_bits (8 - os_bitsSet s mod 8) src"
proof -
  define p where "p = 8 - os_bitsSet s mod 8"
  have p: "p \<le> 8" "(os_bitsSet s + p) mod 8 = 0"
    by (simp_all add: p_def) presburger
  have al: "os_bitsSet (writeBits b p s) mod 8 = 0" for b
    using p(2) by (simp add: writeBits_def Let_def)
  show ?thesis
    using writeBits_spec [OF assms p(1)] al write_octets_spec
    by (simp add: write_u32_def Let_def int_bits_def p_def [symmetric])
qed

lemma os_wf_BitOStream [simp]: "os_wf (BitOStream b)" "os_bits (BitOStream b) = bits_of b"
  by (auto simp: BitOStream_def os_wf_def os_bits_def intro!: exI [of _ 0])

subsection \<open>BitIStream\<close>

datatype stream_error = NoError | NotEnoughData | CompressionError | InvalidInteger

record bit_istream =
  is_data :: bytes
  is_offset :: nat
  is_error :: stream_error

definition BitIStream :: "bytes \<Rightarrow> bit_istream" where
  "BitIStream d = \<lparr>is_data = d, is_offset = 0, is_error = NoError\<rparr>"

definition bitLength :: "bit_istream \<Rightarrow> nat" where
  "bitLength s = length (is_data s) * 8"

definition hasMoreBits :: "bit_istream \<Rightarrow> bool" where
  "hasMoreBits s \<longleftrightarrow> is_offset s < bitLength s"

definition skipBits :: "nat \<Rightarrow> bit_istream \<Rightarrow> bool \<times> bit_istream" where
  "skipBits nBits s =
     (if nBits > bitLength s \<or> bitLength s - nBits < is_offset s then (False, s)
      else (True, s\<lparr>is_offset := is_offset s + nBits\<rparr>))"

definition rewindOffset :: "nat \<Rightarrow> bit_istream \<Rightarrow> bool \<times> bit_istream" where
  "rewindOffset nBits s =
     (if nBits > is_offset s then (False, s) else (True, s\<lparr>is_offset := is_offset s - nBits\<rparr>))"

fun peek_loop :: "nat \<Rightarrow> bytes \<Rightarrow> 'a::len word \<Rightarrow> nat \<times> bytes \<times> 'a word" where
  "peek_loop bitsToRead [] dst = (bitsToRead, [], dst)"
| "peek_loop bitsToRead (b # src) dst =
     (if bitsToRead > 8 then peek_loop (bitsToRead - 8) src (push_bit 8 dst OR ucast b)
      else (bitsToRead, b # src, dst))"

definition peekBits :: "nat \<Rightarrow> nat \<Rightarrow> 'a::len word \<Rightarrow> bit_istream \<Rightarrow> nat \<times> 'a word" where
  "peekBits from len dst s =
     (if from \<ge> bitLength s \<or> len = 0 then (0, dst)
      else let len' = min len (bitLength s - from);
               (bitsToRead, src, dst1) = peek_loop (len' + from mod 8) (drop (from div 8) (is_data s)) 0;
               dst2 = push_bit bitsToRead dst1 OR ucast (drop_bit (8 - bitsToRead) (hd src))
           in (len', push_bit (LENGTH('a) - len') dst2))"

fun read_octets :: "nat \<Rightarrow> bytes \<Rightarrow> nat \<Rightarrow> nat \<Rightarrow> nat \<Rightarrow> (stream_error + nat \<times> nat) option" where
  "read_octets 0 data newOffset val octetPower = None"
| "read_octets (Suc fuel) data newOffset val octetPower =
     (if newOffset \<ge> 8 * length data then Some (Inl NotEnoughData)
      else let octet = data ! (newOffset div 8)
           in if octetPower = 28 \<and> octet > 15 then Some (Inl InvalidInteger)
              else let val' = val + (unat (octet AND 0x7f) * 2 ^ octetPower) mod 2 ^ 32;
                       newOffset' = add32 newOffset 8
                   in if octet AND 0x80 = 0 then Some (Inr (val', newOffset'))
                      else read_octets fuel data newOffset' val' (octetPower + 7))"

definition read_u32 :: "bit_istream \<Rightarrow> nat option \<times> bit_istream" where
  "read_u32 s =
     (if is_offset s \<ge> bitLength s then (None, s\<lparr>is_error := NotEnoughData\<rparr>)
      else let s' = s\<lparr>is_error := NoError\<rparr>;
               prefixLen = 8 - is_offset s mod 8;
               fullPrefix = 2 ^ prefixLen - 1;
               prefix = unat (is_data s ! (is_offset s div 8) AND of_nat fullPrefix)
           in if prefix < fullPrefix
              then (Some prefix, s'\<lparr>is_offset := is_offset s + prefixLen\<rparr>)
              else case read_octets 5 (is_data s) ((is_offset s + prefixLen) mod 2 ^ 32) prefix 0 of
                     Some (Inr (val, newOffset)) \<Rightarrow> (Some (val mod 2 ^ 32), s'\<lparr>is_offset := newOffset\<rparr>)
                   | Some (Inl e) \<Rightarrow> (None, s'\<lparr>is_error := e\<rparr>)
                   | None \<Rightarrow> (None, s'))"

lemma octet_low: "unat (b AND 0x7f :: byte) = unat b mod 128"
proof -
  have "b AND 0x7f = take_bit 7 b" by (simp add: take_bit_eq_mask mask_eq_exp_minus_1)
  then have "unat (b AND 0x7f) = take_bit 7 (unat b)" by (metis unsigned_take_bit_eq)
  then show ?thesis by (simp add: take_bit_eq_mod)
qed

lemma octet_high: "(b :: byte) AND 0x80 = 0 \<longleftrightarrow> unat b < 128"
proof -
  have "b AND 2 ^ 7 = 0 \<longleftrightarrow> \<not> bit b 7" by (rule and_exp_eq_0_iff_not_bit)
  moreover have "bit (unat b) 7 = bit b 7" by (simp add: bit_unsigned_iff)
  moreover have "bit (unat b) 7 \<longleftrightarrow> 128 \<le> unat b"
  proof -
    have "unat b < 256" using unsigned_less [of b] by simp
    then have "unat b div 128 < 2" by (simp add: div_less_iff_less_mult)
    moreover have "unat b div 128 = 0 \<longleftrightarrow> unat b < 128" by (simp add: div_eq_0_iff)
    ultimately have "odd (unat b div 128) \<longleftrightarrow> 128 \<le> unat b"
      by (cases "unat b div 128 = 0") (auto simp: less_2_cases_iff)
    then show ?thesis by (simp add: bit_iff_odd)
  qed
  ultimately show ?thesis by auto
qed

lemma octet_split: "128 \<le> src \<Longrightarrow> unat (of_nat (src mod 128 + 128) :: byte) = src mod 128 + 128"
proof -
  have "src mod 128 < 128" by simp
  then have "src mod 128 + 128 < 256" by linarith
  then show ?thesis by (simp only: unat_of_nat_byte mod_less)
qed

lemma nth_of_bits:
  assumes "drop n (bits_of data) = word_bits (b :: byte) @ rest" "n mod 8 = 0"
  shows "n < 8 * length data" "data ! (n div 8) = b" "drop (n + 8) (bits_of data) = rest"
proof -
  have n: "n = 8 * (n div 8)" using assms(2) by presburger
  have "length (drop n (bits_of data)) = 8 + length rest" using assms(1) by simp
  then show l: "n < 8 * length data" by simp
  define k where "k = n div 8"
  have k: "n = 8 * k" "k < length data" using n l k_def by simp_all
  have "drop n (bits_of data) = bits_of (drop k data)" using k(1) drop_bits_of by simp
  moreover have "drop k data = data ! k # drop (Suc k) data" using k(2) by (simp add: Cons_nth_drop_Suc)
  ultimately have eq: "word_bits (data ! k) @ bits_of (drop (Suc k) data) = word_bits b @ rest"
    using assms(1) by simp
  then have "word_bits (data ! k) = word_bits b" by simp
  then show "data ! (n div 8) = b" by (simp add: word_bits_inject k_def)
  have "drop 8 (drop n (bits_of data)) = rest" using assms(1) by simp
  then show "drop (n + 8) (bits_of data) = rest" by (simp add: add.commute)
qed

lemma read_octets_spec:
  assumes "fuel \<le> 5" "0 < fuel" "octetPower = 7 * (5 - fuel)"
    and "m * 2 ^ octetPower < 2 ^ 32"
    and "drop n (bits_of data) = octets_bits m @ rest" "n mod 8 = 0" "8 * length data < 2 ^ 32"
  shows "read_octets fuel data n val octetPower =
    Some (Inr (val + m * 2 ^ octetPower, n + length (octets_bits m)))"
  using assms
proof (induction fuel arbitrary: m n val octetPower)
  case 0 then show ?case by simp
next
  case (Suc fuel)
  show ?case
  proof (cases "128 \<le> m")
    case False
    then have ob: "octets_bits m = word_bits (of_nat m :: byte)"
      by (simp add: octets_bits.simps [of m])
    note r = nth_of_bits [OF Suc.prems(5) [unfolded ob] Suc.prems(6)]
    have m: "unat (of_nat m :: byte) = m" using False by (simp add: unat_of_nat_byte)
    have "octetPower = 28 \<Longrightarrow> m < 16" using Suc.prems(4) by simp
    then have nb: "\<not> (octetPower = 28 \<and> (of_nat m :: byte) > 15)"
      using m by (auto simp: word_less_nat_alt)
    have "n + 8 \<le> 8 * length data" using r(1) Suc.prems(6) by presburger
    then have "add32 n 8 = n + 8" using Suc.prems(7) by (simp add: u32_simps)
    then show ?thesis
      using r(1,2) nb m False Suc.prems(4) ob by (simp add: octet_low octet_high Let_def)
  next
    case True
    let ?o = "of_nat (m mod 128 + 128) :: byte"
    have ob: "octets_bits m = word_bits ?o @ octets_bits (m div 128)"
      using True by (simp add: octets_bits.simps [of m])
    note r = nth_of_bits [OF Suc.prems(5) [unfolded ob append_assoc] Suc.prems(6)]
    have o: "unat ?o = m mod 128 + 128" using True by (rule octet_split)
    have mm: "m = 128 * (m div 128) + m mod 128" by simp
    have "128 * 2 ^ octetPower \<le> m * 2 ^ octetPower" using True by simp
    with Suc.prems(4) have lt: "128 * 2 ^ octetPower < (2 :: nat) ^ 32" by linarith
    have f1: "octetPower \<noteq> 28"
    proof
      assume "octetPower = 28"
      with lt show False by simp
    qed
    have f: "octetPower \<noteq> 28" "0 < fuel"
      using f1 Suc.prems(3) by (cases fuel; simp)+
    have le: "(m mod 128) * 2 ^ octetPower < 2 ^ 32"
      using Suc.prems(4) by (meson mod_less_eq_dividend mult_le_mono1 le_less_trans)
    have p7: "2 ^ (octetPower + 7) = 128 * (2 ^ octetPower :: nat)" by (simp add: power_add)
    have nx: "(m div 128) * 2 ^ (octetPower + 7) < 2 ^ 32"
    proof -
      have "(m div 128) * 2 ^ (octetPower + 7) = 128 * (m div 128) * 2 ^ octetPower"
        unfolding p7 by simp
      also have "\<dots> \<le> m * 2 ^ octetPower" by (intro mult_le_mono1) simp
      finally show ?thesis using Suc.prems(4) by (rule le_less_trans)
    qed
    have "n + 8 \<le> 8 * length data" using r(1) Suc.prems(6) by presburger
    then have ad: "add32 n 8 = n + 8" using Suc.prems(7) by (simp add: u32_simps)
    have "(n + 8) mod 8 = 0" using Suc.prems(6) by presburger
    moreover have "octetPower + 7 = 7 * (5 - fuel)" "fuel \<le> 5" using Suc.prems(1,3) by linarith+
    ultimately have IH: "read_octets fuel data (n + 8) (val + (m mod 128) * 2 ^ octetPower) (octetPower + 7)
       = Some (Inr (val + (m mod 128) * 2 ^ octetPower + (m div 128) * 2 ^ (octetPower + 7),
                 n + 8 + length (octets_bits (m div 128))))"
      using f(2) nx r(3) Suc.prems(7) by (intro Suc.IH)
    have "(m mod 128) * 2 ^ octetPower + (m div 128) * 2 ^ (octetPower + 7) = m * 2 ^ octetPower"
      unfolding p7 using mm by (metis add.commute distrib_right mult.assoc mult.commute)
    then show ?thesis
      using r(1,2) f ad IH o ob le by (simp add: octet_low octet_high add.assoc Let_def del: of_nat_add)
  qed
qed


lemma prefix_of_bits:
  assumes "drop n (bits_of data) = xs @ rest" "length xs = p" "p = 8 - n mod 8"
  shows "n < 8 * length data" "unat (data ! (n div 8) AND of_nat (2 ^ p - 1)) = bits_val xs"
    "drop (n + p) (bits_of data) = rest" "(n + p) mod 8 = 0"
proof -
  define k where "k = n div 8"
  define c where "c = n mod 8"
  have n: "n = 8 * k + c" "c < 8" "p = 8 - c" using assms(3) by (simp_all add: k_def c_def)
  have "length (drop n (bits_of data)) = p + length rest" using assms(1,2) by simp
  moreover have "0 < p" using n by simp
  ultimately show l: "n < 8 * length data" by simp
  then have k: "k < length data" using n(1) by simp
  have "drop n (bits_of data) = drop c (drop (8 * k) (bits_of data))" using n(1) by (simp add: add.commute)
  also have "\<dots> = drop c (bits_of (drop k data))" by (simp add: drop_bits_of)
  also have "drop k data = data ! k # drop (Suc k) data" using k by (simp add: Cons_nth_drop_Suc)
  finally have "xs @ rest = drop c (word_bits (data ! k)) @ bits_of (drop (Suc k) data)"
    using assms(1) n(2) by simp
  moreover have "length (drop c (word_bits (data ! k))) = length xs" using n assms(2) by simp
  ultimately have xs: "xs = drop c (word_bits (data ! k))" by (metis append_eq_append_conv)
  have "drop c (word_bits (data ! k)) = low_bits p (data ! k)"
    using drop_word_bits [of p "data ! k"] n by simp
  then have "bits_val xs = unat (take_bit p (data ! k))" using xs by (simp add: bits_val_low_bits)
  moreover have "data ! k AND of_nat (2 ^ p - 1) = take_bit p (data ! k)"
    by (simp add: take_bit_eq_mask mask_eq_exp_minus_1)
  ultimately show "unat (data ! (n div 8) AND of_nat (2 ^ p - 1)) = bits_val xs" by (simp add: k_def)
  have "drop p (drop n (bits_of data)) = rest" using assms(1,2) by simp
  then show "drop (n + p) (bits_of data) = rest" by (simp add: add.commute)
  show "(n + p) mod 8 = 0" using n by simp
qed

lemma bits_val_low_of_nat: "p \<le> 8 \<Longrightarrow> m < 2 ^ p \<Longrightarrow> bits_val (low_bits p (of_nat m :: byte)) = m"
proof -
  assume p: "p \<le> 8" and m: "m < 2 ^ p"
  have "(2 :: nat) ^ p \<le> 2 ^ 8" using p by (intro power_increasing) simp_all
  then have "m < 256" using m by simp
  then have "unat (of_nat m :: byte) = m" by (simp add: unat_of_nat_byte)
  moreover have "bits_val (low_bits p (of_nat m :: byte)) = take_bit p (unat (of_nat m :: byte))"
    by (simp only: bits_val_low_bits unsigned_take_bit_eq)
  ultimately show ?thesis using m by (simp add: take_bit_eq_mod)
qed

text \<open>Reading back an integer from any bit position; beyond 32 bits the value wraps around.\<close>

lemma read_u32_wrap:
  assumes "drop (is_offset s) (bits_of (is_data s)) = int_bits p src @ rest"
    and "p = 8 - is_offset s mod 8" "src < 2 ^ 32 + (2 ^ p - 1)" "8 * length (is_data s) < 2 ^ 32"
  shows "read_u32 s = (Some (src mod 2 ^ 32), s\<lparr>is_error := NoError, is_offset := is_offset s + length (int_bits p src)\<rparr>)"
proof -
  have p: "0 < p" "p \<le> 8" using assms(2) by simp_all
  show ?thesis
  proof (cases "src < 2 ^ p - 1")
    case True
    then have ib: "int_bits p src = low_bits p (of_nat src :: byte)" by (simp add: int_bits_def)
    note r = prefix_of_bits [OF assms(1) [unfolded ib] _ assms(2), simplified]
    have "bits_val (low_bits p (of_nat src :: byte)) = src"
      using True p(2) by (intro bits_val_low_of_nat) simp_all
    moreover have "src mod 2 ^ 32 = src"
      using True power_increasing [of p 8 "2 :: nat"] p(2) by simp
    ultimately show ?thesis using r(1,2) True
      by (simp add: read_u32_def bitLength_def Let_def ib assms(2) [symmetric])
  next
    case False
    let ?f = "2 ^ p - 1 :: nat"
    have ib: "int_bits p src = low_bits p (of_nat ?f :: byte) @ octets_bits (src - ?f)"
      using False by (simp add: int_bits_def)
    note r = prefix_of_bits [OF assms(1) [unfolded ib append_assoc] length_low_bits assms(2)]
    have f: "bits_val (low_bits p (of_nat ?f :: byte)) = ?f"
      using p(2) by (intro bits_val_low_of_nat) simp_all
    have le: "is_offset s + p \<le> 8 * length (is_data s)"
      using r(1) r(4) assms(2) by presburger
    have d: "(src - ?f) * 2 ^ 0 < 2 ^ 32"
      using assms(3) False by simp
    have o: "read_octets 5 (is_data s) (is_offset s + p) ?f 0 =
        Some (Inr (?f + (src - ?f) * 2 ^ 0, is_offset s + p + length (octets_bits (src - ?f))))"
      by (rule read_octets_spec [OF _ _ _ d r(3)]) (use assms(4) r(4) in simp_all)
    have "(is_offset s + p) mod 2 ^ 32 = is_offset s + p" using le assms(4) by simp
    with o r(1,2) f False assms(3) show ?thesis
      by (simp add: read_u32_def bitLength_def Let_def ib add.assoc assms(2) [symmetric])
  qed
qed

lemma read_u32_spec:
  assumes "drop (is_offset s) (bits_of (is_data s)) = int_bits p src @ rest"
    and "p = 8 - is_offset s mod 8" "src < 2 ^ 32" "8 * length (is_data s) < 2 ^ 32"
  shows "read_u32 s = (Some src, s\<lparr>is_error := NoError, is_offset := is_offset s + length (int_bits p src)\<rparr>)"
  using read_u32_wrap [OF assms(1,2) trans_less_add1 [OF assms(3)] assms(4)] assms(3) by simp

lemma read_octets_fuel:
  "octetPower = 7 * (5 - fuel) \<Longrightarrow> 0 < fuel \<Longrightarrow> fuel \<le> 5 \<Longrightarrow> read_octets fuel data n val octetPower \<noteq> None"
proof (induction fuel arbitrary: n val octetPower)
  case 0 then show ?case by simp
next
  case (Suc fuel)
  show ?case
  proof (cases fuel)
    case 0
    then have "octetPower = 28" using Suc.prems by simp
    moreover have "b AND 0x80 = 0" if "\<not> b > 15" for b :: byte
      using that by (simp add: octet_high word_less_nat_alt)
    ultimately show ?thesis using 0 by (simp add: Let_def)
  next
    case (Suc f)
    have "octetPower + 7 = 7 * (5 - fuel)" "fuel \<le> 5" using Suc.prems by linarith+
    then have "read_octets fuel data n' val' (octetPower + 7) \<noteq> None" for n' val'
      using Suc by (intro Suc.IH) simp_all
    then show ?thesis by (simp only: read_octets.simps Let_def) auto
  qed
qed


subsection \<open>peekBits as a window on the bit list\<close>

lemma word_bits_ucast_byte:
  "8 \<le> LENGTH('a) \<Longrightarrow> word_bits (ucast (b :: byte) :: 'a::len word) = replicate (LENGTH('a) - 8) False @ word_bits b"
  by (rule nth_equalityI) (auto simp: nth_append nth_word_bits bit_simps dest!: bit_imp_le_length)

lemma word_bits_shift_in:
  assumes "8 \<le> LENGTH('a)" "n \<le> 8"
  shows "word_bits (push_bit n w OR ucast (drop_bit (8 - n) b :: byte) :: 'a::len word)
    = drop n (word_bits w) @ take n (word_bits b)"
proof -
  have "word_bits (drop_bit (8 - n) b) = replicate (8 - n) False @ take n (word_bits b)"
    using assms(2) by (simp add: word_bits_drop_bit)
  then have u: "word_bits (ucast (drop_bit (8 - n) b) :: 'a word)
      = replicate (LENGTH('a) - n) False @ take n (word_bits b)"
    using assms by (simp add: word_bits_ucast_byte replicate_add [symmetric] flip: append_assoc)
  have p: "word_bits (push_bit n w) = drop n (word_bits w) @ replicate n False"
    using assms by (intro word_bits_push_bit) simp
  have "length (drop n (word_bits w)) = LENGTH('a) - n" "length (take n (word_bits b)) = n"
    using assms by simp_all
  then show ?thesis
    using map2_or_False [of "drop n (word_bits w)"] map2_False_or [of "take n (word_bits b)"]
    by (simp add: word_bits_or u p del: map2_or_False map2_False_or)
qed

lemma drop_append_le: "n \<le> length xs \<Longrightarrow> drop n (xs @ ys) = drop n xs @ ys"
  by simp

lemma word_bits_0: "word_bits (0 :: 'a::len word) = replicate LENGTH('a) False"
  by (rule nth_equalityI) (simp_all add: nth_word_bits)

lemma peek_loop_spec:
  assumes "8 \<le> LENGTH('a)" "0 < n" "n \<le> 8 * length src"
    and "word_bits dst = drop (length c) (replicate LENGTH('a) False @ c)"
  shows "\<exists>n' src' dst' c'. peek_loop n src (dst :: 'a::len word) = (n', src', dst')
    \<and> 0 < n' \<and> n' \<le> 8 \<and> src' \<noteq> [] \<and> word_bits dst' = drop (length (c @ c')) (replicate LENGTH('a) False @ c @ c')
    \<and> take n (bits_of src) = c' @ take n' (bits_of src') \<and> length c' + n' = n"
  using assms(2-4)
proof (induction n src dst arbitrary: c rule: peek_loop.induct)
  case (1 n dst) then show ?case by simp
next
  case (2 n b src dst)
  show ?case
  proof (cases "n > 8")
    case False
    with 2 show ?thesis by (auto intro!: exI [of _ "[]"])
  next
    case True
    let ?d = "push_bit 8 dst OR ucast b"
    have lc: "length (c @ word_bits b) = length c + 8" by simp
    have "word_bits ?d = drop 8 (word_bits dst) @ word_bits b"
      using word_bits_shift_in [OF assms(1), of 8 dst b] by simp
    also have "\<dots> = drop (length (c @ word_bits b)) (replicate LENGTH('a) False @ c @ word_bits b)"
      using drop_append_le [of "length c + 8" "replicate LENGTH('a) False @ c" "word_bits b"]
        "2.prems"(3) assms(1) unfolding lc by (simp add: add.commute del: drop_append)
    finally have "word_bits ?d = drop (length (c @ word_bits b)) (replicate LENGTH('a) False @ c @ word_bits b)" .
    from "2.IH" [OF True _ _ this] True "2.prems"(2)
    obtain n' src' dst' c' where r: "peek_loop (n - 8) src ?d = (n', src', dst')"
      "0 < n'" "n' \<le> 8" "src' \<noteq> []"
      "word_bits dst' = drop (length ((c @ word_bits b) @ c')) (replicate LENGTH('a) False @ (c @ word_bits b) @ c')"
      "take (n - 8) (bits_of src) = c' @ take n' (bits_of src')" "length c' + n' = n - 8"
      by fastforce
    then have "take n (bits_of (b # src)) = (word_bits b @ c') @ take n' (bits_of src')"
      "length (word_bits b @ c') + n' = n" using True by simp_all
    moreover have "word_bits dst' = drop (length (c @ word_bits b @ c')) (replicate LENGTH('a) False @ c @ word_bits b @ c')"
      using r(5) by simp
    moreover have "peek_loop n (b # src) dst = (n', src', dst')" using r(1) True by simp
    ultimately show ?thesis using r(2-4) by blast
  qed
qed

lemma peekBits_spec:
  assumes "8 \<le> LENGTH('a)" "len \<le> LENGTH('a)" "0 < len" "from < bitLength s"
  shows "\<exists>w. peekBits from len (dst :: 'a::len word) s = (min len (bitLength s - from), w)
    \<and> word_bits w = take len (drop from (bits_of (is_data s))) @ replicate (LENGTH('a) - (bitLength s - from)) False
        @ replicate (min LENGTH('a) (bitLength s - from) - len) False"
proof -
  define l where "l = min len (bitLength s - from)"
  define k where "k = from div 8"
  define o' where "o' = from mod 8"
  have f: "from = 8 * k + o'" "o' < 8" by (simp_all add: k_def o'_def)
  define src where "src = drop k (is_data s)"
  have l: "0 < l" "l \<le> len" "l \<le> LENGTH('a)" using assms by (auto simp: l_def)
  have bl: "bitLength s = 8 * length (is_data s)" by (simp add: bitLength_def)
  have n: "0 < l + o'" "l + o' \<le> 8 * length src"
    using assms(4) f l by (auto simp: src_def bl l_def)
  obtain n' src' dst' c' where r: "peek_loop (l + o') src (0 :: 'a word) = (n', src', dst')"
      "0 < n'" "n' \<le> 8" "src' \<noteq> []"
      "word_bits dst' = drop (length c') (replicate LENGTH('a) False @ c')"
      "take (l + o') (bits_of src) = c' @ take n' (bits_of src')" "length c' + n' = l + o'"
    using peek_loop_spec [OF assms(1) n, of 0 "[]"] unfolding word_bits_0 by auto
  obtain b bs where b: "src' = b # bs" using r(4) by (cases src') auto
  define w2 where "w2 = push_bit n' dst' OR ucast (drop_bit (8 - n') (hd src'))"
  have t: "take n' (bits_of src') = take n' (word_bits b)" using b r(3) by simp
  have lt: "length (take n' (word_bits b)) = n'" using r(3) by simp
  have "word_bits w2 = drop n' (word_bits dst') @ take n' (word_bits b)"
    unfolding w2_def b list.sel by (rule word_bits_shift_in [OF assms(1) r(3)])
  also have "\<dots> = drop (length c' + n') (replicate LENGTH('a) False @ (c' @ take n' (word_bits b)))"
    using drop_append_le [of "length c' + n'" "replicate LENGTH('a) False @ c'" "take n' (word_bits b)"]
      r(3,5) assms(1) by (simp add: add.commute del: drop_append)
  also have "\<dots> = drop (l + o') (replicate LENGTH('a) False @ take (l + o') (bits_of src))"
    using r(6,7) t by simp
  finally have w2: "word_bits w2 = drop (l + o') (replicate LENGTH('a) False @ take (l + o') (bits_of src))" .
  define w where "w = push_bit (LENGTH('a) - l) w2"
  have "word_bits w = drop (LENGTH('a) - l) (word_bits w2) @ replicate (LENGTH('a) - l) False"
    unfolding w_def by (rule word_bits_push_bit) simp
  also have "drop (LENGTH('a) - l) (word_bits w2) = take l (drop o' (bits_of src))"
  proof -
    have "drop (LENGTH('a) - l) (word_bits w2)
        = drop (LENGTH('a) + o') (replicate LENGTH('a) False @ take (l + o') (bits_of src))"
      using l(3) unfolding w2 drop_drop by simp
    also have "\<dots> = drop o' (take (l + o') (bits_of src))" by simp
    finally show ?thesis by (simp add: drop_take)
  qed
  also have "drop o' (bits_of src) = drop from (bits_of (is_data s))"
    using f(1) drop_bits_of [of k "is_data s"] by (simp add: src_def add.commute flip: drop_drop)
  finally have ww: "word_bits w = take l (drop from (bits_of (is_data s))) @ replicate (LENGTH('a) - l) False" .
  have "take l (drop from (bits_of (is_data s))) = take len (drop from (bits_of (is_data s)))"
    by (simp add: l_def bl min_def)
  moreover have "replicate (LENGTH('a) - l) False = replicate (LENGTH('a) - (bitLength s - from)) False
        @ replicate (min LENGTH('a) (bitLength s - from) - len) False"
    using l assms(2) unfolding replicate_add [symmetric] by (auto simp: l_def min_def)
  moreover have "peekBits from len dst s = (l, w)"
    using assms(3,4) r(1) by (simp add: peekBits_def Let_def l_def [symmetric] o'_def [symmetric]
      k_def [symmetric] src_def [symmetric] w2_def w_def)
  ultimately show ?thesis using ww by (auto simp: l_def)
qed

lemma octets_bits_length: "n < 128 ^ Suc k \<Longrightarrow> length (octets_bits n) \<le> 8 * Suc k"
proof (induction k arbitrary: n)
  case 0 then show ?case by (subst octets_bits.simps) simp
next
  case (Suc k)
  show ?case
  proof (cases "128 \<le> n")
    case True
    have "n div 128 < 128 ^ Suc k" using Suc.prems by (simp add: less_mult_imp_div_less mult.commute)
    from Suc.IH [OF this] True show ?thesis by (subst octets_bits.simps) simp
  qed (subst octets_bits.simps, simp)
qed

lemma int_bits_length: "n < 2 ^ 32 + (2 ^ p - 1) \<Longrightarrow> length (int_bits p n) \<le> p + 40"
proof (cases "n < 2 ^ p - 1")
  case False
  assume "n < 2 ^ 32 + (2 ^ p - 1)"
  with False have "n - (2 ^ p - 1) < 128 ^ Suc 4" by simp
  from octets_bits_length [OF this] False show ?thesis by (simp add: int_bits_def)
qed (simp add: int_bits_def)

subsection \<open>Properties of the bit streams\<close>

text \<open>Writing the low bits of an octet appends exactly these bits, whatever has been written before.\<close>

theorem writeBits_appends:
  assumes "os_wf s" "n \<le> 8"
  shows "os_wf (writeBits b n s) \<and> os_bits (writeBits b n s) = os_bits s @ low_bits n b"
  using writeBits_spec [OF assms(1), of n b] assms by simp

theorem writeBits_appends_witness:
  "os_bits (writeBits 1 2 (writeBits 5 3 (BitOStream []))) = [True, False, True, False, True]"
  using writeBits_appends [of "BitOStream []" 3 5] writeBits_appends [of "writeBits 5 3 (BitOStream [])" 2 1]
  by (simp add: low_bits_def upt_conv_Cons)

text \<open>C33. An integer written at any bit position is read back there, and exactly its bits are consumed.\<close>

theorem integer_roundtrip:
  assumes "os_wf s" "n < 2 ^ 32" "8 * length (os_buffer (write_u32 n s)) < 2 ^ 32"
  shows "read_u32 ((BitIStream (os_buffer (write_u32 n s)))\<lparr>is_offset := os_bitsSet s\<rparr>)
    = (Some n, (BitIStream (os_buffer (write_u32 n s)))\<lparr>is_offset := os_bitsSet (write_u32 n s)\<rparr>)"
proof -
  let ?u = "write_u32 n s" and ?p = "8 - os_bitsSet s mod 8"
  have u: "os_wf ?u" "os_bits ?u = os_bits s @ int_bits ?p n" "os_bitsSet ?u mod 8 = 0"
    using write_u32_spec [OF assms(1), of n] by simp_all
  then have b: "bits_of (os_buffer ?u) = os_bits s @ int_bits ?p n" using os_wf_cases(1) [of ?u] by simp
  have l: "length (os_bits s) = os_bitsSet s" "os_bitsSet ?u = os_bitsSet s + length (int_bits ?p n)"
    using length_os_bits [OF assms(1)] length_os_bits [OF u(1)] u(2) by simp_all
  show ?thesis
  proof -
    let ?i = "(BitIStream (os_buffer ?u))\<lparr>is_offset := os_bitsSet s\<rparr>"
    have d: "drop (is_offset ?i) (bits_of (is_data ?i)) = int_bits ?p n @ []" using b l(1) by (simp add: BitIStream_def)
    have e: "?p = 8 - is_offset ?i mod 8" "8 * length (is_data ?i) < 2 ^ 32" using assms(3) by (simp_all add: BitIStream_def)
    have f: "?i\<lparr>is_error := NoError, is_offset := is_offset ?i + k\<rparr> = (BitIStream (os_buffer ?u))\<lparr>is_offset := os_bitsSet s + k\<rparr>" for k
      by (simp add: BitIStream_def)
    show ?thesis unfolding l(2) f [symmetric] by (rule read_u32_spec [OF d e(1) assms(2) e(2)])
  qed
qed

theorem integer_roundtrip_witness:
  "read_u32 ((BitIStream (os_buffer (write_u32 1337 (writeBits 1 3 (BitOStream [])))))\<lparr>is_offset := 3\<rparr>)
    = (Some 1337, (BitIStream (os_buffer (write_u32 1337 (writeBits 1 3 (BitOStream [])))))\<lparr>is_offset := 24\<rparr>)"
proof -
  let ?s = "writeBits 1 3 (BitOStream [])"
  have "os_wf ?s" using writeBits_spec [of "BitOStream []" 3 1] by simp
  moreover have "os_bitsSet ?s = 3" "os_bitsSet (write_u32 1337 ?s) = 24" "length (os_buffer (write_u32 1337 ?s)) = 3"
    by (simp_all add: writeBits_def write_u32_def BitOStream_def Let_def write_octets.simps)
  ultimately show ?thesis using integer_roundtrip [of ?s 1337] by simp
qed

text \<open>An integer beyond 32 bits is not refused when its excess over the prefix fits: the value
  returned has wrapped around.\<close>

theorem integer_overflow_wraps:
  assumes "bits_of data = int_bits 8 n" "n < 2 ^ 32 + 255"
  shows "fst (read_u32 (BitIStream data)) = Some (n mod 2 ^ 32)"
proof -
  have "length (int_bits 8 n) \<le> 8 + 40" using assms(2) by (intro int_bits_length) simp
  then have "8 * length data < 2 ^ 32" using arg_cong [OF assms(1), of length] by simp
  with read_u32_wrap [of "BitIStream data" 8 n "[]"] assms show ?thesis by (simp add: BitIStream_def)
qed

theorem integer_overflow_wraps_witness:
  "fst (read_u32 (BitIStream [0xff, 0xff, 0xff, 0xff, 0xff, 0x0f])) = Some 254"
proof -
  have "bits_of [0xff, 0xff, 0xff, 0xff, 0xff, 0x0f] = int_bits 8 (2 ^ 32 + 254)"
    by (simp add: int_bits_def octets_bits.simps bits_of_def word_bits_def low_bits_def upt_conv_Cons)
  from integer_overflow_wraps [OF this] show ?thesis by simp
qed

end
