(* ===== verification/Huffman.thy ===== *)
theory Huffman
  imports BitStreams
begin

text \<open>
  The static Huffman code of HPACK, \<open>src/network/access/http2/huffman.cpp\<close> and
  \<open>huffman_p.h\<close>: the code table, the encoder (\<open>write_huffman_code\<close>,
  \<open>huffman_encode_string\<close>), the multi-level prefix tables the decoder builds and walks,
  and the string literals of \<open>bitstreams.cpp\<close> that use them.
  \<open>huffman_encoded_bit_length\<close> indexes the code table with a plain \<open>char\<close>, which is
  signed on the ABIs modelled here (x86, x86-64); an index outside the table is undefined
  behaviour and the model returns \<open>None\<close> there.
\<close>

unbundle bit_operations_syntax

subsection \<open>The code table\<close>

datatype code_entry = CE (ce_byteValue: nat) (ce_huffmanCode: nat) (ce_bitLength: nat)

definition staticHuffmanCodeTable_lo :: "code_entry list" where
  "staticHuffmanCodeTable_lo = [
    CE 0 0xFFC00000 13, CE 1 0xFFFFB000 23, CE 2 0xFFFFFE20 28,
    CE 3 0xFFFFFE30 28, CE 4 0xFFFFFE40 28, CE 5 0xFFFFFE50 28,
    CE 6 0xFFFFFE60 28, CE 7 0xFFFFFE70 28, CE 8 0xFFFFFE80 28,
    CE 9 0xFFFFEA00 24, CE 10 0xFFFFFFF0 30, CE 11 0xFFFFFE90 28,
    CE 12 0xFFFFFEA0 28, CE 13 0xFFFFFFF4 30, CE 14 0xFFFFFEB0 28,
    CE 15 0xFFFFFEC0 28, CE 16 0xFFFFFED0 28, CE 17 0xFFFFFEE0 28,
    CE 18 0xFFFFFEF0 28, CE 19 0xFFFFFF00 28, CE 20 0xFFFFFF10 28,
    CE 21 0xFFFFFF20 28, CE 22 0xFFFFFFF8 30, CE 23 0xFFFFFF30 28,
    CE 24 0xFFFFFF40 28, CE 25 0xFFFFFF50 28, CE 26 0xFFFFFF60 28,
    CE 27 0xFFFFFF70 28, CE 28 0xFFFFFF80 28, CE 29 0xFFFFFF90 28,
    CE 30 0xFFFFFFA0 28, CE 31 0xFFFFFFB0 28, CE 32 0x50000000 6,
    CE 33 0xFE000000 10, CE 34 0xFE400000 10, CE 35 0xFFA00000 12,
    CE 36 0xFFC80000 13, CE 37 0x54000000 6, CE 38 0xF8000000 8,
    CE 39 0xFF400000 11, CE 40 0xFE800000 10, CE 41 0xFEC00000 10,
    CE 42 0xF9000000 8, CE 43 0xFF600000 11, CE 44 0xFA000000 8,
    CE 45 0x58000000 6, CE 46 0x5C000000 6, CE 47 0x60000000 6,
    CE 48 0x00000000 5, CE 49 0x08000000 5, CE 50 0x10000000 5,
    CE 51 0x64000000 6, CE 52 0x68000000 6, CE 53 0x6C000000 6,
    CE 54 0x70000000 6, CE 55 0x74000000 6, CE 56 0x78000000 6,
    CE 57 0x7C000000 6, CE 58 0xB8000000 7, CE 59 0xFB000000 8,
    CE 60 0xFFF80000 15, CE 61 0x80000000 6, CE 62 0xFFB00000 12,
    CE 63 0xFF000000 10, CE 64 0xFFD00000 13, CE 65 0x84000000 6,
    CE 66 0xBA000000 7, CE 67 0xBC000000 7, CE 68 0xBE000000 7,
    CE 69 0xC0000000 7, CE 70 0xC2000000 7, CE 71 0xC4000000 7,
    CE 72 0xC6000000 7, CE 73 0xC8000000 7, CE 74 0xCA000000 7,
    CE 75 0xCC000000 7, CE 76 0xCE000000 7, CE 77 0xD0000000 7,
    CE 78 0xD2000000 7, CE 79 0xD4000000 7, CE 80 0xD6000000 7,
    CE 81 0xD8000000 7, CE 82 0xDA000000 7, CE 83 0xDC000000 7,
    CE 84 0xDE000000 7, CE 85 0xE0000000 7, CE 86 0xE2000000 7,
    CE 87 0xE4000000 7, CE 88 0xFC000000 8, CE 89 0xE6000000 7,
    CE 90 0xFD000000 8, CE 91 0xFFD80000 13, CE 92 0xFFFE0000 19,
    CE 93 0xFFE00000 13, CE 94 0xFFF00000 14, CE 95 0x88000000 6,
    CE 96 0xFFFA0000 15, CE 97 0x18000000 5, CE 98 0x8C000000 6,
    CE 99 0x20000000 5, CE 100 0x90000000 6, CE 101 0x28000000 5,
    CE 102 0x94000000 6, CE 103 0x98000000 6, CE 104 0x9C000000 6,
    CE 105 0x30000000 5, CE 106 0xE8000000 7, CE 107 0xEA000000 7,
    CE 108 0xA0000000 6, CE 109 0xA4000000 6, CE 110 0xA8000000 6,
    CE 111 0x38000000 5, CE 112 0xAC000000 6, CE 113 0xEC000000 7,
    CE 114 0xB0000000 6, CE 115 0x40000000 5, CE 116 0x48000000 5,
    CE 117 0xB4000000 6, CE 118 0xEE000000 7, CE 119 0xF0000000 7,
    CE 120 0xF2000000 7, CE 121 0xF4000000 7, CE 122 0xF6000000 7,
    CE 123 0xFFFC0000 15, CE 124 0xFF800000 11, CE 125 0xFFF40000 14,
    CE 126 0xFFE80000 13, CE 127 0xFFFFFFC0 28]"

definition staticHuffmanCodeTable_hi :: "code_entry list" where
  "staticHuffmanCodeTable_hi = [
    CE 128 0xFFFE6000 20, CE 129 0xFFFF4800 22, CE 130 0xFFFE7000 20,
    CE 131 0xFFFE8000 20, CE 132 0xFFFF4C00 22, CE 133 0xFFFF5000 22,
    CE 134 0xFFFF5400 22, CE 135 0xFFFFB200 23, CE 136 0xFFFF5800 22,
    CE 137 0xFFFFB400 23, CE 138 0xFFFFB600 23, CE 139 0xFFFFB800 23,
    CE 140 0xFFFFBA00 23, CE 141 0xFFFFBC00 23, CE 142 0xFFFFEB00 24,
    CE 143 0xFFFFBE00 23, CE 144 0xFFFFEC00 24, CE 145 0xFFFFED00 24,
    CE 146 0xFFFF5C00 22, CE 147 0xFFFFC000 23, CE 148 0xFFFFEE00 24,
    CE 149 0xFFFFC200 23, CE 150 0xFFFFC400 23, CE 151 0xFFFFC600 23,
    CE 152 0xFFFFC800 23, CE 153 0xFFFEE000 21, CE 154 0xFFFF6000 22,
    CE 155 0xFFFFCA00 23, CE 156 0xFFFF6400 22, CE 157 0xFFFFCC00 23,
    CE 158 0xFFFFCE00 23, CE 159 0xFFFFEF00 24, CE 160 0xFFFF6800 22,
    CE 161 0xFFFEE800 21, CE 162 0xFFFE9000 20, CE 163 0xFFFF6C00 22,
    CE 164 0xFFFF7000 22, CE 165 0xFFFFD000 23, CE 166 0xFFFFD200 23,
    CE 167 0xFFFEF000 21, CE 168 0xFFFFD400 23, CE 169 0xFFFF7400 22,
    CE 170 0xFFFF7800 22, CE 171 0xFFFFF000 24, CE 172 0xFFFEF800 21,
    CE 173 0xFFFF7C00 22, CE 174 0xFFFFD600 23, CE 175 0xFFFFD800 23,
    CE 176 0xFFFF0000 21, CE 177 0xFFFF0800 21, CE 178 0xFFFF8000 22,
    CE 179 0xFFFF1000 21, CE 180 0xFFFFDA00 23, CE 181 0xFFFF8400 22,
    CE 182 0xFFFFDC00 23, CE 183 0xFFFFDE00 23, CE 184 0xFFFEA000 20,
    CE 185 0xFFFF8800 22, CE 186 0xFFFF8C00 22, CE 187 0xFFFF9000 22,
    CE 188 0xFFFFE000 23, CE 189 0xFFFF9400 22, CE 190 0xFFFF9800 22,
    CE 191 0xFFFFE200 23, CE 192 0xFFFFF800 26, CE 193 0xFFFFF840 26,
    CE 194 0xFFFEB000 20, CE 195 0xFFFE2000 19, CE 196 0xFFFF9C00 22,
    CE 197 0xFFFFE400 23, CE 198 0xFFFFA000 22, CE 199 0xFFFFF600 25,
    CE 200 0xFFFFF880 26, CE 201 0xFFFFF8C0 26, CE 202 0xFFFFF900 26,
    CE 203 0xFFFFFBC0 27, CE 204 0xFFFFFBE0 27, CE 205 0xFFFFF940 26,
    CE 206 0xFFFFF100 24, CE 207 0xFFFFF680 25, CE 208 0xFFFE4000 19,
    CE 209 0xFFFF1800 21, CE 210 0xFFFFF980 26, CE 211 0xFFFFFC00 27,
    CE 212 0xFFFFFC20 27, CE 213 0xFFFFF9C0 26, CE 214 0xFFFFFC40 27,
    CE 215 0xFFFFF200 24, CE 216 0xFFFF2000 21, CE 217 0xFFFF2800 21,
    CE 218 0xFFFFFA00 26, CE 219 0xFFFFFA40 26, CE 220 0xFFFFFFD0 28,
    CE 221 0xFFFFFC60 27, CE 222 0xFFFFFC80 27, CE 223 0xFFFFFCA0 27,
    CE 224 0xFFFEC000 20, CE 225 0xFFFFF300 24, CE 226 0xFFFED000 20,
    CE 227 0xFFFF3000 21, CE 228 0xFFFFA400 22, CE 229 0xFFFF3800 21,
    CE 230 0xFFFF4000 21, CE 231 0xFFFFE600 23, CE 232 0xFFFFA800 22,
    CE 233 0xFFFFAC00 22, CE 234 0xFFFFF700 25, CE 235 0xFFFFF780 25,
    CE 236 0xFFFFF400 24, CE 237 0xFFFFF500 24, CE 238 0xFFFFFA80 26,
    CE 239 0xFFFFE800 23, CE 240 0xFFFFFAC0 26, CE 241 0xFFFFFCC0 27,
    CE 242 0xFFFFFB00 26, CE 243 0xFFFFFB40 26, CE 244 0xFFFFFCE0 27,
    CE 245 0xFFFFFD00 27, CE 246 0xFFFFFD20 27, CE 247 0xFFFFFD40 27,
    CE 248 0xFFFFFD60 27, CE 249 0xFFFFFFE0 28, CE 250 0xFFFFFD80 27,
    CE 251 0xFFFFFDA0 27, CE 252 0xFFFFFDC0 27, CE 253 0xFFFFFDE0 27,
    CE 254 0xFFFFFE00 27, CE 255 0xFFFFFB80 26, CE 256 0xFFFFFFFC 30]"

definition staticHuffmanCodeTable :: "code_entry list" where
  "staticHuffmanCodeTable = staticHuffmanCodeTable_lo @ staticHuffmanCodeTable_hi"

subsection \<open>Encoding\<close>

definition write_huffman_code :: "code_entry \<Rightarrow> bit_ostream \<Rightarrow> bit_ostream" where
  "write_huffman_code code s =
     (let bl = ce_bitLength code;
          hc = ce_huffmanCode code div 2 ^ (32 - bl);
          (s, bl) = (if bl > 24 then (writeBits (of_nat (hc div 2 ^ 24)) (bl - 24) s, 24) else (s, bl));
          (s, bl) = (if bl > 16 then (writeBits (of_nat (hc div 2 ^ 16)) (bl - 16) s, 16) else (s, bl));
          (s, bl) = (if bl > 8 then (writeBits (of_nat (hc div 2 ^ 8)) (bl - 8) s, 8) else (s, bl))
      in writeBits (of_nat hc) bl s)"

definition char_index :: "byte \<Rightarrow> int" where
  "char_index b = sint b"

fun huffman_encoded_bit_length :: "bytes \<Rightarrow> nat option" where
  "huffman_encoded_bit_length [] = Some 0"
| "huffman_encoded_bit_length (b # bs) =
     (if 0 \<le> char_index b \<and> char_index b < int (length staticHuffmanCodeTable)
      then map_option (\<lambda>n. ce_bitLength (staticHuffmanCodeTable ! nat (char_index b)) + n)
             (huffman_encoded_bit_length bs)
      else None)"

definition huffman_encode_string :: "bytes \<Rightarrow> bit_ostream \<Rightarrow> bit_ostream" where
  "huffman_encode_string inputData s =
     (let s = fold (\<lambda>b. write_huffman_code (staticHuffmanCodeTable ! unat b)) inputData s
      in if os_bitsSet s mod 8 \<noteq> 0 then writeBits 0xff (8 - os_bitsSet s mod 8) s else s)"

subsection \<open>The prefix tables of the decoder\<close>

record prefix_table =
  pt_prefixLength :: nat
  pt_indexLength :: nat
  pt_offset :: nat

definition pt_size :: "prefix_table \<Rightarrow> nat" where
  "pt_size t = 2 ^ pt_indexLength t"

datatype table_entry = TE (te_bitLength: nat) (te_nextTable: nat) (te_byteValue: nat)

record huffman_decoder =
  prefixTables :: "prefix_table list"
  tableData :: "table_entry list"
  minCodeLength :: nat

definition rootPrefix :: nat where "rootPrefix = 9"
definition childPrefix :: nat where "childPrefix = 6"

definition addTable :: "nat \<Rightarrow> nat \<Rightarrow> huffman_decoder \<Rightarrow> nat \<times> huffman_decoder" where
  "addTable prefix index d =
     (let newTable = \<lparr>pt_prefixLength = prefix, pt_indexLength = index, pt_offset = length (tableData d)\<rparr>
      in (length (prefixTables d),
          d\<lparr>prefixTables := prefixTables d @ [newTable],
            tableData := tableData d @ replicate (pt_size newTable) (TE 0 0 0)\<rparr>))"

definition tableEntry :: "huffman_decoder \<Rightarrow> prefix_table \<Rightarrow> nat \<Rightarrow> table_entry" where
  "tableEntry d t index = tableData d ! (pt_offset t + index)"

definition setTableEntry :: "prefix_table \<Rightarrow> nat \<Rightarrow> table_entry \<Rightarrow> huffman_decoder \<Rightarrow> huffman_decoder" where
  "setTableEntry t index e d = d\<lparr>tableData := (tableData d)[pt_offset t + index := e]\<rparr>"

text \<open>The index of a left-aligned 32-bit code in a table: \<open>c << prefix >> (32 - index)\<close>.\<close>

definition entry_index :: "nat \<Rightarrow> prefix_table \<Rightarrow> nat" where
  "entry_index c t = (c * 2 ^ pt_prefixLength t) mod 2 ^ 32 div 2 ^ (32 - pt_indexLength t)"

text \<open>The comparison of the constructor's \<open>std::sort\<close>: a strict total order on the table's
  entries (their values are distinct), so insertion yields the sorted sequence.\<close>

definition code_before :: "code_entry \<Rightarrow> code_entry \<Rightarrow> bool" where
  "code_before c1 c2 =
     (if ce_bitLength c1 = ce_bitLength c2 then ce_byteValue c1 > ce_byteValue c2
      else ce_bitLength c1 > ce_bitLength c2)"

fun insert_code :: "code_entry \<Rightarrow> code_entry list \<Rightarrow> code_entry list" where
  "insert_code c [] = [c]"
| "insert_code c (x # xs) = (if code_before c x then c # x # xs else x # insert_code c xs)"

text \<open>The constructor's inner loop for one symbol. Each round moves to a table that codes at
  least one more bit, so 33 rounds are enough for a 32-bit code; \<open>None\<close> if they are not.\<close>

fun place_symbol :: "nat \<Rightarrow> code_entry \<Rightarrow> nat \<Rightarrow> huffman_decoder \<Rightarrow> huffman_decoder option" where
  "place_symbol 0 s tableIndex d = None"
| "place_symbol (Suc fuel) s tableIndex d =
     (let table = prefixTables d ! tableIndex;
          entryIndex = entry_index (ce_huffmanCode s) table;
          entry = tableEntry d table entryIndex;
          codedLength = pt_prefixLength table + pt_indexLength table
      in if codedLength < ce_bitLength s
         then (if te_bitLength entry = 0
               then let (nextTable, d') = addTable codedLength (min childPrefix (ce_bitLength s - codedLength)) d;
                        d'' = setTableEntry table entryIndex (TE (ce_bitLength s) nextTable (ce_byteValue s)) d'
                    in place_symbol fuel s nextTable d''
               else place_symbol fuel s (te_nextTable entry) d)
         else Some (setTableEntry table entryIndex (TE (ce_bitLength s) tableIndex (ce_byteValue s)) d))"

fun place_symbols :: "code_entry list \<Rightarrow> huffman_decoder \<Rightarrow> huffman_decoder option" where
  "place_symbols [] d = Some d"
| "place_symbols (s # ss) d =
     (case place_symbol 33 s 0 d of None \<Rightarrow> None | Some d' \<Rightarrow> place_symbols ss d')"

text \<open>Filling the holes of one table: the entry of a code shorter than the table's coded
  length is copied over the range of indices that start with the code.\<close>

function fill_holes :: "prefix_table \<Rightarrow> nat \<Rightarrow> huffman_decoder \<Rightarrow> huffman_decoder" where
  "fill_holes t j d =
     (if j < pt_size t
      then let entry = tableEntry d t j;
               codedLength = pt_prefixLength t + pt_indexLength t
           in if te_bitLength entry \<noteq> 0 \<and> te_bitLength entry < codedLength
              then let range = 2 ^ (codedLength - te_bitLength entry)
                   in fill_holes t (j + range)
                        (fold (\<lambda>k. setTableEntry t (j + k) entry) [1..<range] d)
              else fill_holes t (Suc j) d
      else d)"
  by pat_completeness auto
termination
  by (relation "measure (\<lambda>(t, j, d). pt_size t - j)") (auto intro!: diff_less_mono2)

declare fill_holes.simps [simp del]

definition HuffmanDecoder :: "huffman_decoder option" where
  "HuffmanDecoder =
     (let symbols = foldr insert_code staticHuffmanCodeTable [];
          d = \<lparr>prefixTables = [], tableData = [], minCodeLength = ce_bitLength (last symbols)\<rparr>;
          d = snd (addTable 0 rootPrefix d)
      in map_option (\<lambda>d. fold (\<lambda>t. fill_holes t 0) (prefixTables d) d) (place_symbols symbols d))"

subsection \<open>Decoding\<close>

definition padding_is_valid :: "32 word \<Rightarrow> nat \<Rightarrow> bool" where
  "padding_is_valid chunk nBits =
     (if nBits > 7 then False else drop_bit (32 - nBits) chunk = of_nat (2 ^ nBits - 1))"

text \<open>The walk down the tables; a chain of links visits a table at most once in a table set
  that \<open>HuffmanDecoder\<close> builds, so the number of tables bounds it.\<close>

fun walk_tables :: "nat \<Rightarrow> huffman_decoder \<Rightarrow> nat \<Rightarrow> nat \<Rightarrow> table_entry \<Rightarrow> table_entry option" where
  "walk_tables 0 d chunk tableIndex entry = None"
| "walk_tables (Suc fuel) d chunk tableIndex entry =
     (if te_nextTable entry = tableIndex then Some entry
      else let table = prefixTables d ! te_nextTable entry
           in walk_tables fuel d chunk (te_nextTable entry) (tableEntry d table (entry_index chunk table)))"

text \<open>\<open>decodeStream\<close>: the result of the loop, the stream and the output; \<open>None\<close> when the loop
  does not end within the fuel. A round that continues consumes the bits of one code, so
  one round per bit of the stream and one more are enough.\<close>

fun decodeStream :: "nat \<Rightarrow> huffman_decoder \<Rightarrow> bit_istream \<Rightarrow> bytes \<Rightarrow> (bool \<times> bit_istream \<times> bytes) option" where
  "decodeStream 0 d s out = None"
| "decodeStream (Suc fuel) d s out =
     (let (readBits, chunk) = peekBits (is_offset s) 32 (0 :: 32 word) s
      in if readBits = 0 then Some (\<not> hasMoreBits s, s, out)
         else if readBits < minCodeLength d
         then Some (padding_is_valid chunk readBits, snd (skipBits readBits s), out)
         else let root = prefixTables d ! 0
              in case walk_tables (Suc (length (prefixTables d))) d (unat chunk) 0
                        (tableEntry d root (entry_index (unat chunk) root)) of
                   None \<Rightarrow> None
                 | Some entry \<Rightarrow>
                     if te_bitLength entry > readBits
                     then Some (padding_is_valid chunk readBits, snd (skipBits readBits s), out)
                     else if te_bitLength entry = 0 \<or> te_byteValue entry = 256
                     then Some (False, snd (skipBits readBits s), out)
                     else decodeStream fuel d (snd (skipBits (te_bitLength entry) s))
                            (out @ [of_nat (te_byteValue entry)]))"

definition huffman_decode_string :: "bit_istream \<Rightarrow> bytes \<Rightarrow> (bool \<times> bit_istream \<times> bytes) option" where
  "huffman_decode_string s out =
     (case HuffmanDecoder of None \<Rightarrow> None | Some d \<Rightarrow> decodeStream (Suc (bitLength s)) d s out)"

subsection \<open>String literals of the bit streams\<close>

definition write_string :: "bytes \<Rightarrow> bool \<Rightarrow> bit_ostream \<Rightarrow> bit_ostream option" where
  "write_string src compressed s =
     (let byteLen = length src mod 2 ^ 32;
          r = (if compressed \<and> byteLen \<noteq> 0
               then case huffman_encoded_bit_length src of
                      None \<Rightarrow> None
                    | Some bitLen \<Rightarrow> Some ((bitLen + 7) div 8 mod 2 ^ 32, writeBits 1 1 s)
               else Some (byteLen, writeBits 0 1 s))
      in case r of
           None \<Rightarrow> None
         | Some (byteLen, s) \<Rightarrow>
             let s = write_u32 byteLen s
             in Some (if compressed then huffman_encode_string src s
                      else \<lparr>os_buffer = os_buffer s @ src, os_bitsSet = os_bitsSet s + length src * 8\<rparr>))"

text \<open>\<open>read(QByteArray *)\<close>: the string, or \<open>None\<close> with the offset restored and the error set.
  The outer \<open>None\<close> is a decoder that does not return.\<close>

definition read_string :: "bit_istream \<Rightarrow> (bytes option \<times> bit_istream) option" where
  "read_string s =
     (let oldOffset = is_offset s;
          (n, compressed) = peekBits (is_offset s) 1 (0 :: byte) s
      in if n \<noteq> 1 \<or> \<not> fst (skipBits 1 s) then Some (None, s\<lparr>is_error := NotEnoughData\<rparr>)
         else let s = (snd (skipBits 1 s))\<lparr>is_error := NoError\<rparr>
              in case read_u32 s of
                   (None, s) \<Rightarrow> Some (None, s\<lparr>is_offset := oldOffset\<rparr>)
                 | (Some len, s) \<Rightarrow>
                     if len \<le> (bitLength s - is_offset s) div 8
                     then let src = take len (drop (is_offset s div 8) (is_data s))
                          in if compressed = 0
                             then Some (Some src, s\<lparr>is_offset := is_offset s + len * 8\<rparr>)
                             else case huffman_decode_string (BitIStream src) [] of
                                    None \<Rightarrow> None
                                  | Some (True, _, dst) \<Rightarrow> Some (Some dst, s\<lparr>is_offset := is_offset s + len * 8\<rparr>)
                                  | Some (False, _, _) \<Rightarrow>
                                      Some (None, s\<lparr>is_error := CompressionError, is_offset := oldOffset\<rparr>)
                     else Some (None, s\<lparr>is_error := NotEnoughData, is_offset := oldOffset\<rparr>))"


subsection \<open>What the encoder writes\<close>

definition nat_bits :: "nat \<Rightarrow> nat \<Rightarrow> bool list" where
  "nat_bits k n = map (\<lambda>i. bit n (k - 1 - i)) [0..<k]"

definition code_bits :: "code_entry \<Rightarrow> bool list" where
  "code_bits c = nat_bits (ce_bitLength c) (ce_huffmanCode c div 2 ^ (32 - ce_bitLength c))"

lemma length_nat_bits [bits_simps, simp]: "length (nat_bits k n) = k"
  by (simp add: nat_bits_def)

lemma length_code_bits [bits_simps, simp]: "length (code_bits c) = ce_bitLength c"
  by (simp add: code_bits_def)

lemma nat_bits_append: "nat_bits (m + k) n = nat_bits m (n div 2 ^ k) @ nat_bits k n"
  by (rule nth_equalityI)
     (auto simp: nat_bits_def nth_append bit_iff_odd div_mult2_eq [symmetric] power_add [symmetric] algebra_simps)

lemma low_bits_of_nat: "k \<le> 8 \<Longrightarrow> low_bits k (of_nat n :: byte) = nat_bits k n"
  by (rule nth_equalityI) (auto simp: nat_bits_def nth_low_bits bit_simps)

lemma nat_bits_split:
  assumes "8 * j < bl"
  shows "nat_bits (bl - 8 * j) (hc div 2 ^ (8 * j)) @ nat_bits (8 * j) hc = nat_bits bl hc"
  using nat_bits_append [of "bl - 8 * j" "8 * j" hc] assms by simp

lemma write_huffman_code_spec:
  assumes "os_wf s" "ce_bitLength c \<le> 32"
  shows "os_wf (write_huffman_code c s) \<and> os_bits (write_huffman_code c s) = os_bits s @ code_bits c"
proof -
  let ?bl = "ce_bitLength c" let ?hc = "ce_huffmanCode c div 2 ^ (32 - ce_bitLength c)"
  have w: "os_wf t \<Longrightarrow> k \<le> 8 \<Longrightarrow> os_wf (writeBits (of_nat n) k t) \<and> os_bits (writeBits (of_nat n) k t) = os_bits t @ nat_bits k n"
    for t k n using writeBits_spec [of t k "of_nat n"] by (simp add: low_bits_of_nat)
  have s: "nat_bits 8 (?hc div 256) @ nat_bits 8 ?hc = nat_bits 16 ?hc"
    "nat_bits 8 (?hc div 65536) @ nat_bits 16 ?hc = nat_bits 24 ?hc"
    using nat_bits_append [of 8 8 ?hc] nat_bits_append [of 8 16 ?hc] by simp_all
  note p = nat_bits_split [of 1 ?bl ?hc] nat_bits_split [of 2 ?bl ?hc] nat_bits_split [of 3 ?bl ?hc]
  consider "?bl \<le> 8" | "8 < ?bl" "?bl \<le> 16" | "16 < ?bl" "?bl \<le> 24" | "24 < ?bl" by linarith
  then show ?thesis
    using assms p s by cases (simp_all add: write_huffman_code_def Let_def code_bits_def w)
qed

lemma table_shape:
  "length staticHuffmanCodeTable = 257"
  "map ce_byteValue staticHuffmanCodeTable = [0..<257]"
  "list_all (\<lambda>c. 5 \<le> ce_bitLength c \<and> ce_bitLength c \<le> 30) staticHuffmanCodeTable"
  by (simp_all add: staticHuffmanCodeTable_def staticHuffmanCodeTable_lo_def staticHuffmanCodeTable_hi_def upt_conv_Cons)

lemma table_at:
  assumes "i < 257"
  shows "ce_byteValue (staticHuffmanCodeTable ! i) = i"
    "5 \<le> ce_bitLength (staticHuffmanCodeTable ! i)" "ce_bitLength (staticHuffmanCodeTable ! i) \<le> 30"
proof -
  have "map ce_byteValue staticHuffmanCodeTable ! i = i"
    unfolding table_shape(2) using assms by simp
  then show "ce_byteValue (staticHuffmanCodeTable ! i) = i"
    using assms table_shape(1) by simp
  have "staticHuffmanCodeTable ! i \<in> set staticHuffmanCodeTable"
    using assms table_shape(1) by simp
  with table_shape(3) show "5 \<le> ce_bitLength (staticHuffmanCodeTable ! i)"
    "ce_bitLength (staticHuffmanCodeTable ! i) \<le> 30" by (simp_all add: list_all_iff)
qed

definition char_code :: "byte \<Rightarrow> code_entry" where
  "char_code b = staticHuffmanCodeTable ! unat b"

definition codes_bits :: "bytes \<Rightarrow> bool list" where
  "codes_bits bs = concat (map (\<lambda>b. code_bits (char_code b)) bs)"

lemma unat_byte_less: "unat (b :: byte) < 256"
  using unsigned_less [of b] by simp

lemma char_code_length: "5 \<le> ce_bitLength (char_code b)" "ce_bitLength (char_code b) \<le> 30"
  using table_at [of "unat b"] unat_byte_less [of b] by (simp_all add: char_code_def)

lemma codes_bits_simps [simp]:
  "codes_bits [] = []" "codes_bits (b # bs) = code_bits (char_code b) @ codes_bits bs"
  by (simp_all add: codes_bits_def)

lemma write_codes_spec:
  "os_wf s \<Longrightarrow> os_wf (fold (\<lambda>b. write_huffman_code (staticHuffmanCodeTable ! unat b)) bs s)
    \<and> os_bits (fold (\<lambda>b. write_huffman_code (staticHuffmanCodeTable ! unat b)) bs s) = os_bits s @ codes_bits bs"
proof (induction bs arbitrary: s)
  case Nil then show ?case by simp
next
  case (Cons b bs)
  have "ce_bitLength (char_code b) \<le> 32" using char_code_length(2) [of b] by simp
  from write_huffman_code_spec [OF Cons.prems this] Cons.IH show ?case
    by (simp add: char_code_def)
qed

text \<open>The bits of a coded string: the codes and 1-bits up to the octet boundary.\<close>

definition padded_codes :: "bytes \<Rightarrow> bool list" where
  "padded_codes bs = codes_bits bs @ replicate ((8 - length (codes_bits bs) mod 8) mod 8) True"

lemma low_bits_ff: "n \<le> 8 \<Longrightarrow> low_bits n (0xff :: byte) = replicate n True"
proof (rule nth_equalityI)
  fix i assume "n \<le> 8" and i: "i < length (low_bits n (0xff :: byte))"
  have "(0xff :: byte) = mask 8" by (simp add: mask_eq_exp_minus_1)
  then show "low_bits n (0xff :: byte) ! i = replicate n True ! i"
    using i \<open>n \<le> 8\<close> by (simp only: nth_low_bits bit_mask_iff length_low_bits nth_replicate) simp
qed simp

lemma huffman_encode_string_spec:
  assumes "os_wf s" "os_bitsSet s mod 8 = 0"
  shows "os_wf (huffman_encode_string bs s) \<and> os_bitsSet (huffman_encode_string bs s) mod 8 = 0
    \<and> os_bits (huffman_encode_string bs s) = os_bits s @ padded_codes bs"
proof -
  define t where "t = fold (\<lambda>b. write_huffman_code (staticHuffmanCodeTable ! unat b)) bs s"
  have t: "os_wf t" "os_bits t = os_bits s @ codes_bits bs"
    using write_codes_spec [OF assms(1)] by (simp_all add: t_def)
  define n where "n = length (codes_bits bs) mod 8"
  have n: "os_bitsSet t mod 8 = n"
  proof -
    have "os_bitsSet t = os_bitsSet s + length (codes_bits bs)"
      using t length_os_bits [of t] length_os_bits [of s] assms(1) by simp
    then show ?thesis using assms(2) by (metis n_def add_0 mod_add_left_eq)
  qed
  have e: "huffman_encode_string bs s = (if n \<noteq> 0 then writeBits 0xff (8 - n) t else t)"
    by (simp add: huffman_encode_string_def Let_def t_def [symmetric] n)
  show ?thesis
  proof (cases "n = 0")
    case True
    then show ?thesis using e t n by (simp add: padded_codes_def n_def [symmetric])
  next
    case False
    have k: "8 - n \<le> 8" "(8 - n) mod 8 = 8 - n" using False by simp_all
    have "os_bitsSet (writeBits 0xff (8 - n) t) = os_bitsSet t + (8 - n)"
      by (simp add: writeBits_def Let_def)
    moreover have "(os_bitsSet t + (8 - n)) mod 8 = 0" using n by presburger
    ultimately show ?thesis
      using False e t writeBits_spec [OF t(1) k(1), of "0xff"] low_bits_ff [OF k(1)] k(2)
      by (simp add: padded_codes_def n_def [symmetric])
  qed
qed

lemma length_padded_codes: "length (padded_codes bs) = 8 * ((length (codes_bits bs) + 7) div 8)"
proof -
  define q where "q = length (codes_bits bs) div 8"
  define r where "r = length (codes_bits bs) mod 8"
  have l: "length (codes_bits bs) = 8 * q + r" "r < 8" by (simp_all add: q_def r_def)
  have p: "length (padded_codes bs) = 8 * q + r + (8 - r) mod 8"
    by (simp add: padded_codes_def r_def [symmetric] l(1) [symmetric])
  have d: "(8 * q + r + 7) div 8 = q + (r + 7) div 8"
    using div_mult_self4 [of 8 q "r + 7"] by (simp add: add.assoc)
  show ?thesis
  proof (cases "r = 0")
    case True
    then show ?thesis using p l by simp
  next
    case False
    then have "(r + 7) div 8 = 1" using l(2) by (intro div_nat_eqI) simp_all
    moreover have "(8 - r) mod 8 = 8 - r" using False by simp
    ultimately have "(r + 7) div 8 = 1" "(8 - r) mod 8 = 8 - r" by blast+
    then show ?thesis using p d l False by simp
  qed
qed

definition ascii :: "bytes \<Rightarrow> bool" where
  "ascii bs \<longleftrightarrow> list_all (\<lambda>b. unat b < 128) bs"

lemma char_index_ascii: "0 \<le> char_index b \<longleftrightarrow> unat b < 128" "unat b < 128 \<Longrightarrow> char_index b = int (unat b)"
proof -
  have u: "unat b < 256" by (rule unat_byte_less)
  have "char_index b = signed_take_bit 7 (int (unat b))"
    by (simp add: char_index_def sint_uint)
  also have "\<dots> = (int (unat b) + 128) mod 256 - 128"
    by (simp only: signed_take_bit_eq_take_bit_shift take_bit_eq_mod) simp
  finally have c: "char_index b = (int (unat b) + 128) mod 256 - 128" .
  have "unat b < 128 \<Longrightarrow> char_index b = int (unat b)"
    using c mod_pos_pos_trivial [of "int (unat b) + 128" 256] by linarith
  moreover have "char_index b < 0" if "\<not> unat b < 128"
  proof -
    have "(int (unat b) + 128) mod 256 = (int (unat b) - 128) mod 256"
      using mod_add_self2 [of "int (unat b) - 128" 256] by (simp add: algebra_simps)
    also have "\<dots> = int (unat b) - 128" using that u by (intro mod_pos_pos_trivial) linarith+
    finally show ?thesis using c u by linarith
  qed
  ultimately show "0 \<le> char_index b \<longleftrightarrow> unat b < 128" "unat b < 128 \<Longrightarrow> char_index b = int (unat b)"
    by force+
qed

lemma huffman_encoded_bit_length_spec:
  "huffman_encoded_bit_length bs = (if ascii bs then Some (length (codes_bits bs)) else None)"
proof (induction bs)
  case Nil then show ?case by (simp add: ascii_def)
next
  case (Cons b bs)
  have "unat b < 128 \<Longrightarrow> ce_bitLength (staticHuffmanCodeTable ! unat b) = ce_bitLength (char_code b)"
    by (simp add: char_code_def)
  moreover have "int (unat b) < 257" using unat_byte_less [of b] by linarith
  ultimately show ?case using Cons char_index_ascii [of b] table_shape(1)
    by (auto simp: ascii_def split: if_splits)
qed

text \<open>The bits of a string literal, with a \<open>p\<close>-bit length prefix.\<close>

definition string_bits :: "nat \<Rightarrow> bool \<Rightarrow> bytes \<Rightarrow> bool list" where
  "string_bits p compressed src =
     (if compressed \<and> src \<noteq> []
      then True # int_bits p (length (padded_codes src) div 8) @ padded_codes src
      else False # int_bits p (length src) @ bits_of src)"

definition writable :: "bool \<Rightarrow> bytes \<Rightarrow> bool" where
  "writable compressed src \<longleftrightarrow>
     length src < 2 ^ 32 \<and> (compressed \<longrightarrow> ascii src \<and> length (padded_codes src) div 8 < 2 ^ 32)"

lemma low_bit_1: "low_bits (Suc 0) (1 :: byte) = [True]" "low_bits (Suc 0) (0 :: byte) = [False]"
  by (simp_all add: low_bits_def)

lemma append_octets:
  assumes "os_wf s" "os_bitsSet s mod 8 = 0"
  shows "os_wf \<lparr>os_buffer = os_buffer s @ bs, os_bitsSet = os_bitsSet s + length bs * 8\<rparr>
    \<and> os_bits \<lparr>os_buffer = os_buffer s @ bs, os_bitsSet = os_bitsSet s + length bs * 8\<rparr> = os_bits s @ bits_of bs"
proof -
  have "bits_of (os_buffer s @ bs) = (os_bits s @ bits_of bs) @ replicate 0 False"
    using os_wf_cases(1) [OF assms] by simp
  from os_wfI [OF this, of "os_bitsSet s + length bs * 8"] show ?thesis
    using length_os_bits [OF assms(1)] by simp
qed

lemma write_string_spec:
  assumes "os_wf s" "writable compressed src" "p = 8 - (os_bitsSet s + 1) mod 8"
  shows "\<exists>s'. write_string src compressed s = Some s' \<and> os_wf s' \<and> os_bitsSet s' mod 8 = 0
    \<and> os_bits s' = os_bits s @ string_bits p compressed src"
proof -
  have len: "length src mod 2 ^ 32 = length src" using assms(2) by (simp add: writable_def)
  have one: "os_wf (writeBits b 1 s)" "os_bits (writeBits b 1 s) = os_bits s @ low_bits 1 b"
      "os_bitsSet (writeBits b 1 s) = os_bitsSet s + 1" for b
    using writeBits_spec [OF assms(1), of 1] by (simp_all add: writeBits_def Let_def)
  have w: "os_wf (write_u32 n (writeBits b 1 s))" "os_bitsSet (write_u32 n (writeBits b 1 s)) mod 8 = 0"
      "os_bits (write_u32 n (writeBits b 1 s)) = os_bits s @ low_bits 1 b @ int_bits p n" for n b
    using write_u32_spec [OF one(1)] one(2,3) assms(3) by simp_all
  show ?thesis
  proof (cases "compressed \<and> src \<noteq> []")
    case True
    then have a: "ascii src" using assms(2) by (simp add: writable_def)
    define n where "n = length (padded_codes src) div 8"
    have n: "(length (codes_bits src) + 7) div 8 mod 2 ^ 32 = n"
      using assms(2) True by (simp add: writable_def n_def length_padded_codes)
    note e = huffman_encode_string_spec [OF w(1) w(2)]
    show ?thesis
      using True a e w(3) len n by (simp add: write_string_def huffman_encoded_bit_length_spec
        string_bits_def low_bit_1 n_def [symmetric])
  next
    case False
    note e = append_octets [OF w(1) w(2)] huffman_encode_string_spec [OF w(1) w(2), of "[]"]
    show ?thesis
      using False e w len by (auto simp: write_string_def string_bits_def low_bit_1 Let_def padded_codes_def)
  qed
qed

subsection \<open>Reading strings back\<close>

lemma read_bit:
  assumes "drop (is_offset s) (bits_of (is_data s)) = b # rest"
  shows "peekBits (is_offset s) 1 (0 :: byte) s = (1, push_bit 7 (of_bool b))"
    "skipBits 1 s = (True, s\<lparr>is_offset := is_offset s + 1\<rparr>)"
proof -
  have lt: "is_offset s < bitLength s"
    using arg_cong [OF assms, of length] by (simp add: bitLength_def)
  from peekBits_spec [of 1 "is_offset s" s "0 :: byte", OF _ _ _ lt]
  obtain w where w: "peekBits (is_offset s) 1 (0 :: byte) s = (min 1 (bitLength s - is_offset s), w)"
    "word_bits w = take 1 (b # rest) @ replicate (8 - (bitLength s - is_offset s)) False
        @ replicate (min 8 (bitLength s - is_offset s) - 1) False"
    using assms by auto
  have "word_bits w = b # replicate 7 False"
    using w(2) lt by (simp add: replicate_add [symmetric])
  also have "\<dots> = word_bits (push_bit 7 (of_bool b) :: byte)"
    by (cases b) (simp_all add: word_bits_push_bit word_bits_def numeral_eq_Suc)
  finally have "w = push_bit 7 (of_bool b)" by (simp only: word_bits_inject)
  with w(1) lt show "peekBits (is_offset s) 1 (0 :: byte) s = (1, push_bit 7 (of_bool b))"
    by (simp add: min_def)
  show "skipBits 1 s = (True, s\<lparr>is_offset := is_offset s + 1\<rparr>)"
    using lt by (simp add: skipBits_def)
qed

lemma length_octets_bits: "length (octets_bits n) mod 8 = 0"
proof (induction n rule: octets_bits.induct)
  case (1 n) then show ?case by (simp add: octets_bits.simps [of n])
qed

lemma int_bits_aligned:
  assumes "p = 8 - n mod 8" shows "(n + length (int_bits p m)) mod 8 = 0"
proof -
  have "n + p = 8 * (n div 8) + 8" using assms mult_div_mod_eq [of 8 n] mod_less_divisor [of 8 n] by linarith
  then have np: "(n + p) mod 8 = 0" by simp
  have "length (int_bits p m) = p \<or> length (int_bits p m) = p + length (octets_bits (m - (2 ^ p - 1)))"
    by (simp add: int_bits_def)
  moreover have "(n + (p + length (octets_bits (m - (2 ^ p - 1))))) mod 8 = 0"
    using np length_octets_bits [of "m - (2 ^ p - 1)"] by (simp only: add.assoc [symmetric]) (simp add: mod_eq_0_iff_dvd)
  ultimately show ?thesis using np by (elim disjE) simp_all
qed

lemma take_octets:
  assumes "drop n (bits_of data) = bits_of src @ rest" "n mod 8 = 0"
  shows "take (length src) (drop (n div 8) data) = src"
    "8 * length src = length (bits_of src)" "n + 8 * length src \<le> 8 * length data \<or> src = []"
proof -
  have n: "n = 8 * (n div 8)" using assms(2) by presburger
  then have eq: "bits_of (drop (n div 8) data) = bits_of src @ rest"
    using assms(1) drop_bits_of by metis
  have "bits_of (take (length src) (drop (n div 8) data)) = take (8 * length src) (bits_of (drop (n div 8) data))"
    by (simp add: take_bits_of)
  also have "\<dots> = bits_of src" unfolding eq by simp
  finally show "take (length src) (drop (n div 8) data) = src" by (simp only: bits_of_inject)
  show "8 * length src = length (bits_of src)" by simp
  show "n + 8 * length src \<le> 8 * length data \<or> src = []"
    using arg_cong [OF assms(1), of length] by (cases src) auto
qed

lemma read_string_uncompressed:
  assumes "drop (is_offset s) (bits_of (is_data s)) = string_bits p False src @ rest"
    and "p = 8 - (is_offset s + 1) mod 8" "8 * length (is_data s) < 2 ^ 32" "length src < 2 ^ 32"
  shows "\<exists>s'. read_string s = Some (Some src, s')
    \<and> s' = s\<lparr>is_error := NoError, is_offset := is_offset s + length (string_bits p False src)\<rparr>"
proof -
  have d: "drop (is_offset s) (bits_of (is_data s)) = False # int_bits p (length src) @ bits_of src @ rest"
    using assms(1) by (simp add: string_bits_def)
  note b = read_bit [OF d]
  let ?s = "s\<lparr>is_offset := is_offset s + 1, is_error := NoError\<rparr>"
  have d1: "drop (is_offset ?s) (bits_of (is_data ?s)) = int_bits p (length src) @ bits_of src @ rest"
    using arg_cong [OF d, of "drop 1"] by simp
  define n where "n = is_offset s + 1 + length (int_bits p (length src))"
  have dn: "drop n (bits_of (is_data s)) = bits_of src @ rest"
    using arg_cong [OF d1, of "drop (length (int_bits p (length src)))"] by (simp add: n_def add.commute)
  have n8: "n mod 8 = 0" using int_bits_aligned [OF assms(2)] by (simp add: n_def)
  note t = take_octets [OF dn n8]
  have rn: "read_u32 ?s = (Some (length src), s\<lparr>is_error := NoError, is_offset := n\<rparr>)"
    using read_u32_spec [OF d1 _ assms(4)] assms(2,3) by (simp add: n_def)
  have len: "length src \<le> (bitLength s - n) div 8" using t(3) by (auto simp: bitLength_def)
  have "n + length src * 8 = is_offset s + length (string_bits p False src)"
    by (simp add: n_def string_bits_def)
  with b rn t(1) len show ?thesis
    by (simp add: read_string_def Let_def bitLength_def)
qed

end
