(* ===== verification/StdSet.thy ===== *)
theory StdSet
  imports Main
begin

text \<open>
  The parts of the C++ standard library's ordered containers that the sources use: a
  \<open>std::set\<close> with a user comparison as the sequence of its elements in order, and
  \<open>std::lower_bound\<close> on a range that the comparison partitions. The comparisons of the
  sources order elements by a rank in a linear order (\<open>ranked_set\<close>); under that contract
  the operations are insertion, deletion and least upper element of finite sets.
\<close>

fun set_insert :: "('a \<Rightarrow> 'a \<Rightarrow> bool) \<Rightarrow> 'a \<Rightarrow> 'a list \<Rightarrow> 'a list" where
  "set_insert lt x [] = [x]"
| "set_insert lt x (y # ys) =
     (if lt y x then y # set_insert lt x ys else if lt x y then x # y # ys else y # ys)"

definition set_erase :: "('a \<Rightarrow> 'a \<Rightarrow> bool) \<Rightarrow> 'a \<Rightarrow> 'a list \<Rightarrow> 'a list" where
  "set_erase lt x xs = filter (\<lambda>y. lt y x \<or> lt x y) xs"

definition set_lower_bound :: "('a \<Rightarrow> 'a \<Rightarrow> bool) \<Rightarrow> 'a \<Rightarrow> 'a list \<Rightarrow> 'a option" where
  "set_lower_bound lt x xs = (case dropWhile (\<lambda>y. lt y x) xs of [] \<Rightarrow> None | y # _ \<Rightarrow> Some y)"

text \<open>The position \<open>std::lower_bound\<close> returns, counted from the start of the range.\<close>

definition lower_bound :: "('a \<Rightarrow> 'a \<Rightarrow> bool) \<Rightarrow> 'a \<Rightarrow> 'a list \<Rightarrow> nat" where
  "lower_bound lt x xs = length (takeWhile (\<lambda>y. lt y x) xs)"

lemma lower_bound_append:
  "lower_bound lt x (xs @ ys) =
     (if lower_bound lt x xs = length xs then length xs + lower_bound lt x ys else lower_bound lt x xs)"
  by (induction xs) (simp_all add: lower_bound_def)

locale ranked_set =
  fixes lt :: "'a \<Rightarrow> 'a \<Rightarrow> bool" and rank :: "'a \<Rightarrow> 'k::linorder"
  assumes less_rank: "lt x y \<longleftrightarrow> rank x < rank y"
begin

lemma set_insert_elems:
  assumes "rank x \<notin> rank ` set xs"
  shows "set (set_insert lt x xs) = insert x (set xs)"
  using assms by (induction xs) (auto simp: less_rank)

lemma set_insert_sorted:
  "sorted_wrt lt xs \<Longrightarrow> sorted_wrt lt (set_insert lt x xs)"
proof (induction xs)
  case Nil then show ?case by simp
next
  case (Cons y ys)
  have sub: "set (set_insert lt x ys) \<subseteq> insert x (set ys)"
    by (induction ys) auto
  from Cons show ?case
  proof (cases "rank y < rank x")
    case True
    then have "\<forall>z \<in> set (set_insert lt x ys). rank y < rank z"
      using Cons.prems sub by (auto simp: less_rank)
    with Cons True less_rank [of y x] less_rank show ?thesis by (metis (mono_tags, lifting) list.simps(15) set_insert.simps(2) sorted_wrt.simps(2))
  next
    case False
    then show ?thesis using Cons.prems by (auto simp: less_rank)
  qed
qed

lemma set_erase_elems: "set (set_erase lt x xs) = {y \<in> set xs. rank y \<noteq> rank x}"
  by (auto simp: set_erase_def less_rank)

lemma set_erase_sorted: "sorted_wrt lt xs \<Longrightarrow> sorted_wrt lt (set_erase lt x xs)"
  by (simp add: set_erase_def sorted_wrt_filter)

lemma set_lower_bound_None:
  "sorted_wrt lt xs \<Longrightarrow> set_lower_bound lt x xs = None \<longleftrightarrow> (\<forall>y \<in> set xs. rank y < rank x)"
  by (induction xs) (auto simp: set_lower_bound_def less_rank)

lemma set_lower_bound_Some:
  assumes "sorted_wrt lt xs" "set_lower_bound lt x xs = Some y"
  shows "y \<in> set xs" "rank x \<le> rank y" "\<forall>z \<in> set xs. rank x \<le> rank z \<longrightarrow> rank y \<le> rank z"
  using assms
proof (induction xs)
  case (Cons a xs)
  { case 1 then show ?case using Cons by (auto simp: set_lower_bound_def less_rank split: if_splits) }
  { case 2 then show ?case using Cons by (auto simp: set_lower_bound_def less_rank split: if_splits) }
  { case 3 then show ?case using Cons
      by (cases "rank a < rank x") (auto simp: set_lower_bound_def less_rank less_imp_le) }
qed (simp_all add: set_lower_bound_def)

lemma lower_bound_found:
  assumes "sorted_wrt (\<lambda>x y. rank x \<le> rank y) xs" "y \<in> set xs" "rank y = rank x"
  shows "lower_bound lt x xs < length xs \<and> rank (xs ! lower_bound lt x xs) = rank x"
  using assms
proof (induction xs)
  case (Cons a xs)
  show ?case
  proof (cases "rank a < rank x")
    case True
    then have "y \<in> set xs" using Cons.prems by auto
    then show ?thesis using Cons True by (simp add: lower_bound_def less_rank)
  next
    case False
    then show ?thesis using Cons.prems by (auto simp: lower_bound_def less_rank)
  qed
qed simp

lemma strict_sorted: "sorted_wrt lt xs \<Longrightarrow> sorted_wrt (\<lambda>x y. rank x \<le> rank y) xs"
  by (rule sorted_wrt_mono_rel [of _ lt]) (simp_all add: less_rank less_imp_le)

lemma transp_lt: "transp lt"
  by (rule transpI) (simp add: less_rank)

lemma lower_bound_before:
  assumes "i < lower_bound lt x xs" shows "rank (xs ! i) < rank x"
  using assms set_takeWhileD [of "xs ! i" "\<lambda>y. lt y x" xs]
  by (metis less_rank lower_bound_def nth_mem takeWhile_nth)

end

end
