(* ===== verification/HpackTable.thy ===== *)
theory HpackTable
  imports Prelude StdSet "HOL-Library.List_Lexorder" "HOL-Library.Product_Lexorder"
begin

text \<open>
  The HPACK lookup table of \<open>src/network/access/http2/hpacktable.cpp\<close> and
  \<open>hpacktable_p.h\<close> (\<open>FieldLookupTable\<close>): the static part, the dynamic part as a deque of
  16-field chunks filled from their ends, the search index as an ordered set of entries,
  prepending with eviction, lookup by index and by field, and the size updates.
  Chunks are identified by the order of their allocation, which stands for their address.
  A search entry keeps the field its pointer refers to; \<open>tbl_inv\<close> says it is the field
  stored in the slot the entry names. Lengths of strings are below \<open>2 ^ 31\<close>, as \<open>compare\<close>
  returns their difference as an \<open>int\<close>.
\<close>

subsection \<open>Header fields\<close>

record header_field =
  hf_name :: bytes
  hf_value :: bytes

definition HeaderField :: "bytes \<Rightarrow> bytes \<Rightarrow> header_field" where
  "HeaderField n v = \<lparr>hf_name = n, hf_value = v\<rparr>"

definition entry_size :: "bytes \<Rightarrow> bytes \<Rightarrow> nat option" where
  "entry_size name val =
     (let sum = length name + length val in if sum > 2 ^ 32 - 1 - 32 then None else Some (sum + 32))"

fun memcmp :: "bytes \<Rightarrow> bytes \<Rightarrow> int" where
  "memcmp (x # xs) (y # ys) = (if x = y then memcmp xs ys else int (unat x) - int (unat y))"
| "memcmp _ _ = 0"

definition compare :: "bytes \<Rightarrow> bytes \<Rightarrow> int" where
  "compare lhs rhs =
     (let cmp = memcmp lhs rhs in if cmp \<noteq> 0 then cmp else int (length lhs) - int (length rhs))"

subsection \<open>The static part\<close>

definition static_pairs :: "(string \<times> string) list" where
  "static_pairs = [
    ('':authority'', ''''),
    ('':method'', ''GET''),
    ('':method'', ''POST''),
    ('':path'', ''/''),
    ('':path'', ''/index.html''),
    ('':scheme'', ''http''),
    ('':scheme'', ''https''),
    ('':status'', ''200''),
    ('':status'', ''204''),
    ('':status'', ''206''),
    ('':status'', ''304''),
    ('':status'', ''400''),
    ('':status'', ''404''),
    ('':status'', ''500''),
    (''accept-charset'', ''''),
    (''accept-encoding'', ''gzip, deflate''),
    (''accept-language'', ''''),
    (''accept-ranges'', ''''),
    (''accept'', ''''),
    (''access-control-allow-origin'', ''''),
    (''age'', ''''),
    (''allow'', ''''),
    (''authorization'', ''''),
    (''cache-control'', ''''),
    (''content-disposition'', ''''),
    (''content-encoding'', ''''),
    (''content-language'', ''''),
    (''content-length'', ''''),
    (''content-location'', ''''),
    (''content-range'', ''''),
    (''content-type'', ''''),
    (''cookie'', ''''),
    (''date'', ''''),
    (''etag'', ''''),
    (''expect'', ''''),
    (''expires'', ''''),
    (''from'', ''''),
    (''host'', ''''),
    (''if-match'', ''''),
    (''if-modified-since'', ''''),
    (''if-none-match'', ''''),
    (''if-range'', ''''),
    (''if-unmodified-since'', ''''),
    (''last-modified'', ''''),
    (''link'', ''''),
    (''location'', ''''),
    (''max-forwards'', ''''),
    (''proxy-authenticate'', ''''),
    (''proxy-authorization'', ''''),
    (''range'', ''''),
    (''referer'', ''''),
    (''refresh'', ''''),
    (''retry-after'', ''''),
    (''server'', ''''),
    (''set-cookie'', ''''),
    (''strict-transport-security'', ''''),
    (''transfer-encoding'', ''''),
    (''user-agent'', ''''),
    (''vary'', ''''),
    (''via'', ''''),
    (''www-authenticate'', '''')]"

definition staticPart :: "header_field list" where
  "staticPart = map (\<lambda>(n, v). HeaderField (chars n) (chars v)) static_pairs"

datatype compare_mode = nameOnly | nameAndValue

definition field_before :: "compare_mode \<Rightarrow> header_field \<Rightarrow> header_field \<Rightarrow> bool" where
  "field_before mode lhs rhs =
     (let cmp = compare (hf_name lhs) (hf_name rhs)
      in if cmp \<noteq> 0 then cmp < 0
         else if mode = nameAndValue then compare (hf_value lhs) (hf_value rhs) < 0
         else False)"

text \<open>Iterators of the static part are positions; \<open>length staticPart\<close> is \<open>end()\<close>.\<close>

definition acceptPos :: nat where "acceptPos = 18"

definition findInStaticPart :: "header_field \<Rightarrow> compare_mode \<Rightarrow> nat" where
  "findInStaticPart f mode =
     (if hf_name f = chars ''accept''
      then if mode = nameAndValue \<and> hf_value f \<noteq> [] then length staticPart else acceptPos
      else let staticPos = lower_bound (field_before mode) f (take acceptPos staticPart)
           in if staticPos \<noteq> acceptPos then staticPos
              else Suc acceptPos + lower_bound (field_before mode) f (drop (Suc acceptPos) staticPart))"

subsection \<open>The table\<close>

definition ChunkSize :: nat where "ChunkSize = 16"
definition DefaultSize :: nat where "DefaultSize = 4096"

record chunk =
  chunk_id :: nat
  chunk_fields :: "header_field list"

record search_entry =
  se_field :: header_field
  se_chunk :: "nat option"
  se_offset :: nat

record field_table =
  maxTableSize :: nat
  tableCapacity :: nat
  chunks :: "chunk list"
  useIndex :: bool
  searchIndex :: "search_entry list"
  nDynamic :: nat
  beginPos :: nat
  endPos :: nat
  dataSize :: nat
  allocated :: nat

definition FieldLookupTable :: "nat \<Rightarrow> bool \<Rightarrow> field_table" where
  "FieldLookupTable maxSize use =
     \<lparr>maxTableSize = maxSize, tableCapacity = maxSize, chunks = [], useIndex = use, searchIndex = [],
      nDynamic = 0, beginPos = 0, endPos = 0, dataSize = 0, allocated = 0\<rparr>"

text \<open>\<open>indexOfChunk\<close>; the value after the loop is the one of \<open>Q_UNREACHABLE_RETURN(0)\<close>.\<close>

definition indexOfChunk :: "field_table \<Rightarrow> nat \<Rightarrow> nat" where
  "indexOfChunk t c =
     (let i = length (takeWhile (\<lambda>ch. chunk_id ch \<noteq> c) (chunks t))
      in if i < length (chunks t) then i else 0)"

definition se_less :: "field_table \<Rightarrow> search_entry \<Rightarrow> search_entry \<Rightarrow> bool" where
  "se_less t lhs rhs =
     (let cmp = compare (hf_name (se_field lhs)) (hf_name (se_field rhs));
          cmp2 = compare (hf_value (se_field lhs)) (hf_value (se_field rhs))
      in if cmp \<noteq> 0 then cmp < 0
         else if cmp2 \<noteq> 0 then cmp2 < 0
         else case se_chunk lhs of
                None \<Rightarrow> se_chunk rhs \<noteq> None
              | Some lc \<Rightarrow>
                  (case se_chunk rhs of
                     None \<Rightarrow> False
                   | Some rc \<Rightarrow>
                       let leftChunkIndex = indexOfChunk t lc; rightChunkIndex = indexOfChunk t rc
                       in if leftChunkIndex \<noteq> rightChunkIndex then leftChunkIndex > rightChunkIndex
                          else se_offset lhs > se_offset rhs))"

definition slot :: "field_table \<Rightarrow> nat \<Rightarrow> header_field" where
  "slot t absIndex = chunk_fields (chunks t ! (absIndex div ChunkSize)) ! (absIndex mod ChunkSize)"

definition frontField :: "field_table \<Rightarrow> header_field" where
  "frontField t = chunk_fields (chunks t ! 0) ! beginPos t"

definition backField :: "field_table \<Rightarrow> header_field" where
  "backField t = slot t (endPos t - 1)"

definition frontKey :: "field_table \<Rightarrow> search_entry" where
  "frontKey t = \<lparr>se_field = frontField t, se_chunk = Some (chunk_id (chunks t ! 0)), se_offset = beginPos t\<rparr>"

definition backKey :: "field_table \<Rightarrow> search_entry" where
  "backKey t =
     \<lparr>se_field = backField t, se_chunk = Some (chunk_id (chunks t ! ((endPos t - 1) div ChunkSize))),
      se_offset = (endPos t - 1) mod ChunkSize\<rparr>"

definition clearDynamicTable :: "field_table \<Rightarrow> field_table" where
  "clearDynamicTable t = t\<lparr>searchIndex := [], chunks := [], beginPos := 0, endPos := 0, nDynamic := 0, dataSize := 0\<rparr>"

definition evictEntry :: "field_table \<Rightarrow> field_table" where
  "evictEntry t =
     (if nDynamic t = 0 then t
      else let t1 = (if useIndex t then t\<lparr>searchIndex := set_erase (se_less t) (backKey t) (searchIndex t)\<rparr> else t);
               f = backField t1;
               entrySize = (case entry_size (hf_name f) (hf_value f) of None \<Rightarrow> 0 | Some n \<Rightarrow> n);
               t2 = t1\<lparr>dataSize := sub32 (dataSize t1) entrySize, nDynamic := nDynamic t1 - 1, endPos := endPos t1 - 1\<rparr>
           in if endPos t2 = beginPos t2 then t2\<lparr>endPos := ChunkSize, beginPos := ChunkSize\<rparr>
              else if endPos t2 mod ChunkSize = 0 then t2\<lparr>chunks := butlast (chunks t2)\<rparr>
              else t2)"

lemma nDynamic_evictEntry [simp]: "nDynamic (evictEntry t) = nDynamic t - 1"
  by (simp add: evictEntry_def Let_def)

text \<open>The loops \<open>while (nDynamic && tableCapacity - dataSize < size) evictEntry()\<close> and
  \<open>while (nDynamic && dataSize > tableCapacity) evictEntry()\<close>.\<close>

function evict_for :: "nat \<Rightarrow> field_table \<Rightarrow> field_table" where
  "evict_for need t =
     (if nDynamic t \<noteq> 0 \<and> sub32 (tableCapacity t) (dataSize t) < need then evict_for need (evictEntry t) else t)"
  by pat_completeness auto
termination by (relation "measure (\<lambda>(need, t). nDynamic t)") auto

function evict_above :: "field_table \<Rightarrow> field_table" where
  "evict_above t =
     (if nDynamic t \<noteq> 0 \<and> dataSize t > tableCapacity t then evict_above (evictEntry t) else t)"
  by pat_completeness auto
termination by (relation "measure nDynamic") auto

declare evict_for.simps [simp del] evict_above.simps [simp del]

definition put_front :: "header_field \<Rightarrow> field_table \<Rightarrow> field_table" where
  "put_front f t = t\<lparr>chunks := (chunks t)[0 := (chunks t ! 0)\<lparr>chunk_fields := (chunk_fields (chunks t ! 0))[beginPos t := f]\<rparr>]\<rparr>"

definition prependField :: "bytes \<Rightarrow> bytes \<Rightarrow> field_table \<Rightarrow> bool \<times> field_table" where
  "prependField name val t =
     (case entry_size name val of
        None \<Rightarrow> (False, t)
      | Some entrySize \<Rightarrow>
          if entrySize > tableCapacity t then (True, clearDynamicTable t)
          else let t = evict_for entrySize t;
                   t = (if beginPos t = 0
                        then t\<lparr>chunks := \<lparr>chunk_id = allocated t, chunk_fields = replicate ChunkSize (HeaderField [] [])\<rparr> # chunks t,
                               allocated := Suc (allocated t), endPos := endPos t + ChunkSize, beginPos := ChunkSize\<rparr>
                        else t);
                   t = t\<lparr>beginPos := beginPos t - 1, dataSize := add32 (dataSize t) entrySize, nDynamic := nDynamic t + 1\<rparr>;
                   t = put_front (HeaderField name val) t
               in (True, if useIndex t then t\<lparr>searchIndex := set_insert (se_less t) (frontKey t) (searchIndex t)\<rparr> else t))"

definition numberOfEntries :: "field_table \<Rightarrow> nat" where
  "numberOfEntries t = length staticPart + nDynamic t"

definition indexIsValid :: "nat \<Rightarrow> field_table \<Rightarrow> bool" where
  "indexIsValid index t \<longleftrightarrow> index \<noteq> 0 \<and> index \<le> length staticPart + nDynamic t"

definition keyToIndex :: "field_table \<Rightarrow> search_entry \<Rightarrow> nat" where
  "keyToIndex t key =
     (case se_chunk key of
        None \<Rightarrow> 0
      | Some c \<Rightarrow> (se_offset key + indexOfChunk t c * ChunkSize - beginPos t + 1 + length staticPart) mod 2 ^ 32)"

definition indexOf :: "bytes \<Rightarrow> bytes \<Rightarrow> field_table \<Rightarrow> nat" where
  "indexOf name val t =
     (let f = HeaderField name val;
          staticPos = findInStaticPart f nameAndValue
      in if staticPos \<noteq> length staticPart \<and> hf_name (staticPart ! staticPos) = name \<and> hf_value (staticPart ! staticPos) = val
         then staticPos + 1
         else if \<not> useIndex t then 0
         else case set_lower_bound (se_less t) \<lparr>se_field = f, se_chunk = None, se_offset = 0\<rparr> (searchIndex t) of
                None \<Rightarrow> 0
              | Some pos \<Rightarrow> if hf_name (se_field pos) = name \<and> hf_value (se_field pos) = val then keyToIndex t pos else 0)"

definition indexOfName :: "bytes \<Rightarrow> field_table \<Rightarrow> nat" where
  "indexOfName name t =
     (let f = HeaderField name [];
          staticPos = findInStaticPart f nameOnly
      in if staticPos \<noteq> length staticPart \<and> hf_name (staticPart ! staticPos) = name
         then staticPos + 1
         else if \<not> useIndex t then 0
         else case set_lower_bound (se_less t) \<lparr>se_field = f, se_chunk = None, se_offset = 0\<rparr> (searchIndex t) of
                None \<Rightarrow> 0
              | Some pos \<Rightarrow> if hf_name (se_field pos) = name then keyToIndex t pos else 0)"

definition field :: "nat \<Rightarrow> field_table \<Rightarrow> header_field option" where
  "field index t =
     (if \<not> indexIsValid index t then None
      else if index - 1 < length staticPart then Some (staticPart ! (index - 1))
      else Some (slot t ((index - 1 - length staticPart + beginPos t) mod 2 ^ 32)))"

definition fieldName :: "nat \<Rightarrow> field_table \<Rightarrow> bytes option" where
  "fieldName index t = map_option hf_name (field index t)"

definition fieldValue :: "nat \<Rightarrow> field_table \<Rightarrow> bytes option" where
  "fieldValue index t = map_option hf_value (field index t)"

definition updateDynamicTableSize :: "nat \<Rightarrow> field_table \<Rightarrow> bool \<times> field_table" where
  "updateDynamicTableSize newSize t =
     (if newSize = 0 then (True, (clearDynamicTable t)\<lparr>tableCapacity := 0\<rparr>)
      else if newSize > maxTableSize t then (False, t)
      else (True, evict_above (t\<lparr>tableCapacity := newSize\<rparr>)))"

definition setMaxDynamicTableSize :: "nat \<Rightarrow> field_table \<Rightarrow> field_table" where
  "setMaxDynamicTableSize newSize t = t\<lparr>maxTableSize := newSize\<rparr>"


subsection \<open>The comparisons are lexicographic orders\<close>

lemma memcmp_spec:
  "(memcmp xs ys < 0 \<longrightarrow> xs < ys) \<and> (memcmp xs ys > 0 \<longrightarrow> ys < xs)
   \<and> (memcmp xs ys = 0 \<longrightarrow> take (min (length xs) (length ys)) xs = take (min (length xs) (length ys)) ys)"
  by (induction xs ys rule: memcmp.induct) (auto simp: word_less_def word_uint_eq_iff)

lemma less_prefix: "take (length xs) ys = xs \<Longrightarrow> length xs < length ys \<Longrightarrow> xs < (ys :: bytes)"
proof (induction xs arbitrary: ys)
  case Nil then show ?case by (cases ys) simp_all
next
  case (Cons x xs) then show ?case by (cases ys) auto
qed

lemma compare_spec: "(compare xs ys < 0 \<longrightarrow> xs < ys) \<and> (compare xs ys > 0 \<longrightarrow> ys < xs)
   \<and> (compare xs ys = 0 \<longrightarrow> xs = ys)"
proof (cases "memcmp xs ys = 0")
  case False
  with memcmp_spec [of xs ys] show ?thesis by (auto simp: compare_def)
next
  case True
  with memcmp_spec [of xs ys]
  have t: "take (min (length xs) (length ys)) xs = take (min (length xs) (length ys)) ys" by blast
  have "length xs < length ys \<Longrightarrow> xs < ys" using t less_prefix [of xs ys] by simp
  moreover have "length ys < length xs \<Longrightarrow> ys < xs" using t less_prefix [of ys xs] by (simp add: min_def)
  moreover have "length xs = length ys \<Longrightarrow> xs = ys" using t by simp
  ultimately show ?thesis using True by (auto simp: compare_def)
qed

lemma compare_less [simp]: "compare xs ys < 0 \<longleftrightarrow> xs < ys"
  using compare_spec [of xs ys] by (metis linorder_neqE_linordered_idom order_less_asym order_less_irrefl)

lemma compare_eq [simp]: "compare xs ys = 0 \<longleftrightarrow> xs = ys"
  using compare_spec [of xs ys] by (metis linorder_neqE_linordered_idom order_less_irrefl)

definition se_rank :: "field_table \<Rightarrow> search_entry \<Rightarrow> bytes \<times> bytes \<times> int \<times> int \<times> int" where
  "se_rank t e = (hf_name (se_field e), hf_value (se_field e),
     (case se_chunk e of None \<Rightarrow> (0, 0, 0) | Some c \<Rightarrow> (1, - int (indexOfChunk t c), - int (se_offset e))))"

lemma se_less_rank: "se_less t x y \<longleftrightarrow> se_rank t x < se_rank t y"
  by (auto simp: se_less_def se_rank_def Let_def split: option.splits)

interpretation search_index: ranked_set "se_less t" "se_rank t" for t
  by unfold_locales (rule se_less_rank)

definition name_rank :: "header_field \<Rightarrow> bytes" where "name_rank = hf_name"

definition pair_rank :: "header_field \<Rightarrow> bytes \<times> bytes" where "pair_rank f = (hf_name f, hf_value f)"

interpretation static_names: ranked_set "field_before nameOnly" name_rank
  by unfold_locales (auto simp: field_before_def name_rank_def Let_def)

interpretation static_pairs: ranked_set "field_before nameAndValue" pair_rank
  by unfold_locales (auto simp: field_before_def pair_rank_def Let_def)

lemma length_static [simp]: "length staticPart = 61"
  by (simp add: staticPart_def static_pairs_def)

text \<open>Apart from \<open>accept\<close> the static part is strictly sorted.\<close>

definition static_rest :: "header_field list" where
  "static_rest = take acceptPos staticPart @ drop (Suc acceptPos) staticPart"

lemma static_rest_sorted: "sorted_wrt (field_before nameAndValue) static_rest"
  by (simp add: static_rest_def staticPart_def static_pairs_def acceptPos_def HeaderField_def chars_def
      sorted_wrt2 [OF static_pairs.transp_lt] field_before_def sorted_wrt1 del: sorted_wrt.simps(2))

lemma accept_nth: "staticPart ! 18 = HeaderField (chars ''accept'') []"
  by (simp add: staticPart_def static_pairs_def chars_def)

lemma accept_not_rest: "\<forall>f \<in> set static_rest. hf_name f \<noteq> chars ''accept''"
  by (simp add: static_rest_def staticPart_def static_pairs_def acceptPos_def HeaderField_def chars_def)

lemma static_nth: "p < 18 \<Longrightarrow> static_rest ! p = staticPart ! p"
  "18 \<le> p \<Longrightarrow> p < 60 \<Longrightarrow> static_rest ! p = staticPart ! Suc p"
  by (simp_all add: static_rest_def acceptPos_def nth_append)

lemma length_static_rest [simp]: "length static_rest = 60"
  by (simp add: static_rest_def acceptPos_def)

lemma findInStaticPart_rest:
  assumes "hf_name f \<noteq> chars ''accept''"
  shows "findInStaticPart f mode =
    (let p = lower_bound (field_before mode) f static_rest in if p < 18 then p else Suc p)"
proof -
  have l: "length (take acceptPos staticPart) = 18" by (simp add: acceptPos_def)
  have "lower_bound (field_before mode) f (take acceptPos staticPart) \<le> 18"
    unfolding lower_bound_def using length_takeWhile_le [of _ "take acceptPos staticPart"] l by metis
  then show ?thesis using assms l
    by (auto simp: findInStaticPart_def Let_def static_rest_def lower_bound_append acceptPos_def)
qed

lemma set_static: "set staticPart = insert (HeaderField (chars ''accept'') []) (set static_rest)"
proof -
  have "staticPart = take 18 staticPart @ staticPart ! 18 # drop (Suc 18) staticPart"
    by (rule id_take_nth_drop) simp
  then have "set staticPart = set (take 18 staticPart @ staticPart ! 18 # drop (Suc 18) staticPart)" by simp
  also have "\<dots> = insert (HeaderField (chars ''accept'') []) (set static_rest)"
    by (auto simp: static_rest_def acceptPos_def accept_nth)
  finally show ?thesis .
qed

lemma findInStaticPart_pair:
  assumes "f \<in> set staticPart"
  shows "findInStaticPart f nameAndValue < 61 \<and> staticPart ! findInStaticPart f nameAndValue = f"
proof (cases "hf_name f = chars ''accept''")
  case True
  with assms accept_not_rest have "f = HeaderField (chars ''accept'') []" by (auto simp: set_static)
  then show ?thesis using True
    by (simp add: findInStaticPart_def acceptPos_def accept_nth HeaderField_def)
next
  case False
  then have m: "f \<in> set static_rest" using assms by (auto simp: set_static HeaderField_def)
  let ?p = "lower_bound (field_before nameAndValue) f static_rest"
  from static_pairs.lower_bound_found [OF static_pairs.strict_sorted [OF static_rest_sorted] m refl]
  have p: "?p < 60" "pair_rank (static_rest ! ?p) = pair_rank f" by auto
  then have "static_rest ! ?p = f" by (simp add: pair_rank_def)
  then show ?thesis using p(1) False static_nth [of ?p] by (auto simp: findInStaticPart_rest Let_def)
qed

lemma static_names_sorted: "sorted_wrt (\<lambda>x y. name_rank x \<le> name_rank y) static_rest"
  by (rule sorted_wrt_mono_rel [OF _ static_rest_sorted])
     (auto simp: static_pairs.less_rank pair_rank_def name_rank_def)

lemma findInStaticPart_name:
  assumes "g \<in> set staticPart" "hf_name g = hf_name f"
  shows "findInStaticPart f nameOnly < 61 \<and> hf_name (staticPart ! findInStaticPart f nameOnly) = hf_name f"
proof (cases "hf_name f = chars ''accept''")
  case True
  then show ?thesis
    by (simp add: findInStaticPart_def acceptPos_def accept_nth HeaderField_def)
next
  case False
  then have m: "g \<in> set static_rest" using assms by (auto simp: set_static HeaderField_def)
  let ?p = "lower_bound (field_before nameOnly) f static_rest"
  from static_names.lower_bound_found [OF static_names_sorted m, of f] assms(2)
  have p: "?p < 60" "hf_name (static_rest ! ?p) = hf_name f" by (auto simp: name_rank_def)
  then show ?thesis using False static_nth [of ?p] by (auto simp: findInStaticPart_rest Let_def)
qed

lemma findInStaticPart_le: "findInStaticPart f mode \<le> 61"
proof (cases "hf_name f = chars ''accept''")
  case True then show ?thesis by (simp add: findInStaticPart_def acceptPos_def)
next
  case False
  have "lower_bound (field_before mode) f static_rest \<le> 60"
    unfolding lower_bound_def using length_takeWhile_le [of _ static_rest] by simp
  with False show ?thesis by (simp add: findInStaticPart_rest Let_def)
qed


subsection \<open>Well-formed tables\<close>

text \<open>The dynamic part as a list, the newest field first.\<close>

definition dyn :: "field_table \<Rightarrow> header_field list" where
  "dyn t = map (\<lambda>i. slot t (beginPos t + i)) [0..<nDynamic t]"

definition fsize :: "header_field \<Rightarrow> nat" where
  "fsize f = length (hf_name f) + length (hf_value f) + 32"

definition table_shape :: "field_table \<Rightarrow> bool" where
  "table_shape t \<longleftrightarrow>
     (\<forall>c \<in> set (chunks t). length (chunk_fields c) = 16 \<and> chunk_id c < allocated t)
     \<and> distinct (map chunk_id (chunks t))
     \<and> endPos t = beginPos t + nDynamic t
     \<and> (if chunks t = [] then beginPos t = 0 \<and> nDynamic t = 0
        else 16 * (length (chunks t) - 1) < endPos t \<and> endPos t \<le> 16 * length (chunks t)
          \<and> (if nDynamic t = 0 then beginPos t = 16 else beginPos t < 16))"

definition table_sizes :: "field_table \<Rightarrow> bool" where
  "table_sizes t \<longleftrightarrow> dataSize t = sum_list (map fsize (dyn t)) \<and> dataSize t < 2 ^ 32
     \<and> tableCapacity t < 2 ^ 32 \<and> maxTableSize t < 2 ^ 32"

definition key_at :: "field_table \<Rightarrow> nat \<Rightarrow> search_entry" where
  "key_at t i =
     \<lparr>se_field = dyn t ! i, se_chunk = Some (chunk_id (chunks t ! ((beginPos t + i) div 16))),
      se_offset = (beginPos t + i) mod 16\<rparr>"

definition table_index :: "field_table \<Rightarrow> bool" where
  "table_index t \<longleftrightarrow>
     (if useIndex t
      then sorted_wrt (se_less t) (searchIndex t) \<and> set (searchIndex t) = key_at t ` {..<nDynamic t}
      else searchIndex t = [])"

definition tbl_ok :: "field_table \<Rightarrow> bool" where
  "tbl_ok t \<longleftrightarrow> table_shape t \<and> table_sizes t \<and> table_index t"

text \<open>Between operations the fields also fit the capacity.\<close>

definition tbl_inv :: "field_table \<Rightarrow> bool" where
  "tbl_inv t \<longleftrightarrow> tbl_ok t \<and> dataSize t \<le> tableCapacity t"

lemma length_dyn [simp]: "length (dyn t) = nDynamic t"
  by (simp add: dyn_def)

lemma dyn_nth: "i < nDynamic t \<Longrightarrow> dyn t ! i = slot t (beginPos t + i)"
  by (simp add: dyn_def)

lemma dyn_eqI: "nDynamic t = length fs \<Longrightarrow> (\<And>i. i < length fs \<Longrightarrow> slot t (beginPos t + i) = fs ! i) \<Longrightarrow> dyn t = fs"
  by (rule nth_equalityI) (simp_all add: dyn_nth)

lemma table_init: "n < 2 ^ 32 \<Longrightarrow> tbl_inv (FieldLookupTable n use) \<and> dyn (FieldLookupTable n use) = []"
  by (simp add: tbl_inv_def tbl_ok_def table_shape_def table_sizes_def table_index_def dyn_def FieldLookupTable_def)

lemma clearDynamicTable_spec:
  "tbl_inv t \<Longrightarrow> tbl_inv (clearDynamicTable t) \<and> dyn (clearDynamicTable t) = []"
  by (simp add: tbl_inv_def tbl_ok_def table_shape_def table_sizes_def table_index_def dyn_def clearDynamicTable_def)

lemma entry_size_field:
  "entry_size n v = Some k \<longleftrightarrow> k = fsize (HeaderField n v) \<and> k < 2 ^ 32"
  by (auto simp: entry_size_def fsize_def HeaderField_def Let_def)

lemma indexOfChunk_nth:
  assumes "table_shape t" "k < length (chunks t)"
  shows "indexOfChunk t (chunk_id (chunks t ! k)) = k"
proof -
  have d: "distinct (map chunk_id (chunks t))" using assms(1) by (simp add: table_shape_def)
  have "takeWhile (\<lambda>ch. chunk_id ch \<noteq> chunk_id (chunks t ! k)) (chunks t) = take k (chunks t)"
  proof (rule takeWhile_eq_take_P_nth)
    fix i assume "i < k" "i < length (chunks t)"
    with d assms(2) show "chunk_id (chunks t ! i) \<noteq> chunk_id (chunks t ! k)"
      by (auto simp: distinct_conv_nth)
  qed simp
  with assms(2) show ?thesis by (simp add: indexOfChunk_def)
qed

lemma slot_chunk:
  assumes "table_shape t" "i < nDynamic t"
  shows "(beginPos t + i) div 16 < length (chunks t)"
proof -
  have "beginPos t + i < 16 * length (chunks t)" "chunks t \<noteq> []"
    using assms by (auto simp: table_shape_def split: if_splits)
  then show ?thesis by (simp add: div_less_iff_less_mult mult.commute)
qed

lemma position_order:
  "((- int (a div 16), - int (a mod 16)) < (- int (b div 16), - int (b mod 16))) \<longleftrightarrow> b < (a :: nat)"
proof -
  have "a = 16 * (a div 16) + a mod 16" "b = 16 * (b div 16) + b mod 16" by simp_all
  moreover have "a mod 16 < 16" "b mod 16 < 16" by simp_all
  ultimately have "b < a \<longleftrightarrow> b div 16 < a div 16 \<or> b div 16 = a div 16 \<and> b mod 16 < a mod 16"
    by linarith
  then show ?thesis by auto
qed

definition field_rank :: "header_field \<Rightarrow> nat \<Rightarrow> bytes \<times> bytes \<times> int" where
  "field_rank f i = (hf_name f, hf_value f, - int i)"

lemma key_order:
  assumes "table_shape t" "i < nDynamic t" "j < nDynamic t"
  shows "se_less t (key_at t i) (key_at t j) \<longleftrightarrow> field_rank (dyn t ! i) i < field_rank (dyn t ! j) j"
  using indexOfChunk_nth [OF assms(1) slot_chunk [OF assms(1,2)]]
    indexOfChunk_nth [OF assms(1) slot_chunk [OF assms(1,3)]]
    position_order [of "beginPos t + i" "beginPos t + j"]
  by (auto simp: se_less_rank se_rank_def key_at_def field_rank_def)

text \<open>An entry names the same slot in a table that keeps the slot, and the order of the entries
  of two positions depends only on the fields and on which of them is newer.\<close>

lemma keys_sorted_transfer:
  assumes "sorted_wrt (se_less t) xs" "table_shape t" "table_shape t'"
    and "\<And>e. e \<in> set xs \<Longrightarrow> \<exists>i < nDynamic t. e = key_at t i \<and> i + d < d' + nDynamic t' \<and> d' \<le> i + d \<and> key_at t' (i + d - d') = e"
  shows "sorted_wrt (se_less t') xs"
proof (rule sorted_wrt_mono_rel [OF _ assms(1)])
  fix x y assume xy: "x \<in> set xs" "y \<in> set xs" "se_less t x y"
  obtain i where i: "i < nDynamic t" "x = key_at t i" "d' \<le> i + d" "i + d - d' < nDynamic t'" "key_at t' (i + d - d') = x"
    using assms(4) [OF xy(1)] by auto
  obtain j where j: "j < nDynamic t" "y = key_at t j" "d' \<le> j + d" "j + d - d' < nDynamic t'" "key_at t' (j + d - d') = y"
    using assms(4) [OF xy(2)] by auto
  have f: "dyn t' ! (i + d - d') = dyn t ! i" "dyn t' ! (j + d - d') = dyn t ! j"
    using i(2,5) j(2,5) by (simp_all add: key_at_def)
  have "field_rank (dyn t ! i) i < field_rank (dyn t ! j) j"
    using xy(3) key_order [OF assms(2) i(1) j(1)] i(2) j(2) by simp
  then have "field_rank (dyn t' ! (i + d - d')) (i + d - d') < field_rank (dyn t' ! (j + d - d')) (j + d - d')"
    using i(3) j(3) unfolding f by (auto simp: field_rank_def)
  then show "se_less t' x y" using key_order [OF assms(3) i(4) j(4)] i(5) j(5) by simp
qed

subsection \<open>Eviction\<close>

lemma evict_parts:
  assumes "nDynamic t \<noteq> 0" "table_shape t"
  shows "table_shape (evictEntry t)" "dyn (evictEntry t) = butlast (dyn t)"
    "useIndex (evictEntry t) = useIndex t"
    "i < nDynamic t - 1 \<Longrightarrow> key_at (evictEntry t) i = key_at t i"
    "tableCapacity (evictEntry t) = tableCapacity t" "maxTableSize (evictEntry t) = maxTableSize t"
    "searchIndex (evictEntry t) =
       (if useIndex t then set_erase (se_less t) (backKey t) (searchIndex t) else searchIndex t)"
    "dataSize (evictEntry t) = sub32 (dataSize t)
       (case entry_size (hf_name (backField t)) (hf_value (backField t)) of None \<Rightarrow> 0 | Some n \<Rightarrow> n)"
proof -
  have ch: "chunks t \<noteq> []" "beginPos t < 16" "endPos t = beginPos t + nDynamic t"
     "16 * (length (chunks t) - 1) < endPos t" "endPos t \<le> 16 * length (chunks t)"
    using assms by (auto simp: table_shape_def split: if_splits)
  consider (empty) "endPos t - 1 = beginPos t" | (drop) "endPos t - 1 \<noteq> beginPos t" "(endPos t - 1) mod 16 = 0"
    | (keep) "endPos t - 1 \<noteq> beginPos t" "(endPos t - 1) mod 16 \<noteq> 0" by blast
  then have ev: "table_shape (evictEntry t) \<and> (\<forall>i < nDynamic t - 1. slot (evictEntry t) (beginPos (evictEntry t) + i) = slot t (beginPos t + i)
     \<and> chunk_id (chunks (evictEntry t) ! ((beginPos (evictEntry t) + i) div 16)) = chunk_id (chunks t ! ((beginPos t + i) div 16))
     \<and> beginPos (evictEntry t) = beginPos t)"
  proof cases
    case empty
    then have n: "nDynamic t = 1" "endPos t \<le> 16" using ch by linarith+
    have "0 < length (chunks t)" using ch(1) by simp
    then have l: "length (chunks t) = 1" using n(2) ch(4) by linarith
    have c: "chunks (evictEntry t) = chunks t" "beginPos (evictEntry t) = 16"
      "endPos (evictEntry t) = 16" "allocated (evictEntry t) = allocated t"
      using n(1) empty by (simp_all add: evictEntry_def Let_def ChunkSize_def)
    have "table_shape (evictEntry t)" using assms(2) ch(1) n(1) l by (simp add: table_shape_def c)
    then show ?thesis using n(1) by simp
  next
    case drop
    from drop(2) obtain q where q: "endPos t - 1 = 16 * q" by (metis mod_0_imp_dvd dvd_def)
    have "q = length (chunks t) - 1"
      using q ch(4,5) by (cases "length (chunks t)") auto
    then have e: "endPos t - 1 = 16 * (length (chunks t) - 1)" using q by simp
    have l: "2 \<le> length (chunks t)"
    proof (rule ccontr)
      assume "\<not> 2 \<le> length (chunks t)"
      then have "endPos t - 1 = 0" using e by simp
      then show False using ch assms(1) drop by simp
    qed
    have c: "chunks (evictEntry t) = butlast (chunks t)" "beginPos (evictEntry t) = beginPos t"
      "endPos (evictEntry t) = endPos t - 1" "allocated (evictEntry t) = allocated t"
      using assms(1) drop by (simp_all add: evictEntry_def Let_def ChunkSize_def)
    have "butlast (chunks t) \<noteq> []" using l by (cases "chunks t") (auto simp: butlast_conv_take)
    moreover have "\<forall>c \<in> set (butlast (chunks t)). length (chunk_fields c) = 16 \<and> chunk_id c < allocated t"
      using assms(2) by (auto simp: table_shape_def dest!: in_set_butlastD)
    moreover have "distinct (map chunk_id (butlast (chunks t)))"
      using assms(2) by (simp add: table_shape_def map_butlast distinct_butlast)
    moreover have "nDynamic t \<noteq> 1" using ch(3) drop(1) by auto
    then have "nDynamic t - 1 \<noteq> 0" using assms(1) by simp
    moreover have "endPos t - 1 = beginPos t + (nDynamic t - 1)" using ch assms(1) by linarith
    moreover have "16 * (length (chunks t) - 1 - 1) < endPos t - 1" using e l by linarith
    ultimately have sh: "table_shape (evictEntry t)"
      using ch(2) e by (simp add: table_shape_def c)
    have "(beginPos t + i) div 16 < length (chunks t) - 1" if "i < nDynamic t - 1" for i
    proof -
      have "beginPos t + i < (length (chunks t) - 1) * 16" using that e ch(3) by linarith
      then show ?thesis by (simp add: div_less_iff_less_mult)
    qed
    then show ?thesis using sh by (simp add: c slot_def ChunkSize_def nth_butlast)
  next
    case keep
    have "16 * (length (chunks t) - 1) \<noteq> endPos t - 1" using keep(2) by (metis mod_mult_self1_is_0)
    then have "16 * (length (chunks t) - 1) < endPos t - 1" using ch by linarith
    moreover have c: "chunks (evictEntry t) = chunks t" "beginPos (evictEntry t) = beginPos t"
      "endPos (evictEntry t) = endPos t - 1" "allocated (evictEntry t) = allocated t"
      using assms(1) keep by (simp_all add: evictEntry_def Let_def ChunkSize_def)
    moreover have "nDynamic t \<noteq> 1" using ch(3) keep(1) by auto
    moreover have "endPos t - 1 = beginPos t + (nDynamic t - 1)" "endPos t - 1 \<le> 16 * length (chunks t)"
      using ch assms(1) by linarith+
    ultimately have "table_shape (evictEntry t)"
      using ch(1,2) assms by (simp add: table_shape_def)
    then show ?thesis by (simp add: c slot_def)
  qed
  then show "table_shape (evictEntry t)" by blast
  show d: "dyn (evictEntry t) = butlast (dyn t)"
    using ev by (intro dyn_eqI) (metis nDynamic_evictEntry length_butlast length_dyn, simp add: nth_butlast dyn_nth, metis)
  show "i < nDynamic t - 1 \<Longrightarrow> key_at (evictEntry t) i = key_at t i"
  proof -
    assume i: "i < nDynamic t - 1"
    have "beginPos (evictEntry t) = beginPos t
        \<and> chunk_id (chunks (evictEntry t) ! ((beginPos t + i) div 16)) = chunk_id (chunks t ! ((beginPos t + i) div 16))"
      using ev i by metis
    then show ?thesis using i by (simp add: key_at_def d nth_butlast)
  qed
  show "useIndex (evictEntry t) = useIndex t" "tableCapacity (evictEntry t) = tableCapacity t"
    "maxTableSize (evictEntry t) = maxTableSize t"
    "searchIndex (evictEntry t) =
       (if useIndex t then set_erase (se_less t) (backKey t) (searchIndex t) else searchIndex t)"
    "dataSize (evictEntry t) = sub32 (dataSize t)
       (case entry_size (hf_name (backField t)) (hf_value (backField t)) of None \<Rightarrow> 0 | Some n \<Rightarrow> n)"
    using assms(1) by (simp_all add: evictEntry_def Let_def backField_def slot_def)
qed

lemma backKey_key_at:
  assumes "nDynamic t \<noteq> 0" "table_shape t"
  shows "backKey t = key_at t (nDynamic t - 1)" "backField t = last (dyn t)"
proof -
  have e: "endPos t - 1 = beginPos t + (nDynamic t - 1)"
    using assms by (simp add: table_shape_def)
  have d: "dyn t \<noteq> []" using assms(1) length_dyn [of t] by (metis list.size(3))
  show b: "backField t = last (dyn t)"
    using assms(1) by (simp only: backField_def e last_conv_nth [OF d] length_dyn) (simp add: dyn_nth)
  show "backKey t = key_at t (nDynamic t - 1)"
    unfolding backKey_def key_at_def b e ChunkSize_def last_conv_nth [OF d] length_dyn by (rule refl)
qed

lemma key_at_inject:
  assumes "table_shape t" "i < nDynamic t" "j < nDynamic t"
  shows "se_rank t (key_at t i) = se_rank t (key_at t j) \<longleftrightarrow> i = j"
proof
  assume eq: "se_rank t (key_at t i) = se_rank t (key_at t j)"
  then have "\<not> se_less t (key_at t i) (key_at t j)" "\<not> se_less t (key_at t j) (key_at t i)"
    "dyn t ! i = dyn t ! j" by (auto simp: se_less_rank se_rank_def key_at_def)
  then have "\<not> field_rank (dyn t ! j) i < field_rank (dyn t ! j) j"
    "\<not> field_rank (dyn t ! j) j < field_rank (dyn t ! j) i"
    using key_order assms by metis+
  then show "i = j" by (auto simp: field_rank_def)
qed simp

lemma evictEntry_spec:
  assumes "tbl_ok t" "nDynamic t \<noteq> 0"
  shows "tbl_ok (evictEntry t) \<and> dyn (evictEntry t) = butlast (dyn t)
    \<and> tableCapacity (evictEntry t) = tableCapacity t \<and> maxTableSize (evictEntry t) = maxTableSize t
    \<and> useIndex (evictEntry t) = useIndex t"
proof -
  from assms have inv: "table_shape t" "table_sizes t" "table_index t" by (simp_all add: tbl_ok_def)
  note p = evict_parts [OF assms(2) inv(1)]
  note bk = backKey_key_at [OF assms(2) inv(1)]
  have d: "dyn t = butlast (dyn t) @ [last (dyn t)]"
    using assms(2) length_dyn [of t] by (metis append_butlast_last_id length_0_conv)
  have sum: "sum_list (map fsize (dyn t)) = sum_list (map fsize (butlast (dyn t))) + fsize (last (dyn t))"
    using arg_cong [OF d, of "\<lambda>x. sum_list (map fsize x)"] by simp
  have sz: "dataSize t = sum_list (map fsize (dyn t))" "dataSize t < 2 ^ 32"
     "tableCapacity t < 2 ^ 32" "maxTableSize t < 2 ^ 32"
    using inv(2) by (simp_all add: table_sizes_def)
  have "entry_size (hf_name (backField t)) (hf_value (backField t)) = Some (fsize (last (dyn t)))"
    using sz sum by (simp add: bk(2) entry_size_field HeaderField_def fsize_def)
  then have "dataSize (evictEntry t) = dataSize t - fsize (last (dyn t))"
    using p(8) sz sum by (simp add: u32_simps)
  then have "table_sizes (evictEntry t)"
    using sz sum by (simp add: table_sizes_def p)
  moreover have "table_index (evictEntry t)"
  proof (cases "useIndex t")
    case False
    then show ?thesis using inv(3) p by (simp add: table_index_def)
  next
    case True
    then have si: "sorted_wrt (se_less t) (searchIndex t)" "set (searchIndex t) = key_at t ` {..<nDynamic t}"
      using inv(3) by (simp_all add: table_index_def)
    let ?xs = "set_erase (se_less t) (backKey t) (searchIndex t)"
    have "set ?xs = key_at t ` {..<nDynamic t - 1}"
      using key_at_inject [OF inv(1)] assms(2)
      by (auto simp: search_index.set_erase_elems si(2) bk(1) image_iff less_diff_conv)
    moreover have "key_at t ` {..<nDynamic t - 1} = key_at (evictEntry t) ` {..<nDynamic t - 1}"
      using p(4) by (intro image_cong) auto
    moreover have "sorted_wrt (se_less (evictEntry t)) ?xs"
    proof (rule keys_sorted_transfer [OF search_index.set_erase_sorted [OF si(1)] inv(1) p(1), where d = 0 and d' = 0])
      fix e assume "e \<in> set ?xs"
      then obtain i where "i < nDynamic t - 1" "e = key_at t i" using calculation(1) by auto
      then show "\<exists>i < nDynamic t. e = key_at t i \<and> i + 0 < 0 + nDynamic (evictEntry t) \<and> 0 \<le> i + 0
          \<and> key_at (evictEntry t) (i + 0 - 0) = e"
        using p(4) by (intro exI [of _ i]) simp
    qed
    ultimately show ?thesis using True p by (simp add: table_index_def)
  qed
  ultimately show ?thesis using p by (simp add: tbl_ok_def)
qed

subsection \<open>The table as a bounded queue\<close>

text \<open>The longest prefix whose size is at most \<open>k\<close>: what is left after evicting old fields.\<close>

fun fit :: "nat \<Rightarrow> header_field list \<Rightarrow> header_field list" where
  "fit k [] = []"
| "fit k (f # fs) = (if fsize f \<le> k then f # fit (k - fsize f) fs else [])"

definition octets :: "header_field list \<Rightarrow> nat" where
  "octets fs = sum_list (map fsize fs)"

lemma octets_simps [simp]: "octets [] = 0" "octets (f # fs) = fsize f + octets fs" "octets (fs @ gs) = octets fs + octets gs"
  by (simp_all add: octets_def)

lemma fsize_pos [simp]: "0 < fsize f"
  by (simp add: fsize_def)

lemma fit_all: "octets fs \<le> k \<Longrightarrow> fit k fs = fs"
  by (induction fs arbitrary: k) simp_all

lemma fit_octets: "octets (fit k fs) \<le> k"
proof (induction fs arbitrary: k)
  case Nil then show ?case by simp
next
  case (Cons f fs)
  from Cons [of "k - fsize f"] show ?case by auto
qed

lemma fit_butlast: "k < octets fs \<Longrightarrow> fit k fs = fit k (butlast fs)"
proof (induction fs arbitrary: k)
  case Nil then show ?case by simp
next
  case (Cons f fs)
  show ?case
  proof (cases "fs = []")
    case True then show ?thesis using Cons.prems by simp
  next
    case False
    then show ?thesis using Cons by (auto simp: less_diff_conv2 add.commute)
  qed
qed

lemma sizes_octets: "tbl_ok t \<Longrightarrow> dataSize t = octets (dyn t)"
  by (simp add: tbl_ok_def table_sizes_def octets_def)

lemma no_fields: "nDynamic t = 0 \<Longrightarrow> dyn t = []"
  by (simp add: dyn_def)

lemma evict_for_spec:
  assumes "tbl_inv t" "need \<le> tableCapacity t"
  shows "tbl_inv (evict_for need t) \<and> dyn (evict_for need t) = fit (tableCapacity t - need) (dyn t)
    \<and> tableCapacity (evict_for need t) = tableCapacity t \<and> maxTableSize (evict_for need t) = maxTableSize t
    \<and> useIndex (evict_for need t) = useIndex t"
  using assms
proof (induction need t rule: evict_for.induct)
  case (1 need t)
  have ok: "tbl_ok t" "dataSize t \<le> tableCapacity t" using "1.prems"(1) by (simp_all add: tbl_inv_def)
  then have "tableCapacity t < 2 ^ 32" by (simp add: tbl_ok_def table_sizes_def)
  from sub32_exact [OF ok(2) this]
  have s: "sub32 (tableCapacity t) (dataSize t) = tableCapacity t - octets (dyn t)"
    unfolding sizes_octets [OF ok(1)] .
  show ?case
  proof (cases "nDynamic t \<noteq> 0 \<and> sub32 (tableCapacity t) (dataSize t) < need")
    case False
    have "octets (dyn t) \<le> tableCapacity t - need"
    proof (cases "nDynamic t = 0")
      case True then show ?thesis by (simp add: no_fields)
    next
      case nz: False
      then show ?thesis using False s "1.prems"(2) ok sizes_octets [OF ok(1)] by linarith
    qed
    moreover note trans [OF evict_for.simps [of need t] if_not_P [OF False]]
    ultimately show ?thesis using "1.prems" by (simp add: fit_all)
  next
    case True
    have e: "tbl_ok (evictEntry t)" "dyn (evictEntry t) = butlast (dyn t)"
        "tableCapacity (evictEntry t) = tableCapacity t" "maxTableSize (evictEntry t) = maxTableSize t"
        "useIndex (evictEntry t) = useIndex t"
      using evictEntry_spec [OF ok(1)] True by auto
    have "dyn t = butlast (dyn t) @ [last (dyn t)]"
      using True length_dyn [of t] by (metis append_butlast_last_id list.size(3))
    then have "octets (butlast (dyn t)) \<le> octets (dyn t)" by (metis le_add1 octets_simps(3))
    then have inv: "tbl_inv (evictEntry t)"
      using e ok sizes_octets [OF e(1)] sizes_octets [OF ok(1)] by (simp add: tbl_inv_def)
    have "tableCapacity t - need < octets (dyn t)" using True s "1.prems"(2) by linarith
    then have "fit (tableCapacity t - need) (dyn t) = fit (tableCapacity t - need) (butlast (dyn t))"
      by (rule fit_butlast)
    then show ?thesis using "1.IH" [OF True inv] "1.prems"(2) True e
      by (simp add: evict_for.simps [of need t])
  qed
qed

lemma evict_above_spec:
  assumes "tbl_ok t"
  shows "tbl_inv (evict_above t) \<and> dyn (evict_above t) = fit (tableCapacity t) (dyn t)
    \<and> tableCapacity (evict_above t) = tableCapacity t \<and> maxTableSize (evict_above t) = maxTableSize t
    \<and> useIndex (evict_above t) = useIndex t"
  using assms
proof (induction t rule: evict_above.induct)
  case (1 t)
  note s = sizes_octets [OF "1.prems"]
  show ?case
  proof (cases "nDynamic t \<noteq> 0 \<and> dataSize t > tableCapacity t")
    case False
    then have "octets (dyn t) \<le> tableCapacity t" using s by (cases "nDynamic t = 0") (auto simp: no_fields)
    then show ?thesis using False "1.prems" s by (simp add: evict_above.simps [of t] fit_all tbl_inv_def)
  next
    case True
    have e: "tbl_ok (evictEntry t)" "dyn (evictEntry t) = butlast (dyn t)"
        "tableCapacity (evictEntry t) = tableCapacity t" "maxTableSize (evictEntry t) = maxTableSize t"
        "useIndex (evictEntry t) = useIndex t"
      using evictEntry_spec [OF "1.prems"] True by auto
    have "fit (tableCapacity t) (dyn t) = fit (tableCapacity t) (butlast (dyn t))"
      using True s by (intro fit_butlast) simp
    then show ?thesis using "1.IH" [OF True e(1)] True e by (simp add: evict_above.simps [of t])
  qed
qed

subsection \<open>Prepending\<close>

definition with_room :: "field_table \<Rightarrow> field_table" where
  "with_room t =
     (if beginPos t = 0
      then t\<lparr>chunks := \<lparr>chunk_id = allocated t, chunk_fields = replicate ChunkSize (HeaderField [] [])\<rparr> # chunks t,
             allocated := Suc (allocated t), endPos := endPos t + ChunkSize, beginPos := ChunkSize\<rparr>
      else t)"

definition with_front :: "header_field \<Rightarrow> nat \<Rightarrow> field_table \<Rightarrow> field_table" where
  "with_front f n t = put_front f
     (t\<lparr>beginPos := beginPos t - 1, dataSize := add32 (dataSize t) n, nDynamic := nDynamic t + 1\<rparr>)"

lemma nth_update_front:
  "xs \<noteq> [] \<Longrightarrow> xs[0 := x] ! k = (if k = 0 then x else xs ! k)"
  by simp

lemma with_front_parts:
  assumes "table_shape t" "nDynamic t = 0 \<longrightarrow> dyn t = []"
  shows "table_shape (with_front f n (with_room t))" "dyn (with_front f n (with_room t)) = f # dyn t"
    "i < nDynamic t \<Longrightarrow> key_at (with_front f n (with_room t)) (Suc i) = key_at t i"
    "frontKey (with_front f n (with_room t)) = key_at (with_front f n (with_room t)) 0"
proof -
  let ?u = "with_front f n (with_room t)"
  define b where "b = (if beginPos t = 0 then 15 else beginPos t - 1)"
  define cs where "cs = (if beginPos t = 0
    then \<lparr>chunk_id = allocated t, chunk_fields = replicate 16 (HeaderField [] [])\<rparr> # chunks t else chunks t)"
  have sh: "\<forall>c \<in> set (chunks t). length (chunk_fields c) = 16 \<and> chunk_id c < allocated t"
    "distinct (map chunk_id (chunks t))" "endPos t = beginPos t + nDynamic t" "beginPos t \<le> 16"
    "beginPos t \<noteq> 0 \<Longrightarrow> chunks t \<noteq> []" "chunks t = [] \<Longrightarrow> nDynamic t = 0 \<and> beginPos t = 0"
    "chunks t \<noteq> [] \<Longrightarrow> 16 * (length (chunks t) - 1) < endPos t \<and> endPos t \<le> 16 * length (chunks t)"
    using assms(1) by (auto simp: table_shape_def split: if_splits)
  have u: "beginPos ?u = b" "chunks ?u = cs[0 := (cs ! 0)\<lparr>chunk_fields := (chunk_fields (cs ! 0))[b := f]\<rparr>]"
    "nDynamic ?u = Suc (nDynamic t)" "endPos ?u = b + Suc (nDynamic t)"
    "allocated ?u = (if beginPos t = 0 then Suc (allocated t) else allocated t)"
    using sh(3) by (auto simp: with_front_def with_room_def put_front_def b_def cs_def ChunkSize_def)
  have cs: "cs \<noteq> []" "b < 16" "\<forall>c \<in> set cs. length (chunk_fields c) = 16 \<and> chunk_id c < allocated ?u"
    "distinct (map chunk_id cs)"
    using sh by (auto simp: cs_def b_def u(5))
  have ids: "map chunk_id (chunks ?u) = map chunk_id cs"
    using cs(1) by (cases cs) (simp_all add: u)
  have lens: "16 * (length cs - 1) < b + Suc (nDynamic t) \<and> b + Suc (nDynamic t) \<le> 16 * length cs"
    using sh(3-7) by (cases "chunks t = []") (auto simp: cs_def b_def)
  have "\<forall>c \<in> set (chunks ?u). length (chunk_fields c) = 16 \<and> chunk_id c < allocated ?u"
  proof
    fix c assume "c \<in> set (chunks ?u)"
    then have "c \<in> set cs \<or> c = (cs ! 0)\<lparr>chunk_fields := (chunk_fields (cs ! 0))[b := f]\<rparr>"
      unfolding u(2) by (meson set_update_subset_insert insertE subsetD)
    moreover have "cs ! 0 \<in> set cs" using cs(1) by simp
    ultimately show "length (chunk_fields c) = 16 \<and> chunk_id c < allocated ?u" using cs(3) by auto
  qed
  then show shape: "table_shape ?u"
    using lens cs u ids by (auto simp: table_shape_def)
  have sl: "slot ?u k = (if k = b then f else slot (t\<lparr>chunks := cs\<rparr>) k)" if "k div 16 < length cs" for k
  proof (cases "k div 16 = 0")
    case True
    then have "k < 16" by simp
    with cs show ?thesis by (auto simp: slot_def u(2) ChunkSize_def nth_update_front True)
  next
    case False
    then have "k \<noteq> b" using cs(2) by auto
    with False cs(1) show ?thesis by (auto simp: slot_def u(2) ChunkSize_def nth_update_front)
  qed
  have up: "slot (t\<lparr>chunks := cs\<rparr>) (b + Suc i) = slot t (beginPos t + i)
      \<and> chunk_id (cs ! ((b + Suc i) div 16)) = chunk_id (chunks t ! ((beginPos t + i) div 16))
      \<and> (b + Suc i) mod 16 = (beginPos t + i) mod 16" for i
  proof -
    have "(16 + i) div 16 = Suc (i div 16)" by simp
    then show ?thesis by (auto simp: slot_def cs_def b_def ChunkSize_def)
  qed
  have k: "(b + i) div 16 < length cs" if "i < Suc (nDynamic t)" for i
  proof -
    have "b + i < length cs * 16" using that lens by linarith
    then show ?thesis by (simp add: div_less_iff_less_mult)
  qed
  show d: "dyn ?u = f # dyn t"
  proof (rule dyn_eqI)
    fix i assume i: "i < length (f # dyn t)"
    show "slot ?u (beginPos ?u + i) = (f # dyn t) ! i"
      using i k [of i] up by (cases i) (simp_all add: u(1) sl dyn_nth)
  qed (simp add: u(3))
  have id: "chunk_id (chunks ?u ! k) = chunk_id (cs ! k)" if "k < length cs" for k
    using arg_cong [OF ids, of "\<lambda>l. l ! k"] that by (simp add: u(2))
  show "i < nDynamic t \<Longrightarrow> key_at ?u (Suc i) = key_at t i"
    using up [of i] k [of "Suc i"] id by (simp add: key_at_def d u(1))
  have b0: "b div 16 = 0" "b mod 16 = b" using cs(2) by simp_all
  have "frontField ?u = f" using cs by (simp add: frontField_def u nth_update_front)
  then show "frontKey ?u = key_at ?u 0" by (simp add: frontKey_def key_at_def d u(1) b0)
qed

text \<open>What prepending does to the list of fields.\<close>

definition abs_prepend :: "nat \<Rightarrow> header_field \<Rightarrow> header_field list \<Rightarrow> header_field list" where
  "abs_prepend cap f fs = (if fsize f > cap then [] else f # fit (cap - fsize f) fs)"

lemma prependField_cases:
  assumes "tbl_inv t"
  shows "prependField n v t =
    (let f = HeaderField n v in
     if 2 ^ 32 \<le> fsize f then (False, t)
     else if fsize f > tableCapacity t then (True, clearDynamicTable t)
     else let u = with_front f (fsize f) (with_room (evict_for (fsize f) t))
          in (True, if useIndex t then u\<lparr>searchIndex := set_insert (se_less u) (frontKey u) (searchIndex u)\<rparr> else u))"
proof -
  let ?f = "HeaderField n v"
  have e: "entry_size n v = (if 2 ^ 32 \<le> fsize ?f then None else Some (fsize ?f))"
    by (auto simp: entry_size_def fsize_def HeaderField_def Let_def)
  show ?thesis
  proof (cases "2 ^ 32 \<le> fsize ?f \<or> fsize ?f > tableCapacity t")
    case True
    then show ?thesis unfolding prependField_def e by (auto simp: Let_def)
  next
    case False
    then have "useIndex (evict_for (fsize ?f) t) = useIndex t" using evict_for_spec [OF assms] by simp
    moreover have "useIndex (with_front f k (with_room s)) = useIndex s" for f k s
      by (simp add: with_front_def with_room_def put_front_def)
    ultimately show ?thesis using False
      unfolding prependField_def e with_front_def [symmetric] with_room_def [symmetric]
      by (simp add: Let_def with_front_def with_room_def)
  qed
qed

lemma with_front_index:
  assumes "tbl_ok s" "useIndex s" "u = with_front f n (with_room s)"
  defines "xs \<equiv> set_insert (se_less u) (frontKey u) (searchIndex u)"
  shows "sorted_wrt (se_less u) xs" "set xs = key_at u ` {..<nDynamic u}"
proof -
  have si: "sorted_wrt (se_less s) (searchIndex s)" "set (searchIndex s) = key_at s ` {..<nDynamic s}"
    and sh: "table_shape s" using assms(1,2) by (simp_all add: tbl_ok_def table_index_def)
  note p = with_front_parts [OF sh impI [OF no_fields], where f = f and n = n, folded assms(3)]
  have u: "searchIndex u = searchIndex s" "nDynamic u = Suc (nDynamic s)"
    by (simp_all add: assms(3) with_front_def with_room_def put_front_def)
  have keys: "e \<in> key_at s ` {..<nDynamic s} \<Longrightarrow> \<exists>i < nDynamic s. e = key_at s i \<and> key_at u (Suc i) = e" for e
    using p(3) by auto
  have "sorted_wrt (se_less u) (searchIndex s)"
  proof (rule keys_sorted_transfer [OF si(1) sh p(1), where d = 1 and d' = 0])
    fix e assume "e \<in> set (searchIndex s)"
    then obtain i where "i < nDynamic s" "e = key_at s i" "key_at u (Suc i) = e" using keys si(2) by blast
    then show "\<exists>i < nDynamic s. e = key_at s i \<and> i + 1 < 0 + nDynamic u \<and> 0 \<le> i + 1 \<and> key_at u (i + 1 - 0) = e"
      using u(2) by (intro exI [of _ i]) simp
  qed
  then show "sorted_wrt (se_less u) xs" unfolding xs_def u(1) by (rule search_index.set_insert_sorted)
  have img: "key_at s ` {..<nDynamic s} = (\<lambda>i. key_at u (Suc i)) ` {..<nDynamic s}"
    using p(3) by (intro image_cong) auto
  have "se_rank u (key_at u 0) \<notin> se_rank u ` set (searchIndex s)"
    using key_at_inject [OF p(1), of 0] unfolding si(2) img by (auto simp: u(2))
  from search_index.set_insert_elems [OF this]
  have "set xs = insert (key_at u 0) ((\<lambda>i. key_at u (Suc i)) ` {..<nDynamic s})"
    by (simp only: xs_def u(1) p(4) si(2) img)
  also have "\<dots> = key_at u ` {..<nDynamic u}"
    unfolding u(2) lessThan_Suc_eq_insert_0 by (simp add: image_image)
  finally show "set xs = key_at u ` {..<nDynamic u}" .
qed

lemma tbl_ok_reindex:
  "table_shape (u\<lparr>searchIndex := xs\<rparr>) = table_shape u" "table_sizes (u\<lparr>searchIndex := xs\<rparr>) = table_sizes u"
  "dyn (u\<lparr>searchIndex := xs\<rparr>) = dyn u" "key_at (u\<lparr>searchIndex := xs\<rparr>) i = key_at u i"
  "se_less (u\<lparr>searchIndex := xs\<rparr>) = se_less u"
proof -
  show d: "dyn (u\<lparr>searchIndex := xs\<rparr>) = dyn u" by (simp add: dyn_def slot_def)
  show "table_shape (u\<lparr>searchIndex := xs\<rparr>) = table_shape u" by (simp add: table_shape_def)
  show "table_sizes (u\<lparr>searchIndex := xs\<rparr>) = table_sizes u" by (simp add: table_sizes_def d)
  show "key_at (u\<lparr>searchIndex := xs\<rparr>) i = key_at u i" by (simp add: key_at_def d)
  show "se_less (u\<lparr>searchIndex := xs\<rparr>) = se_less u"
  proof -
    have "indexOfChunk (u\<lparr>searchIndex := xs\<rparr>) = indexOfChunk u"
      by (intro ext) (simp add: indexOfChunk_def)
    then show ?thesis by (intro ext) (simp only: se_less_def)
  qed
qed

lemma prependField_spec:
  assumes "tbl_inv t"
  shows "fst (prependField n v t) \<longleftrightarrow> fsize (HeaderField n v) < 2 ^ 32"
    "tbl_inv (snd (prependField n v t)) \<and> tableCapacity (snd (prependField n v t)) = tableCapacity t
      \<and> maxTableSize (snd (prependField n v t)) = maxTableSize t \<and> useIndex (snd (prependField n v t)) = useIndex t"
    "dyn (snd (prependField n v t)) =
       (if fst (prependField n v t) then abs_prepend (tableCapacity t) (HeaderField n v) (dyn t) else dyn t)"
proof -
  let ?f = "HeaderField n v"
  show *: "fst (prependField n v t) \<longleftrightarrow> fsize ?f < 2 ^ 32"
    by (simp add: prependField_cases [OF assms] Let_def)
  have "(tbl_inv (snd (prependField n v t)) \<and> tableCapacity (snd (prependField n v t)) = tableCapacity t
      \<and> maxTableSize (snd (prependField n v t)) = maxTableSize t \<and> useIndex (snd (prependField n v t)) = useIndex t)
      \<and> dyn (snd (prependField n v t)) =
       (if fsize ?f < 2 ^ 32 then abs_prepend (tableCapacity t) (HeaderField n v) (dyn t) else dyn t)"
  proof (cases "2 ^ 32 \<le> fsize ?f \<or> tableCapacity t < fsize ?f")
    case True
    have "tableCapacity (clearDynamicTable t) = tableCapacity t" "maxTableSize (clearDynamicTable t) = maxTableSize t"
      "useIndex (clearDynamicTable t) = useIndex t" by (simp_all add: clearDynamicTable_def)
    with True assms clearDynamicTable_spec [OF assms] show ?thesis
      by (auto simp: prependField_cases [OF assms] Let_def abs_prepend_def)
  next
    case False
    define s where "s = evict_for (fsize ?f) t"
    define u where "u = with_front ?f (fsize ?f) (with_room s)"
    have s: "tbl_inv s" "dyn s = fit (tableCapacity t - fsize ?f) (dyn t)" "tableCapacity s = tableCapacity t"
      "maxTableSize s = maxTableSize t" "useIndex s = useIndex t"
      using evict_for_spec [OF assms, of "fsize ?f"] False by (simp_all add: s_def)
    then have ok: "tbl_ok s" by (simp add: tbl_inv_def)
    then have sh: "table_shape s" by (simp add: tbl_ok_def)
    note p = with_front_parts [OF sh impI [OF no_fields], where f = ?f and n = "fsize ?f", folded u_def]
    have u: "tableCapacity u = tableCapacity t" "maxTableSize u = maxTableSize t" "useIndex u = useIndex t"
        "dataSize u = add32 (dataSize s) (fsize ?f)" "searchIndex u = searchIndex s"
      by (simp_all add: u_def with_front_def with_room_def put_front_def s)
    have cap: "tableCapacity t < 2 ^ 32" "maxTableSize t < 2 ^ 32"
      using assms by (simp_all add: tbl_inv_def tbl_ok_def table_sizes_def)
    have "octets (dyn s) \<le> tableCapacity t - fsize ?f" unfolding s(2) by (rule fit_octets)
    then have "dataSize s + fsize ?f \<le> tableCapacity t"
      using False sizes_octets [OF ok] by linarith
    then have ds: "dataSize u = octets (dyn u)" "dataSize u \<le> tableCapacity t"
      using cap sizes_octets [OF ok] by (simp_all add: u(4) u32_simps p(2))
    let ?r = "if useIndex t then u\<lparr>searchIndex := set_insert (se_less u) (frontKey u) (searchIndex u)\<rparr> else u"
    have "table_index ?r"
    proof (cases "useIndex t")
      case True
      then show ?thesis using with_front_index [OF ok _ u_def] s(5)
        by (simp add: table_index_def tbl_ok_reindex u(3))
    next
      case f: False
      then show ?thesis using ok s(5) by (simp add: table_index_def tbl_ok_def u)
    qed
    moreover have "table_sizes u" using ds cap by (simp add: table_sizes_def u octets_def)
    ultimately have "tbl_inv ?r" using p(1) ds by (simp add: tbl_inv_def tbl_ok_def tbl_ok_reindex u)
    moreover have "prependField n v t = (True, ?r)"
      using False by (simp add: prependField_cases [OF assms] Let_def s_def u_def)
    moreover have "dyn ?r = abs_prepend (tableCapacity t) ?f (dyn t)"
      using False by (simp add: tbl_ok_reindex p(2) s(2) abs_prepend_def)
    ultimately show ?thesis using False u by simp
  qed
  with * show "tbl_inv (snd (prependField n v t)) \<and> tableCapacity (snd (prependField n v t)) = tableCapacity t
      \<and> maxTableSize (snd (prependField n v t)) = maxTableSize t \<and> useIndex (snd (prependField n v t)) = useIndex t"
    "dyn (snd (prependField n v t)) =
       (if fst (prependField n v t) then abs_prepend (tableCapacity t) (HeaderField n v) (dyn t) else dyn t)"
    by simp_all
qed


subsection \<open>Size updates\<close>

lemma caps_irrelevant:
  fixes t c m defines "u \<equiv> t\<lparr>tableCapacity := c, maxTableSize := m\<rparr>"
  shows "dyn u = dyn t" "table_shape u = table_shape t" "table_index u = table_index t"
proof -
  show d: "dyn u = dyn t" by (simp add: dyn_def slot_def u_def)
  show "table_shape u = table_shape t" by (simp add: table_shape_def u_def)
  have "indexOfChunk u = indexOfChunk t" by (intro ext) (simp add: indexOfChunk_def u_def)
  then have "se_less u = se_less t" by (intro ext) (simp only: se_less_def)
  moreover have "key_at u = key_at t" by (intro ext) (simp add: key_at_def d, simp add: u_def)
  ultimately show "table_index u = table_index t" by (simp add: table_index_def) (simp add: u_def)
qed

lemma updateDynamicTableSize_spec:
  assumes "tbl_inv t"
  shows "tbl_inv (snd (updateDynamicTableSize k t))"
    "fst (updateDynamicTableSize k t) \<longleftrightarrow> k \<le> maxTableSize t"
    "fst (updateDynamicTableSize k t) \<Longrightarrow> tableCapacity (snd (updateDynamicTableSize k t)) = k
       \<and> dyn (snd (updateDynamicTableSize k t)) = fit k (dyn t)"
    "\<not> fst (updateDynamicTableSize k t) \<Longrightarrow> snd (updateDynamicTableSize k t) = t"
    "maxTableSize (snd (updateDynamicTableSize k t)) = maxTableSize t"
    "useIndex (snd (updateDynamicTableSize k t)) = useIndex t"
proof -
  have max: "maxTableSize t < 2 ^ 32" using assms by (simp add: tbl_inv_def tbl_ok_def table_sizes_def)
  have fit0: "fit 0 fs = []" for fs by (cases fs) (simp_all add: fsize_def)
  let ?c = "(clearDynamicTable t)\<lparr>tableCapacity := 0\<rparr>"
  have c: "tbl_inv ?c" "dyn ?c = []" "maxTableSize ?c = maxTableSize t" "useIndex ?c = useIndex t"
    using max by (simp_all add: tbl_inv_def tbl_ok_def table_shape_def table_sizes_def table_index_def
      dyn_def clearDynamicTable_def)
  have ok: "tbl_ok (t\<lparr>tableCapacity := k\<rparr>) \<and> dyn (t\<lparr>tableCapacity := k\<rparr>) = dyn t" if "k \<le> maxTableSize t"
    using assms that max caps_irrelevant [where t = t and c = k and m = "maxTableSize t"]
    by (simp add: tbl_inv_def tbl_ok_def table_sizes_def)
  have "tbl_inv (snd (updateDynamicTableSize k t))
    \<and> (fst (updateDynamicTableSize k t) \<longleftrightarrow> k \<le> maxTableSize t)
    \<and> (fst (updateDynamicTableSize k t) \<longrightarrow> tableCapacity (snd (updateDynamicTableSize k t)) = k
       \<and> dyn (snd (updateDynamicTableSize k t)) = fit k (dyn t))
    \<and> (\<not> fst (updateDynamicTableSize k t) \<longrightarrow> snd (updateDynamicTableSize k t) = t)
    \<and> maxTableSize (snd (updateDynamicTableSize k t)) = maxTableSize t
    \<and> useIndex (snd (updateDynamicTableSize k t)) = useIndex t"
  proof (cases "k = 0 \<or> k > maxTableSize t")
    case True
    then show ?thesis using c fit0 assms by (auto simp: updateDynamicTableSize_def)
  next
    case False
    then show ?thesis using ok evict_above_spec [of "t\<lparr>tableCapacity := k\<rparr>"]
      by (simp add: updateDynamicTableSize_def)
  qed
  then show "tbl_inv (snd (updateDynamicTableSize k t))"
    "fst (updateDynamicTableSize k t) \<longleftrightarrow> k \<le> maxTableSize t"
    "fst (updateDynamicTableSize k t) \<Longrightarrow> tableCapacity (snd (updateDynamicTableSize k t)) = k
       \<and> dyn (snd (updateDynamicTableSize k t)) = fit k (dyn t)"
    "\<not> fst (updateDynamicTableSize k t) \<Longrightarrow> snd (updateDynamicTableSize k t) = t"
    "maxTableSize (snd (updateDynamicTableSize k t)) = maxTableSize t"
    "useIndex (snd (updateDynamicTableSize k t)) = useIndex t" by blast+
qed

lemma setMax_spec:
  "dyn (setMaxDynamicTableSize k t) = dyn t"
  "tbl_inv t \<Longrightarrow> k < 2 ^ 32 \<Longrightarrow> tbl_inv (setMaxDynamicTableSize k t)"
  using caps_irrelevant [where t = t and c = "tableCapacity t" and m = k]
  by (simp_all add: tbl_inv_def tbl_ok_def table_sizes_def setMaxDynamicTableSize_def)

subsection \<open>Lookup\<close>

lemma octets_entries: "32 * length fs \<le> octets fs"
proof (induction fs)
  case (Cons f fs)
  have "32 \<le> fsize f" by (simp add: fsize_def)
  with Cons show ?case by simp
qed simp

lemma few_fields: "tbl_ok t \<Longrightarrow> nDynamic t + 1000 < 2 ^ 32"
proof -
  assume ok: "tbl_ok t"
  then have "dataSize t < 2 ^ 32" by (simp add: tbl_ok_def table_sizes_def)
  with octets_entries [of "dyn t"] sizes_octets [OF ok] have "32 * nDynamic t < 2 ^ 32" by simp
  then show ?thesis by simp
qed

lemma field_spec:
  assumes "tbl_ok t"
  shows "field index t = (if indexIsValid index t then Some ((staticPart @ dyn t) ! (index - 1)) else None)"
proof (cases "indexIsValid index t \<and> 61 \<le> index - 1")
  case False
  then show ?thesis by (auto simp: field_def nth_append)
next
  case True
  define i where "i = index - 1 - 61"
  have i: "i < nDynamic t" "index = i + 62" using True by (auto simp: i_def indexIsValid_def)
  have "beginPos t \<le> 16" using assms by (auto simp: tbl_ok_def table_shape_def split: if_splits)
  then have "(i + beginPos t) mod 2 ^ 32 = beginPos t + i" using i few_fields [OF assms] by simp
  then show ?thesis using i dyn_nth [OF i(1)] by (simp add: field_def nth_append indexIsValid_def)
qed

lemma keyToIndex_key_at:
  assumes "tbl_ok t" "i < nDynamic t"
  shows "keyToIndex t (key_at t i) = 62 + i"
proof -
  have sh: "table_shape t" using assms(1) by (simp add: tbl_ok_def)
  have "beginPos t \<le> 16" using sh by (auto simp: table_shape_def split: if_splits)
  moreover have "(beginPos t + i) mod 16 + (beginPos t + i) div 16 * 16 = beginPos t + i" by simp
  moreover note few_fields [OF assms(1)] assms(2)
  ultimately show ?thesis
    by (simp add: keyToIndex_def key_at_def indexOfChunk_nth [OF sh slot_chunk [OF sh assms(2)]] ChunkSize_def)
qed

text \<open>The least entry of the index that is not less than a key without a chunk.\<close>

lemma lower_bound_key:
  assumes "tbl_ok t" "useIndex t"
    and "k = \<lparr>se_field = f, se_chunk = None, se_offset = 0\<rparr>"
  shows "set_lower_bound (se_less t) k (searchIndex t) = None \<Longrightarrow> g \<in> set (dyn t) \<Longrightarrow> pair_rank g < pair_rank f"
    and "set_lower_bound (se_less t) k (searchIndex t) = Some e \<Longrightarrow>
      \<exists>i < nDynamic t. e = key_at t i \<and> pair_rank f \<le> pair_rank (dyn t ! i)
        \<and> (\<forall>j < nDynamic t. pair_rank f \<le> pair_rank (dyn t ! j) \<longrightarrow>
             pair_rank (dyn t ! i) \<le> pair_rank (dyn t ! j) \<and> (dyn t ! i = dyn t ! j \<longrightarrow> j \<le> i))"
proof -
  have si: "sorted_wrt (se_less t) (searchIndex t)" "set (searchIndex t) = key_at t ` {..<nDynamic t}"
    and sh: "table_shape t" using assms(1,2) by (simp_all add: tbl_ok_def table_index_def)
  have rk: "se_rank t (key_at t i) < se_rank t k \<longleftrightarrow> pair_rank (dyn t ! i) < pair_rank f" for i
    by (auto simp: se_rank_def key_at_def assms(3) pair_rank_def)
  { assume "set_lower_bound (se_less t) k (searchIndex t) = None" "g \<in> set (dyn t)"
    then show "pair_rank g < pair_rank f"
      using search_index.set_lower_bound_None [OF si(1), of k] rk by (auto simp: si(2) in_set_conv_nth) }
  assume "set_lower_bound (se_less t) k (searchIndex t) = Some e"
  note lb = search_index.set_lower_bound_Some [OF si(1) this]
  obtain i where i: "i < nDynamic t" "e = key_at t i" using lb(1) si(2) by auto
  have "pair_rank f \<le> pair_rank (dyn t ! i)" using lb(2) rk [of i] i(2) by (simp add: not_less [symmetric])
  moreover have "pair_rank (dyn t ! i) \<le> pair_rank (dyn t ! j) \<and> (dyn t ! i = dyn t ! j \<longrightarrow> j \<le> i)"
    if j: "j < nDynamic t" "pair_rank f \<le> pair_rank (dyn t ! j)" for j
  proof -
    have "se_rank t (key_at t i) \<le> se_rank t (key_at t j)"
      using lb(3) si(2) j rk [of j] i(2) by (auto simp: not_less [symmetric])
    then have "\<not> se_less t (key_at t j) (key_at t i)" by (simp add: se_less_rank not_less)
    then have "\<not> field_rank (dyn t ! j) j < field_rank (dyn t ! i) i" using key_order [OF sh j(1) i(1)] by simp
    then show ?thesis by (auto simp: field_rank_def pair_rank_def)
  qed
  ultimately show "\<exists>i < nDynamic t. e = key_at t i \<and> pair_rank f \<le> pair_rank (dyn t ! i)
        \<and> (\<forall>j < nDynamic t. pair_rank f \<le> pair_rank (dyn t ! j) \<longrightarrow>
             pair_rank (dyn t ! i) \<le> pair_rank (dyn t ! j) \<and> (dyn t ! i = dyn t ! j \<longrightarrow> j \<le> i))"
    using i by blast
qed


lemma findInStaticPart_sound:
  "findInStaticPart f mode \<noteq> length staticPart \<Longrightarrow> findInStaticPart f mode < 61"
  using findInStaticPart_le [of f mode] by simp

lemma static_hit:
  "findInStaticPart f nameAndValue \<noteq> length staticPart \<and> staticPart ! findInStaticPart f nameAndValue = f
   \<longleftrightarrow> f \<in> set staticPart"
  using findInStaticPart_pair [of f] findInStaticPart_sound [of f nameAndValue]
  by (metis length_static nat_neq_iff nth_mem)

lemma static_name_hit:
  "findInStaticPart f nameOnly \<noteq> length staticPart \<and> hf_name (staticPart ! findInStaticPart f nameOnly) = hf_name f
   \<longleftrightarrow> hf_name f \<in> hf_name ` set staticPart"
  using findInStaticPart_name [of _ f] findInStaticPart_sound [of f nameOnly]
  by (metis (no_types, lifting) imageE image_eqI length_static nat_neq_iff nth_mem)

lemma HeaderField_eq: "HeaderField n v = f \<longleftrightarrow> n = hf_name f \<and> v = hf_value f"
  by (cases f) (auto simp: HeaderField_def)

lemma pair_rank_inject: "pair_rank f = pair_rank g \<longleftrightarrow> f = g"
  by (cases f; cases g) (simp add: pair_rank_def)

text \<open>The dynamic part answers with the largest position that holds the field: the oldest copy.\<close>

lemma indexOf_dynamic:
  assumes "tbl_ok t" "useIndex t" "HeaderField n v \<notin> set staticPart"
  shows "HeaderField n v \<notin> set (dyn t) \<Longrightarrow> indexOf n v t = 0"
    and "HeaderField n v \<in> set (dyn t) \<Longrightarrow> \<exists>i < nDynamic t. indexOf n v t = 62 + i \<and> dyn t ! i = HeaderField n v
       \<and> (\<forall>j < nDynamic t. dyn t ! j = HeaderField n v \<longrightarrow> j \<le> i)"
proof -
  let ?f = "HeaderField n v"
  let ?k = "\<lparr>se_field = ?f, se_chunk = None, se_offset = 0\<rparr> :: search_entry"
  have st: "\<not> (findInStaticPart ?f nameAndValue \<noteq> length staticPart
      \<and> hf_name (staticPart ! findInStaticPart ?f nameAndValue) = n \<and> hf_value (staticPart ! findInStaticPart ?f nameAndValue) = v)"
    using static_hit [of ?f] assms(3) HeaderField_eq by metis
  have io: "indexOf n v t = (case set_lower_bound (se_less t) ?k (searchIndex t) of
      None \<Rightarrow> 0 | Some pos \<Rightarrow> if se_field pos = ?f then keyToIndex t pos else 0)"
    using st assms(2) unfolding indexOf_def Let_def
    by (auto simp: HeaderField_eq [symmetric] split: option.splits) (metis HeaderField_eq)+
  note lb = lower_bound_key [OF assms(1,2), of ?k ?f]
  show "?f \<notin> set (dyn t) \<Longrightarrow> indexOf n v t = 0"
  proof (cases "set_lower_bound (se_less t) ?k (searchIndex t)")
    case (Some e)
    assume "?f \<notin> set (dyn t)"
    moreover obtain i where "i < nDynamic t" "e = key_at t i" using lb(2) [OF refl Some] by blast
    ultimately have "se_field e \<noteq> ?f" by (metis key_at_def length_dyn nth_mem search_entry.select_convs(1))
    then show ?thesis by (simp add: io Some)
  qed (simp add: io)
  assume m: "?f \<in> set (dyn t)"
  then obtain j where j: "j < nDynamic t" "dyn t ! j = ?f" by (auto simp: in_set_conv_nth)
  obtain e where e: "set_lower_bound (se_less t) ?k (searchIndex t) = Some e"
    using lb(1) m by (cases "set_lower_bound (se_less t) ?k (searchIndex t)") auto
  from lb(2) [OF refl this] obtain i where i: "i < nDynamic t" "e = key_at t i" "pair_rank ?f \<le> pair_rank (dyn t ! i)"
     "\<forall>j < nDynamic t. pair_rank ?f \<le> pair_rank (dyn t ! j) \<longrightarrow>
             pair_rank (dyn t ! i) \<le> pair_rank (dyn t ! j) \<and> (dyn t ! i = dyn t ! j \<longrightarrow> j \<le> i)"
    by blast
  have "pair_rank (dyn t ! i) = pair_rank ?f" using i(3,4) j by (metis order_antisym order_refl)
  then have di: "dyn t ! i = ?f" by (simp add: pair_rank_inject)
  then have "indexOf n v t = 62 + i"
    using i(2) keyToIndex_key_at [OF assms(1) i(1)] by (simp add: io e) (simp add: key_at_def)
  then show "\<exists>i < nDynamic t. indexOf n v t = 62 + i \<and> dyn t ! i = ?f
       \<and> (\<forall>j < nDynamic t. dyn t ! j = ?f \<longrightarrow> j \<le> i)"
    using i(1,4) di by (metis order_refl)
qed

lemma indexOf_static:
  assumes "HeaderField n v \<in> set staticPart"
  shows "0 < indexOf n v t \<and> indexOf n v t \<le> 61 \<and> staticPart ! (indexOf n v t - 1) = HeaderField n v"
proof -
  let ?p = "findInStaticPart (HeaderField n v) nameAndValue"
  have p: "?p < 61" "staticPart ! ?p = HeaderField n v" using findInStaticPart_pair [OF assms] by simp_all
  then have "indexOf n v t = ?p + 1" by (simp add: indexOf_def Let_def) (simp add: HeaderField_def)
  then show ?thesis using p by simp
qed

lemma indexOfName_dynamic:
  assumes "tbl_ok t" "useIndex t" "n \<notin> hf_name ` set staticPart"
  shows "if n \<in> hf_name ` set (dyn t) then \<exists>i < nDynamic t. indexOfName n t = 62 + i \<and> hf_name (dyn t ! i) = n
     else indexOfName n t = 0"
proof -
  let ?f = "HeaderField n []"
  let ?k = "\<lparr>se_field = ?f, se_chunk = None, se_offset = 0\<rparr> :: search_entry"
  have hf: "hf_name ?f = n" "hf_value ?f = []" by (simp_all add: HeaderField_def)
  have io: "indexOfName n t = (case set_lower_bound (se_less t) ?k (searchIndex t) of
      None \<Rightarrow> 0 | Some pos \<Rightarrow> if hf_name (se_field pos) = n then keyToIndex t pos else 0)"
    using static_name_hit [of ?f] assms(2,3) by (auto simp: indexOfName_def Let_def hf)
  note lb = lower_bound_key [OF assms(1,2), of ?k ?f]
  have low: "pair_rank ?f \<le> pair_rank g" if "hf_name g = n" for g
    using that by (auto simp: pair_rank_def hf)
  show ?thesis
  proof (cases "n \<in> hf_name ` set (dyn t)")
    case False
    have "hf_name (se_field e) \<noteq> n" if found: "set_lower_bound (se_less t) ?k (searchIndex t) = Some e" for e
    proof -
      obtain i where "i < nDynamic t" "e = key_at t i" using lb(2) [OF refl found] by blast
      then show ?thesis using False by (auto simp: key_at_def)
    qed
    then show ?thesis using False by (auto simp: io split: option.splits)
  next
    case True
    then obtain j where j: "j < nDynamic t" "hf_name (dyn t ! j) = n" by (auto simp: in_set_conv_nth)
    obtain e where e: "set_lower_bound (se_less t) ?k (searchIndex t) = Some e"
      using lb(1) [OF refl, of "dyn t ! j"] j low [OF j(2)] by (cases "set_lower_bound (se_less t) ?k (searchIndex t)") auto
    from lb(2) [OF refl this] obtain i where i: "i < nDynamic t" "e = key_at t i" "pair_rank ?f \<le> pair_rank (dyn t ! i)"
       "pair_rank (dyn t ! i) \<le> pair_rank (dyn t ! j)" using low [OF j(2)] j(1) by blast
    then have "hf_name (dyn t ! i) = n" using j(2) by (auto simp: pair_rank_def hf)
    then show ?thesis using i(1,2) True keyToIndex_key_at [OF assms(1) i(1)]
      by (auto simp: io e key_at_def)
  qed
qed

lemma indexOfName_static:
  assumes "n \<in> hf_name ` set staticPart"
  shows "0 < indexOfName n t \<and> indexOfName n t \<le> 61 \<and> hf_name (staticPart ! (indexOfName n t - 1)) = n"
proof -
  let ?p = "findInStaticPart (HeaderField n []) nameOnly"
  have n: "hf_name (HeaderField n []) = n" by (simp add: HeaderField_def)
  have p: "?p \<noteq> length staticPart \<and> hf_name (staticPart ! ?p) = n"
    using static_name_hit [of "HeaderField n []"] assms by (simp only: n)
  then have "indexOfName n t = ?p + 1" by (simp add: indexOfName_def Let_def)
  then show ?thesis using p findInStaticPart_sound [of "HeaderField n []" nameOnly] by simp
qed

subsection \<open>Properties of the table\<close>

datatype table_op = Prepend bytes bytes | Evict | UpdateSize nat | SetMaxSize nat | Clear

fun table_step :: "table_op \<Rightarrow> field_table \<Rightarrow> field_table" where
  "table_step (Prepend n v) t = snd (prependField n v t)"
| "table_step Evict t = evictEntry t"
| "table_step (UpdateSize k) t = snd (updateDynamicTableSize k t)"
| "table_step (SetMaxSize k) t = setMaxDynamicTableSize k t"
| "table_step Clear t = clearDynamicTable t"

fun table_op_ok :: "table_op \<Rightarrow> bool" where
  "table_op_ok (SetMaxSize k) = (k < 2 ^ 32)"
| "table_op_ok _ = True"

lemma evictEntry_inv: "tbl_inv t \<Longrightarrow> tbl_inv (evictEntry t)"
proof (cases "nDynamic t = 0")
  case False
  assume inv: "tbl_inv t"
  then have ok: "tbl_ok t" by (simp add: tbl_inv_def)
  note e = evictEntry_spec [OF ok False]
  have "dyn t = butlast (dyn t) @ [last (dyn t)]"
    using False length_dyn [of t] by (metis append_butlast_last_id list.size(3))
  then have "octets (butlast (dyn t)) \<le> octets (dyn t)" by (metis le_add1 octets_simps(3))
  then show ?thesis
    using inv e sizes_octets [of "evictEntry t"] sizes_octets [OF ok] by (simp add: tbl_inv_def)
qed (simp add: evictEntry_def)

interpretation table_ops: step_invariant table_step table_op_ok tbl_inv
proof
  fix t op assume "tbl_inv t" "table_op_ok op"
  then show "tbl_inv (table_step op t)"
    using evictEntry_inv prependField_spec(2) updateDynamicTableSize_spec(1) setMax_spec(2) clearDynamicTable_spec
    by (cases op) auto
qed

text \<open>C24. Every sequence of table operations from a fresh table keeps the table well formed: the
  chunks and the positions agree, the size counter is the HPACK size of the entries and
  never exceeds the capacity, and the search index holds exactly one key per entry in order.
  (Names and values are shorter than \<open>2 ^ 31\<close> octets.)\<close>

theorem table_operations_invariant:
  "maxSize < 2 ^ 32 \<Longrightarrow> list_all table_op_ok ops \<Longrightarrow>
   tbl_inv (fold table_step ops (FieldLookupTable maxSize use))"
  by (rule table_ops.run_inv) (simp_all add: table_init)

theorem table_operations_invariant_witness:
  "tbl_inv (fold table_step [Prepend [97] [98], UpdateSize 33, Evict] (FieldLookupTable 4096 True))"
  by (rule table_operations_invariant) simp_all

text \<open>C27. Prepending refines the bounded first-in-first-out list of HPACK: an oversized entry empties
  the table, otherwise the oldest entries are dropped until the new one fits.
  (Names and values are shorter than \<open>2 ^ 31\<close> octets.)\<close>

theorem prepend_refines_queue:
  "tbl_inv t \<Longrightarrow> dyn (snd (prependField n v t)) =
     (if fsize (HeaderField n v) < 2 ^ 32 then abs_prepend (tableCapacity t) (HeaderField n v) (dyn t) else dyn t)"
  using prependField_spec(1,3) by simp

theorem prepend_refines_queue_witness:
  "dyn (snd (prependField [97] [98] (FieldLookupTable 4096 True))) = [HeaderField [97] [98]]"
proof -
  have i: "tbl_inv (FieldLookupTable 4096 True)" "dyn (FieldLookupTable 4096 True) = []"
    using table_init [of 4096] by simp_all
  show ?thesis
    unfolding prepend_refines_queue [OF i(1)] i(2)
    by (simp add: abs_prepend_def fsize_def HeaderField_def FieldLookupTable_def)
qed

text \<open>Access by index reads the static part and then the dynamic part, newest entry first, and
  fails exactly on 0 and beyond the last entry.\<close>

theorem field_by_index:
  "tbl_inv t \<Longrightarrow> field index t =
     (if 0 < index \<and> index \<le> 61 + nDynamic t then Some ((staticPart @ dyn t) ! (index - 1)) else None)"
  by (simp add: tbl_inv_def field_spec indexIsValid_def)

theorem field_by_index_witness:
  "field 2 (FieldLookupTable 4096 True) = Some (HeaderField (chars '':method'') (chars ''GET''))"
  using field_by_index [of "FieldLookupTable 4096 True" 2] table_init [of 4096 True]
  by (simp add: staticPart_def static_pairs_def nth_append)

text \<open>Lookup by field or by name answers with an entry, or with 0 if there is none.\<close>

lemma indexOf_correct:
  assumes "tbl_inv t" "useIndex t"
  shows "(if indexOf n v t = 0 then HeaderField n v \<notin> set (staticPart @ dyn t)
          else field (indexOf n v t) t = Some (HeaderField n v))
    \<and> (if indexOfName n t = 0 then n \<notin> hf_name ` set (staticPart @ dyn t)
          else fieldName (indexOfName n t) t = Some n)"
proof -
  have ok: "tbl_ok t" using assms(1) by (simp add: tbl_inv_def)
  have f: "field k t = Some ((staticPart @ dyn t) ! (k - 1))" if "0 < k" "k \<le> 61 + nDynamic t" for k
    using that ok by (simp add: field_spec indexIsValid_def)
  have dy: "(staticPart @ dyn t) ! (62 + i - 1) = dyn t ! i" for i by (simp add: nth_append)
  have "if indexOf n v t = 0 then HeaderField n v \<notin> set (staticPart @ dyn t)
          else field (indexOf n v t) t = Some (HeaderField n v)"
  proof (cases "HeaderField n v \<in> set staticPart")
    case True
    then show ?thesis using indexOf_static [OF True, of t] f by (auto simp: nth_append)
  next
    case False
    note d = indexOf_dynamic [OF ok assms(2) False]
    show ?thesis
    proof (cases "HeaderField n v \<in> set (dyn t)")
      case True
      then obtain i where "i < nDynamic t" "indexOf n v t = 62 + i" "dyn t ! i = HeaderField n v" using d(2) by blast
      then show ?thesis using f [of "62 + i"] dy by simp
    qed (use d(1) False in simp)
  qed
  moreover have "if indexOfName n t = 0 then n \<notin> hf_name ` set (staticPart @ dyn t)
          else fieldName (indexOfName n t) t = Some n"
  proof (cases "n \<in> hf_name ` set staticPart")
    case True
    then show ?thesis using indexOfName_static [OF True, of t] f by (auto simp: nth_append fieldName_def)
  next
    case False
    note d = indexOfName_dynamic [OF ok assms(2) False]
    show ?thesis
    proof (cases "n \<in> hf_name ` set (dyn t)")
      case True
      then obtain i where "i < nDynamic t" "indexOfName n t = 62 + i" "hf_name (dyn t ! i) = n" using d by auto
      then show ?thesis using f [of "62 + i"] dy by (simp add: fieldName_def)
    qed (use d False in auto)
  qed
  ultimately show ?thesis by blast
qed

lemma one_field:
  assumes "fsize (HeaderField n v) \<le> 4096"
  defines "t \<equiv> snd (prependField n v (FieldLookupTable 4096 True))"
  shows "tbl_inv t" "useIndex t" "dyn t = [HeaderField n v]" "tableCapacity t = 4096"
proof -
  have i: "tbl_inv (FieldLookupTable 4096 True)" "dyn (FieldLookupTable 4096 True) = []"
    using table_init [of 4096] by simp_all
  note p = prependField_spec [OF i(1), of n v, folded t_def]
  show "tbl_inv t" "useIndex t" "tableCapacity t = 4096" using p(2) by (simp_all add: FieldLookupTable_def)
  show "dyn t = [HeaderField n v]" unfolding t_def prependField_spec(1,3) [OF i(1)] i(2)
    using assms(1) by (simp add: abs_prepend_def FieldLookupTable_def)
qed

text \<open>C30. Lookup by field is sound and complete: a nonzero index denotes an entry equal to the
  field, and 0 is returned only if neither part of the table holds it. The same for names.
  (Names and values are shorter than \<open>2 ^ 31\<close> octets.)\<close>

theorem indexOf_sound_complete:
  assumes "tbl_inv t" "useIndex t"
  shows "(if indexOf n v t = 0 then HeaderField n v \<notin> set (staticPart @ dyn t)
          else field (indexOf n v t) t = Some (HeaderField n v))
    \<and> (if indexOfName n t = 0 then n \<notin> hf_name ` set (staticPart @ dyn t)
          else fieldName (indexOfName n t) t = Some n)"
  by (rule indexOf_correct [OF assms])

theorem indexOf_sound_complete_witness:
  "indexOf [120] [121] (snd (prependField [120] [121] (FieldLookupTable 4096 True))) \<noteq> 0"
proof -
  have f: "fsize (HeaderField [120] [121]) \<le> 4096" by (simp add: fsize_def HeaderField_def)
  note o = one_field [OF f]
  show ?thesis using indexOf_sound_complete [OF o(1,2), of "[120]" "[121]"] o(3) by (auto split: if_splits)
qed

text \<open>Of equal entries the table reports the oldest one: an entry that has an older copy is
  never the answer.\<close>

theorem indexOf_oldest_copy:
  assumes "tbl_inv t" "useIndex t" "i < j" "j < nDynamic t" "dyn t ! i = dyn t ! j"
  shows "indexOf (hf_name (dyn t ! i)) (hf_value (dyn t ! i)) t \<noteq> 62 + i"
proof -
  let ?f = "dyn t ! i"
  have hf: "HeaderField (hf_name ?f) (hf_value ?f) = ?f" by (simp add: HeaderField_eq)
  have ok: "tbl_ok t" using assms(1) by (simp add: tbl_inv_def)
  show ?thesis
  proof (cases "?f \<in> set staticPart")
    case True
    then show ?thesis using indexOf_static [of "hf_name ?f" "hf_value ?f" t] hf by simp
  next
    case False
    have "?f \<in> set (dyn t)" using assms(3,4) by simp
    with indexOf_dynamic(2) [OF ok assms(2), of "hf_name ?f" "hf_value ?f"] False assms(3-5)
    show ?thesis unfolding hf by fastforce
  qed
qed

theorem indexOf_oldest_copy_witness:
  "indexOf [120] [121] (snd (prependField [120] [121] (snd (prependField [120] [121] (FieldLookupTable 4096 True))))) \<noteq> 62"
proof -
  let ?t = "snd (prependField [120] [121] (FieldLookupTable 4096 True))"
  let ?u = "snd (prependField [120] [121] ?t)"
  have f: "fsize (HeaderField [120] [121]) \<le> 4096" by (simp add: fsize_def HeaderField_def)
  note o = one_field [OF f]
  note p = prependField_spec [OF o(1), of "[120]" "[121]"]
  have d: "dyn ?u = [HeaderField [120] [121], HeaderField [120] [121]]"
    using p(1,3) o(3,4) by (simp add: abs_prepend_def fsize_def HeaderField_def)
  then have n: "nDynamic ?u = 2" using length_dyn [of ?u] by simp
  show ?thesis
    using indexOf_oldest_copy [of ?u 0 1] p(2) o(2) n d by (simp add: HeaderField_def)
qed

text \<open>A dynamic table size update above the maximum is refused and changes nothing; an accepted
  one sets the capacity and keeps the newest entries that fit.\<close>

theorem size_update_spec:
  "tbl_inv t \<Longrightarrow>
   (if k \<le> maxTableSize t
    then fst (updateDynamicTableSize k t) \<and> tableCapacity (snd (updateDynamicTableSize k t)) = k
      \<and> dyn (snd (updateDynamicTableSize k t)) = fit k (dyn t)
    else updateDynamicTableSize k t = (False, t))"
proof -
  assume inv: "tbl_inv t"
  note u = updateDynamicTableSize_spec [OF inv, of k]
  show ?thesis
  proof (cases "k \<le> maxTableSize t")
    case True with u(2,3) show ?thesis by simp
  next
    case False
    with u(2,4) have "\<not> fst (updateDynamicTableSize k t)" "snd (updateDynamicTableSize k t) = t" by simp_all
    then show ?thesis using False by (simp add: prod_eq_iff)
  qed
qed

theorem size_update_spec_witness:
  "updateDynamicTableSize 5000 (FieldLookupTable 4096 True) = (False, FieldLookupTable 4096 True)"
  using size_update_spec [of "FieldLookupTable 4096 True" 5000] table_init [of 4096 True]
  by (simp add: FieldLookupTable_def)

end
