(* ===== verification/HpackCodec.thy ===== *)
theory HpackCodec
  imports Huffman HpackTable
begin

text \<open>
  The HPACK encoder and decoder of \<open>src/network/access/http2/hpack.cpp\<close> and \<open>hpack_p.h\<close>.
  An encoder writes to a bit stream and updates its table; a result is \<open>None\<close> where a string
  write is undefined (see Huffman), otherwise the returned flag with the new stream and
  encoder: what has been written and prepended before a failure stays. The decoder's loop has
  fuel: every round consumes at least one bit, so one round more than the bits of the stream
  is enough.
\<close>

unbundle bit_operations_syntax

subsection \<open>Header sizes and bit patterns\<close>

fun header_size_from :: "nat \<Rightarrow> header_field list \<Rightarrow> nat option" where
  "header_size_from acc [] = Some acc"
| "header_size_from acc (f # fs) =
     (case entry_size (hf_name f) (hf_value f) of
        None \<Rightarrow> None
      | Some delta \<Rightarrow> if 2 ^ 32 - 1 - acc < delta then None else header_size_from (acc + delta) fs)"

definition header_size :: "header_field list \<Rightarrow> nat option" where
  "header_size header = header_size_from 0 header"

record bit_pattern =
  bp_value :: byte
  bp_bitLength :: nat

definition Indexed :: bit_pattern where "Indexed = \<lparr>bp_value = 1, bp_bitLength = 1\<rparr>"
definition LiteralIncrementalIndexing :: bit_pattern where
  "LiteralIncrementalIndexing = \<lparr>bp_value = 1, bp_bitLength = 2\<rparr>"
definition LiteralNoIndexing :: bit_pattern where "LiteralNoIndexing = \<lparr>bp_value = 0, bp_bitLength = 4\<rparr>"
definition LiteralNeverIndexing :: bit_pattern where "LiteralNeverIndexing = \<lparr>bp_value = 1, bp_bitLength = 4\<rparr>"
definition SizeUpdate :: bit_pattern where "SizeUpdate = \<lparr>bp_value = 1, bp_bitLength = 3\<rparr>"

definition write_bit_pattern :: "bit_pattern \<Rightarrow> bit_ostream \<Rightarrow> bit_ostream" where
  "write_bit_pattern pattern s = writeBits (bp_value pattern) (bp_bitLength pattern) s"

definition read_bit_pattern :: "bit_pattern \<Rightarrow> bit_istream \<Rightarrow> bool \<times> bit_istream" where
  "read_bit_pattern pattern s =
     (let (bitsRead, chunk) = peekBits (is_offset s) (bp_bitLength pattern) (0 :: byte) s
      in if bitsRead \<noteq> bp_bitLength pattern then (False, s)
         else if drop_bit (8 - bitsRead) chunk \<noteq> bp_value pattern then (False, s)
         else (True, snd (skipBits (bp_bitLength pattern) s)))"

definition is_request_pseudo_header :: "bytes \<Rightarrow> bool" where
  "is_request_pseudo_header name \<longleftrightarrow>
     name = chars '':method'' \<or> name = chars '':scheme'' \<or> name = chars '':authority'' \<or> name = chars '':path''"

subsection \<open>The encoder\<close>

record hpack_encoder =
  enc_table :: field_table
  compressStrings :: bool

definition Encoder :: "nat \<Rightarrow> bool \<Rightarrow> hpack_encoder" where
  "Encoder maxSize compress = \<lparr>enc_table = FieldLookupTable maxSize True, compressStrings = compress\<rparr>"

type_synonym encode_result = "(bool \<times> bit_ostream \<times> hpack_encoder) option"

definition encodeSizeUpdate :: "nat \<Rightarrow> bit_ostream \<Rightarrow> hpack_encoder \<Rightarrow> bool \<times> bit_ostream \<times> hpack_encoder" where
  "encodeSizeUpdate newSize s e =
     (let (ok, t) = updateDynamicTableSize newSize (enc_table e)
      in if \<not> ok then (False, s, e\<lparr>enc_table := t\<rparr>)
         else (True, write_u32 newSize (write_bit_pattern SizeUpdate s), e\<lparr>enc_table := t\<rparr>))"

definition enc_setMaxDynamicTableSize :: "nat \<Rightarrow> hpack_encoder \<Rightarrow> hpack_encoder" where
  "enc_setMaxDynamicTableSize maxSize e = e\<lparr>enc_table := setMaxDynamicTableSize maxSize (enc_table e)\<rparr>"

definition setCompressStrings :: "bool \<Rightarrow> hpack_encoder \<Rightarrow> hpack_encoder" where
  "setCompressStrings compress e = e\<lparr>compressStrings := compress\<rparr>"

definition encodeIndexedField :: "nat \<Rightarrow> bit_ostream \<Rightarrow> hpack_encoder \<Rightarrow> encode_result" where
  "encodeIndexedField index s e = Some (True, write_u32 index (write_bit_pattern Indexed s), e)"

definition encodeLiteralField :: "bit_pattern \<Rightarrow> bytes \<Rightarrow> bytes \<Rightarrow> bool \<Rightarrow> bit_ostream \<Rightarrow> hpack_encoder \<Rightarrow> encode_result" where
  "encodeLiteralField fieldType name val withCompression s e =
     (if os_bitsSet s mod 8 \<noteq> 0 then Some (False, s, e)
      else let e = (if fieldType = LiteralIncrementalIndexing
                    then e\<lparr>enc_table := snd (prependField name val (enc_table e))\<rparr> else e);
               s = write_u32 0 (write_bit_pattern fieldType s)
           in case write_string name withCompression s of
                None \<Rightarrow> None
              | Some s \<Rightarrow> (case write_string val withCompression s of None \<Rightarrow> None | Some s \<Rightarrow> Some (True, s, e)))"

definition encodeLiteralIndexedName :: "bit_pattern \<Rightarrow> nat \<Rightarrow> bytes \<Rightarrow> bool \<Rightarrow> bit_ostream \<Rightarrow> hpack_encoder \<Rightarrow> encode_result" where
  "encodeLiteralIndexedName fieldType nameIndex val withCompression s e =
     (let name = (case fieldName nameIndex (enc_table e) of None \<Rightarrow> [] | Some n \<Rightarrow> n);
          e = (if fieldType = LiteralIncrementalIndexing
               then e\<lparr>enc_table := snd (prependField name val (enc_table e))\<rparr> else e);
          s = write_u32 nameIndex (write_bit_pattern fieldType s)
      in case write_string val withCompression s of None \<Rightarrow> None | Some s \<Rightarrow> Some (True, s, e))"

definition encodeHeaderField :: "header_field \<Rightarrow> bit_ostream \<Rightarrow> hpack_encoder \<Rightarrow> encode_result" where
  "encodeHeaderField f s e =
     (let index = indexOf (hf_name f) (hf_value f) (enc_table e);
          nameIndex = indexOfName (hf_name f) (enc_table e)
      in if index \<noteq> 0 then encodeIndexedField index s e
         else if nameIndex \<noteq> 0
         then encodeLiteralIndexedName LiteralIncrementalIndexing nameIndex (hf_value f) (compressStrings e) s e
         else encodeLiteralField LiteralIncrementalIndexing (hf_name f) (hf_value f) (compressStrings e) s e)"

definition encodeMethod :: "header_field \<Rightarrow> bit_ostream \<Rightarrow> hpack_encoder \<Rightarrow> encode_result" where
  "encodeMethod f s e =
     (let index = indexOf (hf_name f) (hf_value f) (enc_table e)
      in if index \<noteq> 0 then encodeIndexedField index s e
         else encodeLiteralIndexedName LiteralIncrementalIndexing (indexOfName (hf_name f) (enc_table e))
                (hf_value f) (compressStrings e) s e)"

definition headerName :: "bytes list" where
  "headerName = [chars '':authority'', chars '':scheme'', chars '':path'']"

text \<open>The loop of \<open>encodeRequestPseudoHeaders\<close>; an \<open>Inl\<close> is a return of \<open>false\<close> out of the loop.\<close>

fun request_pseudo_loop :: "header_field list \<Rightarrow> bool \<Rightarrow> bool list \<Rightarrow> bit_ostream \<Rightarrow> hpack_encoder
    \<Rightarrow> (bit_ostream \<times> hpack_encoder + bool \<times> bool list \<times> bit_ostream \<times> hpack_encoder) option" where
  "request_pseudo_loop [] methodFound headerFound s e = Some (Inr (methodFound, headerFound, s, e))"
| "request_pseudo_loop (f # fs) methodFound headerFound s e =
     (if hf_name f = chars '':status'' then Some (Inl (s, e))
      else if hf_name f = chars '':method''
      then (if methodFound then Some (Inl (s, e))
            else case encodeMethod f s e of
                   None \<Rightarrow> None
                 | Some (False, s, e) \<Rightarrow> Some (Inl (s, e))
                 | Some (True, s, e) \<Rightarrow> request_pseudo_loop fs True headerFound s e)
      else if hf_name f = chars ''cookie'' then request_pseudo_loop fs methodFound headerFound s e
      else let j = length (takeWhile (\<lambda>n. n \<noteq> hf_name f) headerName)
           in if j < length headerName
              then (if headerFound ! j then Some (Inl (s, e))
                    else case encodeHeaderField f s e of
                           None \<Rightarrow> None
                         | Some (False, s, e) \<Rightarrow> Some (Inl (s, e))
                         | Some (True, s, e) \<Rightarrow> request_pseudo_loop fs methodFound (headerFound[j := True]) s e)
              else request_pseudo_loop fs methodFound headerFound s e)"

definition encodeRequestPseudoHeaders :: "header_field list \<Rightarrow> bit_ostream \<Rightarrow> hpack_encoder \<Rightarrow> encode_result" where
  "encodeRequestPseudoHeaders header s e =
     (case request_pseudo_loop header False [False, False, False] s e of
        None \<Rightarrow> None
      | Some (Inl (s, e)) \<Rightarrow> Some (False, s, e)
      | Some (Inr (methodFound, headerFound, s, e)) \<Rightarrow>
          if \<not> methodFound then Some (False, s, e)
          else if \<not> list_all id (drop 1 headerFound) then Some (False, s, e)
          else Some (True, s, e))"

fun response_pseudo_loop :: "header_field list \<Rightarrow> bool \<Rightarrow> bit_ostream \<Rightarrow> hpack_encoder \<Rightarrow> encode_result" where
  "response_pseudo_loop [] statusFound s e = Some (statusFound, s, e)"
| "response_pseudo_loop (f # fs) statusFound s e =
     (if is_request_pseudo_header (hf_name f) then Some (False, s, e)
      else if hf_name f = chars '':status''
      then (if statusFound then Some (False, s, e)
            else case encodeHeaderField f s e of
                   None \<Rightarrow> None
                 | Some (False, s, e) \<Rightarrow> Some (False, s, e)
                 | Some (True, s, e) \<Rightarrow> response_pseudo_loop fs True s e)
      else response_pseudo_loop fs statusFound s e)"

definition encodeResponsePseudoHeaders :: "header_field list \<Rightarrow> bit_ostream \<Rightarrow> hpack_encoder \<Rightarrow> encode_result" where
  "encodeResponsePseudoHeaders header s e = response_pseudo_loop header False s e"

text \<open>The loops over the other fields; \<open>skip\<close> is the test of the loop's \<open>continue\<close>.\<close>

fun encode_fields :: "(bytes \<Rightarrow> bool) \<Rightarrow> header_field list \<Rightarrow> bit_ostream \<Rightarrow> hpack_encoder \<Rightarrow> encode_result" where
  "encode_fields skip [] s e = Some (True, s, e)"
| "encode_fields skip (f # fs) s e =
     (if skip (hf_name f) then encode_fields skip fs s e
      else case encodeHeaderField f s e of
             None \<Rightarrow> None
           | Some (False, s, e) \<Rightarrow> Some (False, s, e)
           | Some (True, s, e) \<Rightarrow> encode_fields skip fs s e)"

definition encodeRequest :: "header_field list \<Rightarrow> bit_ostream \<Rightarrow> hpack_encoder \<Rightarrow> encode_result" where
  "encodeRequest header s e =
     (if header = [] then Some (False, s, e)
      else case encodeRequestPseudoHeaders header s e of
             None \<Rightarrow> None
           | Some (False, s, e) \<Rightarrow> Some (False, s, e)
           | Some (True, s, e) \<Rightarrow> encode_fields is_request_pseudo_header header s e)"

definition encodeResponse :: "header_field list \<Rightarrow> bit_ostream \<Rightarrow> hpack_encoder \<Rightarrow> encode_result" where
  "encodeResponse header s e =
     (if header = [] then Some (False, s, e)
      else case encodeResponsePseudoHeaders header s e of
             None \<Rightarrow> None
           | Some (False, s, e) \<Rightarrow> Some (False, s, e)
           | Some (True, s, e) \<Rightarrow> encode_fields (\<lambda>n. n = chars '':status'') header s e)"

subsection \<open>The decoder\<close>

record hpack_decoder =
  dec_header :: "header_field list"
  dec_table :: field_table

definition Decoder :: "nat \<Rightarrow> hpack_decoder" where
  "Decoder maxSize = \<lparr>dec_header = [], dec_table = FieldLookupTable maxSize False\<rparr>"

type_synonym decode_result = "(bool \<times> bit_istream \<times> hpack_decoder) option"

definition dec_setMaxDynamicTableSize :: "nat \<Rightarrow> hpack_decoder \<Rightarrow> hpack_decoder" where
  "dec_setMaxDynamicTableSize maxSize d = d\<lparr>dec_table := setMaxDynamicTableSize maxSize (dec_table d)\<rparr>"

definition processDecodedField :: "bit_pattern \<Rightarrow> bytes \<Rightarrow> bytes \<Rightarrow> hpack_decoder \<Rightarrow> bool \<times> hpack_decoder" where
  "processDecodedField fieldType name val d =
     (let (ok, d) = (if fieldType = LiteralIncrementalIndexing
                     then let (ok, t) = prependField name val (dec_table d) in (ok, d\<lparr>dec_table := t\<rparr>)
                     else (True, d))
      in if \<not> ok then (False, d)
         else if maxTableSize (dec_table d) < tableCapacity (dec_table d) then (False, d)
         else (True, d\<lparr>dec_header := dec_header d @ [HeaderField name val]\<rparr>))"

definition decodeIndexedField :: "bit_istream \<Rightarrow> hpack_decoder \<Rightarrow> decode_result" where
  "decodeIndexedField s d =
     (case read_u32 s of
        (None, s) \<Rightarrow> Some (False, s, d)
      | (Some index, s) \<Rightarrow>
          if index = 0 then Some (False, s, d)
          else (case field index (dec_table d) of
                  None \<Rightarrow> Some (False, s, d)
                | Some f \<Rightarrow> let (ok, d) = processDecodedField Indexed (hf_name f) (hf_value f) d in Some (ok, s, d)))"

definition decodeSizeUpdate :: "bit_istream \<Rightarrow> hpack_decoder \<Rightarrow> decode_result" where
  "decodeSizeUpdate s d =
     (case read_u32 s of
        (None, s) \<Rightarrow> Some (False, s, d)
      | (Some maxSize, s) \<Rightarrow>
          let (ok, t) = updateDynamicTableSize maxSize (dec_table d) in Some (ok, s, d\<lparr>dec_table := t\<rparr>))"

definition decodeLiteralField :: "bit_pattern \<Rightarrow> bit_istream \<Rightarrow> hpack_decoder \<Rightarrow> decode_result" where
  "decodeLiteralField fieldType s d =
     (let read_value = (\<lambda>name s.
            case read_string s of
              None \<Rightarrow> None
            | Some (None, s) \<Rightarrow> Some (False, s, d)
            | Some (Some val, s) \<Rightarrow> let (ok, d) = processDecodedField fieldType name val d in Some (ok, s, d))
      in case read_u32 s of
           (None, s) \<Rightarrow> Some (False, s, d)
         | (Some index, s) \<Rightarrow>
             if index = 0
             then (case read_string s of
                     None \<Rightarrow> None
                   | Some (None, s) \<Rightarrow> Some (False, s, d)
                   | Some (Some name, s) \<Rightarrow> read_value name s)
             else (case fieldName index (dec_table d) of
                     None \<Rightarrow> Some (False, s, d)
                   | Some name \<Rightarrow> read_value name s))"

text \<open>One round of the loop: \<open>Inl\<close> is the return value of the whole, \<open>Inr\<close> the next round.\<close>

definition decode_round :: "bit_istream \<Rightarrow> hpack_decoder
    \<Rightarrow> (bool \<times> bit_istream \<times> hpack_decoder + bit_istream \<times> hpack_decoder) option" where
  "decode_round s d =
     (let continue = map_option (\<lambda>(ok, s, d). if ok then Inr (s, d) else Inl (False, s, d))
      in if fst (read_bit_pattern Indexed s)
         then continue (decodeIndexedField (snd (read_bit_pattern Indexed s)) d)
         else if fst (read_bit_pattern LiteralIncrementalIndexing s)
         then continue (decodeLiteralField LiteralIncrementalIndexing (snd (read_bit_pattern LiteralIncrementalIndexing s)) d)
         else if fst (read_bit_pattern LiteralNoIndexing s)
         then continue (decodeLiteralField LiteralNoIndexing (snd (read_bit_pattern LiteralNoIndexing s)) d)
         else if fst (read_bit_pattern LiteralNeverIndexing s)
         then continue (decodeLiteralField LiteralNeverIndexing (snd (read_bit_pattern LiteralNeverIndexing s)) d)
         else if fst (read_bit_pattern SizeUpdate s)
         then continue (decodeSizeUpdate (snd (read_bit_pattern SizeUpdate s)) d)
         else Some (Inl (bitLength s = is_offset s, s, d)))"

fun decode_loop :: "nat \<Rightarrow> bit_istream \<Rightarrow> hpack_decoder \<Rightarrow> decode_result" where
  "decode_loop 0 s d = None"
| "decode_loop (Suc fuel) s d =
     (case decode_round s d of
        None \<Rightarrow> None
      | Some (Inl r) \<Rightarrow> Some r
      | Some (Inr (s, d)) \<Rightarrow> decode_loop fuel s d)"

definition decodeHeaderFields :: "bit_istream \<Rightarrow> hpack_decoder \<Rightarrow> decode_result" where
  "decodeHeaderFields s d = decode_loop (Suc (bitLength s)) s (d\<lparr>dec_header := []\<rparr>)"

subsection \<open>The URL of a pushed request\<close>

text \<open>\<open>QUrl\<close> is a parameter: \<open>mkurl scheme authority path\<close> is the URL, or \<open>None\<close> if it is not valid.\<close>

definition lower :: "byte \<Rightarrow> byte" where
  "lower b = (if 65 \<le> b \<and> b \<le> 90 then b + 32 else b)"

definition promise_names :: "bytes list" where
  "promise_names = [chars '':authority'', chars '':method'', chars '':path'', chars '':scheme'']"

fun collect_pseudo :: "header_field list \<Rightarrow> bytes option list \<Rightarrow> bytes option list option" where
  "collect_pseudo [] ps = Some ps"
| "collect_pseudo (f # fs) ps =
     (let index = length (takeWhile (\<lambda>n. n \<noteq> hf_name f) promise_names)
      in if index < length promise_names
         then (if hf_value f = [] \<or> ps ! index \<noteq> None then None else collect_pseudo fs (ps[index := Some (hf_value f)]))
         else collect_pseudo fs ps)"

definition makePromiseKeyUrl :: "(bytes \<Rightarrow> bytes \<Rightarrow> bytes \<Rightarrow> 'url option) \<Rightarrow> header_field list \<Rightarrow> 'url option" where
  "makePromiseKeyUrl mkurl requestHeader =
     (case collect_pseudo requestHeader [None, None, None, None] of
        None \<Rightarrow> None
      | Some ps \<Rightarrow>
          if \<not> list_all (\<lambda>p. p \<noteq> None) ps then None
          else let meth = map lower (the (ps ! 1))
               in if meth \<noteq> chars ''get'' \<and> meth \<noteq> chars ''head'' then None
                  else mkurl (the (ps ! 3)) (the (ps ! 0)) (the (ps ! 2)))"


subsection \<open>Reading from a position\<close>

definition reads :: "bit_istream \<Rightarrow> bool list \<Rightarrow> bool" where
  "reads s xs \<longleftrightarrow> drop (is_offset s) (bits_of (is_data s)) = xs \<and> 8 * length (is_data s) < 2 ^ 32"

definition move :: "nat \<Rightarrow> bit_istream \<Rightarrow> bit_istream" where
  "move n s = s\<lparr>is_offset := is_offset s + n\<rparr>"

definition adv :: "nat \<Rightarrow> bit_istream \<Rightarrow> bit_istream" where
  "adv n s = s\<lparr>is_error := NoError, is_offset := is_offset s + n\<rparr>"

definition aligned :: "bit_istream \<Rightarrow> bool" where
  "aligned s \<longleftrightarrow> is_offset s mod 8 = 0"

lemma adv_move [simp]: "adv n (move m s) = adv (m + n) s" "adv n (adv m s) = adv (m + n) s"
  by (simp_all add: adv_def move_def add.assoc)

lemma offset_adv [simp]: "is_offset (adv n s) = is_offset s + n" "is_offset (move n s) = is_offset s + n"
  by (simp_all add: adv_def move_def)

lemma reads_move: "reads s (xs @ ys) \<Longrightarrow> reads (move (length xs) s) ys"
  and reads_adv: "reads s (xs @ ys) \<Longrightarrow> reads (adv (length xs) s) ys"
  by (auto simp: reads_def move_def adv_def) (metis add.commute append_eq_conv_conj drop_drop)+

lemma reads_Cons: "reads s (x # ys) \<Longrightarrow> reads (move 1 s) ys"
  using reads_move [of s "[x]" ys] by simp

lemma reads_Cons2: "reads s (x # y # ys) \<Longrightarrow> reads (move 2 s) ys"
  using reads_move [of s "[x, y]" ys] by (simp add: numeral_2_eq_2)

lemma reads_available: "reads s xs \<Longrightarrow> xs \<noteq> [] \<Longrightarrow> is_offset s + length xs = bitLength s"
  by (auto simp: reads_def bitLength_def)

lemma read_int:
  assumes "reads s (int_bits p n @ ys)" "p = 8 - is_offset s mod 8" "n < 2 ^ 32"
  shows "read_u32 s = (Some n, adv (length (int_bits p n)) s)"
  using read_u32_spec [of s p n ys] assms by (simp add: reads_def adv_def)

text \<open>The patterns and the bits they stand for.\<close>

definition pattern_bits :: "bit_pattern \<Rightarrow> bool list" where
  "pattern_bits p = low_bits (bp_bitLength p) (bp_value p)"

lemmas patterns = Indexed_def LiteralIncrementalIndexing_def LiteralNoIndexing_def
  LiteralNeverIndexing_def SizeUpdate_def

lemma pattern_bits_simps [simp]:
  "pattern_bits Indexed = [True]" "pattern_bits LiteralIncrementalIndexing = [False, True]"
  "pattern_bits LiteralNoIndexing = [False, False, False, False]"
  "pattern_bits LiteralNeverIndexing = [False, False, False, True]"
  "pattern_bits SizeUpdate = [False, False, True]"
  by (simp_all add: pattern_bits_def patterns low_bits_def upt_conv_Cons)

lemma pattern_length [simp]:
  "bp_bitLength Indexed = 1" "bp_bitLength LiteralIncrementalIndexing = 2"
  "bp_bitLength LiteralNoIndexing = 4" "bp_bitLength LiteralNeverIndexing = 4" "bp_bitLength SizeUpdate = 3"
  by (simp_all add: patterns)

definition pattern_ok :: "bit_pattern \<Rightarrow> bool" where
  "pattern_ok p \<longleftrightarrow> 0 < bp_bitLength p \<and> bp_bitLength p \<le> 8
     \<and> word_bits (bp_value p) = replicate (8 - bp_bitLength p) False @ pattern_bits p"

lemma pattern_ok [simp]:
  "pattern_ok Indexed" "pattern_ok LiteralIncrementalIndexing" "pattern_ok LiteralNoIndexing"
  "pattern_ok LiteralNeverIndexing" "pattern_ok SizeUpdate"
  by (simp_all add: pattern_ok_def) (simp_all add: patterns word_bits_def upt_conv_Cons numeral_eq_Suc)

lemma read_bit_pattern_spec:
  assumes "reads s (xs @ ys)" "length xs = bp_bitLength p" "pattern_ok p"
  shows "read_bit_pattern p s = (if xs = pattern_bits p then (True, move (bp_bitLength p) s) else (False, s))"
proof -
  let ?n = "bp_bitLength p"
  have n: "0 < ?n" "?n \<le> 8" using assms(3) by (simp_all add: pattern_ok_def)
  have len: "is_offset s + length (xs @ ys) = bitLength s"
    using assms(1,2) n by (intro reads_available) auto
  then have lt: "is_offset s < bitLength s" using assms(2) n by simp
  from peekBits_spec [of ?n "is_offset s" s "0 :: byte", OF _ _ n(1) lt] n(2) assms(1)
  obtain w where w: "peekBits (is_offset s) ?n (0 :: byte) s = (min ?n (bitLength s - is_offset s), w)"
    "word_bits w = take ?n (xs @ ys) @ replicate (8 - (bitLength s - is_offset s)) False
        @ replicate (min 8 (bitLength s - is_offset s) - ?n) False"
    by (auto simp: reads_def)
  have m: "min ?n (bitLength s - is_offset s) = ?n" using len assms(2) by simp
  have "take ?n (word_bits w) = xs" using w(2) assms(2) by simp
  then have "word_bits (drop_bit (8 - ?n) w) = replicate (8 - ?n) False @ xs"
    using n by (simp add: word_bits_drop_bit)
  then have "drop_bit (8 - ?n) w = bp_value p \<longleftrightarrow> xs = pattern_bits p"
    using assms(3) unfolding pattern_ok_def by (metis same_append_eq word_bits_inject)
  moreover have "skipBits ?n s = (True, move ?n s)"
    using len assms(2) by (auto simp: skipBits_def move_def)
  ultimately show ?thesis using w(1) m by (simp add: read_bit_pattern_def)
qed

lemma read_bit_pattern_end: "bitLength s \<le> is_offset s \<Longrightarrow> pattern_ok p \<Longrightarrow> read_bit_pattern p s = (False, s)"
  by (simp add: read_bit_pattern_def peekBits_def pattern_ok_def)

lemma write_bit_pattern_spec:
  assumes "os_wf s" "pattern_ok p"
  shows "os_wf (write_bit_pattern p s)" "os_bits (write_bit_pattern p s) = os_bits s @ pattern_bits p"
    "os_bitsSet (write_bit_pattern p s) = os_bitsSet s + bp_bitLength p"
  using writeBits_spec [OF assms(1), of "bp_bitLength p" "bp_value p"] assms(2)
  by (simp_all add: write_bit_pattern_def pattern_ok_def pattern_bits_def) (simp add: writeBits_def Let_def)

subsection \<open>Rounds of the decoder\<close>


text \<open>What a round of the loop does, by the first bits.\<close>

definition keep_going :: "decode_result \<Rightarrow> (bool \<times> bit_istream \<times> hpack_decoder + bit_istream \<times> hpack_decoder) option" where
  "keep_going = map_option (\<lambda>(ok, s, d). if ok then Inr (s, d) else Inl (False, s, d))"

lemma decode_round_cases:
  "reads s (True # xs) \<Longrightarrow> decode_round s d = keep_going (decodeIndexedField (move 1 s) d)"
  "reads s (False # True # xs) \<Longrightarrow> decode_round s d = keep_going (decodeLiteralField LiteralIncrementalIndexing (move 2 s) d)"
  "reads s (False # False # False # False # xs) \<Longrightarrow> decode_round s d = keep_going (decodeLiteralField LiteralNoIndexing (move 4 s) d)"
  "reads s (False # False # False # True # xs) \<Longrightarrow> decode_round s d = keep_going (decodeLiteralField LiteralNeverIndexing (move 4 s) d)"
  "reads s (False # False # True # b # xs) \<Longrightarrow> decode_round s d = keep_going (decodeSizeUpdate (move 3 s) d)"
proof -
  have one: "read_bit_pattern Indexed s = (if b then (True, move 1 s) else (False, s))" if "reads s (b # xs)" for b xs
    using read_bit_pattern_spec [of s "[b]" xs Indexed] that by auto
  have two: "read_bit_pattern LiteralIncrementalIndexing s = (if \<not> a \<and> b then (True, move 2 s) else (False, s))"
    if "reads s (a # b # xs)" for a b xs
    using read_bit_pattern_spec [of s "[a, b]" xs LiteralIncrementalIndexing] that by auto
  have four: "read_bit_pattern LiteralNoIndexing s = (if \<not> a \<and> \<not> b \<and> \<not> c \<and> \<not> e then (True, move 4 s) else (False, s))"
    "read_bit_pattern LiteralNeverIndexing s = (if \<not> a \<and> \<not> b \<and> \<not> c \<and> e then (True, move 4 s) else (False, s))"
    if "reads s (a # b # c # e # xs)" for a b c e xs
    using read_bit_pattern_spec [of s "[a, b, c, e]" xs LiteralNoIndexing]
      read_bit_pattern_spec [of s "[a, b, c, e]" xs LiteralNeverIndexing] that by auto
  have three: "read_bit_pattern SizeUpdate s = (if \<not> a \<and> \<not> b \<and> c then (True, move 3 s) else (False, s))"
    if "reads s (a # b # c # xs)" for a b c xs
    using read_bit_pattern_spec [of s "[a, b, c]" xs SizeUpdate] that by auto
  show "reads s (True # xs) \<Longrightarrow> decode_round s d = keep_going (decodeIndexedField (move 1 s) d)"
    using one by (simp add: decode_round_def keep_going_def)
  show "reads s (False # True # xs) \<Longrightarrow> decode_round s d = keep_going (decodeLiteralField LiteralIncrementalIndexing (move 2 s) d)"
    using one two by (simp add: decode_round_def keep_going_def)
  show "reads s (False # False # False # False # xs) \<Longrightarrow> decode_round s d = keep_going (decodeLiteralField LiteralNoIndexing (move 4 s) d)"
    using one two four by (simp add: decode_round_def keep_going_def)
  show "reads s (False # False # False # True # xs) \<Longrightarrow> decode_round s d = keep_going (decodeLiteralField LiteralNeverIndexing (move 4 s) d)"
    using one two four by (simp add: decode_round_def keep_going_def)
  show "reads s (False # False # True # b # xs) \<Longrightarrow> decode_round s d = keep_going (decodeSizeUpdate (move 3 s) d)"
    using one two four three by (simp add: decode_round_def keep_going_def)
qed

lemma decode_round_end:
  "bitLength s = is_offset s \<Longrightarrow> decode_round s d = Some (Inl (True, s, d))"
  by (simp add: decode_round_def read_bit_pattern_end)

lemma HeaderField_collapse [simp]: "HeaderField (hf_name f) (hf_value f) = f"
  by (simp add: HeaderField_eq)

lemma HeaderField_sel [simp]: "hf_name (HeaderField n v) = n" "hf_value (HeaderField n v) = v"
  by (simp_all add: HeaderField_def)

text \<open>The representations the encoder uses and their bits.\<close>

datatype field_repr = RIndexed nat | RIndexedName nat bytes | RNewName bytes bytes

fun repr_bits :: "bool \<Rightarrow> field_repr \<Rightarrow> bool list" where
  "repr_bits c (RIndexed i) = True # int_bits 7 i"
| "repr_bits c (RIndexedName i v) = False # True # int_bits 6 i @ string_bits 7 c v"
| "repr_bits c (RNewName n v) = False # True # int_bits 6 0 @ string_bits 7 c n @ string_bits 7 c v"

lemma string_bits_aligned: "length (string_bits 7 c src) mod 8 = 0"
proof -
  have "(1 + length (int_bits 7 n)) mod 8 = 0" for n by (rule int_bits_aligned) simp
  then have "(1 + length (int_bits 7 n) + 8 * k) mod 8 = 0" for n k by (metis mod_mult_self2)
  then show ?thesis by (simp add: string_bits_def length_padded_codes add.assoc)
qed

lemma repr_bits_aligned: "length (repr_bits c r) mod 8 = 0"
proof -
  have i: "(1 + length (int_bits 7 n)) mod 8 = 0" "(2 + length (int_bits 6 n)) mod 8 = 0" for n
    using int_bits_aligned [of 7 1 n] int_bits_aligned [of 6 2 n] by simp_all
  have "(2 + length (int_bits 6 n) + length (string_bits 7 c v)) mod 8 = 0" for n v
    using i(2) [of n] string_bits_aligned [of c v] by (metis add_0 mod_add_eq mod_0)
  moreover have "(2 + length (int_bits 6 n) + length (string_bits 7 c u) + length (string_bits 7 c v)) mod 8 = 0" for n u v
    using calculation [of n u] string_bits_aligned [of c v] by (metis add_0 mod_add_eq mod_0)
  ultimately show ?thesis using i(1) by (cases r) (simp_all add: add.assoc)
qed

lemma repr_bits_nonempty [simp]: "repr_bits c r \<noteq> []"
  by (cases r) simp_all

text \<open>The table as the contract of a decoder sees it: the field a representation denotes, and
  the entry it adds.\<close>

fun repr_ok :: "(bytes \<Rightarrow> bool) \<Rightarrow> field_table \<Rightarrow> field_repr \<Rightarrow> header_field \<Rightarrow> bool" where
  "repr_ok ok t (RIndexed i) f \<longleftrightarrow> 0 < i \<and> i < 2 ^ 32 \<and> field i t = Some f"
| "repr_ok ok t (RIndexedName i v) f \<longleftrightarrow>
     0 < i \<and> i < 2 ^ 32 \<and> fieldName i t = Some (hf_name f) \<and> v = hf_value f \<and> ok v \<and> fsize f < 2 ^ 32"
| "repr_ok ok t (RNewName n v) f \<longleftrightarrow> n = hf_name f \<and> v = hf_value f \<and> ok n \<and> ok v \<and> fsize f < 2 ^ 32"

fun repr_table :: "field_repr \<Rightarrow> header_field \<Rightarrow> field_table \<Rightarrow> field_table" where
  "repr_table (RIndexed i) f t = t"
| "repr_table _ f t = snd (prependField (hf_name f) (hf_value f) t)"

lemma processDecodedField_plain:
  "fieldType \<noteq> LiteralIncrementalIndexing \<Longrightarrow> tableCapacity (dec_table d) \<le> maxTableSize (dec_table d) \<Longrightarrow>
   processDecodedField fieldType n v d = (True, d\<lparr>dec_header := dec_header d @ [HeaderField n v]\<rparr>)"
  by (simp add: processDecodedField_def)

lemma processDecodedField_indexing:
  assumes "tbl_inv (dec_table d)" "tableCapacity (dec_table d) \<le> maxTableSize (dec_table d)"
    "fsize (HeaderField n v) < 2 ^ 32"
  shows "processDecodedField LiteralIncrementalIndexing n v d =
    (True, d\<lparr>dec_table := snd (prependField n v (dec_table d)), dec_header := dec_header d @ [HeaderField n v]\<rparr>)"
  using prependField_spec(1,2) [OF assms(1), of n v] assms(2,3)
  by (cases "prependField n v (dec_table d)") (simp add: processDecodedField_def)

lemma mod8_add: "(n :: nat) mod 8 = 0 \<Longrightarrow> k < 8 \<Longrightarrow> (n + k) mod 8 = k"
  by (metis add_0 mod_add_left_eq mod_less)

lemma aligned_mod: "aligned s \<Longrightarrow> k < 8 \<Longrightarrow> (is_offset s + k) mod 8 = k"
  unfolding aligned_def by (rule mod8_add)

lemma aligned_Suc: "aligned s \<Longrightarrow> Suc (is_offset s) mod 8 = 1"
  using aligned_mod [of s 1] by simp

lemma aligned_adv: "aligned s \<Longrightarrow> k mod 8 = 0 \<Longrightarrow> aligned (adv k s)"
  unfolding aligned_def offset_adv by (metis add_0 mod_add_left_eq)

subsection \<open>Sequences of fields\<close>

lemma chars_inject [simp]: "chars a = chars b \<longleftrightarrow> a = b"
proof -
  have "unat (of_char ch :: byte) = of_char ch" for ch
    unfolding of_nat_of_char [symmetric, where 'a = "8 word"] by (simp only: unat_of_nat_byte of_char_mod_256)
  then have "inj (of_char :: char \<Rightarrow> byte)"
    by (intro injI) (metis of_char_eqI)
  then show ?thesis by (simp add: chars_def)
qed

fun seq_ok :: "(bytes \<Rightarrow> bool) \<Rightarrow> field_table \<Rightarrow> field_repr list \<Rightarrow> header_field list \<Rightarrow> bool" where
  "seq_ok ok t [] [] = True"
| "seq_ok ok t (r # rs) (f # fs) = (repr_ok ok t r f \<and> seq_ok ok (repr_table r f t) rs fs)"
| "seq_ok ok t _ _ = False"

fun seq_table :: "field_repr list \<Rightarrow> header_field list \<Rightarrow> field_table \<Rightarrow> field_table" where
  "seq_table (r # rs) (f # fs) t = seq_table rs fs (repr_table r f t)"
| "seq_table _ _ t = t"

definition seq_bits :: "bool \<Rightarrow> field_repr list \<Rightarrow> bool list" where
  "seq_bits c rs = concat (map (repr_bits c) rs)"

lemma seq_bits_simps [simp]:
  "seq_bits c [] = []" "seq_bits c (r # rs) = repr_bits c r @ seq_bits c rs"
  "seq_bits c (rs @ rs') = seq_bits c rs @ seq_bits c rs'"
  by (simp_all add: seq_bits_def)

lemma seq_append:
  "seq_ok ok t rs fs \<Longrightarrow> seq_ok ok (seq_table rs fs t) rs' fs' \<Longrightarrow>
   seq_ok ok t (rs @ rs') (fs @ fs') \<and> seq_table (rs @ rs') (fs @ fs') t = seq_table rs' fs' (seq_table rs fs t)"
  by (induction ok t rs fs rule: seq_ok.induct) auto

lemma seq_bits_length: "length rs \<le> length (seq_bits c rs)"
proof (induction rs)
  case (Cons r rs)
  have "0 < length (repr_bits c r)" by simp
  with Cons show ?case unfolding seq_bits_simps list.size length_append by linarith
qed simp

text \<open>Two tables with the same entries and capacity, as the two ends of a connection hold them.\<close>

definition synced :: "field_table \<Rightarrow> field_table \<Rightarrow> bool" where
  "synced t u \<longleftrightarrow> tbl_inv t \<and> tbl_inv u \<and> useIndex t \<and> dyn t = dyn u \<and> tableCapacity t = tableCapacity u
     \<and> tableCapacity u \<le> maxTableSize u"

lemma synced_field: "synced t u \<Longrightarrow> field i t = field i u"
proof -
  assume s: "synced t u"
  then have "nDynamic t = nDynamic u" using length_dyn [of t] length_dyn [of u] by (simp add: synced_def)
  with s show ?thesis by (simp add: synced_def tbl_inv_def field_spec indexIsValid_def)
qed

lemma synced_repr:
  assumes "synced t u" "repr_ok ok t r f"
  shows "repr_ok ok u r f" "synced (repr_table r f t) (repr_table r f u)"
proof -
  show "repr_ok ok u r f" using assms synced_field [OF assms(1)] by (cases r) (auto simp: fieldName_def)
  have s: "tbl_inv t" "tbl_inv u" using assms(1) by (simp_all add: synced_def)
  show "synced (repr_table r f t) (repr_table r f u)"
    using assms(1) prependField_spec [OF s(1), of "hf_name f" "hf_value f"]
      prependField_spec [OF s(2), of "hf_name f" "hf_value f"]
    by (cases r) (auto simp: synced_def)
qed

lemma synced_seq:
  "synced t u \<Longrightarrow> seq_ok ok t rs fs \<Longrightarrow> seq_ok ok u rs fs \<and> synced (seq_table rs fs t) (seq_table rs fs u)"
proof (induction ok t rs fs arbitrary: u rule: seq_ok.induct)
  case (2 ok t r rs f fs)
  then show ?case using synced_repr [of t u ok r f] by auto
qed auto

definition count_name :: "string \<Rightarrow> header_field list \<Rightarrow> nat" where
  "count_name n h = length (filter (\<lambda>f. hf_name f = chars n) h)"

lemma count_name_simps [simp]:
  "count_name n [] = 0" "count_name n (f # fs) = of_bool (hf_name f = chars n) + count_name n fs"
  by (simp_all add: count_name_def)

lemma headerName_position:
  "length (takeWhile (\<lambda>n. n \<noteq> x) headerName) =
    (if x = chars '':authority'' then 0 else if x = chars '':scheme'' then 1 else if x = chars '':path'' then 2 else 3)"
  by (auto simp: headerName_def)

definition pseudo_fit :: "header_field list \<Rightarrow> bool \<Rightarrow> bool \<Rightarrow> bool \<Rightarrow> bool \<Rightarrow> bool" where
  "pseudo_fit h m a0 a1 a2 \<longleftrightarrow> count_name '':status'' h = 0 \<and> count_name '':method'' h + of_bool m \<le> 1
     \<and> count_name '':authority'' h + of_bool a0 \<le> 1 \<and> count_name '':scheme'' h + of_bool a1 \<le> 1
     \<and> count_name '':path'' h + of_bool a2 \<le> 1"

fun loop_result :: "(bit_ostream \<times> hpack_encoder + bool \<times> bool list \<times> bit_ostream \<times> hpack_encoder) option \<Rightarrow> encode_result" where
  "loop_result None = None"
| "loop_result (Some (Inl (s, e))) = Some (False, s, e)"
| "loop_result (Some (Inr (m, hs, s, e))) = Some (True, s, e)"

lemma request_pseudo_flags:
  "request_pseudo_loop h m [a0, a1, a2] s e = Some (Inr (m', hs', s', e')) \<Longrightarrow>
   m' = (m \<or> 0 < count_name '':method'' h) \<and>
   hs' = [a0 \<or> 0 < count_name '':authority'' h, a1 \<or> 0 < count_name '':scheme'' h, a2 \<or> 0 < count_name '':path'' h]"
proof (induction h arbitrary: m a0 a1 a2 s e m' hs' s' e')
  case (Cons f h)
  from Cons.prems show ?case
    by (auto simp: headerName_position headerName_def Let_def numeral_2_eq_2
      split: if_splits option.splits bool.splits dest!: Cons.IH)
qed simp

definition valid_request :: "header_field list \<Rightarrow> bool" where
  "valid_request h \<longleftrightarrow> count_name '':status'' h = 0 \<and> count_name '':method'' h = 1
     \<and> count_name '':scheme'' h = 1 \<and> count_name '':path'' h = 1 \<and> count_name '':authority'' h \<le> 1"

definition valid_response :: "header_field list \<Rightarrow> bool" where
  "valid_response h \<longleftrightarrow> count_name '':status'' h = 1 \<and> \<not> list_ex (\<lambda>f. is_request_pseudo_header (hf_name f)) h"

text \<open>The order in which a header's fields are sent: the pseudo headers first.\<close>

definition pseudo_first :: "(bytes \<Rightarrow> bool) \<Rightarrow> header_field list \<Rightarrow> header_field list" where
  "pseudo_first pseudo h = filter (\<lambda>f. pseudo (hf_name f)) h @ filter (\<lambda>f. \<not> pseudo (hf_name f)) h"

locale string_coding =
  fixes c :: bool and ok :: "bytes \<Rightarrow> bool"
  assumes ok_writable: "ok src \<Longrightarrow> writable c src"
    and read_back: "ok src \<Longrightarrow> reads s (string_bits p c src @ ys) \<Longrightarrow> p = 8 - (is_offset s + 1) mod 8 \<Longrightarrow>
      read_string s = Some (Some src, adv (length (string_bits p c src)) s)"
begin

lemma read_string_7:
  "ok src \<Longrightarrow> reads s (string_bits 7 c src @ ys) \<Longrightarrow> aligned s \<Longrightarrow>
   read_string s = Some (Some src, adv (length (string_bits 7 c src)) s)"
  by (rule read_back) (simp_all add: aligned_Suc)

lemma decode_repr:
  assumes "reads s (repr_bits c r @ ys)" "aligned s" "repr_ok ok (dec_table d) r f"
    and "tbl_inv (dec_table d)" "tableCapacity (dec_table d) \<le> maxTableSize (dec_table d)"
  shows "decode_round s d = Some (Inr (adv (length (repr_bits c r)) s,
    d\<lparr>dec_table := repr_table r f (dec_table d), dec_header := dec_header d @ [f]\<rparr>))"
proof (cases r)
  case (RIndexed i)
  have r1: "reads (move 1 s) (int_bits 7 i @ ys)" using reads_Cons assms(1) RIndexed by simp
  have p: "7 = 8 - is_offset (move 1 s) mod 8" using assms(2) by (simp add: aligned_Suc)
  have "read_u32 (move 1 s) = (Some i, adv (1 + length (int_bits 7 i)) s)"
    using read_int [OF r1 p] assms(3) RIndexed by simp
  moreover have "decode_round s d = keep_going (decodeIndexedField (move 1 s) d)"
    using decode_round_cases(1) assms(1) RIndexed by simp
  ultimately show ?thesis using assms(3,5) RIndexed
    by (simp add: decodeIndexedField_def keep_going_def processDecodedField_plain patterns HeaderField_def)
next
  case (RIndexedName i v)
  have okv: "ok v" "v = hf_value f" "0 < i" "i < 2 ^ 32" "fieldName i (dec_table d) = Some (hf_name f)" "fsize f < 2 ^ 32"
    using assms(3) unfolding RIndexedName by auto
  let ?k = "2 + length (int_bits 6 i)"
  have r1: "reads (move 2 s) (int_bits 6 i @ string_bits 7 c v @ ys)"
    using reads_Cons2 assms(1) RIndexedName by simp
  have m2: "(is_offset s + 2) mod 8 = 2" using assms(2) by (rule aligned_mod) simp
  have p: "6 = 8 - is_offset (move 2 s) mod 8" by (simp only: offset_adv m2)
  have u: "read_u32 (move 2 s) = (Some i, adv ?k s)"
    using read_int [OF r1 p] assms(3) RIndexedName by simp
  have r2: "reads (adv ?k s) (string_bits 7 c v @ ys)"
    using reads_adv [OF r1] by simp
  have "aligned (adv ?k s)"
    using int_bits_aligned [of 6 "is_offset s + 2" i] by (simp only: m2 aligned_def offset_adv add.assoc) simp
  then have rs: "read_string (adv ?k s) = Some (Some v, adv (?k + length (string_bits 7 c v)) s)"
    using read_string_7 [OF _ r2] okv by simp
  have "decode_round s d = keep_going (decodeLiteralField LiteralIncrementalIndexing (move 2 s) d)"
    using decode_round_cases(2) assms(1) RIndexedName by simp
  moreover have "processDecodedField LiteralIncrementalIndexing (hf_name f) v d =
      (True, d\<lparr>dec_table := snd (prependField (hf_name f) v (dec_table d)), dec_header := dec_header d @ [f]\<rparr>)"
    using processDecodedField_indexing [OF assms(4,5), of "hf_name f" v] okv by simp
  ultimately show ?thesis using u rs okv(2-) RIndexedName
    by (simp add: decodeLiteralField_def keep_going_def)
next
  case (RNewName n v)
  have okn: "ok n" "ok v" "n = hf_name f" "v = hf_value f" "fsize f < 2 ^ 32"
    using assms(3) unfolding RNewName by auto
  let ?k = "2 + length (int_bits 6 0)"
  have r1: "reads (move 2 s) (int_bits 6 0 @ string_bits 7 c n @ string_bits 7 c v @ ys)"
    using reads_Cons2 assms(1) RNewName by simp
  have m2: "(is_offset s + 2) mod 8 = 2" using assms(2) by (rule aligned_mod) simp
  have p: "6 = 8 - is_offset (move 2 s) mod 8" by (simp only: offset_adv m2)
  have u: "read_u32 (move 2 s) = (Some 0, adv ?k s)" using read_int [OF r1 p] by simp
  have r2: "reads (adv ?k s) (string_bits 7 c n @ string_bits 7 c v @ ys)" using reads_adv [OF r1] by simp
  have al: "aligned (adv ?k s)"
    using int_bits_aligned [of 6 "is_offset s + 2" 0] by (simp only: m2 aligned_def offset_adv add.assoc) simp
  then have rn: "read_string (adv ?k s) = Some (Some n, adv (?k + length (string_bits 7 c n)) s)"
    using read_string_7 [OF _ r2] okn by simp
  have r3: "reads (adv (?k + length (string_bits 7 c n)) s) (string_bits 7 c v @ ys)"
    using reads_adv [OF r2] by (simp add: add.commute)
  have "aligned (adv (?k + length (string_bits 7 c n)) s)"
    using aligned_adv [OF al string_bits_aligned] by simp
  then have rs: "read_string (adv (?k + length (string_bits 7 c n)) s)
      = Some (Some v, adv (?k + length (string_bits 7 c n) + length (string_bits 7 c v)) s)"
    using read_string_7 [OF _ r3] okn by simp
  have "decode_round s d = keep_going (decodeLiteralField LiteralIncrementalIndexing (move 2 s) d)"
    using decode_round_cases(2) assms(1) RNewName by simp
  moreover have "processDecodedField LiteralIncrementalIndexing n v d =
      (True, d\<lparr>dec_table := snd (prependField n v (dec_table d)), dec_header := dec_header d @ [f]\<rparr>)"
    using processDecodedField_indexing [OF assms(4,5), of n v] okn by simp
  ultimately show ?thesis using u rn rs okn(3-) RNewName
    by (simp add: decodeLiteralField_def keep_going_def add.assoc)
qed

lemma write_name_prefix:
  fixes i assumes "os_wf s" "os_bitsSet s mod 8 = 0"
  defines "u \<equiv> write_u32 i (write_bit_pattern LiteralIncrementalIndexing s)"
  shows "os_wf u" "os_bitsSet u mod 8 = 0" "os_bits u = os_bits s @ False # True # int_bits 6 i"
proof -
  let ?w = "write_bit_pattern LiteralIncrementalIndexing s"
  have w: "os_wf ?w" "os_bits ?w = os_bits s @ [False, True]" "os_bitsSet ?w = os_bitsSet s + 2"
    using write_bit_pattern_spec [OF assms(1), of LiteralIncrementalIndexing] by simp_all
  have "os_bitsSet ?w mod 8 = 2" unfolding w(3) using assms(2) by (rule mod8_add) simp
  then have "8 - os_bitsSet ?w mod 8 = 6" by simp
  then show "os_wf u" "os_bitsSet u mod 8 = 0" "os_bits u = os_bits s @ False # True # int_bits 6 i"
    using write_u32_spec [OF w(1), of i] w(2) by (simp_all add: u_def)
qed

lemma write_string_aligned:
  assumes "os_wf s" "os_bitsSet s mod 8 = 0" "ok src"
  shows "\<exists>s'. write_string src c s = Some s' \<and> os_wf s' \<and> os_bitsSet s' mod 8 = 0
    \<and> os_bits s' = os_bits s @ string_bits 7 c src"
proof -
  have "(os_bitsSet s + 1) mod 8 = 1" using assms(2) by (rule mod8_add) simp
  then have "7 = 8 - (os_bitsSet s + 1) mod 8" by simp
  from write_string_spec [OF assms(1) ok_writable [OF assms(3)] this] show ?thesis .
qed

definition can_encode :: "bit_ostream \<Rightarrow> hpack_encoder \<Rightarrow> bool" where
  "can_encode s e \<longleftrightarrow> os_wf s \<and> os_bitsSet s mod 8 = 0 \<and> compressStrings e = c
     \<and> tbl_inv (enc_table e) \<and> useIndex (enc_table e)"

definition field_ok :: "header_field \<Rightarrow> bool" where
  "field_ok f \<longleftrightarrow> ok (hf_name f) \<and> ok (hf_value f) \<and> fsize f < 2 ^ 32"

definition encodes :: "encode_result \<Rightarrow> bit_ostream \<Rightarrow> hpack_encoder \<Rightarrow> field_repr \<Rightarrow> header_field \<Rightarrow> bool" where
  "encodes res s e r f \<longleftrightarrow>
     (\<exists>s'. res = Some (True, s', e\<lparr>enc_table := repr_table r f (enc_table e)\<rparr>)
        \<and> can_encode s' (e\<lparr>enc_table := repr_table r f (enc_table e)\<rparr>)
        \<and> os_bits s' = os_bits s @ repr_bits c r \<and> repr_ok ok (enc_table e) r f)"

lemma table_after:
  "tbl_inv t \<Longrightarrow> useIndex t \<Longrightarrow> tbl_inv (repr_table r f t) \<and> useIndex (repr_table r f t)"
  using prependField_spec(2) by (cases r) auto

lemma index_less: "tbl_inv t \<Longrightarrow> field i t \<noteq> None \<Longrightarrow> i < 2 ^ 32"
  using few_fields [of t] by (auto simp: tbl_inv_def field_def indexIsValid_def split: if_splits)

lemma encode_indexed:
  assumes "can_encode s e" "field i (enc_table e) = Some f" "0 < i"
  shows "encodes (encodeIndexedField i s e) s e (RIndexed i) f"
proof -
  let ?w = "write_bit_pattern Indexed s"
  have s: "os_wf s" "os_bitsSet s mod 8 = 0" using assms(1) by (simp_all add: can_encode_def)
  have w: "os_wf ?w" "os_bits ?w = os_bits s @ [True]" "os_bitsSet ?w = os_bitsSet s + 1"
    using write_bit_pattern_spec [OF s(1), of Indexed] by simp_all
  have "os_bitsSet ?w mod 8 = 1" unfolding w(3) using s(2) by (rule mod8_add) simp
  then have "8 - os_bitsSet ?w mod 8 = 7" by simp
  then show ?thesis using write_u32_spec [OF w(1), of i] w(2) assms index_less [of "enc_table e" i]
    by (simp add: encodes_def encodeIndexedField_def can_encode_def)
qed

lemma encode_indexed_name:
  assumes "can_encode s e" "fieldName i (enc_table e) = Some (hf_name f)" "0 < i" "field_ok f"
  shows "encodes (encodeLiteralIndexedName LiteralIncrementalIndexing i (hf_value f) (compressStrings e) s e) s e
    (RIndexedName i (hf_value f)) f"
proof -
  have s: "os_wf s" "os_bitsSet s mod 8 = 0" and e: "compressStrings e = c" "tbl_inv (enc_table e)" "useIndex (enc_table e)"
    using assms(1) by (simp_all add: can_encode_def)
  have i: "i < 2 ^ 32" using index_less [OF e(2), of i] assms(2) by (auto simp: fieldName_def)
  note w = write_name_prefix [OF s, of i]
  obtain s' where s': "write_string (hf_value f) c (write_u32 i (write_bit_pattern LiteralIncrementalIndexing s)) = Some s'"
    "os_wf s'" "os_bitsSet s' mod 8 = 0" "os_bits s' = os_bits s @ False # True # int_bits 6 i @ string_bits 7 c (hf_value f)"
    using write_string_aligned [OF w(1,2), of "hf_value f"] assms(4) unfolding field_ok_def w(3) by auto
  show ?thesis using s' e i assms(2-4) table_after [OF e(2,3), of "RIndexedName i (hf_value f)" f]
    by (simp add: encodes_def encodeLiteralIndexedName_def can_encode_def field_ok_def)
qed

lemma encode_new_name:
  assumes "can_encode s e" "field_ok f"
  shows "encodes (encodeLiteralField LiteralIncrementalIndexing (hf_name f) (hf_value f) (compressStrings e) s e) s e
    (RNewName (hf_name f) (hf_value f)) f"
proof -
  have s: "os_wf s" "os_bitsSet s mod 8 = 0" and e: "compressStrings e = c" "tbl_inv (enc_table e)" "useIndex (enc_table e)"
    using assms(1) by (simp_all add: can_encode_def)
  note w = write_name_prefix [OF s, of 0]
  obtain t where t: "write_string (hf_name f) c (write_u32 0 (write_bit_pattern LiteralIncrementalIndexing s)) = Some t"
    "os_wf t" "os_bitsSet t mod 8 = 0" "os_bits t = os_bits s @ False # True # int_bits 6 0 @ string_bits 7 c (hf_name f)"
    using write_string_aligned [OF w(1,2), of "hf_name f"] assms(2) unfolding field_ok_def w(3) by auto
  obtain s' where s': "write_string (hf_value f) c t = Some s'" "os_wf s'" "os_bitsSet s' mod 8 = 0"
    "os_bits s' = os_bits s @ False # True # int_bits 6 0 @ string_bits 7 c (hf_name f) @ string_bits 7 c (hf_value f)"
    using write_string_aligned [OF t(2,3), of "hf_value f"] assms(2) unfolding field_ok_def t(4) by auto
  show ?thesis using s s' t(1) e assms(2) table_after [OF e(2,3), of "RNewName (hf_name f) (hf_value f)" f]
    by (simp add: encodes_def encodeLiteralField_def can_encode_def field_ok_def)
qed

lemma encodeHeaderField_encodes:
  assumes "can_encode s e" "field_ok f"
  shows "\<exists>r. encodes (encodeHeaderField f s e) s e r f"
proof -
  have e: "tbl_inv (enc_table e)" "useIndex (enc_table e)" using assms(1) by (simp_all add: can_encode_def)
  note io = indexOf_correct [OF e, of "hf_name f" "hf_value f"]
  let ?i = "indexOf (hf_name f) (hf_value f) (enc_table e)" let ?n = "indexOfName (hf_name f) (enc_table e)"
  consider "?i \<noteq> 0" | "?i = 0" "?n \<noteq> 0" | "?i = 0" "?n = 0" by blast
  then show ?thesis
  proof cases
    case 1
    then show ?thesis using encode_indexed [OF assms(1), of ?i f] io by (auto simp: encodeHeaderField_def)
  next
    case 2
    then show ?thesis using encode_indexed_name [OF assms(1), of ?n f] io assms(2)
      by (auto simp: encodeHeaderField_def)
  next
    case 3
    then show ?thesis using encode_new_name [OF assms] by (auto simp: encodeHeaderField_def)
  qed
qed

lemma encodeMethod_encodes:
  assumes "can_encode s e" "field_ok f" "hf_name f = chars '':method''"
  shows "\<exists>r. encodes (encodeMethod f s e) s e r f"
proof -
  have e: "tbl_inv (enc_table e)" "useIndex (enc_table e)" using assms(1) by (simp_all add: can_encode_def)
  note io = indexOf_correct [OF e, of "hf_name f" "hf_value f"]
  let ?i = "indexOf (hf_name f) (hf_value f) (enc_table e)" let ?n = "indexOfName (hf_name f) (enc_table e)"
  have "chars '':method'' \<in> hf_name ` set staticPart"
    by (simp add: staticPart_def static_pairs_def)
  then have "?n \<noteq> 0" using indexOfName_static [of "hf_name f" "enc_table e"] assms(3) by simp
  then show ?thesis
    using encode_indexed [OF assms(1), of ?i f] encode_indexed_name [OF assms(1), of ?n f] io assms(2)
    by (cases "?i = 0") (auto simp: encodeMethod_def)
qed

lemma decode_sequence:
  "reads s (seq_bits c rs @ ys) \<Longrightarrow> aligned s \<Longrightarrow> seq_ok ok (dec_table d) rs fs \<Longrightarrow> tbl_inv (dec_table d) \<Longrightarrow>
   tableCapacity (dec_table d) \<le> maxTableSize (dec_table d) \<Longrightarrow>
   \<exists>s'. decode_loop (length rs + k) s d
       = decode_loop k s' (d\<lparr>dec_table := seq_table rs fs (dec_table d), dec_header := dec_header d @ fs\<rparr>)
     \<and> reads s' ys \<and> is_offset s' = is_offset s + length (seq_bits c rs) \<and> bitLength s' = bitLength s"
proof (induction rs arbitrary: s d fs)
  case Nil
  then have "fs = []" by (cases fs) simp_all
  then show ?case using Nil by (auto intro!: exI [of _ s])
next
  case (Cons r rs)
  then obtain f gs where fs: "fs = f # gs" by (cases fs) simp_all
  then have ok: "repr_ok ok (dec_table d) r f" "seq_ok ok (repr_table r f (dec_table d)) rs gs"
    using Cons.prems(3) by simp_all
  have rd: "reads s (repr_bits c r @ seq_bits c rs @ ys)" using Cons.prems(1) by simp
  let ?s = "adv (length (repr_bits c r)) s"
  let ?d = "d\<lparr>dec_table := repr_table r f (dec_table d), dec_header := dec_header d @ [f]\<rparr>"
  note dr = decode_repr [OF rd Cons.prems(2) ok(1) Cons.prems(4,5)]
  have t: "tbl_inv (repr_table r f (dec_table d))"
    "tableCapacity (repr_table r f (dec_table d)) \<le> maxTableSize (repr_table r f (dec_table d))"
    using prependField_spec(2) [OF Cons.prems(4)] Cons.prems(4,5) by (cases r; simp)+
  obtain s' where s': "decode_loop (length rs + k) ?s ?d
       = decode_loop k s' (?d\<lparr>dec_table := seq_table rs gs (dec_table ?d), dec_header := dec_header ?d @ gs\<rparr>)"
     "reads s' ys" "is_offset s' = is_offset ?s + length (seq_bits c rs)" "bitLength s' = bitLength ?s"
    using Cons.IH [OF reads_adv [OF rd] aligned_adv [OF Cons.prems(2) repr_bits_aligned], of ?d gs] ok(2) t by auto
  have "bitLength ?s = bitLength s" by (simp add: bitLength_def adv_def)
  with s' dr fs show ?case by (intro exI [of _ s']) simp
qed

definition encodes_all :: "encode_result \<Rightarrow> bit_ostream \<Rightarrow> hpack_encoder \<Rightarrow> header_field list \<Rightarrow> bool" where
  "encodes_all res s e fs \<longleftrightarrow>
     (\<exists>rs s'. res = Some (True, s', e\<lparr>enc_table := seq_table rs fs (enc_table e)\<rparr>)
        \<and> can_encode s' (e\<lparr>enc_table := seq_table rs fs (enc_table e)\<rparr>)
        \<and> os_bits s' = os_bits s @ seq_bits c rs \<and> seq_ok ok (enc_table e) rs fs)"

lemma encodes_all_Nil: "can_encode s e \<Longrightarrow> encodes_all (Some (True, s, e)) s e []"
  unfolding encodes_all_def by (intro exI [of _ "[]"] exI [of _ s]) simp

text \<open>Sequencing: a first field and then the rest, or a first list and then a second.\<close>

lemma encodes_all_Cons:
  assumes "encodes res s e r f"
    and "\<And>s' e'. res = Some (True, s', e') \<Longrightarrow> can_encode s' e' \<Longrightarrow> encodes_all (rest s' e') s' e' fs"
  shows "\<exists>s' e'. res = Some (True, s', e') \<and> encodes_all (rest s' e') s e (f # fs)"
proof -
  let ?e = "e\<lparr>enc_table := repr_table r f (enc_table e)\<rparr>"
  obtain s' where s': "res = Some (True, s', ?e)" "can_encode s' ?e" "os_bits s' = os_bits s @ repr_bits c r"
    "repr_ok ok (enc_table e) r f" using assms(1) by (auto simp: encodes_def)
  obtain rs t where t: "rest s' ?e = Some (True, t, ?e\<lparr>enc_table := seq_table rs fs (enc_table ?e)\<rparr>)"
    "can_encode t (?e\<lparr>enc_table := seq_table rs fs (enc_table ?e)\<rparr>)"
    "os_bits t = os_bits s' @ seq_bits c rs" "seq_ok ok (enc_table ?e) rs fs"
    using assms(2) [OF s'(1,2)] unfolding encodes_all_def by blast
  have "encodes_all (rest s' ?e) s e (f # fs)"
    unfolding encodes_all_def using s' t by (intro exI [of _ "r # rs"] exI [of _ t]) simp
  with s'(1) show ?thesis by blast
qed

lemma encodes_all_append:
  assumes "encodes_all res s e fs"
    and "\<And>s' e'. res = Some (True, s', e') \<Longrightarrow> can_encode s' e' \<Longrightarrow> encodes_all (rest s' e') s' e' gs"
  shows "\<exists>s' e'. res = Some (True, s', e') \<and> encodes_all (rest s' e') s e (fs @ gs)"
proof -
  obtain rs s' where s': "res = Some (True, s', e\<lparr>enc_table := seq_table rs fs (enc_table e)\<rparr>)"
    "can_encode s' (e\<lparr>enc_table := seq_table rs fs (enc_table e)\<rparr>)" "os_bits s' = os_bits s @ seq_bits c rs"
    "seq_ok ok (enc_table e) rs fs" using assms(1) unfolding encodes_all_def by blast
  let ?e = "e\<lparr>enc_table := seq_table rs fs (enc_table e)\<rparr>"
  obtain rs' t where t: "rest s' ?e = Some (True, t, ?e\<lparr>enc_table := seq_table rs' gs (enc_table ?e)\<rparr>)"
    "can_encode t (?e\<lparr>enc_table := seq_table rs' gs (enc_table ?e)\<rparr>)"
    "os_bits t = os_bits s' @ seq_bits c rs'" "seq_ok ok (enc_table ?e) rs' gs"
    using assms(2) [OF s'(1,2)] unfolding encodes_all_def by blast
  have "encodes_all (rest s' ?e) s e (fs @ gs)"
    unfolding encodes_all_def using s' t seq_append [OF s'(4), of rs' gs]
    by (intro exI [of _ "rs @ rs'"] exI [of _ t]) simp
  with s'(1) show ?thesis by blast
qed

lemma encode_fields_all:
  "can_encode s e \<Longrightarrow> list_all field_ok h \<Longrightarrow>
   encodes_all (encode_fields skip h s e) s e (filter (\<lambda>f. \<not> skip (hf_name f)) h)"
proof (induction h arbitrary: s e)
  case Nil then show ?case by (simp add: encodes_all_Nil)
next
  case (Cons f h)
  show ?case
  proof (cases "skip (hf_name f)")
    case True then show ?thesis using Cons by simp
  next
    case False
    obtain r where r: "encodes (encodeHeaderField f s e) s e r f"
      using encodeHeaderField_encodes [of s e f] Cons.prems by auto
    from encodes_all_Cons [OF r, of "encode_fields skip h" "filter (\<lambda>f. \<not> skip (hf_name f)) h"] Cons
    show ?thesis using False by auto
  qed
qed

lemma encodes_result: "encodes res s e r f \<Longrightarrow> \<exists>s' e'. res = Some (True, s', e') \<and> can_encode s' e'"
  by (auto simp: encodes_def)

lemma request_pseudo_accepts:
  "can_encode s e \<Longrightarrow> list_all field_ok h \<Longrightarrow> pseudo_fit h m a0 a1 a2 \<Longrightarrow>
   encodes_all (loop_result (request_pseudo_loop h m [a0, a1, a2] s e)) s e
     (filter (\<lambda>f. is_request_pseudo_header (hf_name f)) h)"
proof (induction h arbitrary: m a0 a1 a2 s e)
  case Nil then show ?case by (simp add: encodes_all_Nil)
next
  case (Cons f h)
  have prems: "can_encode s e" "field_ok f" "list_all field_ok h" using Cons.prems by auto
  obtain r where r: "encodes (encodeHeaderField f s e) s e r f"
    using encodeHeaderField_encodes [OF prems(1,2)] by auto
  note step = encodes_all_Cons [OF r]
  consider (meth) "hf_name f = chars '':method''" | (auth) "hf_name f = chars '':authority''"
    | (scheme) "hf_name f = chars '':scheme''" | (path) "hf_name f = chars '':path''"
    | (other) "\<not> is_request_pseudo_header (hf_name f)"
    by (auto simp: is_request_pseudo_header_def)
  then show ?case
  proof cases
    case meth
    obtain r where r: "encodes (encodeMethod f s e) s e r f"
      using encodeMethod_encodes [OF prems(1,2) meth] by auto
    have "\<not> m" "pseudo_fit h True a0 a1 a2" using Cons.prems(3) meth by (auto simp: pseudo_fit_def)
    then show ?thesis
      using encodes_all_Cons [OF r, where rest = "\<lambda>s e. loop_result (request_pseudo_loop h True [a0, a1, a2] s e)"
        and fs = "filter (\<lambda>f. is_request_pseudo_header (hf_name f)) h"] Cons.IH prems(3) meth
      by (auto simp: is_request_pseudo_header_def)
  next
    case auth
    have "\<not> a0" "pseudo_fit h m True a1 a2" using Cons.prems(3) auth by (auto simp: pseudo_fit_def)
    then show ?thesis
      using step [where rest = "\<lambda>s e. loop_result (request_pseudo_loop h m [True, a1, a2] s e)"
        and fs = "filter (\<lambda>f. is_request_pseudo_header (hf_name f)) h"] Cons.IH prems(3) auth
      by (auto simp: is_request_pseudo_header_def headerName_position headerName_def)
  next
    case scheme
    have "\<not> a1" "pseudo_fit h m a0 True a2" using Cons.prems(3) scheme by (auto simp: pseudo_fit_def)
    then show ?thesis
      using step [where rest = "\<lambda>s e. loop_result (request_pseudo_loop h m [a0, True, a2] s e)"
        and fs = "filter (\<lambda>f. is_request_pseudo_header (hf_name f)) h"] Cons.IH prems(3) scheme
      by (auto simp: is_request_pseudo_header_def headerName_position headerName_def)
  next
    case path
    have "\<not> a2" "pseudo_fit h m a0 a1 True" using Cons.prems(3) path by (auto simp: pseudo_fit_def)
    then show ?thesis
      using step [where rest = "\<lambda>s e. loop_result (request_pseudo_loop h m [a0, a1, True] s e)"
        and fs = "filter (\<lambda>f. is_request_pseudo_header (hf_name f)) h"] Cons.IH prems(3) path
      by (auto simp: is_request_pseudo_header_def headerName_position headerName_def numeral_2_eq_2)
  next
    case other
    then have "request_pseudo_loop (f # h) m [a0, a1, a2] s e = request_pseudo_loop h m [a0, a1, a2] s e"
      using Cons.prems(3) by (auto simp: is_request_pseudo_header_def headerName_position headerName_def pseudo_fit_def)
    moreover have "pseudo_fit h m a0 a1 a2" using Cons.prems(3) by (auto simp: pseudo_fit_def)
    ultimately show ?thesis using Cons.IH prems other by simp
  qed
qed

lemma request_pseudo_rejects:
  "can_encode s e \<Longrightarrow> list_all field_ok h \<Longrightarrow> \<not> pseudo_fit h m a0 a1 a2\<Longrightarrow>
   \<exists>s' e'. request_pseudo_loop h m [a0, a1, a2] s e = Some (Inl (s', e'))"
proof (induction h arbitrary: m a0 a1 a2 s e)
  case Nil then show ?case by (cases m; cases a0; cases a1; cases a2) (auto simp: pseudo_fit_def)
next
  case (Cons f h)
  have prems: "can_encode s e" "field_ok f" "list_all field_ok h" using Cons.prems by auto
  obtain s1 e1 where r: "encodeHeaderField f s e = Some (True, s1, e1)" "can_encode s1 e1"
    using encodeHeaderField_encodes [OF prems(1,2)] encodes_result by blast
  have m: "\<exists>s1 e1. encodeMethod f s e = Some (True, s1, e1) \<and> can_encode s1 e1" if "hf_name f = chars '':method''"
    using encodeMethod_encodes [OF prems(1,2) that] encodes_result by blast
  consider (status) "hf_name f = chars '':status''" | (meth) "hf_name f = chars '':method''"
    | (auth) "hf_name f = chars '':authority''" | (scheme) "hf_name f = chars '':scheme''"
    | (path) "hf_name f = chars '':path''"
    | (other) "hf_name f \<noteq> chars '':status'' \<and> \<not> is_request_pseudo_header (hf_name f)"
    by (auto simp: is_request_pseudo_header_def)
  then show ?case
  proof cases
    case status then show ?thesis by simp
  next
    case meth
    show ?thesis
    proof (cases m)
      case False
      then have "\<not> pseudo_fit h True a0 a1 a2" using Cons.prems(3) meth by (auto simp: pseudo_fit_def)
      then show ?thesis using m [OF meth] Cons.IH prems(3) meth False by fastforce
    qed (use meth in simp)
  next
    case auth
    show ?thesis
    proof (cases a0)
      case False
      then have "\<not> pseudo_fit h m True a1 a2" using Cons.prems(3) auth by (auto simp: pseudo_fit_def)
      then show ?thesis using r Cons.IH [OF r(2) prems(3)] auth False by (simp add: headerName_position headerName_def)
    qed (use auth in \<open>simp add: headerName_position headerName_def\<close>)
  next
    case scheme
    show ?thesis
    proof (cases a1)
      case False
      then have "\<not> pseudo_fit h m a0 True a2" using Cons.prems(3) scheme by (auto simp: pseudo_fit_def)
      then show ?thesis using r Cons.IH [OF r(2) prems(3)] scheme False by (simp add: headerName_position headerName_def)
    qed (use scheme in \<open>simp add: headerName_position headerName_def\<close>)
  next
    case path
    show ?thesis
    proof (cases a2)
      case False
      then have "\<not> pseudo_fit h m a0 a1 True" using Cons.prems(3) path by (auto simp: pseudo_fit_def)
      then show ?thesis using r Cons.IH [OF r(2) prems(3)] path False
        by (simp add: headerName_position headerName_def numeral_2_eq_2)
    qed (use path in \<open>simp add: headerName_position headerName_def numeral_2_eq_2\<close>)
  next
    case other
    then have "request_pseudo_loop (f # h) m [a0, a1, a2] s e = request_pseudo_loop h m [a0, a1, a2] s e"
      by (auto simp: is_request_pseudo_header_def headerName_position headerName_def)
    moreover have "\<not> pseudo_fit h m a0 a1 a2"
      using Cons.prems(3) other by (auto simp: pseudo_fit_def is_request_pseudo_header_def)
    ultimately show ?thesis using Cons.IH prems by simp
  qed
qed

lemma encodeRequest_accepts:
  assumes "can_encode s e" "list_all field_ok h" "valid_request h"
  shows "encodes_all (encodeRequest h s e) s e (pseudo_first is_request_pseudo_header h)"
proof -
  have h: "h \<noteq> []" using assms(3) by (auto simp: valid_request_def)
  have fit: "pseudo_fit h False False False False" using assms(3) by (simp add: pseudo_fit_def valid_request_def)
  let ?r = "request_pseudo_loop h False [False, False, False] s e"
  note acc = request_pseudo_accepts [OF assms(1,2) fit]
  then obtain m hs s' e' where r: "?r = Some (Inr (m, hs, s', e'))"
    unfolding encodes_all_def by (cases ?r rule: loop_result.cases) auto
  note fl = request_pseudo_flags [OF this]
  have p: "encodeRequestPseudoHeaders h s e = Some (True, s', e')"
    using r fl assms(3) by (simp add: encodeRequestPseudoHeaders_def valid_request_def)
  have "encodes_all (encode_fields is_request_pseudo_header h s' e') s e (pseudo_first is_request_pseudo_header h)"
    using encodes_all_append [OF acc, of "encode_fields is_request_pseudo_header h"] encode_fields_all [OF _ assms(2)] r
    by (auto simp: pseudo_first_def)
  then show ?thesis using h p by (simp add: encodeRequest_def)
qed

lemma encodeRequest_rejects:
  assumes "can_encode s e" "list_all field_ok h" "\<not> valid_request h"
  shows "\<exists>s' e'. encodeRequest h s e = Some (False, s', e')"
proof (cases "h = []")
  case False
  let ?r = "request_pseudo_loop h False [False, False, False] s e"
  have "\<exists>s' e'. encodeRequestPseudoHeaders h s e = Some (False, s', e')"
  proof (cases "pseudo_fit h False False False False")
    case True
    note acc = request_pseudo_accepts [OF assms(1,2) True]
    then obtain m hs s' e' where r: "?r = Some (Inr (m, hs, s', e'))"
      unfolding encodes_all_def by (cases ?r rule: loop_result.cases) auto
    note fl = request_pseudo_flags [OF this]
    then show ?thesis using r fl assms(3) True
      by (auto simp: encodeRequestPseudoHeaders_def valid_request_def pseudo_fit_def)
  next
    case False
    from request_pseudo_rejects [OF assms(1,2) this] show ?thesis
      by (auto simp: encodeRequestPseudoHeaders_def)
  qed
  then show ?thesis using False by (auto simp: encodeRequest_def)
qed (simp add: encodeRequest_def)

lemma response_pseudo_accepts:
  "can_encode s e \<Longrightarrow> list_all field_ok h \<Longrightarrow> \<not> list_ex (\<lambda>f. is_request_pseudo_header (hf_name f)) h \<Longrightarrow>
   count_name '':status'' h + of_bool m = 1 \<Longrightarrow>
   encodes_all (response_pseudo_loop h m s e) s e (filter (\<lambda>f. hf_name f = chars '':status'') h)"
proof (induction h arbitrary: m s e)
  case Nil then show ?case by (cases m) (simp_all add: encodes_all_Nil)
next
  case (Cons f h)
  have prems: "can_encode s e" "field_ok f" "list_all field_ok h" using Cons.prems by auto
  show ?case
  proof (cases "hf_name f = chars '':status''")
    case True
    obtain r where r: "encodes (encodeHeaderField f s e) s e r f"
      using encodeHeaderField_encodes [OF prems(1,2)] by auto
    have "\<not> m" "count_name '':status'' h = 0" using Cons.prems(4) True by auto
    then show ?thesis
      using encodes_all_Cons [OF r, where rest = "response_pseudo_loop h True"
        and fs = "filter (\<lambda>f. hf_name f = chars '':status'') h"] Cons.IH prems(3) Cons.prems(3) True
      by auto
  next
    case False
    then show ?thesis using Cons.IH [OF prems(1,3)] Cons.prems(3,4) by simp
  qed
qed

lemma encodeResponse_accepts:
  assumes "can_encode s e" "list_all field_ok h" "valid_response h"
  shows "encodes_all (encodeResponse h s e) s e (pseudo_first (\<lambda>n. n = chars '':status'') h)"
proof -
  have h: "h \<noteq> []" using assms(3) by (auto simp: valid_response_def)
  note acc = response_pseudo_accepts [OF assms(1,2), of False]
  have a: "encodes_all (response_pseudo_loop h False s e) s e (filter (\<lambda>f. hf_name f = chars '':status'') h)"
    using acc assms(3) by (simp add: valid_response_def)
  from encodes_all_append [OF this, of "encode_fields (\<lambda>n. n = chars '':status'') h"] encode_fields_all [OF _ assms(2)]
  obtain s' e' where "response_pseudo_loop h False s e = Some (True, s', e')"
    "encodes_all (encode_fields (\<lambda>n. n = chars '':status'') h s' e') s e (pseudo_first (\<lambda>n. n = chars '':status'') h)"
    unfolding pseudo_first_def by blast
  then show ?thesis using h by (simp add: encodeResponse_def encodeResponsePseudoHeaders_def)
qed

text \<open>A block written by an encoder is read back by a decoder with the same entries.\<close>

lemma block_roundtrip:
  assumes "encodes_all (Some (True, s', e')) s e fs" "can_encode s e" "synced (enc_table e) (dec_table d)"
    and "payload = drop (length (os_buffer s)) (os_buffer s')" "8 * length payload < 2 ^ 32"
  shows "\<exists>is' d'. decodeHeaderFields (BitIStream payload) d = Some (True, is', d')
    \<and> dec_header d' = fs \<and> synced (enc_table e') (dec_table d')"
proof -
  obtain rs where rs: "e' = e\<lparr>enc_table := seq_table rs fs (enc_table e)\<rparr>" "can_encode s' e'"
    "os_bits s' = os_bits s @ seq_bits c rs" "seq_ok ok (enc_table e) rs fs"
    using assms(1) unfolding encodes_all_def by auto
  have b: "bits_of (os_buffer s) = os_bits s" "bits_of (os_buffer s') = os_bits s'"
    using assms(2) rs(2) os_wf_cases(1) by (simp_all add: can_encode_def)
  have l: "length (os_bits s) = 8 * length (os_buffer s)" using b(1) by (metis length_bits_of)
  have p: "bits_of payload = seq_bits c rs"
    using drop_bits_of [of "length (os_buffer s)" "os_buffer s'"] assms(4) b(2) rs(3) l by simp
  let ?d = "d\<lparr>dec_header := []\<rparr>"
  have sy: "seq_ok ok (dec_table d) rs fs" "synced (enc_table e') (seq_table rs fs (dec_table d))"
    using synced_seq [OF assms(3) rs(4)] rs(1) by simp_all
  have rd: "reads (BitIStream payload) (seq_bits c rs @ [])" "aligned (BitIStream payload)"
    using p assms(5) by (simp_all add: reads_def BitIStream_def aligned_def)
  have n: "length rs \<le> bitLength (BitIStream payload)"
    using seq_bits_length [of rs c] p length_bits_of [of payload] by (simp add: bitLength_def BitIStream_def)
  then obtain k where k: "Suc (bitLength (BitIStream payload)) = length rs + Suc k"
    by (metis add_Suc_right le_Suc_ex)
  have t: "tbl_inv (dec_table d)" "tableCapacity (dec_table d) \<le> maxTableSize (dec_table d)"
    using assms(3) by (simp_all add: synced_def)
  obtain s2 where s2: "decode_loop (length rs + Suc k) (BitIStream payload) ?d
       = decode_loop (Suc k) s2 (?d\<lparr>dec_table := seq_table rs fs (dec_table d), dec_header := fs\<rparr>)"
     "is_offset s2 = length (seq_bits c rs)" "bitLength s2 = bitLength (BitIStream payload)"
    using decode_sequence [OF rd, of ?d fs "Suc k"] sy(1) t by (auto simp: BitIStream_def)
  have "bitLength s2 = is_offset s2"
    using s2(2,3) p length_bits_of [of payload] by (simp add: bitLength_def BitIStream_def)
  then have "decodeHeaderFields (BitIStream payload) d
      = Some (True, s2, ?d\<lparr>dec_table := seq_table rs fs (dec_table d), dec_header := fs\<rparr>)"
    using s2(1) by (simp add: decodeHeaderFields_def k decode_round_end del: decode_loop.simps(1))
  then show ?thesis using sy(2) by simp
qed

end

end
