(* ===== verification/HuffmanOrder.thy ===== *)
theory HuffmanOrder
  imports Huffman "HOL-Library.Sublist"
begin

text \<open>
  The static Huffman code of \<open>huffman.cpp\<close> is prefix free: the codes of the table, as
  left-aligned 32-bit words, start disjoint ranges. The ranges are compared pairwise in the
  order of their values, into which a merge sort brings the table.
\<close>

subsection \<open>The code is prefix free\<close>

text \<open>Sorting by code value; adjacent codes then cover disjoint ranges of 32-bit words.\<close>

fun merge :: "code_entry list \<Rightarrow> code_entry list \<Rightarrow> code_entry list" where
  "merge [] ys = ys"
| "merge xs [] = xs"
| "merge (x # xs) (y # ys) =
     (if ce_huffmanCode x \<le> ce_huffmanCode y then x # merge xs (y # ys) else y # merge (x # xs) ys)"

fun merge_pairs :: "code_entry list list \<Rightarrow> code_entry list list" where
  "merge_pairs (xs # ys # zss) = merge xs ys # merge_pairs zss"
| "merge_pairs xss = xss"

lemma set_merge: "set (merge xs ys) = set xs \<union> set ys"
  by (induction xs ys rule: merge.induct) auto

lemma set_merge_pairs: "set (concat (merge_pairs xss)) = set (concat xss)"
  by (induction xss rule: merge_pairs.induct) (auto simp: set_merge)

definition merge_thrice :: "code_entry list list \<Rightarrow> code_entry list list" where
  "merge_thrice xss = merge_pairs (merge_pairs (merge_pairs xss))"

definition by_value :: "code_entry list" where
  "by_value = concat (merge_thrice (merge_thrice (merge_thrice (map (\<lambda>c. [c]) staticHuffmanCodeTable))))"

lemma set_by_value: "set by_value = set staticHuffmanCodeTable"
  unfolding by_value_def merge_thrice_def by (simp only: set_merge_pairs) simp

definition below :: "code_entry \<Rightarrow> code_entry \<Rightarrow> bool" where
  "below c d \<longleftrightarrow> ce_huffmanCode c + 2 ^ (32 - ce_bitLength c) \<le> ce_huffmanCode d"

text \<open>\<open>covers lo cs hi\<close>: the ranges of the codes, in this order, tile \<open>[lo, hi)\<close>.\<close>

fun covers :: "nat \<Rightarrow> code_entry list \<Rightarrow> nat \<Rightarrow> bool" where
  "covers lo [] hi = (lo = hi)"
| "covers lo (c # cs) hi = (ce_huffmanCode c = lo \<and> covers (lo + 2 ^ (32 - ce_bitLength c)) cs hi)"

lemma covers_by_value: "covers 0 by_value (2 ^ 32)"
  by (simp add: by_value_def merge_thrice_def staticHuffmanCodeTable_def staticHuffmanCodeTable_lo_def
    staticHuffmanCodeTable_hi_def)

lemma covers_ge: "covers lo cs hi \<Longrightarrow> list_all (\<lambda>c. lo \<le> ce_huffmanCode c) cs"
proof (induction cs arbitrary: lo)
  case (Cons c cs)
  from Cons.prems Cons.IH [of "lo + 2 ^ (32 - ce_bitLength c)"] show ?case
    by (auto simp: list_all_iff intro: add_leD1)
qed simp

lemma covers_sorted: "covers lo cs hi \<Longrightarrow> sorted_wrt below cs"
proof (induction cs arbitrary: lo)
  case (Cons c cs)
  then have "covers (lo + 2 ^ (32 - ce_bitLength c)) cs hi" "ce_huffmanCode c = lo" by simp_all
  from Cons.IH [OF this(1)] covers_ge [OF this(1)] this(2) show ?case
    by (auto simp: below_def list_all_iff)
qed simp

lemma covers_finds:
  "covers lo cs hi \<Longrightarrow> lo \<le> h \<Longrightarrow> h < hi \<Longrightarrow>
   \<exists>c \<in> set cs. ce_huffmanCode c \<le> h \<and> h < ce_huffmanCode c + 2 ^ (32 - ce_bitLength c)"
proof (induction cs arbitrary: lo)
  case (Cons c cs)
  show ?case
  proof (cases "h < lo + 2 ^ (32 - ce_bitLength c)")
    case True
    with Cons.prems show ?thesis by auto
  next
    case False
    with Cons.IH [of "lo + 2 ^ (32 - ce_bitLength c)"] Cons.prems show ?thesis by auto
  qed
qed simp

lemma table_codes:
  "list_all (\<lambda>c. ce_huffmanCode c mod 2 ^ (32 - ce_bitLength c) = 0 \<and> ce_huffmanCode c < 2 ^ 32) staticHuffmanCodeTable"
  by (simp add: staticHuffmanCodeTable_def staticHuffmanCodeTable_lo_def staticHuffmanCodeTable_hi_def)

lemma table_entry:
  assumes "c \<in> set staticHuffmanCodeTable"
  shows "ce_huffmanCode c mod 2 ^ (32 - ce_bitLength c) = 0" "ce_huffmanCode c < 2 ^ 32"
    "5 \<le> ce_bitLength c" "ce_bitLength c \<le> 30"
  using assms table_codes table_shape(3) by (simp_all add: list_all_iff)

lemma below_order:
  assumes "c \<in> set staticHuffmanCodeTable" "d \<in> set staticHuffmanCodeTable" "c \<noteq> d"
  shows "below c d \<or> below d c"
proof -
  have s: "sorted_wrt below by_value" using covers_sorted [OF covers_by_value] .
  obtain i j where "i < length by_value" "j < length by_value" "by_value ! i = c" "by_value ! j = d"
    using assms(1,2) set_by_value by (metis in_set_conv_nth)
  then show ?thesis using s assms(3) by (metis linorder_neqE_nat sorted_wrt_nth_less)
qed

lemma bits_val_nat_bits: "bits_val (nat_bits k n) = n mod 2 ^ k"
proof (induction k)
  case 0 then show ?case by (simp add: nat_bits_def)
next
  case (Suc k)
  have "nat_bits (1 + k) n = nat_bits 1 (n div 2 ^ k) @ nat_bits k n" by (rule nat_bits_append)
  moreover have "n mod 2 ^ Suc k = (n div 2 ^ k) mod 2 * 2 ^ k + n mod 2 ^ k"
    by (simp add: mod_mult2_eq mult.commute [of 2])
  moreover have "nat_bits 1 m = [odd m]" for m by (simp add: nat_bits_def bit_0)
  ultimately show ?case using Suc by (simp add: bits_val_append mod_2_eq_odd)
qed

text \<open>A 32-bit code word as a list of bits: the code and then zeros.\<close>

definition word32 :: "nat \<Rightarrow> bool list" where
  "word32 h = nat_bits 32 h"

lemma length_word32 [simp]: "length (word32 h) = 32"
  by (simp add: word32_def)

lemma nat_bits_zero: "n mod 2 ^ k = 0 \<Longrightarrow> nat_bits k n = replicate k False"
  using bits_val_inject [of "nat_bits k n" "replicate k False"] by (simp add: bits_val_nat_bits)

lemma word32_code:
  assumes "c \<in> set staticHuffmanCodeTable"
  shows "word32 (ce_huffmanCode c) = code_bits c @ replicate (32 - ce_bitLength c) False"
proof -
  have "word32 (ce_huffmanCode c) = nat_bits (ce_bitLength c + (32 - ce_bitLength c)) (ce_huffmanCode c)"
    using table_entry(4) [OF assms] by (simp add: word32_def)
  then show ?thesis unfolding nat_bits_append code_bits_def
    using nat_bits_zero table_entry(1) [OF assms] by simp
qed

lemma bits_val_word32: "h < 2 ^ 32 \<Longrightarrow> bits_val (word32 h) = h"
  by (simp add: word32_def bits_val_nat_bits)

lemma prefix_free:
  assumes "c \<in> set staticHuffmanCodeTable" "d \<in> set staticHuffmanCodeTable"
    "prefix (code_bits c) (code_bits d)"
  shows "c = d"
proof (rule ccontr)
  assume ne: "c \<noteq> d"
  let ?k = "32 - ce_bitLength c"
  obtain zs where zs: "code_bits d = code_bits c @ zs" using assms(3) by (auto simp: prefix_def)
  define Y where "Y = zs @ replicate (32 - ce_bitLength d) False"
  have d: "word32 (ce_huffmanCode d) = code_bits c @ Y" using word32_code [OF assms(2)] zs by (simp add: Y_def)
  have "length Y = ?k" using arg_cong [OF d, of length] table_entry(4) [OF assms(1)] by simp
  then have "ce_huffmanCode d = bits_val (code_bits c) * 2 ^ ?k + bits_val Y" "bits_val Y < 2 ^ ?k"
    using bits_val_word32 [OF table_entry(2) [OF assms(2)]] d bits_val_less [of Y] by (simp_all add: bits_val_append)
  moreover have "ce_huffmanCode c = bits_val (code_bits c) * 2 ^ ?k"
    using bits_val_word32 [OF table_entry(2) [OF assms(1)]] word32_code [OF assms(1)] by (simp add: bits_val_append)
  ultimately have "\<not> below c d" "ce_huffmanCode c \<le> ce_huffmanCode d" by (simp_all add: below_def)
  moreover have "\<not> below d c" 
  proof -
    have "(0 :: nat) < 2 ^ (32 - ce_bitLength d)" by simp
    with calculation(2) show ?thesis unfolding below_def by linarith
  qed
  ultimately show False using below_order [OF assms(1,2) ne] by blast
qed

text \<open>The code is complete: every 32-bit word starts with a code.\<close>

lemma code_complete:
  assumes "h < 2 ^ 32"
  shows "\<exists>c \<in> set staticHuffmanCodeTable. prefix (code_bits c) (word32 h)"
proof -
  obtain c where c: "c \<in> set staticHuffmanCodeTable" "ce_huffmanCode c \<le> h"
      "h < ce_huffmanCode c + 2 ^ (32 - ce_bitLength c)"
    using covers_finds [OF covers_by_value _ assms] by (auto simp: set_by_value)
  let ?k = "32 - ce_bitLength c"
  have v: "ce_huffmanCode c = ce_huffmanCode c div 2 ^ ?k * 2 ^ ?k"
    using table_entry(1) [OF c(1)] by (metis add.right_neutral div_mult_mod_eq)
  have "ce_huffmanCode c div 2 ^ ?k = h div 2 ^ ?k"
    using c(2,3) v by (intro div_nat_eqI [symmetric]) (simp_all add: mult.commute add.commute)
  moreover have "word32 x = nat_bits (ce_bitLength c) (x div 2 ^ ?k) @ nat_bits ?k x" for x
    using nat_bits_append [of "ce_bitLength c" ?k x] table_entry(4) [OF c(1)] by (simp add: word32_def)
  ultimately have "prefix (code_bits c) (word32 h)" by (simp add: code_bits_def)
  with c(1) show ?thesis by blast
qed

end
