(* ===== verification/HuffmanDecode.thy ===== *)
theory HuffmanDecode
  imports HuffmanOrder
begin

text \<open>
  The prefix tables of \<open>HuffmanDecoder\<close> (huffman.cpp).  The invariant \<open>wf\<close> of the tables built by
  the constructor, the code that each walk over them finds, and, from these and the order of the
  code table (theory HuffmanOrder), that \<open>decodeStream\<close> inverts the encoder of theory Huffman.
\<close>

unbundle bit_operations_syntax

subsection \<open>Entries of a table\<close>

abbreviation tbl :: "huffman_decoder \<Rightarrow> nat \<Rightarrow> prefix_table" where
  "tbl d t \<equiv> prefixTables d ! t"

definition ent :: "huffman_decoder \<Rightarrow> nat \<Rightarrow> nat \<Rightarrow> table_entry" where
  "ent d t i = tableEntry d (tbl d t) i"

definition coded :: "prefix_table \<Rightarrow> nat" where
  "coded t = pt_prefixLength t + pt_indexLength t"

text \<open>The bits that lead to entry \<open>i\<close> of table \<open>t\<close>, where \<open>ps ! t\<close> are those that lead to the table.\<close>

definition path :: "huffman_decoder \<Rightarrow> bool list list \<Rightarrow> nat \<Rightarrow> nat \<Rightarrow> bool list" where
  "path d ps t i = ps ! t @ nat_bits (pt_indexLength (tbl d t)) i"

definition pad_code :: "code_entry \<Rightarrow> nat \<Rightarrow> bool list" where
  "pad_code c n = code_bits c @ replicate (n - ce_bitLength c) False"

definition link :: "huffman_decoder \<Rightarrow> bool list list \<Rightarrow> code_entry set \<Rightarrow> nat \<Rightarrow> nat \<Rightarrow> bool" where
  "link d ps Q t i \<longleftrightarrow> t < te_nextTable (ent d t i) \<and> te_nextTable (ent d t i) < length (prefixTables d)
     \<and> ps ! te_nextTable (ent d t i) = path d ps t i \<and> coded (tbl d t) < te_bitLength (ent d t i)
     \<and> (\<exists>c \<in> Q. strict_prefix (path d ps t i) (code_bits c))"

definition terminal :: "huffman_decoder \<Rightarrow> bool list list \<Rightarrow> code_entry \<Rightarrow> nat \<Rightarrow> nat \<Rightarrow> bool" where
  "terminal d ps c t i \<longleftrightarrow> ent d t i = TE (ce_bitLength c) t (ce_byteValue c)
     \<and> path d ps t i = pad_code c (coded (tbl d t)) \<and> pt_prefixLength (tbl d t) < ce_bitLength c"

definition regions :: "huffman_decoder \<Rightarrow> bool" where
  "regions d \<longleftrightarrow> (\<forall>t < length (prefixTables d). pt_offset (tbl d t) + pt_size (tbl d t) \<le> length (tableData d))
     \<and> (\<forall>t u. t < u \<longrightarrow> u < length (prefixTables d) \<longrightarrow> pt_offset (tbl d t) + pt_size (tbl d t) \<le> pt_offset (tbl d u))"

definition dec_shape :: "huffman_decoder \<Rightarrow> bool list list \<Rightarrow> bool" where
  "dec_shape d ps \<longleftrightarrow> length ps = length (prefixTables d) \<and> prefixTables d \<noteq> [] \<and> ps ! 0 = []
     \<and> (\<forall>t < length (prefixTables d). pt_prefixLength (tbl d t) = length (ps ! t)
          \<and> 0 < pt_indexLength (tbl d t) \<and> coded (tbl d t) \<le> 32)
     \<and> regions d"

text \<open>\<open>S\<close> are the codes placed, \<open>Q\<close> those that links may lead to.\<close>

definition dec_inv :: "huffman_decoder \<Rightarrow> bool list list \<Rightarrow> code_entry set \<Rightarrow> code_entry set \<Rightarrow> bool" where
  "dec_inv d ps S Q \<longleftrightarrow> dec_shape d ps
     \<and> (\<forall>t < length (prefixTables d). \<forall>i < pt_size (tbl d t). te_bitLength (ent d t i) \<noteq> 0 \<longrightarrow>
          link d ps Q t i \<or> (\<exists>c \<in> Q. terminal d ps c t i))
     \<and> (\<forall>u < length (prefixTables d). 0 < u \<longrightarrow>
          (\<exists>t < u. \<exists>i < pt_size (tbl d t). te_nextTable (ent d t i) = u \<and> te_bitLength (ent d t i) \<noteq> 0))
     \<and> (\<forall>c \<in> S. \<exists>t < length (prefixTables d). \<exists>i < pt_size (tbl d t). terminal d ps c t i)"

lemma dec_inv_shape: "dec_inv d ps S Q \<Longrightarrow> dec_shape d ps"
  by (simp add: dec_inv_def)

lemma dec_inv_entry: "dec_inv d ps S Q \<Longrightarrow> t < length (prefixTables d) \<Longrightarrow> i < pt_size (tbl d t) \<Longrightarrow>
  te_bitLength (ent d t i) \<noteq> 0 \<Longrightarrow> link d ps Q t i \<or> (\<exists>c \<in> Q. terminal d ps c t i)"
  by (simp add: dec_inv_def)

lemma dec_inv_parent: "dec_inv d ps S Q \<Longrightarrow> u < length (prefixTables d) \<Longrightarrow> 0 < u \<Longrightarrow>
  \<exists>t < u. \<exists>i < pt_size (tbl d t). te_nextTable (ent d t i) = u \<and> te_bitLength (ent d t i) \<noteq> 0"
  by (simp add: dec_inv_def)

lemma dec_inv_placed: "dec_inv d ps S Q \<Longrightarrow> c \<in> S \<Longrightarrow>
  \<exists>t < length (prefixTables d). \<exists>i < pt_size (tbl d t). terminal d ps c t i"
  by (simp add: dec_inv_def)

lemma terminal_length:
  assumes "dec_shape d ps" "t < length (prefixTables d)" "terminal d ps c t i"
  shows "ce_bitLength c \<le> coded (tbl d t)"
proof -
  have "length (path d ps t i) = coded (tbl d t)"
    using assms(1,2) by (simp add: path_def dec_shape_def coded_def)
  moreover have "length (pad_code c (coded (tbl d t))) = ce_bitLength c + (coded (tbl d t) - ce_bitLength c)"
    by (simp add: pad_code_def)
  ultimately show ?thesis using assms(3) unfolding terminal_def by simp
qed

lemma nat_bits_inject: "i < 2 ^ k \<Longrightarrow> j < 2 ^ k \<Longrightarrow> nat_bits k i = nat_bits k j \<longleftrightarrow> i = j"
  by (metis bits_val_nat_bits mod_less)

text \<open>Table regions are disjoint, so a store changes one entry.\<close>

lemma region_inject:
  assumes "regions d" "t < length (prefixTables d)" "u < length (prefixTables d)"
    "i < pt_size (tbl d t)" "j < pt_size (tbl d u)"
  shows "pt_offset (tbl d t) + i = pt_offset (tbl d u) + j \<longleftrightarrow> t = u \<and> i = j"
proof -
  have "pt_offset (tbl d t) + pt_size (tbl d t) \<le> pt_offset (tbl d u)" if "t < u"
    using assms(1,3) that unfolding regions_def by blast
  moreover have "pt_offset (tbl d u) + pt_size (tbl d u) \<le> pt_offset (tbl d t)" if "u < t"
    using assms(1,2) that unfolding regions_def by blast
  ultimately show ?thesis using assms(4,5) by (cases t u rule: linorder_cases) auto
qed

lemma region_bound:
  assumes "regions d" "t < length (prefixTables d)" "i < pt_size (tbl d t)"
  shows "pt_offset (tbl d t) + i < length (tableData d)"
proof -
  have "pt_offset (tbl d t) + pt_size (tbl d t) \<le> length (tableData d)"
    using assms(1,2) unfolding regions_def by blast
  with assms(3) show ?thesis by linarith
qed

lemma ent_set:
  assumes "regions d" "t < length (prefixTables d)" "i < pt_size (tbl d t)"
    "u < length (prefixTables d)" "j < pt_size (tbl d u)"
  shows "ent (setTableEntry (tbl d t) i e d) u j = (if u = t \<and> j = i then e else ent d u j)"
  using region_inject [OF assms(1,2,4,3,5)] region_bound [OF assms(1-3)]
  by (auto simp: ent_def tableEntry_def setTableEntry_def)

lemma set_frame [simp]:
  "prefixTables (setTableEntry t i e d) = prefixTables d"
  "length (tableData (setTableEntry t i e d)) = length (tableData d)"
  "minCodeLength (setTableEntry t i e d) = minCodeLength d"
  by (simp_all add: setTableEntry_def)

lemma shape_set [simp]: "dec_shape (setTableEntry t i e d) ps = dec_shape d ps"
  "path (setTableEntry t i e d) ps = path d ps"
  by (simp_all add: dec_shape_def regions_def) (simp add: path_def fun_eq_iff)

text \<open>A bit position of a 32-bit word read through a table.\<close>

lemma entry_index_bits:
  assumes "h < 2 ^ 32" "coded t \<le> 32"
  shows "entry_index h t = bits_val (take (pt_indexLength t) (drop (pt_prefixLength t) (word32 h)))"
    "entry_index h t < pt_size t"
proof -
  let ?p = "pt_prefixLength t" let ?l = "pt_indexLength t"
  define xs where "xs = take ?p (word32 h)"
  define ys where "ys = take ?l (drop ?p (word32 h))"
  define zs where "zs = drop (?p + ?l) (word32 h)"
  have w: "word32 h = xs @ ys @ zs"
    unfolding xs_def ys_def zs_def by (metis append_take_drop_id add.commute drop_drop)
  have l: "length xs = ?p" "length ys = ?l" "length zs = 32 - ?p - ?l" "?p + ?l \<le> 32"
    using assms(2) by (simp_all add: xs_def ys_def zs_def coded_def)
  have "h = bits_val xs * 2 ^ (32 - ?p) + bits_val ys * 2 ^ (32 - ?p - ?l) + bits_val zs"
    using bits_val_word32 [OF assms(1)] w l by (simp add: bits_val_append algebra_simps flip: power_add)
  then have "h * 2 ^ ?p = bits_val xs * 2 ^ 32 + (bits_val ys * 2 ^ (32 - ?l) + bits_val zs * 2 ^ ?p)"
    using l(4) by (simp add: algebra_simps flip: power_add)
  moreover have b: "bits_val zs * 2 ^ ?p < 2 ^ (32 - ?l)"
  proof -
    have "bits_val zs * 2 ^ ?p < 2 ^ (32 - ?p - ?l) * 2 ^ ?p" using bits_val_less [of zs] l(3) by simp
    also have "\<dots> = 2 ^ (32 - ?l)" using l(4) by (simp flip: power_add)
    finally show ?thesis .
  qed
  moreover have lt: "bits_val ys * 2 ^ (32 - ?l) + bits_val zs * 2 ^ ?p < 2 ^ 32"
  proof -
    have "bits_val ys + 1 \<le> 2 ^ ?l" using bits_val_less [of ys] l(2) by simp
    then have "(bits_val ys + 1) * 2 ^ (32 - ?l) \<le> 2 ^ ?l * 2 ^ (32 - ?l)" by (rule mult_le_mono1)
    also have "\<dots> = 2 ^ 32" using l(4) by (simp flip: power_add)
    finally show ?thesis using b by simp
  qed
  ultimately have "h * 2 ^ ?p mod 2 ^ 32 = bits_val ys * 2 ^ (32 - ?l) + bits_val zs * 2 ^ ?p"
    by (metis mod_less mod_mult_self3 mod_mult_self1)
  then have "entry_index h t = bits_val ys" using b by (simp add: entry_index_def)
  then show "entry_index h t = bits_val (take ?l (drop ?p (word32 h)))" "entry_index h t < pt_size t"
    using bits_val_less [of ys] l(2) by (simp_all add: ys_def pt_size_def)
qed

lemma entry_index_path:
  assumes "h < 2 ^ 32" "dec_shape d ps" "t < length (prefixTables d)" "prefix (ps ! t) (word32 h)"
  shows "path d ps t (entry_index h (tbl d t)) = take (coded (tbl d t)) (word32 h)"
    "entry_index h (tbl d t) < pt_size (tbl d t)"
proof -
  let ?t = "tbl d t"
  have s: "pt_prefixLength ?t = length (ps ! t)" "coded ?t \<le> 32" using assms(2,3) by (simp_all add: dec_shape_def)
  note e = entry_index_bits [OF assms(1) s(2)]
  show "entry_index h ?t < pt_size ?t" by (rule e(2))
  let ?ys = "take (pt_indexLength ?t) (drop (pt_prefixLength ?t) (word32 h))"
  have "length ?ys = pt_indexLength ?t" using s(2) by (simp add: coded_def)
  then have "nat_bits (pt_indexLength ?t) (entry_index h ?t) = ?ys"
    using bits_val_inject [of "nat_bits (pt_indexLength ?t) (entry_index h ?t)" ?ys] e
    by (simp add: bits_val_nat_bits pt_size_def)
  moreover have "take (length (ps ! t)) (word32 h) = ps ! t" using assms(4) by (auto simp: prefix_def)
  ultimately show "path d ps t (entry_index h ?t) = take (coded ?t) (word32 h)"
    using s(1) by (simp add: path_def coded_def take_add)
qed

subsection \<open>Placing the codes\<close>

lemma coded_prefix:
  assumes "Q \<subseteq> set staticHuffmanCodeTable" "c \<in> Q" "c' \<in> Q" "prefix (code_bits c) xs" "prefix (code_bits c') xs"
  shows "c = c'"
  using prefix_same_cases [OF assms(4,5)] prefix_free assms(1-3) by blast

lemma pad_code_prefix: "prefix (code_bits c) (pad_code c n)"
  by (simp add: pad_code_def)

lemma addTable_parts:
  assumes "addTable p k d = (n, d')" "dec_shape d ps"
  shows "n = length (prefixTables d)" "prefixTables d' = prefixTables d @ [tbl d' n]"
    "u < n \<Longrightarrow> tbl d' u = tbl d u" "pt_prefixLength (tbl d' n) = p" "pt_indexLength (tbl d' n) = k"
    "regions d'" "u < n \<Longrightarrow> j < pt_size (tbl d u) \<Longrightarrow> ent d' u j = ent d u j"
    "j < pt_size (tbl d' n) \<Longrightarrow> ent d' n j = TE 0 0 0" "minCodeLength d' = minCodeLength d"
proof -
  let ?nt = "\<lparr>pt_prefixLength = p, pt_indexLength = k, pt_offset = length (tableData d)\<rparr>"
  have d': "n = length (prefixTables d)" "d' = d\<lparr>prefixTables := prefixTables d @ [?nt],
      tableData := tableData d @ replicate (pt_size ?nt) (TE 0 0 0)\<rparr>"
    using assms(1) by (auto simp: addTable_def Let_def)
  have r: "regions d" using assms(2) by (simp add: dec_shape_def)
  show "n = length (prefixTables d)" by (rule d'(1))
  show "prefixTables d' = prefixTables d @ [tbl d' n]" "pt_prefixLength (tbl d' n) = p" "pt_indexLength (tbl d' n) = k"
    "minCodeLength d' = minCodeLength d" by (simp_all add: d')
  show t: "u < n \<Longrightarrow> tbl d' u = tbl d u" for u by (simp add: d' nth_append)
  have "pt_offset (tbl d' u) + pt_size (tbl d' u) \<le> length (tableData d')" if "u < length (prefixTables d')" for u
  proof (cases "u < n")
    case True
    then have "pt_offset (tbl d u) + pt_size (tbl d u) \<le> length (tableData d)"
      using r d'(1) by (simp add: regions_def)
    then show ?thesis using t [OF True] by (simp add: d'(2))
  next
    case False
    then have "u = n" using that by (simp add: d')
    then show ?thesis by (simp add: d' pt_size_def)
  qed
  moreover have "pt_offset (tbl d' u) + pt_size (tbl d' u) \<le> pt_offset (tbl d' v)"
    if "u < v" "v < length (prefixTables d')" for u v
  proof (cases "v < n")
    case True
    then show ?thesis using r that t [of u] t [of v] d'(1) by (simp add: regions_def)
  next
    case False
    then have "v = n" "u < n" using that by (simp_all add: d')
    moreover have "pt_offset (tbl d u) + pt_size (tbl d u) \<le> length (tableData d)"
      using r calculation d'(1) by (simp add: regions_def)
    ultimately show ?thesis using t [of u] by (simp add: d')
  qed
  ultimately show "regions d'" by (simp add: regions_def)
  show "u < n \<Longrightarrow> j < pt_size (tbl d u) \<Longrightarrow> ent d' u j = ent d u j"
    using region_bound [OF r, of u j] t [of u] d'(1) by (simp add: ent_def tableEntry_def d'(2) nth_append)
  show "j < pt_size (tbl d' n) \<Longrightarrow> ent d' n j = TE 0 0 0"
    by (simp add: ent_def tableEntry_def d' nth_append pt_size_def)
qed

lemma new_table_inv:
  fixes bv :: nat
  assumes inv: "dec_inv d ps S Q" and t: "t < length (prefixTables d)" "i < pt_size (tbl d t)"
    and e: "te_bitLength (ent d t i) = 0"
    and k: "0 < k" "coded (tbl d t) + k \<le> 32" "coded (tbl d t) < bl"
    and c: "c \<in> Q" "strict_prefix (path d ps t i) (code_bits c)"
    and a: "addTable (coded (tbl d t)) k d = (n, d1)"
  defines "d2 \<equiv> setTableEntry (tbl d t) i (TE bl n bv) d1"
  shows "dec_inv d2 (ps @ [path d ps t i]) S Q" "n < length (prefixTables d2)" "minCodeLength d2 = minCodeLength d"
proof -
  have sh: "dec_shape d ps" using inv by (simp add: dec_inv_def)
  note p = addTable_parts [OF a sh]
  let ?ps = "ps @ [path d ps t i]"
  have pl: "pt_prefixLength (tbl d u) = length (ps ! u)" "0 < pt_indexLength (tbl d u)" "coded (tbl d u) \<le> 32"
    if "u < n" for u using sh that p(1) by (simp_all add: dec_shape_def)
  have lp: "length ps = n" "0 < n" "ps ! 0 = []" using sh p(1) by (simp_all add: dec_shape_def)
  have tn: "t < n" using t(1) p(1) by simp
  have len: "length (path d ps t i) = coded (tbl d t)" using pl(1) [OF tn] by (simp add: path_def coded_def)
  have pt: "length (prefixTables d2) = Suc n" "tbl d2 n = tbl d1 n" "u < n \<Longrightarrow> tbl d2 u = tbl d u" for u
    using p(1,2,3) by (simp_all add: d2_def) (metis length_append_singleton)
  have reg: "regions d2" using p(6) by (simp add: d2_def regions_def)
  have en: "ent d2 u j = (if u = t \<and> j = i then TE bl n bv else ent d u j)" if "u < n" "j < pt_size (tbl d u)" for u j
  proof -
    have l: "length (prefixTables d1) = Suc n" using pt(1) by (simp add: d2_def)
    show ?thesis
      using ent_set [OF p(6), of t i u j "TE bl n bv"] that tn t(2) p(3) [OF tn] p(3) [OF that(1)] p(7) [OF that] l
      by (simp add: d2_def)
  qed
  have enn: "ent d2 n j = TE 0 0 0" if "j < pt_size (tbl d2 n)" for j
  proof -
    have l: "length (prefixTables d1) = Suc n" using pt(1) by (simp add: d2_def)
    show ?thesis
      using ent_set [OF p(6), of t i n j "TE bl n bv"] that tn t(2) p(3) [OF tn] p(8) [of j] pt(2) l
      by (simp add: d2_def)
  qed
  have pa: "path d2 ?ps u j = path d ps u j" if "u < n" for u j
    using that pt(3) lp(1) by (simp add: path_def nth_append)
  have shape: "dec_shape d2 ?ps"
    unfolding dec_shape_def
  proof (intro conjI allI impI)
    show "length ?ps = length (prefixTables d2)" using lp pt(1) by simp
    show "prefixTables d2 \<noteq> []" using pt(1) by auto
    show "?ps ! 0 = []" using lp by (simp add: nth_append)
    show "regions d2" by (rule reg)
    fix u assume "u < length (prefixTables d2)"
    then consider "u < n" | "u = n" using pt(1) by fastforce
    then show "pt_prefixLength (tbl d2 u) = length (?ps ! u)" "0 < pt_indexLength (tbl d2 u)" "coded (tbl d2 u) \<le> 32"
      using pl [of u] pt(2) pt(3) [of u] p(4,5) lp(1) len k by (cases; simp add: nth_append coded_def)+
  qed
  have I2: "link d2 ?ps Q u j \<or> (\<exists>c \<in> Q. terminal d2 ?ps c u j)"
    if u: "u < length (prefixTables d2)" "j < pt_size (tbl d2 u)" "te_bitLength (ent d2 u j) \<noteq> 0" for u j
  proof (cases "u < n")
    case False
    then have "u = n" using u(1) pt(1) by simp
    then show ?thesis using enn u(2,3) by simp
  next
    case un: True
    then have j: "j < pt_size (tbl d u)" using u(2) pt(3) by simp
    show ?thesis
    proof (cases "u = t \<and> j = i")
      case True
      then have "link d2 ?ps Q u j"
        using en [OF un j] pt(1) pt(3) [OF un] pa [OF un] lp(1) tn k(3) c by (auto simp: link_def nth_append)
      then show ?thesis ..
    next
      case False
      have eq: "ent d2 u j = ent d u j" using en [OF un j] by (simp only: False if_False)
      then have "link d ps Q u j \<or> (\<exists>c \<in> Q. terminal d ps c u j)"
        using dec_inv_entry [OF inv] un j u(3) p(1) by simp
      then show ?thesis
        using eq pa [OF un] pt(1) pt(3) [OF un] lp(1) p(1) by (auto simp: link_def terminal_def nth_append)
    qed
  qed
  have I3: "\<exists>v < u. \<exists>j < pt_size (tbl d2 v). te_nextTable (ent d2 v j) = u \<and> te_bitLength (ent d2 v j) \<noteq> 0"
    if u: "u < length (prefixTables d2)" "0 < u" for u
  proof (cases "u < n")
    case False
    then have "u = n" using u(1) pt(1) by simp
    then show ?thesis using en [OF tn t(2)] tn t(2) pt(3) [OF tn] k(3) by (intro exI [of _ t] conjI exI [of _ i]) simp_all
  next
    case True
    then obtain v j where v: "v < u" "j < pt_size (tbl d v)" "te_nextTable (ent d v j) = u" "te_bitLength (ent d v j) \<noteq> 0"
      using dec_inv_parent [OF inv] u(2) True p(1) by blast
    then have vn: "v < n" and ne: "\<not> (v = t \<and> j = i)" using True e by auto
    have "ent d2 v j = ent d v j" using en [OF vn v(2)] by (simp only: ne if_False)
    then show ?thesis using v pt(3) [OF vn] by (intro exI [of _ v] conjI exI [of _ j]) simp_all
  qed
  have I4: "\<exists>u < length (prefixTables d2). \<exists>j < pt_size (tbl d2 u). terminal d2 ?ps c u j" if cS: "c \<in> S" for c
  proof -
    obtain u j where u: "u < n" "j < pt_size (tbl d u)" "terminal d ps c u j"
      using dec_inv_placed [OF inv cS] p(1) by blast
    have ne: "\<not> (u = t \<and> j = i)" using u(3) e by (auto simp: terminal_def)
    have "ent d2 u j = ent d u j" using en [OF u(1,2)] by (simp only: ne if_False)
    then have "terminal d2 ?ps c u j" using u(3) pa [OF u(1)] pt(3) [OF u(1)] by (simp add: terminal_def)
    then show ?thesis using u pt(1) pt(3) [OF u(1)] by (intro exI [of _ u] conjI exI [of _ j]) simp_all
  qed
  show "dec_inv d2 ?ps S Q" unfolding dec_inv_def using shape I2 I3 I4 by blast
  show "n < length (prefixTables d2)" using pt(1) by simp
  show "minCodeLength d2 = minCodeLength d" using p(9) by (simp add: d2_def)
qed

lemma path_length:
  "dec_shape d ps \<Longrightarrow> t < length (prefixTables d) \<Longrightarrow> length (path d ps t i) = coded (tbl d t)"
  by (simp add: path_def dec_shape_def coded_def)

text \<open>An entry whose bits start with a code can only be that code's terminal.\<close>

lemma entry_with_code:
  assumes "dec_inv d ps S Q" "Q \<subseteq> set staticHuffmanCodeTable" "c \<in> Q"
    "t < length (prefixTables d)" "i < pt_size (tbl d t)" "prefix (code_bits c) (path d ps t i)"
    "te_bitLength (ent d t i) \<noteq> 0"
  shows "terminal d ps c t i"
proof -
  consider "link d ps Q t i" | c' where "c' \<in> Q" "terminal d ps c' t i"
    using dec_inv_entry [OF assms(1,4,5,7)] by blast
  then show ?thesis
  proof cases
    case 1
    then obtain c' where c': "c' \<in> Q" "strict_prefix (path d ps t i) (code_bits c')" by (auto simp: link_def)
    then have "strict_prefix (code_bits c) (code_bits c')" using assms(6) by (meson prefix_order.le_less_trans)
    then show ?thesis using prefix_free [of c c'] assms(2,3) c'(1) by (auto simp: strict_prefix_def)
  next
    case 2
    have "prefix (code_bits c') (path d ps t i)" using 2(2) pad_code_prefix [of c'] by (simp add: terminal_def)
    then have "c' = c" using coded_prefix [OF assms(2) 2(1) assms(3)] assms(6) by blast
    then show ?thesis using 2 by simp
  qed
qed

lemma set_terminal_inv:
  assumes inv: "dec_inv d ps S Q" and Q: "Q \<subseteq> set staticHuffmanCodeTable" "c \<in> Q"
    and t: "t < length (prefixTables d)" "i < pt_size (tbl d t)"
    and pa: "path d ps t i = pad_code c (coded (tbl d t))" "pt_prefixLength (tbl d t) < ce_bitLength c"
  defines "d' \<equiv> setTableEntry (tbl d t) i (TE (ce_bitLength c) t (ce_byteValue c)) d"
  shows "dec_inv d' ps (insert c S) Q"
proof -
  have sh: "dec_shape d ps" by (rule dec_inv_shape [OF inv])
  then have reg: "regions d" by (simp add: dec_shape_def)
  have d': "prefixTables d' = prefixTables d" "dec_shape d' ps" "path d' ps = path d ps"
    using sh by (simp_all add: d'_def)
  have en: "ent d' u j = (if u = t \<and> j = i then TE (ce_bitLength c) t (ce_byteValue c) else ent d u j)"
    if "u < length (prefixTables d)" "j < pt_size (tbl d u)" for u j
    using ent_set [OF reg t that] by (simp add: d'_def)
  have here: "te_bitLength (ent d t i) = 0 \<or> ent d t i = TE (ce_bitLength c) t (ce_byteValue c)"
    using entry_with_code [OF inv Q t] pa(1) pad_code_prefix [of c] by (auto simp: terminal_def)
  have same: "ent d' u j = ent d u j" if "u < length (prefixTables d)" "j < pt_size (tbl d u)"
      "te_bitLength (ent d u j) \<noteq> 0" for u j
    using en [OF that(1,2)] that(3) here by auto
  have trm: "terminal d' ps c t i" using en [OF t] pa d' by (simp add: terminal_def)
  have keep: "terminal d' ps c' u j" if "terminal d ps c' u j" "u < length (prefixTables d)" "j < pt_size (tbl d u)" for c' u j
  proof -
    have "te_bitLength (ent d u j) \<noteq> 0" using that(1) by (auto simp: terminal_def)
    then show ?thesis using same [OF that(2,3)] that(1) d' by (simp add: terminal_def)
  qed
  have I2: "link d' ps Q u j \<or> (\<exists>c \<in> Q. terminal d' ps c u j)"
    if u: "u < length (prefixTables d')" "j < pt_size (tbl d' u)" "te_bitLength (ent d' u j) \<noteq> 0" for u j
  proof (cases "u = t \<and> j = i")
    case True then show ?thesis using trm Q(2) by auto
  next
    case False
    have u': "u < length (prefixTables d)" "j < pt_size (tbl d u)" using u d' by simp_all
    have eq: "ent d' u j = ent d u j" using en [OF u'] by (simp only: False if_False)
    then have "link d ps Q u j \<or> (\<exists>c \<in> Q. terminal d ps c u j)"
      using dec_inv_entry [OF inv u'] u(3) by simp
    then show ?thesis using eq d' by (auto simp: link_def terminal_def)
  qed
  have I3: "\<exists>v < u. \<exists>j < pt_size (tbl d' v). te_nextTable (ent d' v j) = u \<and> te_bitLength (ent d' v j) \<noteq> 0"
    if u: "u < length (prefixTables d')" "0 < u" for u
  proof -
    obtain v j where v: "v < u" "j < pt_size (tbl d v)" "te_nextTable (ent d v j) = u" "te_bitLength (ent d v j) \<noteq> 0"
      using dec_inv_parent [OF inv _ u(2)] u(1) d' by auto
    have "ent d' v j = ent d v j" using same [OF _ v(2,4)] v(1) u(1) d' by simp
    then show ?thesis using v d' by (intro exI [of _ v] conjI exI [of _ j]) simp_all
  qed
  have I4: "\<exists>u < length (prefixTables d'). \<exists>j < pt_size (tbl d' u). terminal d' ps c' u j" if cS: "c' \<in> insert c S" for c'
  proof (cases "c' = c")
    case True then show ?thesis using trm t d' by auto
  next
    case False
    then obtain u j where "u < length (prefixTables d)" "j < pt_size (tbl d u)" "terminal d ps c' u j"
      using dec_inv_placed [OF inv] cS by blast
    then show ?thesis using keep unfolding d'(1) by blast
  qed
  show ?thesis unfolding dec_inv_def using d'(2) I2 I3 I4 by blast
qed

lemma place_symbol_spec:
  assumes "dec_inv d ps S Q" "Q \<subseteq> set staticHuffmanCodeTable" "s \<in> Q"
    "t < length (prefixTables d)" "prefix (ps ! t) (code_bits s)" "length (ps ! t) < ce_bitLength s"
    "ce_bitLength s - length (ps ! t) \<le> fuel"
  shows "\<exists>d' ps'. place_symbol fuel s t d = Some d' \<and> dec_inv d' ps' (insert s S) Q \<and> minCodeLength d' = minCodeLength d"
  using assms
proof (induction fuel arbitrary: d ps t)
  case 0 then show ?case by simp
next
  case (Suc fuel)
  note inv = Suc.prems(1) and Q = Suc.prems(2,3) and t = Suc.prems(4)
  have sT: "s \<in> set staticHuffmanCodeTable" using Q by blast
  have sh: "dec_shape d ps" by (rule dec_inv_shape [OF inv])
  have pl: "pt_prefixLength (tbl d t) = length (ps ! t)" "0 < pt_indexLength (tbl d t)" "coded (tbl d t) \<le> 32"
    using sh t by (simp_all add: dec_shape_def)
  let ?X = "word32 (ce_huffmanCode s)"
  have X: "?X = code_bits s @ replicate (32 - ce_bitLength s) False" by (rule word32_code [OF sT])
  have pX: "prefix (ps ! t) ?X" using Suc.prems(5) X by simp
  define i where "i = entry_index (ce_huffmanCode s) (tbl d t)"
  have i: "path d ps t i = take (coded (tbl d t)) ?X" "i < pt_size (tbl d t)"
    using entry_index_path [OF table_entry(2) [OF sT] sh t pX] by (simp_all add: i_def)
  have ei: "tableEntry d (tbl d t) i = ent d t i" by (simp add: ent_def)
  show ?case
  proof (cases "coded (tbl d t) < ce_bitLength s")
    case False
    have "path d ps t i = pad_code s (coded (tbl d t))"
      using i(1) X False pl(3) by (simp add: pad_code_def)
    from set_terminal_inv [OF inv Q t i(2) this] Suc.prems(6) pl(1)
    show ?thesis using False by (simp add: coded_def i_def [symmetric] Let_def) blast
  next
    case True
    have pa: "path d ps t i = take (coded (tbl d t)) (code_bits s)" using i(1) X True by simp
    then have sp: "strict_prefix (path d ps t i) (code_bits s)"
      using True by (metis append_take_drop_id length_code_bits length_take min.absorb4 nat_neq_iff prefixI strict_prefix_def)
    have long: "length (ps ! t) < coded (tbl d t)" using pl by (simp add: coded_def)
    show ?thesis
    proof (cases "te_bitLength (ent d t i) = 0")
      case e: True
      define k where "k = min childPrefix (ce_bitLength s - coded (tbl d t))"
      have k: "0 < k" "coded (tbl d t) + k \<le> 32" using True table_entry(4) [OF sT] by (auto simp: k_def childPrefix_def)
      obtain n d1 where a: "addTable (coded (tbl d t)) k d = (n, d1)" by fastforce
      let ?d = "setTableEntry (tbl d t) i (TE (ce_bitLength s) n (ce_byteValue s)) d1"
      note nt = new_table_inv [OF inv t i(2) e k True Q(2) sp a, of "ce_byteValue s"]
      have n: "n = length (prefixTables d)" "length ps = n" using addTable_parts(1) [OF a sh] sh by (simp_all add: dec_shape_def)
      have pn: "(ps @ [path d ps t i]) ! n = path d ps t i" using n(2) by (simp add: nth_append)
      have "\<exists>d' ps'. place_symbol fuel s n ?d = Some d' \<and> dec_inv d' ps' (insert s S) Q \<and> minCodeLength d' = minCodeLength ?d"
        by (rule Suc.IH [OF nt(1) Q nt(2)], unfold pn)
          (use sp True long Suc.prems(7) path_length [OF sh t, of i] in \<open>simp_all add: strict_prefix_def\<close>)
      moreover have "place_symbol (Suc fuel) s t d = place_symbol fuel s n ?d"
        using True e a by (simp add: coded_def [symmetric] i_def [symmetric] ei k_def Let_def)
      ultimately show ?thesis using nt(3) by simp
    next
      case e: False
      have "link d ps Q t i"
      proof (rule ccontr)
        assume "\<not> link d ps Q t i"
        then obtain c where c: "c \<in> Q" "terminal d ps c t i" using dec_inv_entry [OF inv t i(2) e] by blast
        then have "prefix (code_bits c) (code_bits s)"
          using sp pad_code_prefix [of c] by (metis prefix_order.dual_order.trans strict_prefix_def terminal_def)
        then have "c = s" using prefix_free Q c(1) by blast
        then show False using terminal_length [OF sh t c(2)] True by simp
      qed
      then have l: "te_nextTable (ent d t i) < length (prefixTables d)" "ps ! te_nextTable (ent d t i) = path d ps t i"
        by (simp_all add: link_def)
      have "\<exists>d' ps'. place_symbol fuel s (te_nextTable (ent d t i)) d = Some d' \<and> dec_inv d' ps' (insert s S) Q \<and> minCodeLength d' = minCodeLength d"
        by (rule Suc.IH [OF inv Q l(1)], unfold l(2))
          (use sp True long Suc.prems(7) path_length [OF sh t, of i] in \<open>simp_all add: strict_prefix_def\<close>)
      moreover have "place_symbol (Suc fuel) s t d = place_symbol fuel s (te_nextTable (ent d t i)) d"
        using True e by (simp add: coded_def [symmetric] i_def [symmetric] ei Let_def)
      ultimately show ?thesis by simp
    qed
  qed
qed

lemma dec_inv_mono: "dec_inv d ps S Q \<Longrightarrow> Q \<subseteq> Q' \<Longrightarrow> dec_inv d ps S Q'"
  unfolding dec_inv_def link_def by (meson subsetD)

lemma place_symbols_spec:
  "dec_inv d ps S (S \<union> set ss) \<Longrightarrow> S \<union> set ss \<subseteq> set staticHuffmanCodeTable \<Longrightarrow>
   \<exists>d' ps'. place_symbols ss d = Some d' \<and> dec_inv d' ps' (S \<union> set ss) (S \<union> set ss)
     \<and> minCodeLength d' = minCodeLength d"
proof (induction ss arbitrary: d ps S)
  case Nil then show ?case by auto
next
  case (Cons s ss)
  have "dec_shape d ps" using Cons.prems(1) by (simp add: dec_inv_def)
  then have z: "0 < length (prefixTables d)" "ps ! 0 = []" by (simp_all add: dec_shape_def)
  have s: "s \<in> set staticHuffmanCodeTable" using Cons.prems(2) by simp
  have "\<exists>d' ps'. place_symbol 33 s 0 d = Some d' \<and> dec_inv d' ps' (insert s S) (S \<union> set (s # ss))
     \<and> minCodeLength d' = minCodeLength d"
    by (rule place_symbol_spec [OF Cons.prems(1,2) _ z(1)]) (use z(2) table_entry(3,4) [OF s] in simp_all)
  then obtain d' ps' where d': "place_symbol 33 s 0 d = Some d'" "dec_inv d' ps' (insert s S) (insert s S \<union> set ss)"
     "minCodeLength d' = minCodeLength d" by auto
  from Cons.IH [OF d'(2)] Cons.prems(2) d' show ?case by simp
qed

subsection \<open>Filling the holes\<close>

definition short :: "prefix_table \<Rightarrow> table_entry \<Rightarrow> bool" where
  "short t e \<longleftrightarrow> te_bitLength e \<noteq> 0 \<and> te_bitLength e < coded t"

definition span :: "prefix_table \<Rightarrow> table_entry \<Rightarrow> nat" where
  "span t e = 2 ^ (coded t - te_bitLength e)"

lemma fill_range:
  fixes t j e r defines "f \<equiv> \<lambda>d. fold (\<lambda>k. setTableEntry t (j + k) e) [1..<r] d"
  shows "prefixTables (f d) = prefixTables d" "minCodeLength (f d) = minCodeLength d"
    "length (tableData (f d)) = length (tableData d)"
    "m < length (tableData d) \<Longrightarrow> tableData (f d) ! m =
       (if pt_offset t + j < m \<and> m < pt_offset t + j + r then e else tableData d ! m)"
proof -
  have "prefixTables (f d) = prefixTables d \<and> minCodeLength (f d) = minCodeLength d
    \<and> length (tableData (f d)) = length (tableData d)
    \<and> (\<forall>m < length (tableData d). tableData (f d) ! m =
       (if pt_offset t + j < m \<and> m < pt_offset t + j + r then e else tableData d ! m))"
    unfolding f_def
  proof (induction r)
    case (Suc r)
    show ?case
    proof (cases r)
      case 0 then show ?thesis by auto
    next
      case (Suc r')
      then have u: "[1..<Suc r] = [1..<r] @ [r]" by simp
      define g where "g = fold (\<lambda>k. setTableEntry t (j + k) e) [1..<r] d"
      have f: "fold (\<lambda>k. setTableEntry t (j + k) e) [1..<Suc r] d = setTableEntry t (j + r) e g"
        unfolding u g_def by simp
      have g: "prefixTables g = prefixTables d" "minCodeLength g = minCodeLength d" "length (tableData g) = length (tableData d)"
        "\<And>m. m < length (tableData d) \<Longrightarrow> tableData g ! m = (if pt_offset t + j < m \<and> m < pt_offset t + j + r then e else tableData d ! m)"
        using Suc.IH unfolding g_def by blast+
      have "tableData (setTableEntry t (j + r) e g) ! m = (if pt_offset t + j < m \<and> m < pt_offset t + j + Suc r then e else tableData d ! m)"
        if "m < length (tableData d)" for m
        using g(3) g(4) [OF that] that Suc by (cases "m = pt_offset t + (j + r)") (auto simp: setTableEntry_def)
      then show ?thesis unfolding f by (simp add: g)
    qed
  qed auto
  then show "prefixTables (f d) = prefixTables d" "minCodeLength (f d) = minCodeLength d"
    "length (tableData (f d)) = length (tableData d)"
    "m < length (tableData d) \<Longrightarrow> tableData (f d) ! m =
       (if pt_offset t + j < m \<and> m < pt_offset t + j + r then e else tableData d ! m)" by blast+
qed

definition fillable :: "prefix_table \<Rightarrow> nat \<Rightarrow> huffman_decoder \<Rightarrow> bool" where
  "fillable t j d \<longleftrightarrow> (\<forall>i k. j \<le> i \<longrightarrow> i < pt_size t \<longrightarrow> short t (tableEntry d t i) \<longrightarrow> 0 < k \<longrightarrow>
     k < span t (tableEntry d t i) \<longrightarrow> i + k < pt_size t \<and> te_bitLength (tableEntry d t (i + k)) = 0)"

definition filled :: "prefix_table \<Rightarrow> nat \<Rightarrow> huffman_decoder \<Rightarrow> huffman_decoder \<Rightarrow> bool" where
  "filled t j d d' \<longleftrightarrow> prefixTables d' = prefixTables d \<and> minCodeLength d' = minCodeLength d
     \<and> length (tableData d') = length (tableData d)
     \<and> (\<forall>m < length (tableData d). m < pt_offset t + j \<or> pt_offset t + pt_size t \<le> m \<longrightarrow> tableData d' ! m = tableData d ! m)
     \<and> (\<forall>i. j \<le> i \<longrightarrow> i < pt_size t \<longrightarrow> te_bitLength (tableEntry d t i) \<noteq> 0 \<longrightarrow>
          tableEntry d' t i = tableEntry d t i
          \<and> (short t (tableEntry d t i) \<longrightarrow> (\<forall>k < span t (tableEntry d t i). tableEntry d' t (i + k) = tableEntry d t i)))"

lemma fill_holes_step:
  "fill_holes t j d =
     (if j < pt_size t
      then if short t (tableEntry d t j)
           then fill_holes t (j + span t (tableEntry d t j))
                  (fold (\<lambda>k. setTableEntry t (j + k) (tableEntry d t j)) [1..<span t (tableEntry d t j)] d)
           else fill_holes t (Suc j) d
      else d)"
  by (subst fill_holes.simps) (simp only: Let_def short_def span_def coded_def)

lemma fill_holes_spec:
  "pt_offset t + pt_size t \<le> length (tableData d) \<Longrightarrow> fillable t j d \<Longrightarrow> filled t j d (fill_holes t j d)"
proof (induction t j d rule: fill_holes.induct)
  case (1 t j d)
  let ?e = "tableEntry d t j"
  consider (over) "\<not> j < pt_size t" | (short) "j < pt_size t" "short t ?e" | (skip) "j < pt_size t" "\<not> short t ?e" by blast
  then show ?case
  proof cases
    case over
    then have "fill_holes t j d = d" by (subst fill_holes_step) (simp only: if_False)
    then show ?thesis using over by (simp add: filled_def)
  next
    case skip
    have "fillable t (Suc j) d" using "1.prems"(2) by (simp add: fillable_def)
    then have IH: "filled t (Suc j) d (fill_holes t (Suc j) d)"
      using "1.IH"(2) [OF skip(1) refl refl] skip(2) "1.prems"(1) by (simp add: short_def coded_def)
    have same: "tableEntry (fill_holes t (Suc j) d) t j = ?e"
      using IH skip(1) "1.prems"(1) by (simp add: filled_def tableEntry_def)
    have "fill_holes t j d = fill_holes t (Suc j) d"
      by (subst fill_holes_step) (simp only: skip if_True if_False)
    moreover have "filled t j d (fill_holes t (Suc j) d)"
      unfolding filled_def
    proof (intro conjI allI impI)
      fix i assume i: "j \<le> i" "i < pt_size t" "te_bitLength (tableEntry d t i) \<noteq> 0"
      show "tableEntry (fill_holes t (Suc j) d) t i = tableEntry d t i"
        using IH i same by (cases "i = j") (simp_all add: filled_def)
      fix k assume k: "short t (tableEntry d t i)" "k < span t (tableEntry d t i)"
      then have "i \<noteq> j" using skip(2) by auto
      then show "tableEntry (fill_holes t (Suc j) d) t (i + k) = tableEntry d t i"
        using IH i k by (simp add: filled_def)
    qed (use IH in \<open>auto simp: filled_def\<close>)
    ultimately show ?thesis by simp
  next
    case short
    define r where "r = span t ?e"
    have r: "0 < r" by (simp add: r_def span_def)
    define d1 where "d1 = fold (\<lambda>k. setTableEntry t (j + k) ?e) [1..<r] d"
    note fr = fill_range [where t = t and j = j and e = ?e and r = r and d = d, folded d1_def]
    have gap: "i + k < pt_size t \<and> te_bitLength (tableEntry d t (i + k)) = 0"
      if "j \<le> i" "i < pt_size t" "short t (tableEntry d t i)" "0 < k" "k < span t (tableEntry d t i)" for i k
      using "1.prems"(2) that by (simp add: fillable_def)
    have end_: "j + r \<le> pt_size t"
      using gap [OF le_refl short, of "r - 1"] short(1) r by (cases "r = 1") (auto simp: r_def)
    have E1: "tableEntry d1 t i = (if j \<le> i \<and> i < j + r then ?e else tableEntry d t i)" if "i < pt_size t" for i
      using fr(4) [of "pt_offset t + i"] "1.prems"(1) that by (cases "i = j") (auto simp: tableEntry_def)
    have "fillable t (j + r) d1"
      unfolding fillable_def
    proof (intro allI impI)
      fix i k assume i: "j + r \<le> i" "i < pt_size t" "short t (tableEntry d1 t i)" "0 < k" "k < span t (tableEntry d1 t i)"
      have "tableEntry d1 t i = tableEntry d t i" using E1 [OF i(2)] i(1) by simp
      then have g: "i + k < pt_size t" "te_bitLength (tableEntry d t (i + k)) = 0" using gap [of i k] i by simp_all
      then show "i + k < pt_size t \<and> te_bitLength (tableEntry d1 t (i + k)) = 0" using E1 [OF g(1)] i(1) by simp
    qed
    then have IH: "filled t (j + r) d1 (fill_holes t (j + r) d1)"
      using "1.IH"(1) [OF short(1) refl refl _ refl] short(2) "1.prems"(1) fr(3)
      by (simp add: short_def coded_def r_def span_def d1_def)
    have low: "tableEntry (fill_holes t (j + r) d1) t i = tableEntry d1 t i" if "i < j + r" for i
      using IH that end_ "1.prems"(1) fr(3) by (simp add: filled_def tableEntry_def)
    have "fill_holes t j d = fill_holes t (j + r) d1"
      by (subst fill_holes_step) (simp only: short if_True d1_def r_def)
    moreover have "filled t j d (fill_holes t (j + r) d1)"
      unfolding filled_def
    proof (intro conjI allI impI)
      show "prefixTables (fill_holes t (j + r) d1) = prefixTables d"
        "minCodeLength (fill_holes t (j + r) d1) = minCodeLength d"
        "length (tableData (fill_holes t (j + r) d1)) = length (tableData d)"
        using IH fr by (simp_all add: filled_def)
      fix m assume "m < length (tableData d)" "m < pt_offset t + j \<or> pt_offset t + pt_size t \<le> m"
      then show "tableData (fill_holes t (j + r) d1) ! m = tableData d ! m"
        using IH fr end_ by (auto simp: filled_def)
    next
      fix i assume i: "j \<le> i" "i < pt_size t" "te_bitLength (tableEntry d t i) \<noteq> 0"
      have "\<not> (j < i \<and> i < j + r)"
        using gap [OF le_refl short, of "i - j"] i by (auto simp: r_def less_diff_conv2 add.commute)
      then consider "i = j" | "j + r \<le> i" using i(1) by linarith
      then have both: "tableEntry (fill_holes t (j + r) d1) t i = tableEntry d t i
        \<and> (short t (tableEntry d t i) \<longrightarrow> (\<forall>k < span t (tableEntry d t i).
             tableEntry (fill_holes t (j + r) d1) t (i + k) = tableEntry d t i))"
      proof cases
        case 1
        then show ?thesis using low E1 end_ r by (auto simp: r_def [symmetric])
      next
        case 2
        then have "tableEntry d1 t i = tableEntry d t i" using E1 [OF i(2)] by simp
        then show ?thesis using IH 2 i by (simp add: filled_def)
      qed
      then show "tableEntry (fill_holes t (j + r) d1) t i = tableEntry d t i" ..
      fix k assume "short t (tableEntry d t i)" "k < span t (tableEntry d t i)"
      then show "tableEntry (fill_holes t (j + r) d1) t (i + k) = tableEntry d t i" using both by blast
    qed
    ultimately show ?thesis by simp
  qed
qed

text \<open>The holes after placing the codes are empty, because no code starts another.\<close>

lemma nat_bits_split_zeros:
  assumes "nat_bits l i = xs @ replicate m False" "k < 2 ^ m" "i < 2 ^ l"
  shows "i + k < 2 ^ l" "nat_bits l (i + k) = xs @ nat_bits m k"
proof -
  have l: "l = length xs + m" using arg_cong [OF assms(1), of length] by simp
  have i: "i = bits_val xs * 2 ^ m"
    using arg_cong [OF assms(1), of bits_val] assms(3) by (simp add: bits_val_nat_bits bits_val_append)
  have "bits_val xs + 1 \<le> 2 ^ length xs" using bits_val_less [of xs] by simp
  then have "(bits_val xs + 1) * 2 ^ m \<le> 2 ^ length xs * 2 ^ m" by (rule mult_le_mono1)
  then show lt: "i + k < 2 ^ l" using assms(2) by (simp add: i l power_add)
  have "bits_val (nat_bits l (i + k)) = bits_val (xs @ nat_bits m k)"
    using lt assms(2) by (simp add: bits_val_nat_bits bits_val_append i)
  then show "nat_bits l (i + k) = xs @ nat_bits m k"
    using bits_val_inject [of "nat_bits l (i + k)" "xs @ nat_bits m k"] l by simp
qed

lemma terminal_span:
  assumes "dec_shape d ps" "t < length (prefixTables d)" "i < pt_size (tbl d t)" "terminal d ps c t i"
    "k < 2 ^ (coded (tbl d t) - ce_bitLength c)"
  shows "i + k < pt_size (tbl d t)"
    "path d ps t (i + k) = code_bits c @ nat_bits (coded (tbl d t) - ce_bitLength c) k"
proof -
  let ?l = "pt_indexLength (tbl d t)" let ?m = "coded (tbl d t) - ce_bitLength c"
  have p: "pt_prefixLength (tbl d t) = length (ps ! t)" using assms(1,2) by (simp add: dec_shape_def)
  have eq: "ps ! t @ nat_bits ?l i = code_bits c @ replicate ?m False"
    using assms(4) by (simp add: terminal_def path_def pad_code_def)
  have lt: "length (ps ! t) \<le> length (code_bits c)" using assms(4) p by (simp add: terminal_def)
  define xs where "xs = drop (length (ps ! t)) (code_bits c)"
  have "take (length (ps ! t)) (code_bits c) = ps ! t"
    using arg_cong [OF eq, of "take (length (ps ! t))"] lt by simp
  then have cb: "code_bits c = ps ! t @ xs" by (metis append_take_drop_id xs_def)
  then have "nat_bits ?l i = xs @ replicate ?m False" using eq by simp
  from nat_bits_split_zeros [OF this assms(5)] assms(3) cb
  show "i + k < pt_size (tbl d t)" "path d ps t (i + k) = code_bits c @ nat_bits ?m k"
    by (simp_all add: pt_size_def path_def)
qed

lemma inv_fillable:
  assumes inv: "dec_inv d ps Q Q" and Q: "Q \<subseteq> set staticHuffmanCodeTable" and t: "t < length (prefixTables d)"
  shows "fillable (tbl d t) 0 d"
  unfolding fillable_def ent_def [symmetric]
proof (intro allI impI)
  fix i k assume i: "i < pt_size (tbl d t)" "short (tbl d t) (ent d t i)" "0 < k" "k < span (tbl d t) (ent d t i)"
  have sh: "dec_shape d ps" by (rule dec_inv_shape [OF inv])
  have "\<not> link d ps Q t i" using i(2) by (auto simp: link_def short_def)
  then obtain c where c: "c \<in> Q" "terminal d ps c t i"
    using dec_inv_entry [OF inv t i(1)] i(2) by (auto simp: short_def)
  then have k: "k < 2 ^ (coded (tbl d t) - ce_bitLength c)" using i(4) by (simp add: span_def terminal_def)
  note ts = terminal_span [OF sh t i(1) c(2) k]
  have "te_bitLength (ent d t (i + k)) = 0"
  proof (rule ccontr)
    assume "te_bitLength (ent d t (i + k)) \<noteq> 0"
    then have "terminal d ps c t (i + k)"
      using entry_with_code [OF inv Q c(1) t ts(1)] ts(2) by simp
    then have "path d ps t (i + k) = path d ps t i" using c(2) by (simp add: terminal_def)
    then have "nat_bits (pt_indexLength (tbl d t)) (i + k) = nat_bits (pt_indexLength (tbl d t)) i" by (simp add: path_def)
    then show False using nat_bits_inject ts(1) i(1,3) by (simp add: pt_size_def)
  qed
  then show "i + k < pt_size (tbl d t) \<and> te_bitLength (ent d t (i + k)) = 0" using ts(1) by simp
qed

definition kept :: "huffman_decoder \<Rightarrow> huffman_decoder \<Rightarrow> nat \<Rightarrow> bool" where
  "kept d d' t \<longleftrightarrow> (\<forall>i < pt_size (tbl d t). te_bitLength (ent d t i) \<noteq> 0 \<longrightarrow> ent d' t i = ent d t i
     \<and> (short (tbl d t) (ent d t i) \<longrightarrow> (\<forall>k < span (tbl d t) (ent d t i). ent d' t (i + k) = ent d t i)))"

lemma fill_tables:
  fixes d m defines "D \<equiv> \<lambda>m. fold (\<lambda>t. fill_holes t 0) (take m (prefixTables d)) d"
  assumes "dec_shape d ps" "\<And>t. t < length (prefixTables d) \<Longrightarrow> fillable (tbl d t) 0 d" "m \<le> length (prefixTables d)"
  shows "prefixTables (D m) = prefixTables d \<and> minCodeLength (D m) = minCodeLength d
    \<and> length (tableData (D m)) = length (tableData d)
    \<and> (\<forall>t < m. kept d (D m) t)
    \<and> (\<forall>t < length (prefixTables d). m \<le> t \<longrightarrow> (\<forall>i < pt_size (tbl d t). ent (D m) t i = ent d t i))"
  using assms(4)
proof (induction m)
  case 0 then show ?case by (simp add: D_def)
next
  case (Suc m)
  let ?d = "D m" let ?d' = "D (Suc m)"
  have reg: "regions d" using assms(2) by (simp add: dec_shape_def)
  have m: "m < length (prefixTables d)" using Suc.prems by simp
  have IH: "prefixTables ?d = prefixTables d" "minCodeLength ?d = minCodeLength d" "length (tableData ?d) = length (tableData d)"
    "\<And>t. t < m \<Longrightarrow> kept d ?d t"
    "\<And>t i. t < length (prefixTables d) \<Longrightarrow> m \<le> t \<Longrightarrow> i < pt_size (tbl d t) \<Longrightarrow> ent ?d t i = ent d t i"
    using Suc by auto
  have step: "?d' = fill_holes (tbl d m) 0 ?d" using m by (simp add: D_def take_Suc_conv_app_nth)
  have at_m: "tableEntry ?d (tbl d m) i = tableEntry d (tbl d m) i" if "i < pt_size (tbl d m)" for i
    using IH(5) [OF m le_refl that] IH(1) by (simp add: ent_def)
  have fa: "fillable (tbl d m) 0 ?d"
    using assms(3) [OF m] at_m unfolding fillable_def by simp
  have "pt_offset (tbl d m) + pt_size (tbl d m) \<le> length (tableData ?d)"
    using reg m IH(3) by (simp add: regions_def)
  then have f: "filled (tbl d m) 0 ?d ?d'" unfolding step by (rule fill_holes_spec [OF _ fa])
  have other: "ent ?d' t i = ent ?d t i" if "t < length (prefixTables d)" "t \<noteq> m" "i < pt_size (tbl d t)" for t i
  proof -
    have b: "pt_offset (tbl d t) + i < length (tableData d)" by (rule region_bound [OF reg that(1,3)])
    have "pt_offset (tbl d t) + i < pt_offset (tbl d m) \<or> pt_offset (tbl d m) + pt_size (tbl d m) \<le> pt_offset (tbl d t) + i"
    proof (cases "t < m")
      case True
      then have "pt_offset (tbl d t) + pt_size (tbl d t) \<le> pt_offset (tbl d m)" using reg m by (simp add: regions_def)
      then show ?thesis using that(3) by simp
    next
      case False
      then have "pt_offset (tbl d m) + pt_size (tbl d m) \<le> pt_offset (tbl d t)" using reg that(1,2) by (simp add: regions_def)
      then show ?thesis by simp
    qed
    moreover have "prefixTables ?d' = prefixTables ?d" and fr:
      "\<forall>n < length (tableData ?d). n < pt_offset (tbl d m) + 0 \<or> pt_offset (tbl d m) + pt_size (tbl d m) \<le> n \<longrightarrow>
         tableData ?d' ! n = tableData ?d ! n"
      using f unfolding filled_def by blast+
    moreover note fr [rule_format, of "pt_offset (tbl d t) + i"]
    ultimately have "tableData ?d' ! (pt_offset (tbl d t) + i) = tableData ?d ! (pt_offset (tbl d t) + i)"
      "prefixTables ?d' = prefixTables ?d" using b IH(3) by auto
    then show ?thesis using IH(1) by (simp add: ent_def tableEntry_def)
  qed
  have "kept d ?d' t" if "t < Suc m" for t
  proof (cases "t = m")
    case True
    then show ?thesis using f at_m IH(1) by (simp add: kept_def filled_def ent_def)
  next
    case False
    then have t: "t < length (prefixTables d)" "t < m" using that m by simp_all
    show ?thesis
      unfolding kept_def
    proof (intro allI impI conjI)
      fix i assume i: "i < pt_size (tbl d t)" "te_bitLength (ent d t i) \<noteq> 0"
      show "ent ?d' t i = ent d t i" using IH(4) [OF t(2)] other [OF t(1) False i(1)] i by (simp add: kept_def)
      fix k assume k: "short (tbl d t) (ent d t i)" "k < span (tbl d t) (ent d t i)"
      have "i + k < pt_size (tbl d t)"
        using assms(3) [OF t(1)] i(1) k by (cases "k = 0") (simp_all add: fillable_def ent_def)
      then show "ent ?d' t (i + k) = ent d t i"
        using IH(4) [OF t(2)] other [OF t(1) False] i k by (simp add: kept_def)
    qed
  qed
  moreover have "ent ?d' t i = ent d t i" if "t < length (prefixTables d)" "Suc m \<le> t" "i < pt_size (tbl d t)" for t i
    using other [of t i] IH(5) [of t i] that by simp
  ultimately show ?case using IH(1-3) f by (simp add: filled_def)
qed

subsection \<open>The finished decoder\<close>

text \<open>Tables whose walk finds the code that a word starts with.\<close>

definition decodes :: "huffman_decoder \<Rightarrow> bool list list \<Rightarrow> bool" where
  "decodes d ps \<longleftrightarrow> dec_shape d ps
     \<and> (\<forall>u < length (prefixTables d). 0 < u \<longrightarrow>
          (\<exists>t < u. \<exists>i < pt_size (tbl d t). te_nextTable (ent d t i) = u \<and> ps ! u = path d ps t i))
     \<and> (\<forall>c \<in> set staticHuffmanCodeTable. \<exists>t < length (prefixTables d).
          prefix (ps ! t) (code_bits c) \<and> ce_bitLength c \<le> coded (tbl d t) \<and>
          (\<forall>i < pt_size (tbl d t). prefix (code_bits c) (path d ps t i) \<longrightarrow>
             ent d t i = TE (ce_bitLength c) t (ce_byteValue c)))
     \<and> minCodeLength d = 5"

lemma last_insert_code:
  "(\<forall>x \<in> set xs. ce_bitLength (last xs) \<le> ce_bitLength x) \<Longrightarrow>
   set (insert_code c xs) = insert c (set xs)
   \<and> (\<forall>x \<in> set (insert_code c xs). ce_bitLength (last (insert_code c xs)) \<le> ce_bitLength x)"
proof (induction xs)
  case (Cons y ys)
  show ?case
  proof (cases "code_before c y")
    case True
    then have "ce_bitLength y \<le> ce_bitLength c" by (auto simp: code_before_def split: if_splits)
    then show ?thesis using True Cons.prems by (auto intro: order_trans)
  next
    case False
    then have yc: "ce_bitLength c \<le> ce_bitLength y" by (auto simp: code_before_def split: if_splits)
    have ne: "insert_code c ys \<noteq> []" by (cases ys) simp_all
    have h: "\<forall>x \<in> set ys. ce_bitLength (last ys) \<le> ce_bitLength x" using Cons.prems by (cases ys) auto
    note IH = Cons.IH [OF h]
    have "c \<in> set (insert_code c ys)" using IH by auto
    then have "ce_bitLength (last (insert_code c ys)) \<le> ce_bitLength y" using IH yc by (meson order_trans)
    then show ?thesis using False IH ne by auto
  qed
qed simp

lemma symbols_spec:
  "set (foldr insert_code cs []) = set cs
   \<and> (\<forall>x \<in> set cs. ce_bitLength (last (foldr insert_code cs [])) \<le> ce_bitLength x)"
proof (induction cs)
  case (Cons c cs)
  then show ?case using last_insert_code [of "foldr insert_code cs []" c] by auto
qed simp

lemma HuffmanDecoder_decodes: "\<exists>d ps. HuffmanDecoder = Some d \<and> decodes d ps"
proof -
  define symbols where "symbols = foldr insert_code staticHuffmanCodeTable []"
  have sy: "set symbols = set staticHuffmanCodeTable"
    "\<forall>x \<in> set staticHuffmanCodeTable. ce_bitLength (last symbols) \<le> ce_bitLength x"
    using symbols_spec [of staticHuffmanCodeTable] by (simp_all add: symbols_def)
  define d0 where "d0 = \<lparr>prefixTables = [], tableData = [], minCodeLength = ce_bitLength (last symbols)\<rparr>"
  define d1 where "d1 = snd (addTable 0 rootPrefix d0)"
  have d1: "prefixTables d1 = [\<lparr>pt_prefixLength = 0, pt_indexLength = 9, pt_offset = 0\<rparr>]"
    "tableData d1 = replicate 512 (TE 0 0 0)" "minCodeLength d1 = ce_bitLength (last symbols)"
    by (simp_all add: d1_def d0_def addTable_def rootPrefix_def pt_size_def)
  have sh: "dec_shape d1 [[]]" by (simp add: dec_shape_def regions_def d1 coded_def pt_size_def)
  have "dec_inv d1 [[]] {} ({} \<union> set symbols)"
    using sh by (auto simp: dec_inv_def d1 ent_def tableEntry_def pt_size_def)
  from place_symbols_spec [OF this] sy(1)
  obtain d2 ps where d2: "place_symbols symbols d1 = Some d2" "dec_inv d2 ps (set symbols) (set symbols)"
    "minCodeLength d2 = minCodeLength d1" by auto
  define d3 where "d3 = fold (\<lambda>t. fill_holes t 0) (prefixTables d2) d2"
  have H: "HuffmanDecoder = Some d3"
    using d2(1) by (simp add: HuffmanDecoder_def Let_def symbols_def [symmetric] d0_def [symmetric] d1_def [symmetric] d3_def)
  have sh2: "dec_shape d2 ps" by (rule dec_inv_shape [OF d2(2)])
  have fa: "fillable (tbl d2 t) 0 d2" if "t < length (prefixTables d2)" for t
    by (rule inv_fillable [OF d2(2) _ that]) (simp add: sy(1))
  have d3: "prefixTables d3 = prefixTables d2" "minCodeLength d3 = minCodeLength d2"
    "length (tableData d3) = length (tableData d2)" "\<And>t. t < length (prefixTables d2) \<Longrightarrow> kept d2 d3 t"
    using fill_tables [OF sh2 fa, of "length (prefixTables d2)"] by (simp_all add: d3_def)
  have p3: "path d3 ps = path d2 ps" by (simp add: path_def d3(1) fun_eq_iff)
  have sh3: "dec_shape d3 ps" using sh2 d3 by (simp add: dec_shape_def regions_def)
  have "\<exists>t < u. \<exists>i < pt_size (tbl d3 t). te_nextTable (ent d3 t i) = u \<and> ps ! u = path d3 ps t i"
    if u: "u < length (prefixTables d3)" "0 < u" for u
  proof -
    obtain t i where t: "t < u" "i < pt_size (tbl d2 t)" "te_nextTable (ent d2 t i) = u" "te_bitLength (ent d2 t i) \<noteq> 0"
      using dec_inv_parent [OF d2(2)] u d3(1) by metis
    then have tl: "t < length (prefixTables d2)" using u d3(1) by simp
    have "link d2 ps (set symbols) t i"
      using dec_inv_entry [OF d2(2) tl t(2,4)] t(1,3) by (auto simp: terminal_def)
    then have "ps ! u = path d2 ps t i" using t(3) by (simp add: link_def)
    moreover have "ent d3 t i = ent d2 t i" using d3(4) [OF tl] t(2,4) by (simp add: kept_def)
    ultimately show ?thesis using t d3(1) p3 by (intro exI [of _ t] conjI exI [of _ i]) simp_all
  qed
  moreover have "\<exists>t < length (prefixTables d3). prefix (ps ! t) (code_bits c) \<and> ce_bitLength c \<le> coded (tbl d3 t) \<and>
          (\<forall>i < pt_size (tbl d3 t). prefix (code_bits c) (path d3 ps t i) \<longrightarrow>
             ent d3 t i = TE (ce_bitLength c) t (ce_byteValue c))" if c: "c \<in> set staticHuffmanCodeTable" for c
  proof -
    obtain t i where t: "t < length (prefixTables d2)" "i < pt_size (tbl d2 t)" "terminal d2 ps c t i"
      using dec_inv_placed [OF d2(2)] c sy(1) by blast
    let ?m = "coded (tbl d2 t) - ce_bitLength c"
    have e: "ent d2 t i = TE (ce_bitLength c) t (ce_byteValue c)" using t(3) by (simp add: terminal_def)
    have bl: "ce_bitLength c \<le> coded (tbl d2 t)" by (rule terminal_length [OF sh2 t(1,3)])
    have nz: "te_bitLength (ent d2 t i) \<noteq> 0" using e table_entry(3) [OF c] by simp
    have reach: "ent d3 t (i + k) = TE (ce_bitLength c) t (ce_byteValue c)" if "k < 2 ^ ?m" for k
    proof (cases "ce_bitLength c < coded (tbl d2 t)")
      case True
      then have "short (tbl d2 t) (ent d2 t i)" "k < span (tbl d2 t) (ent d2 t i)"
        using nz e that by (simp_all add: short_def span_def)
      then show ?thesis using d3(4) [OF t(1)] t(2) nz e by (simp add: kept_def)
    next
      case False
      then have "k = 0" using that bl by simp
      then show ?thesis using d3(4) [OF t(1)] t(2) nz e by (simp add: kept_def)
    qed
    have "ent d3 t j = TE (ce_bitLength c) t (ce_byteValue c)"
      if j: "j < pt_size (tbl d2 t)" "prefix (code_bits c) (path d2 ps t j)" for j
    proof -
      obtain ys where ys: "path d2 ps t j = code_bits c @ ys" using j(2) by (auto simp: prefix_def)
      then have l: "length ys = ?m" using path_length [OF sh2 t(1), of j] arg_cong [OF ys, of length] by simp
      let ?k = "bits_val ys"
      have k: "?k < 2 ^ ?m" using bits_val_less [of ys] l by simp
      note ts = terminal_span [OF sh2 t k]
      have "nat_bits ?m ?k = ys" using bits_val_inject [of "nat_bits ?m ?k" ys] l k by (simp add: bits_val_nat_bits)
      then have "path d2 ps t (i + ?k) = path d2 ps t j" using ts(2) ys by simp
      then have "i + ?k = j" using nat_bits_inject ts(1) j(1) by (simp add: path_def pt_size_def)
      then show ?thesis using reach [OF k] by simp
    qed
    moreover have "prefix (ps ! t) (code_bits c)"
    proof (rule prefix_length_prefix)
      show "prefix (ps ! t) (pad_code c (coded (tbl d2 t)))"
        using t(3) unfolding terminal_def path_def by (metis prefixI)
      show "prefix (code_bits c) (pad_code c (coded (tbl d2 t)))" by (rule pad_code_prefix)
      show "length (ps ! t) \<le> length (code_bits c)" using t(1,3) sh2 by (simp add: terminal_def dec_shape_def)
    qed
    ultimately show ?thesis using t(1) bl d3(1) p3 by (intro exI [of _ t]) simp
  qed
  moreover have "minCodeLength d3 = 5"
  proof -
    have "\<exists>c \<in> set staticHuffmanCodeTable. ce_bitLength c = 5"
      by (rule bexI [of _ "CE 48 0x00000000 5"]) (simp_all add: staticHuffmanCodeTable_def staticHuffmanCodeTable_lo_def)
    then have "ce_bitLength (last symbols) \<le> 5" using sy(2) by metis
    moreover have "symbols \<noteq> []" using sy(1) table_shape(1) by (metis list.size(3) set_empty zero_neq_numeral)
    then have "5 \<le> ce_bitLength (last symbols)" using sy(1) table_entry(3) last_in_set by blast
    ultimately show ?thesis using d3(2) d2(3) d1(3) by simp
  qed
  ultimately show ?thesis using H sh3 unfolding decodes_def by blast
qed

lemma walk_reaches:
  assumes "decodes d ps" "h < 2 ^ 32"
  defines "E \<equiv> \<lambda>t. ent d t (entry_index h (tbl d t))"
  shows "t < length (prefixTables d) \<Longrightarrow> prefix (ps ! t) (word32 h) \<Longrightarrow>
    \<exists>fuel. Suc (length (prefixTables d)) - t \<le> fuel
      \<and> walk_tables (Suc (length (prefixTables d))) d h 0 (E 0) = walk_tables fuel d h t (E t)"
proof (induction t rule: less_induct)
  case (less t)
  have sh: "dec_shape d ps" using assms(1) by (simp add: decodes_def)
  show ?case
  proof (cases "t = 0")
    case True then show ?thesis by auto
  next
    case False
    then obtain u i where u: "u < t" "i < pt_size (tbl d u)" "te_nextTable (ent d u i) = t" "ps ! t = path d ps u i"
      using assms(1) less.prems(1) unfolding decodes_def by blast
    have ul: "u < length (prefixTables d)" using u(1) less.prems(1) by simp
    have pu: "prefix (ps ! u) (word32 h)"
      using less.prems(2) u(4) unfolding path_def by (metis append_prefixD)
    note ei = entry_index_path [OF assms(2) sh ul pu]
    have "length (path d ps u i) = coded (tbl d u)" by (rule path_length [OF sh ul])
    then have "path d ps u i = take (coded (tbl d u)) (word32 h)"
      using less.prems(2) u(4) by (auto simp: prefix_def)
    then have "nat_bits (pt_indexLength (tbl d u)) i = nat_bits (pt_indexLength (tbl d u)) (entry_index h (tbl d u))"
      using ei(1) unfolding path_def by (metis same_append_eq)
    then have "entry_index h (tbl d u) = i" using nat_bits_inject u(2) ei(2) by (simp add: pt_size_def)
    then have E: "E u = ent d u i" by (simp add: E_def)
    obtain fuel where f: "Suc (length (prefixTables d)) - u \<le> fuel"
      "walk_tables (Suc (length (prefixTables d))) d h 0 (E 0) = walk_tables fuel d h u (E u)"
      using less.IH [OF u(1) ul pu] by blast
    obtain g where g: "fuel = Suc g" using f(1) ul by (cases fuel) auto
    have "walk_tables fuel d h u (E u) = walk_tables g d h t (E t)"
      using u(1,3) by (simp add: g E Let_def) (simp add: E_def ent_def Let_def)
    moreover have "Suc (length (prefixTables d)) - t \<le> g" using f(1) u(1) g by linarith
    ultimately show ?thesis using f(2) by metis
  qed
qed

lemma walk_finds:
  assumes "decodes d ps" "h < 2 ^ 32" "c \<in> set staticHuffmanCodeTable" "prefix (code_bits c) (word32 h)"
  shows "\<exists>t. walk_tables (Suc (length (prefixTables d))) d h 0 (tableEntry d (tbl d 0) (entry_index h (tbl d 0)))
    = Some (TE (ce_bitLength c) t (ce_byteValue c))"
proof -
  have sh: "dec_shape d ps" using assms(1) by (simp add: decodes_def)
  obtain t where t: "t < length (prefixTables d)" "prefix (ps ! t) (code_bits c)" "ce_bitLength c \<le> coded (tbl d t)"
    "\<forall>i < pt_size (tbl d t). prefix (code_bits c) (path d ps t i) \<longrightarrow> ent d t i = TE (ce_bitLength c) t (ce_byteValue c)"
    using assms(1,3) unfolding decodes_def by blast
  have pt: "prefix (ps ! t) (word32 h)" using t(2) assms(4) by (rule prefix_order.order_trans)
  note ei = entry_index_path [OF assms(2) sh t(1) pt]
  have "prefix (code_bits c) (take (coded (tbl d t)) (word32 h))"
    using assms(4) t(3) by (auto simp: prefix_def)
  then have e: "ent d t (entry_index h (tbl d t)) = TE (ce_bitLength c) t (ce_byteValue c)" using t(4) ei by simp
  obtain fuel where f: "Suc (length (prefixTables d)) - t \<le> fuel"
    "walk_tables (Suc (length (prefixTables d))) d h 0 (ent d 0 (entry_index h (tbl d 0)))
      = walk_tables fuel d h t (ent d t (entry_index h (tbl d t)))"
    using walk_reaches [OF assms(1,2) t(1) pt] by blast
  obtain g where "fuel = Suc g" using f(1) t(1) by (cases fuel) auto
  with f(2) e show ?thesis by (simp add: ent_def)
qed

subsection \<open>Decoding what was encoded\<close>

lemma word_bits_word32: "word_bits (w :: 32 word) = word32 (unat w)"
  by (rule nth_equalityI) (simp_all add: nth_word_bits word32_def nat_bits_def bit_unsigned_iff)

lemma unat_chunk: "unat (w :: 32 word) < 2 ^ 32"
  using unsigned_less [of w] by simp

lemma padding_valid:
  assumes "0 < k" "k \<le> 7" "word_bits (w :: 32 word) = replicate k True @ zs"
  shows "padding_is_valid w k"
proof -
  have "word_bits (drop_bit (32 - k) w) = replicate (32 - k) False @ replicate k True"
    using assms by (simp add: word_bits_drop_bit)
  also have "\<dots> = word_bits (mask k :: 32 word)"
    using assms(2) by (intro nth_equalityI) (auto simp: nth_word_bits nth_append bit_mask_iff)
  finally have "drop_bit (32 - k) w = mask k" by (simp only: word_bits_inject)
  then show ?thesis using assms(2) by (simp add: padding_is_valid_def mask_eq_exp_minus_1)
qed

text \<open>The codes that start with five, six and seven 1-bits followed by zeros.\<close>

lemma padding_code:
  assumes "5 \<le> k" "k \<le> 7"
  shows "\<exists>c \<in> set staticHuffmanCodeTable. k < ce_bitLength c \<and> prefix (code_bits c) (replicate k True @ replicate (32 - k) False)"
proof -
  have cases: "k = 5 \<or> k = 6 \<or> k = 7" using assms by auto
  have c5: "CE 38 0xF8000000 8 \<in> set staticHuffmanCodeTable" and c6: "CE 88 0xFC000000 8 \<in> set staticHuffmanCodeTable"
    and c7: "CE 33 0xFE000000 10 \<in> set staticHuffmanCodeTable"
    by (simp_all add: staticHuffmanCodeTable_def staticHuffmanCodeTable_lo_def)
  have b5: "code_bits (CE 38 0xF8000000 8) = replicate 5 True @ replicate 3 False"
    and b6: "code_bits (CE 88 0xFC000000 8) = replicate 6 True @ replicate 2 False"
    and b7: "code_bits (CE 33 0xFE000000 10) = replicate 7 True @ replicate 3 False"
    by (simp_all add: code_bits_def nat_bits_def upt_conv_Cons bit_0) (simp_all add: numeral_eq_Suc)
  have z: "prefix (replicate a b @ replicate m False) (replicate a b @ replicate n False)" if "m \<le> n" for a b m n
    using that by (auto simp: prefix_def le_Suc_ex replicate_add dest!: le_Suc_ex)
  from cases show ?thesis
  proof (elim disjE)
    assume "k = 5" then show ?thesis using c5 b5 z [of 3 27 5 True] by (intro bexI [of _ "CE 38 0xF8000000 8"]) simp_all
  next
    assume "k = 6" then show ?thesis using c6 b6 z [of 2 26 6 True] by (intro bexI [of _ "CE 88 0xFC000000 8"]) simp_all
  next
    assume "k = 7" then show ?thesis using c7 b7 z [of 3 25 7 True] by (intro bexI [of _ "CE 33 0xFE000000 10"]) simp_all
  qed
qed

lemma peek_chunk:
  assumes "drop (is_offset s) (bits_of (is_data s)) = xs" "xs \<noteq> []"
  shows "\<exists>w. peekBits (is_offset s) 32 (0 :: 32 word) s = (min 32 (length xs), w)
    \<and> word_bits w = take 32 xs @ replicate (32 - length xs) False"
proof -
  have l: "length xs = bitLength s - is_offset s" using assms(1) by (auto simp: bitLength_def)
  then have lt: "is_offset s < bitLength s" using assms(2) by (cases xs) auto
  from peekBits_spec [of 32 "is_offset s" s "0 :: 32 word", OF _ _ _ lt] l assms(1)
  show ?thesis by auto
qed

lemma char_code_in: "char_code b \<in> set staticHuffmanCodeTable" "ce_byteValue (char_code b) = unat b"
proof -
  have u: "unat b < 257" using unat_byte_less [of b] by simp
  then show "char_code b \<in> set staticHuffmanCodeTable" using table_shape(1) by (simp add: char_code_def)
  show "ce_byteValue (char_code b) = unat b" using table_at(1) [OF u] by (simp add: char_code_def)
qed

lemma decodeStream_spec:
  assumes "decodes d ps"
  shows "drop (is_offset s) (bits_of (is_data s)) = codes_bits bs @ replicate k True \<Longrightarrow> k < 8 \<Longrightarrow> length bs < fuel \<Longrightarrow>
    \<exists>s'. decodeStream fuel d s out = Some (True, s', out @ bs)"
proof (induction bs arbitrary: s out fuel)
  case Nil
  then obtain fuel' where f: "fuel = Suc fuel'" by (cases fuel) auto
  have m: "minCodeLength d = 5" using assms by (simp add: decodes_def)
  show ?case
  proof (cases "k = 0")
    case True
    then have "bitLength s \<le> is_offset s" using Nil.prems(1) by (simp add: bitLength_def)
    then show ?thesis by (simp add: f peekBits_def hasMoreBits_def)
  next
    case False
    then have ne: "replicate k True \<noteq> []" by simp
    obtain w where w: "peekBits (is_offset s) 32 (0 :: 32 word) s = (k, w)"
      "word_bits w = replicate k True @ replicate (32 - k) False"
      using peek_chunk [of s, OF _ ne] Nil.prems(1,2) by auto
    have pv: "padding_is_valid w k" using padding_valid [OF _ _ w(2)] False Nil.prems(2) by simp
    show ?thesis
    proof (cases "k < minCodeLength d")
      case True
      then show ?thesis using w(1) pv False by (simp add: f)
    next
      case g: False
      have "\<exists>e. walk_tables (Suc (length (prefixTables d))) d (unat w) 0
          (tableEntry d (tbl d 0) (entry_index (unat w) (tbl d 0))) = Some e \<and> (k < te_bitLength e)"
      proof -
        have "5 \<le> k" using g m by simp
        then obtain c where c: "c \<in> set staticHuffmanCodeTable" "k < ce_bitLength c"
          "prefix (code_bits c) (word32 (unat w))"
          using padding_code [of k] Nil.prems(2) w(2) word_bits_word32 [of w] by auto
        from walk_finds [OF assms unat_chunk c(1,3)] c(2) show ?thesis by auto
      qed
      then show ?thesis using w(1) pv False g by (auto simp: f simp del: walk_tables.simps)
    qed
  qed
next
  case (Cons b bs)
  then obtain fuel' where f: "fuel = Suc fuel'" by (cases fuel) auto
  let ?c = "char_code b"
  let ?xs = "codes_bits (b # bs) @ replicate k True"
  have bl: "5 \<le> ce_bitLength ?c" "ce_bitLength ?c \<le> 30" by (rule char_code_length)+
  have ne: "?xs \<noteq> []" using bl by (auto simp: length_0_conv [symmetric] simp del: length_0_conv)
  obtain w where w: "peekBits (is_offset s) 32 (0 :: 32 word) s = (min 32 (length ?xs), w)"
    "word_bits w = take 32 ?xs @ replicate (32 - length ?xs) False"
    using peek_chunk [OF Cons.prems(1) ne] by blast
  have "take 32 ?xs = code_bits ?c @ take (32 - ce_bitLength ?c) (codes_bits bs @ replicate k True)"
    using bl by simp
  then have pc: "prefix (code_bits ?c) (word32 (unat w))"
    using w(2) unfolding word_bits_word32 by (metis append_assoc prefixI)
  obtain t where e: "walk_tables (Suc (length (prefixTables d))) d (unat w) 0
      (tableEntry d (tbl d 0) (entry_index (unat w) (tbl d 0))) = Some (TE (ce_bitLength ?c) t (unat b))"
    using walk_finds [OF assms unat_chunk char_code_in(1) pc] char_code_in(2) by auto
  have n: "ce_bitLength ?c \<le> min 32 (length ?xs)" using bl by simp
  have sk: "skipBits (ce_bitLength ?c) s = (True, s\<lparr>is_offset := is_offset s + ce_bitLength ?c\<rparr>)"
    using arg_cong [OF Cons.prems(1), of length] bl by (auto simp: skipBits_def bitLength_def)
  let ?s = "s\<lparr>is_offset := is_offset s + ce_bitLength ?c\<rparr>"
  have rest: "drop (is_offset ?s) (bits_of (is_data ?s)) = codes_bits bs @ replicate k True"
    using arg_cong [OF Cons.prems(1), of "drop (ce_bitLength ?c)"] by (simp add: add.commute)
  have m: "minCodeLength d = 5" using assms by (simp add: decodes_def)
  have "decodeStream fuel d s out = decodeStream fuel' d ?s (out @ [b])"
  proof -
    define R where "R = min 32 (length ?xs)"
    have "\<not> R < minCodeLength d" "R \<noteq> 0" "\<not> R < ce_bitLength ?c" "ce_bitLength ?c \<noteq> 0"
      "unat b \<noteq> 256" "(of_nat (unat b) :: byte) = b" using n bl m unat_byte_less [of b]
      by (auto simp: R_def simp del: codes_bits_simps)
    then show ?thesis using w(1) [folded R_def] e n sk
      by (simp add: f Let_def del: codes_bits_simps walk_tables.simps)
  qed
  then show ?case using Cons.IH [OF rest Cons.prems(2), of fuel' "out @ [b]"] Cons.prems(3) f
    by (simp del: decodeStream.simps)
qed

lemma huffman_decode_string_padded:
  assumes "padded_codes bs = bits_of src"
  shows "\<exists>s'. huffman_decode_string (BitIStream src) [] = Some (True, s', bs)"
proof -
  obtain d ps where d: "HuffmanDecoder = Some d" "decodes d ps" using HuffmanDecoder_decodes by blast
  let ?k = "(8 - length (codes_bits bs) mod 8) mod 8"
  have dr: "drop (is_offset (BitIStream src)) (bits_of (is_data (BitIStream src))) = codes_bits bs @ replicate ?k True"
    using assms by (simp add: BitIStream_def padded_codes_def)
  have "length bs \<le> length (codes_bits bs)"
  proof (induction bs)
    case (Cons b bs)
    then show ?case using char_code_length(1) [of b] by simp
  qed simp
  also have "\<dots> \<le> bitLength (BitIStream src)"
    using arg_cong [OF dr, of length] by (simp add: bitLength_def BitIStream_def)
  finally show ?thesis
    using decodeStream_spec [OF d(2) dr, of "Suc (bitLength (BitIStream src))" "[]"]
    unfolding huffman_decode_string_def d(1) option.case by simp
qed

text \<open>Reading back a coded string.\<close>

lemma read_string_compressed:
  assumes "drop (is_offset s) (bits_of (is_data s)) = string_bits p True src @ rest"
    and "p = 8 - (is_offset s + 1) mod 8" "8 * length (is_data s) < 2 ^ 32" "writable True src"
  shows "\<exists>s'. read_string s = Some (Some src, s')
    \<and> s' = s\<lparr>is_error := NoError, is_offset := is_offset s + length (string_bits p True src)\<rparr>"
proof (cases "src = []")
  case True
  then have "string_bits p True src = string_bits p False src" by (simp add: string_bits_def)
  then show ?thesis using read_string_uncompressed [of s p src rest] assms True by simp
next
  case False
  define l where "l = length (padded_codes src) div 8"
  have l: "8 * l = length (padded_codes src)" by (simp add: l_def length_padded_codes)
  have l32: "l < 2 ^ 32" using assms(4) by (simp add: writable_def l_def)
  have d: "drop (is_offset s) (bits_of (is_data s)) = True # int_bits p l @ padded_codes src @ rest"
    using assms(1) False by (simp add: string_bits_def l_def)
  note b = read_bit [OF d]
  let ?s = "s\<lparr>is_offset := is_offset s + 1, is_error := NoError\<rparr>"
  have d1: "drop (is_offset ?s) (bits_of (is_data ?s)) = int_bits p l @ padded_codes src @ rest"
    using arg_cong [OF d, of "drop 1"] by simp
  define n where "n = is_offset s + 1 + length (int_bits p l)"
  have dn: "drop n (bits_of (is_data s)) = padded_codes src @ rest"
    using arg_cong [OF d1, of "drop (length (int_bits p l))"] by (simp add: n_def add.commute)
  have n8: "n mod 8 = 0" using int_bits_aligned [OF assms(2)] by (simp add: n_def)
  define sub where "sub = take l (drop (n div 8) (is_data s))"
  have "bits_of sub = take (8 * l) (bits_of (drop (n div 8) (is_data s)))"
    by (simp add: sub_def take_bits_of)
  also have "bits_of (drop (n div 8) (is_data s)) = drop n (bits_of (is_data s))"
    using drop_bits_of [of "n div 8" "is_data s"] n8 by (metis mult_div_mod_eq add_0_right)
  finally have sub: "bits_of sub = padded_codes src" by (simp add: dn l)
  then obtain s2 where h: "huffman_decode_string (BitIStream sub) [] = Some (True, s2, src)"
    using huffman_decode_string_padded [of src sub] by auto
  have rn: "read_u32 ?s = (Some l, s\<lparr>is_error := NoError, is_offset := n\<rparr>)"
    using read_u32_spec [OF d1 _ l32] assms(2,3) by (simp add: n_def)
  have "8 * l \<le> 8 * length (is_data s) - n" using arg_cong [OF dn, of length] l by simp
  then have len: "l \<le> (bitLength s - n) div 8" by (simp add: bitLength_def)
  have "n + l * 8 = is_offset s + length (string_bits p True src)"
    using False l by (simp add: n_def string_bits_def l_def)
  moreover have "push_bit 7 (1 :: byte) \<noteq> 0" by simp
  ultimately show ?thesis using b rn len h
    by (simp add: read_string_def Let_def bitLength_def sub_def)
qed

subsection \<open>Decoding any input returns\<close>

lemma peekBits_le: "fst (peekBits (is_offset s) n (w :: 'a::len word) s) \<le> bitLength s - is_offset s"
  by (simp add: peekBits_def Let_def split: prod.splits)

lemma walk_any:
  assumes "decodes d ps"
  shows "\<exists>c \<in> set staticHuffmanCodeTable. \<exists>t.
    walk_tables (Suc (length (prefixTables d))) d (unat (w :: 32 word)) 0
      (tableEntry d (tbl d 0) (entry_index (unat w) (tbl d 0))) = Some (TE (ce_bitLength c) t (ce_byteValue c))"
proof -
  obtain c where "c \<in> set staticHuffmanCodeTable" "prefix (code_bits c) (word32 (unat w))"
    using code_complete [OF unat_chunk] by blast
  with walk_finds [OF assms unat_chunk] show ?thesis by blast
qed

lemma decodeStream_total:
  assumes "decodes d ps"
  shows "bitLength s - is_offset s < fuel \<Longrightarrow> decodeStream fuel d s out \<noteq> None"
proof (induction fuel arbitrary: s out)
  case (Suc fuel)
  obtain k w where p: "peekBits (is_offset s) 32 (0 :: 32 word) s = (k, w)" by fastforce
  then have k: "k \<le> bitLength s - is_offset s" using peekBits_le [of s 32 "0 :: 32 word"] by simp
  obtain c t where c: "c \<in> set staticHuffmanCodeTable"
    "walk_tables (Suc (length (prefixTables d))) d (unat w) 0
      (tableEntry d (tbl d 0) (entry_index (unat w) (tbl d 0))) = Some (TE (ce_bitLength c) t (ce_byteValue c))"
    using walk_any [OF assms] by blast
  let ?l = "ce_bitLength c"
  have "decodeStream fuel d (snd (skipBits ?l s)) out' \<noteq> None" if "\<not> k < ?l" for out'
  proof (rule Suc.IH)
    have "snd (skipBits ?l s) = s\<lparr>is_offset := is_offset s + ?l\<rparr>"
      using that k table_entry(3) [OF c(1)] by (auto simp: skipBits_def)
    then show "bitLength (snd (skipBits ?l s)) - is_offset (snd (skipBits ?l s)) < fuel"
      using that k Suc.prems table_entry(3) [OF c(1)] by (simp add: bitLength_def)
  qed
  then show ?case using p c(2) exI [of Not False] by (simp add: Let_def del: walk_tables.simps)
qed simp

lemma huffman_decode_string_total: "\<exists>ok s' bs. huffman_decode_string (BitIStream src) [] = Some (ok, s', bs)"
proof -
  obtain d ps where d: "HuffmanDecoder = Some d" "decodes d ps" using HuffmanDecoder_decodes by blast
  have "huffman_decode_string (BitIStream src) [] \<noteq> None"
    unfolding huffman_decode_string_def d(1) option.case
    by (rule decodeStream_total [OF d(2)]) (simp add: BitIStream_def)
  then show ?thesis by (metis not_None_eq surj_pair)
qed

text \<open>Reading an integer or a string returns for every stream, and never moves back.\<close>

lemma add32_octet: "n mod 8 = 0 \<Longrightarrow> n < 8 * l \<Longrightarrow> 8 * l < 2 ^ 32 \<Longrightarrow> add32 n 8 = n + 8 \<and> n + 8 \<le> 8 * l"
  by (auto simp: add32_def dvd_def)

lemma read_octets_offset:
  "read_octets fuel data n val p = Some (Inr (v, n')) \<Longrightarrow> n mod 8 = 0 \<Longrightarrow> 8 * length data < 2 ^ 32 \<Longrightarrow>
   n < n' \<and> n' \<le> 8 * length data"
proof (induction fuel arbitrary: n val p)
  case (Suc fuel)
  have "n < 8 * length data" using Suc.prems(1) by (auto split: if_splits)
  then have n: "add32 n 8 = n + 8" "n + 8 \<le> 8 * length data" using add32_octet [of n "length data"] Suc.prems(2,3) by auto
  have "(n + 8) mod 8 = 0" using Suc.prems(2) by simp
  with Suc.IH [of "n + 8"] Suc.prems(1,3) n show ?case
    by (auto simp: Let_def split: if_splits intro: less_trans [of n "n + 8"])
qed simp

lemma nat_octet: "(n :: nat) + (8 - n mod 8) = 8 * (n div 8 + 1)"
  by presburger

lemma read_u32_offset:
  assumes "read_u32 s = (Some v, s')" "8 * length (is_data s) < 2 ^ 32"
  shows "is_offset s < is_offset s'" "is_offset s' \<le> bitLength s"
proof -
  define P where "P = 8 - is_offset s mod 8"
  define n where "n = is_offset s + P"
  have s: "is_offset s < 8 * length (is_data s)" using assms(1) by (auto simp: read_u32_def bitLength_def split: if_splits)
  have n: "n mod 8 = 0" "is_offset s < n" "n \<le> 8 * length (is_data s)" "n mod 2 ^ 32 = n"
  proof -
    have "n = 8 * (is_offset s div 8 + 1)" unfolding n_def P_def by (metis nat_octet)
    moreover have "is_offset s div 8 < length (is_data s)"
      using less_mult_imp_div_less [of "is_offset s" "length (is_data s)" 8] s by (simp add: mult.commute)
    ultimately show "n mod 8 = 0" "is_offset s < n" "n \<le> 8 * length (is_data s)" "n mod 2 ^ 32 = n"
      using assms(2) by auto
  qed
  define X where "X = unat (is_data s ! (is_offset s div 8) AND of_nat (2 ^ P - 1))"
  have r: "read_u32 s = (if X < 2 ^ P - 1 then (Some X, s\<lparr>is_error := NoError, is_offset := n\<rparr>)
      else case read_octets 5 (is_data s) n X 0 of
             Some (Inr (val, m)) \<Rightarrow> (Some (val mod 2 ^ 32), s\<lparr>is_error := NoError, is_offset := m\<rparr>)
           | Some (Inl e) \<Rightarrow> (None, s\<lparr>is_error := NoError, is_error := e\<rparr>)
           | None \<Rightarrow> (None, s\<lparr>is_error := NoError\<rparr>))"
    using s n(4) by (simp add: read_u32_def bitLength_def Let_def P_def X_def n_def)
  have "is_offset s < is_offset s' \<and> is_offset s' \<le> 8 * length (is_data s)"
  proof (cases "X < 2 ^ P - 1")
    case True
    then show ?thesis using r assms(1) n(2,3) by auto
  next
    case False
    with r assms(1) obtain m val where m: "read_octets 5 (is_data s) n X 0 = Some (Inr (val, m))" "is_offset s' = m"
      by (auto split: option.splits sum.splits prod.splits)
    from read_octets_offset [OF m(1) n(1) assms(2)] n(2) m(2) show ?thesis by simp
  qed
  then show "is_offset s < is_offset s'" "is_offset s' \<le> bitLength s" by (simp_all add: bitLength_def)
qed

lemma read_u32_moves: "is_data (snd (read_u32 s)) = is_data s"
  by (simp add: read_u32_def Let_def split: option.splits sum.splits prod.splits)

lemma read_string_total: "\<exists>r s'. read_string s = Some (r, s') \<and> is_data s' = is_data s"
proof -
  obtain n c where "peekBits (is_offset s) 1 (0 :: byte) s = (n, c)" by fastforce
  moreover obtain r u where u: "read_u32 ((snd (skipBits 1 s))\<lparr>is_error := NoError\<rparr>) = (r, u)" by fastforce
  moreover have "is_data u = is_data s"
    using arg_cong [OF u, of "\<lambda>x. is_data (snd x)"] read_u32_moves
    by (simp add: skipBits_def split: if_splits)
  ultimately show ?thesis using huffman_decode_string_total
    by (cases r) (auto simp: read_string_def Let_def split: option.splits bool.splits, (metis option.distinct(1))?)
qed

lemma read_string_offset:
  assumes "read_string s = Some (Some v, s')" "8 * length (is_data s) < 2 ^ 32"
  shows "is_offset s < is_offset s'" "is_offset s' \<le> bitLength s"
proof -
  let ?s = "(snd (skipBits 1 s))\<lparr>is_error := NoError\<rparr>"
  have d: "is_data ?s = is_data s" and o: "fst (skipBits 1 s) \<Longrightarrow> is_offset ?s = is_offset s + 1"
    by (simp_all add: skipBits_def split: if_splits)
  obtain len u where u: "read_u32 ?s = (Some len, u)" "fst (skipBits 1 s)" "len \<le> (bitLength u - is_offset u) div 8"
      "is_offset s' = is_offset u + len * 8"
    using assms(1) by (auto simp: read_string_def Let_def split: if_splits prod.splits option.splits bool.splits)
  have "is_data u = is_data s" using read_u32_moves [of ?s] u(1) d by simp
  then have "bitLength u = bitLength s" "bitLength ?s = bitLength s" using d by (simp_all add: bitLength_def)
  with read_u32_offset [OF u(1)] d assms(2) o [OF u(2)] u(3,4)
  show "is_offset s < is_offset s'" "is_offset s' \<le> bitLength s" by auto
qed


subsection \<open>Properties of the string coding\<close>

text \<open>C23. The Huffman code is a complete prefix code: every 32-bit word starts with exactly one code.\<close>

theorem huffman_code_complete_prefix:
  assumes "h < 2 ^ 32"
  shows "\<exists>!c. c \<in> set staticHuffmanCodeTable \<and> prefix (code_bits c) (word32 h)"
proof -
  obtain c where c: "c \<in> set staticHuffmanCodeTable" "prefix (code_bits c) (word32 h)"
    using code_complete [OF assms] by blast
  have "d = c" if "d \<in> set staticHuffmanCodeTable" "prefix (code_bits d) (word32 h)" for d
    using prefix_same_cases [OF that(2) c(2)] prefix_free [OF that(1) c(1)] prefix_free [OF c(1) that(1)] by blast
  with c show ?thesis by blast
qed

theorem huffman_code_complete_prefix_witness:
  "\<exists>!c. c \<in> set staticHuffmanCodeTable \<and> prefix (code_bits c) (word32 0xDEADBEEF)"
  by (rule huffman_code_complete_prefix) simp

lemma string_read_back:
  assumes "os_wf s" "writable compressed src"
  shows "\<exists>s'. write_string src compressed s = Some s' \<and> os_wf s' \<and>
    (8 * length (os_buffer s') < 2 ^ 32 \<longrightarrow>
      read_string ((BitIStream (os_buffer s'))\<lparr>is_offset := os_bitsSet s\<rparr>)
        = Some (Some src, (BitIStream (os_buffer s'))\<lparr>is_offset := os_bitsSet s'\<rparr>))"
proof -
  define p where "p = 8 - (os_bitsSet s + 1) mod 8"
  obtain s' where s': "write_string src compressed s = Some s'" "os_wf s'" "os_bitsSet s' mod 8 = 0"
    "os_bits s' = os_bits s @ string_bits p compressed src"
    using write_string_spec [OF assms p_def] by (elim exE conjE)
  have b: "bits_of (os_buffer s') = os_bits s @ string_bits p compressed src" using os_wf_cases(1) [OF s'(2,3)] s'(4) by simp
  have l: "length (os_bits s) = os_bitsSet s" "os_bitsSet s' = os_bitsSet s + length (string_bits p compressed src)"
    using length_os_bits [OF assms(1)] length_os_bits [OF s'(2)] s'(4) by simp_all
  let ?i = "(BitIStream (os_buffer s'))\<lparr>is_offset := os_bitsSet s\<rparr>"
  have d: "drop (is_offset ?i) (bits_of (is_data ?i)) = string_bits p compressed src @ []" using b l(1) by (simp add: BitIStream_def)
  have e: "p = 8 - (is_offset ?i + 1) mod 8" by (simp add: p_def)
  have f: "?i\<lparr>is_error := NoError, is_offset := is_offset ?i + k\<rparr> = (BitIStream (os_buffer s'))\<lparr>is_offset := os_bitsSet s + k\<rparr>" for k
    by (simp add: BitIStream_def)
  let ?t = "?i\<lparr>is_error := NoError, is_offset := is_offset ?i + length (string_bits p compressed src)\<rparr>"
  have "\<exists>t. read_string ?i = Some (Some src, t) \<and> t = ?t" if m: "8 * length (os_buffer s') < 2 ^ 32"
  proof -
    have g: "8 * length (is_data ?i) < 2 ^ 32" using m by (simp add: BitIStream_def)
    show ?thesis
    proof (cases compressed)
      case True
      then have c: "compressed = True" by simp
      show ?thesis using read_string_compressed [OF d [unfolded c] e g assms(2) [unfolded c]] unfolding c .
    next
      case False
      then have c: "compressed = False" by simp
      have w: "length src < 2 ^ 32" using assms(2) by (simp add: writable_def)
      show ?thesis using read_string_uncompressed [OF d [unfolded c] e g w] unfolding c .
    qed
  qed
  then have "8 * length (os_buffer s') < 2 ^ 32 \<longrightarrow> read_string ?i = Some (Some src, ?t)" by blast
  then show ?thesis unfolding f l(2) [symmetric] using s'(1,2) by blast
qed

text \<open>Compressing a string that is not ASCII has no defined result: the length of its code is read
  from the table at a negative index. All other strings are compressed.\<close>

theorem compressing_non_ascii_undefined:
  assumes "src \<noteq> []" "length src < 2 ^ 32"
  shows "write_string src True s = None \<longleftrightarrow> \<not> ascii src"
  using assms by (simp add: write_string_def huffman_encoded_bit_length_spec Let_def)

theorem compressing_non_ascii_undefined_witness:
  "write_string [0xc3, 0xa9] True (BitOStream []) = None \<and> write_string [0x65] True (BitOStream []) \<noteq> None"
  using compressing_non_ascii_undefined [of "[0xc3, 0xa9]" "BitOStream []"]
    compressing_non_ascii_undefined [of "[0x65]" "BitOStream []"] by (simp add: ascii_def)

text \<open>C22. A string shorter than \<open>2 ^ 32\<close> octets that is written plain, and an ASCII string written
  compressed (its code too being shorter than that), at any bit position of a stream of fewer than \<open>2 ^ 32\<close> bits, is read back unchanged, and exactly its bits are
  consumed. Compressing a string that is not ASCII has no defined result.\<close>

theorem string_roundtrip:
  assumes "os_wf s" "length src < 2 ^ 32"
  shows "(writable compressed src \<longrightarrow> (\<exists>s'. write_string src compressed s = Some s' \<and> os_wf s' \<and>
      (8 * length (os_buffer s') < 2 ^ 32 \<longrightarrow>
        read_string ((BitIStream (os_buffer s'))\<lparr>is_offset := os_bitsSet s\<rparr>)
          = Some (Some src, (BitIStream (os_buffer s'))\<lparr>is_offset := os_bitsSet s'\<rparr>))))
    \<and> (compressed \<and> \<not> ascii src \<longrightarrow> write_string src compressed s = None)"
proof (intro conjI impI)
  assume "writable compressed src"
  from string_read_back [OF assms(1) this] show "\<exists>s'. write_string src compressed s = Some s' \<and> os_wf s' \<and>
      (8 * length (os_buffer s') < 2 ^ 32 \<longrightarrow>
        read_string ((BitIStream (os_buffer s'))\<lparr>is_offset := os_bitsSet s\<rparr>)
          = Some (Some src, (BitIStream (os_buffer s'))\<lparr>is_offset := os_bitsSet s'\<rparr>))" .
next
  assume "compressed \<and> \<not> ascii src"
  moreover from this have "src \<noteq> []" by (auto simp: ascii_def)
  ultimately show "write_string src compressed s = None"
    using compressing_non_ascii_undefined [OF _ assms(2), of s] by simp
qed

theorem string_roundtrip_witness:
  "\<exists>s'. write_string [0x77, 0x77, 0x77] True (BitOStream []) = Some s' \<and> os_wf s'"
proof -
  have "length (codes_bits [0x77, 0x77, 0x77]) \<le> 90"
    using char_code_length(2) [of "0x77"] by simp
  then have "length (padded_codes [0x77, 0x77, 0x77]) div 8 < 2 ^ 32"
    unfolding length_padded_codes by simp
  then have "writable True [0x77, 0x77, 0x77]" by (simp add: writable_def ascii_def)
  then show ?thesis using string_roundtrip [of "BitOStream []" "[0x77, 0x77, 0x77]" True] by auto
qed

text \<open>Reading a string returns for every stream: the decoding loops end on any octets a peer
  sends.\<close>

theorem read_string_returns:
  "\<exists>r s'. read_string s = Some (r, s') \<and> is_data s' = is_data s"
  by (rule read_string_total)

end
