(* ===== verification/HpackProperties.thy ===== *)
theory HpackProperties
  imports HpackCodec HuffmanDecode
begin

text \<open>
  The contract of the header compression as a whole, for both string codings: what an encoder
  accepts, that its peer's decoder reads back the same fields and keeps the same table, and
  what the decoder does on arbitrary input. Sizes are bounded so that no 32-bit length wraps.
\<close>

subsection \<open>Both string codings\<close>

interpretation coding: string_coding c "writable c" for c
proof
  fix src s p ys
  assume w: "writable c src"
  then show "writable c src" .
  assume r: "reads s (string_bits p c src @ ys)" "p = 8 - (is_offset s + 1) mod 8"
  show "read_string s = Some (Some src, adv (length (string_bits p c src)) s)"
  proof (cases c)
    case True
    then show ?thesis using read_string_compressed [of s p src ys] r w
      by (simp add: reads_def adv_def)
  next
    case False
    then show ?thesis using read_string_uncompressed [of s p src ys] r w
      by (simp add: reads_def adv_def writable_def)
  qed
qed

subsection \<open>Sizes\<close>

lemma codes_bits_length: "length (codes_bits bs) \<le> 30 * length bs"
proof (induction bs)
  case (Cons b bs)
  with char_code_length(2) [of b] show ?case by simp
qed simp

lemma string_bits_length: "writable c src \<Longrightarrow> length (string_bits 7 c src) \<le> 55 + 30 * length src"
proof -
  assume s: "writable c src"
  have "length (padded_codes src) \<le> 30 * length src + 7"
    using codes_bits_length [of src] unfolding length_padded_codes by linarith
  then show ?thesis
    using s int_bits_length [of "length (padded_codes src) div 8" 7] int_bits_length [of "length src" 7]
    by (auto simp: writable_def string_bits_def)
qed

lemma repr_bits_length: "repr_ok (writable c) t r f \<Longrightarrow> length (repr_bits c r) \<le> 32 * fsize f"
proof (cases r)
  case (RIndexed i)
  then show "repr_ok (writable c) t r f \<Longrightarrow> ?thesis" using int_bits_length [of i 7] by (simp add: fsize_def)
next
  case (RIndexedName i v)
  then show "repr_ok (writable c) t r f \<Longrightarrow> ?thesis"
    using int_bits_length [of i 6] string_bits_length [of c v] by (auto simp: fsize_def)
next
  case (RNewName n v)
  then show "repr_ok (writable c) t r f \<Longrightarrow> ?thesis"
    using int_bits_length [of 0 6] string_bits_length [of c n] string_bits_length [of c v] by (auto simp: fsize_def)
qed

definition header_bytes :: "header_field list \<Rightarrow> nat" where
  "header_bytes h = sum_list (map fsize h)"

lemma seq_bits_size: "seq_ok (writable c) t rs fs \<Longrightarrow> length (seq_bits c rs) \<le> 32 * header_bytes fs"
proof (induction "writable c" t rs fs rule: seq_ok.induct)
  case (2 t r rs f fs)
  with repr_bits_length [of c t r f] show ?case by (simp add: header_bytes_def)
qed (simp_all add: header_bytes_def)

lemma header_bytes_pseudo_first: "header_bytes (pseudo_first P h) = header_bytes h"
  by (induction h) (simp_all add: header_bytes_def pseudo_first_def)

text \<open>Header lists the connection can send: not huge, and in ASCII if strings are compressed.\<close>

definition encodable :: "bool \<Rightarrow> header_field list \<Rightarrow> bool" where
  "encodable c h \<longleftrightarrow> header_bytes h < 2 ^ 27 \<and> (c \<longrightarrow> list_all (\<lambda>f. ascii (hf_name f) \<and> ascii (hf_value f)) h)"

lemma encodable_fields: "encodable c h \<Longrightarrow> list_all (coding.field_ok c) h"
proof -
  have "f \<in> set h \<Longrightarrow> fsize f \<le> header_bytes h" for f
    by (simp add: header_bytes_def member_le_sum_list)
  moreover have "writable c src" if "length src < 2 ^ 27" "c \<longrightarrow> ascii src" for src
  proof -
    have "length (padded_codes src) div 8 < 2 ^ 32"
      using codes_bits_length [of src] that(1) by (simp add: length_padded_codes)
    then show ?thesis using that by (simp add: writable_def)
  qed
  ultimately show "encodable c h \<Longrightarrow> ?thesis"
    by (fastforce simp: encodable_def list_all_iff coding.field_ok_def fsize_def)
qed

text \<open>An encoder that starts a block on an octet boundary, and its peer's decoder.\<close>

definition ready :: "bit_ostream \<Rightarrow> hpack_encoder \<Rightarrow> bool" where
  "ready s e \<longleftrightarrow> os_wf s \<and> os_bitsSet s mod 8 = 0 \<and> tbl_inv (enc_table e) \<and> useIndex (enc_table e)"

lemma ready_can_encode: "ready s e \<longleftrightarrow> coding.can_encode (compressStrings e) s e"
  by (auto simp: ready_def coding.can_encode_def)

text \<open>\<open>understood s s' e' fs d\<close>: the octets written between \<open>s\<close> and \<open>s'\<close> make a decoder with the
  same dynamic table produce the fields \<open>fs\<close> and reach the encoder's new table.\<close>

definition understood :: "bit_ostream \<Rightarrow> bit_ostream \<Rightarrow> hpack_encoder \<Rightarrow> header_field list \<Rightarrow> hpack_decoder \<Rightarrow> bool" where
  "understood s s' e' fs d \<longleftrightarrow>
     (case decodeHeaderFields (BitIStream (drop (length (os_buffer s)) (os_buffer s'))) d of
        Some (True, _, d') \<Rightarrow> dec_header d' = fs \<and> synced (enc_table e') (dec_table d')
      | _ \<Rightarrow> False)"

lemma block_understood:
  assumes "coding.encodes_all c res s e fs" "coding.can_encode c s e" "synced (enc_table e) (dec_table d)"
    "header_bytes fs < 2 ^ 27"
  shows "\<exists>s' e'. res = Some (True, s', e') \<and> ready s' e' \<and> understood s s' e' fs d"
proof -
  obtain s' e' where r: "res = Some (True, s', e')" "coding.can_encode c s' e'"
    and all: "coding.encodes_all c (Some (True, s', e')) s e fs"
    using assms(1) unfolding coding.encodes_all_def by auto
  obtain rs where rs: "os_bits s' = os_bits s @ seq_bits c rs" "seq_ok (writable c) (enc_table e) rs fs"
    using all unfolding coding.encodes_all_def by auto
  have b: "length (os_bits s) = 8 * length (os_buffer s)" "length (os_bits s') = 8 * length (os_buffer s')"
    using assms(2) r(2) os_wf_cases(1) length_bits_of unfolding coding.can_encode_def by metis+
  then have "8 * length (drop (length (os_buffer s)) (os_buffer s')) = length (seq_bits c rs)"
    using arg_cong [OF rs(1), of length] by simp
  also have "\<dots> < 2 ^ 32" using seq_bits_size [OF rs(2)] assms(4) by simp
  finally obtain is' d' where "decodeHeaderFields (BitIStream (drop (length (os_buffer s)) (os_buffer s'))) d = Some (True, is', d')"
     "dec_header d' = fs \<and> synced (enc_table e') (dec_table d')"
    using coding.block_roundtrip [OF all assms(2,3) refl] by blast
  then show ?thesis using r by (auto simp: understood_def ready_def coding.can_encode_def)
qed

lemma response_rejects:
  assumes "coding.can_encode c s e" "list_all (coding.field_ok c) h" "\<not> valid_response h"
  shows "\<exists>s' e'. encodeResponse h s e = Some (False, s', e')"
proof -
  have "\<exists>s' e'. response_pseudo_loop h m s e = Some (False, s', e')"
    if "coding.can_encode c s e" "list_all (coding.field_ok c) h"
      "list_ex (\<lambda>f. is_request_pseudo_header (hf_name f)) h \<or> count_name '':status'' h + of_bool m \<noteq> 1" for h m s e
    using that
  proof (induction h arbitrary: m s e)
    case Nil then show ?case by (cases m) auto
  next
    case (Cons f h)
    obtain s1 e1 where r: "encodeHeaderField f s e = Some (True, s1, e1)" "coding.can_encode c s1 e1"
      using coding.encodeHeaderField_encodes [of c s e f] coding.encodes_result Cons.prems by fastforce
    show ?case
    proof (cases "is_request_pseudo_header (hf_name f)")
      case False
      show ?thesis
      proof (cases "hf_name f = chars '':status''")
        case True
        show ?thesis
        proof (cases m)
          case m: False
          then show ?thesis using Cons.IH [OF r(2), of True] Cons.prems r(1) True False
            by (auto simp: is_request_pseudo_header_def)
        qed (use True False in simp)
      next
        case n: False
        then show ?thesis using Cons.IH [OF Cons.prems(1), of m] Cons.prems False by auto
      qed
    qed simp
  qed
  from this [OF assms(1,2), of False] assms(3) show ?thesis
    by (auto simp: encodeResponse_def encodeResponsePseudoHeaders_def valid_response_def)
qed

lemma synced_init: "n < 2 ^ 32 \<Longrightarrow> synced (FieldLookupTable n True) (FieldLookupTable n False)"
  using table_init [of n] by (simp add: synced_def) (simp add: FieldLookupTable_def)

subsection \<open>The decoder on any input\<close>






lemma processDecodedField_refuses:
  assumes "tbl_inv (dec_table d)" "maxTableSize (dec_table d) < tableCapacity (dec_table d)"
  shows "\<not> fst (processDecodedField ft n v d)"
  using assms(2) prependField_spec(2) [OF assms(1), of n v]
  by (auto simp: processDecodedField_def Let_def split: prod.splits)













subsection \<open>Properties of the codec\<close>

text \<open>C1. A request is encoded exactly if its pseudo headers are valid (one method, scheme and path,
  at most one authority, no status); the block then makes the peer's decoder produce the same
  fields, pseudo headers first, and leaves both dynamic tables with the same entries.\<close>

theorem request_roundtrip:
  assumes "ready s e" "synced (enc_table e) (dec_table d)" "encodable (compressStrings e) h"
  shows "\<exists>s' e'. encodeRequest h s e = Some (valid_request h, s', e')
    \<and> (valid_request h \<longrightarrow> ready s' e' \<and> understood s s' e' (pseudo_first is_request_pseudo_header h) d)"
proof (cases "valid_request h")
  case True
  let ?c = "compressStrings e"
  have ce: "coding.can_encode ?c s e" using assms(1) by (simp add: ready_can_encode)
  have "header_bytes (pseudo_first is_request_pseudo_header h) < 2 ^ 27"
    using assms(3) by (simp add: encodable_def header_bytes_pseudo_first)
  from block_understood [OF coding.encodeRequest_accepts [OF ce encodable_fields [OF assms(3)] True] ce assms(2) this]
  show ?thesis using True by auto
next
  case False
  have ce: "coding.can_encode (compressStrings e) s e" using assms(1) by (simp add: ready_can_encode)
  from coding.encodeRequest_rejects [OF ce encodable_fields [OF assms(3)] False] False show ?thesis by auto
qed

definition sample_request :: "header_field list" where
  "sample_request = [HeaderField (chars '':method'') (chars ''GET''), HeaderField (chars ''x'') (chars ''y''),
     HeaderField (chars '':scheme'') (chars ''https''), HeaderField (chars '':path'') (chars ''/'')]"

lemma sample_request:
  "valid_request sample_request" "encodable True sample_request" "\<not> valid_response sample_request"
  by (simp_all add: sample_request_def valid_request_def valid_response_def encodable_def header_bytes_def fsize_def
    is_request_pseudo_header_def ascii_def chars_def)

lemma fresh_ends:
  "ready (BitOStream []) (Encoder 4096 c)" "synced (enc_table (Encoder 4096 c)) (dec_table (Decoder 4096))"
  "compressStrings (Encoder 4096 c) = c"
  using table_init [of 4096 True] synced_init [of 4096]
  by (simp_all add: ready_def Encoder_def Decoder_def)
    (simp_all add: BitOStream_def FieldLookupTable_def)

theorem request_roundtrip_witness:
  "\<exists>s' e'. encodeRequest sample_request (BitOStream []) (Encoder 4096 True) = Some (True, s', e')
    \<and> understood (BitOStream []) s' e' (pseudo_first is_request_pseudo_header sample_request) (Decoder 4096)"
  using request_roundtrip [OF fresh_ends(1,2) [of True], of sample_request] sample_request fresh_ends(3) by auto

text \<open>C2. The same for responses: accepted exactly with one status and no request pseudo header.\<close>

theorem response_roundtrip:
  assumes "ready s e" "synced (enc_table e) (dec_table d)" "encodable (compressStrings e) h"
  shows "\<exists>s' e'. encodeResponse h s e = Some (valid_response h, s', e')
    \<and> (valid_response h \<longrightarrow> ready s' e' \<and> understood s s' e' (pseudo_first (\<lambda>n. n = chars '':status'') h) d)"
proof (cases "valid_response h")
  case True
  let ?c = "compressStrings e"
  have ce: "coding.can_encode ?c s e" using assms(1) by (simp add: ready_can_encode)
  have "header_bytes (pseudo_first (\<lambda>n. n = chars '':status'') h) < 2 ^ 27"
    using assms(3) by (simp add: encodable_def header_bytes_pseudo_first)
  from block_understood [OF coding.encodeResponse_accepts [OF ce encodable_fields [OF assms(3)] True] ce assms(2) this]
  show ?thesis using True by auto
next
  case False
  have ce: "coding.can_encode (compressStrings e) s e" using assms(1) by (simp add: ready_can_encode)
  from response_rejects [OF ce encodable_fields [OF assms(3)] False] False show ?thesis by auto
qed

theorem response_roundtrip_witness:
  "(\<exists>s' e'. encodeResponse sample_request (BitOStream []) (Encoder 4096 True) = Some (False, s', e'))
   \<and> (\<exists>s' e'. encodeResponse [HeaderField (chars '':status'') (chars ''200'')] (BitOStream []) (Encoder 4096 True) = Some (True, s', e')
    \<and> understood (BitOStream []) s' e' [HeaderField (chars '':status'') (chars ''200'')] (Decoder 4096))"
proof -
  have "valid_response [HeaderField (chars '':status'') (chars ''200'')]"
    "encodable True [HeaderField (chars '':status'') (chars ''200'')]"
    by (simp_all add: valid_response_def encodable_def header_bytes_def fsize_def is_request_pseudo_header_def ascii_def chars_def)
  then show ?thesis
    using response_roundtrip [OF fresh_ends(1,2) [of True], of sample_request]
      response_roundtrip [OF fresh_ends(1,2) [of True], of "[HeaderField (chars '':status'') (chars ''200'')]"]
      sample_request fresh_ends(3)
    by (auto simp: pseudo_first_def)
qed

text \<open>C32. A request that is refused may still have changed the encoder's table: without \<open>:path\<close>
  a new \<open>:method\<close> value has been added, although the block is never sent, and the peer's
  decoder no longer has the same table.\<close>

theorem refused_request_desyncs:
  assumes "ready s e" "synced (enc_table e) (dec_table d)"
    and "f = HeaderField (chars '':method'') v" "f \<notin> set (staticPart @ dyn (enc_table e))"
    and "fsize f \<le> tableCapacity (enc_table e)" "encodable (compressStrings e) [f]"
  shows "\<exists>s' e'. encodeRequest [f] s e = Some (False, s', e') \<and> \<not> synced (enc_table e') (dec_table d)"
proof -
  let ?c = "compressStrings e"
  have ce: "coding.can_encode ?c s e" using assms(1) by (simp add: ready_can_encode)
  have fo: "coding.field_ok ?c f" using encodable_fields [OF assms(6)] by simp
  have n: "hf_name f = chars '':method''" by (simp add: assms(3))
  obtain r where r: "coding.encodes ?c (encodeMethod f s e) s e r f"
    using coding.encodeMethod_encodes [OF ce fo n] by blast
  then obtain s' where s': "encodeMethod f s e = Some (True, s', e\<lparr>enc_table := repr_table r f (enc_table e)\<rparr>)"
    "repr_ok (writable ?c) (enc_table e) r f" by (auto simp: coding.encodes_def)
  have t: "tbl_inv (enc_table e)" using assms(1) by (simp add: ready_def)
  have "field i (enc_table e) \<noteq> Some f" for i
  proof (cases "0 < i \<and> i \<le> 61 + nDynamic (enc_table e)")
    case True
    then have "i - 1 < length (staticPart @ dyn (enc_table e))" by auto
    with assms(4) have "(staticPart @ dyn (enc_table e)) ! (i - 1) \<noteq> f" by (metis nth_mem)
    with t True show ?thesis by (simp add: tbl_inv_def field_spec indexIsValid_def)
  qed (use t in \<open>auto simp: tbl_inv_def field_spec indexIsValid_def\<close>)
  then have "repr_table r f (enc_table e) = snd (prependField (hf_name f) (hf_value f) (enc_table e))"
    using s'(2) by (cases r) auto
  moreover have "f \<in> set (dyn (snd (prependField (hf_name f) (hf_value f) (enc_table e))))"
    using prependField_spec(1,3) [OF t, of "hf_name f" "hf_value f"] assms(5) fo
    by (simp add: abs_prepend_def coding.field_ok_def)
  ultimately have "\<not> synced (repr_table r f (enc_table e)) (dec_table d)" using assms(2,4) by (auto simp: synced_def)
  then show ?thesis using s'(1) n by (simp add: encodeRequest_def encodeRequestPseudoHeaders_def)
qed

theorem refused_request_desyncs_witness:
  "\<exists>s' e'. encodeRequest [HeaderField (chars '':method'') (chars ''PUT'')] (BitOStream []) (Encoder 4096 True) = Some (False, s', e')
    \<and> \<not> synced (enc_table e') (dec_table (Decoder 4096))"
proof (rule refused_request_desyncs [OF fresh_ends(1,2) refl])
  show "HeaderField (chars '':method'') (chars ''PUT'') \<notin> set (staticPart @ dyn (enc_table (Encoder 4096 True)))"
    using table_init [of 4096 True] by (simp add: Encoder_def staticPart_def static_pairs_def HeaderField_eq)
qed (simp_all add: Encoder_def FieldLookupTable_def encodable_def header_bytes_def fsize_def ascii_def chars_def)



lemma decodeIndexedField_refuses:
  assumes "tbl_inv (dec_table d)" "maxTableSize (dec_table d) < tableCapacity (dec_table d)"
  shows "decodeIndexedField u d = Some (ok, r) \<Longrightarrow> \<not> ok"
  using processDecodedField_refuses [OF assms]
  by (auto simp: decodeIndexedField_def split: option.splits prod.splits if_splits) (metis fst_conv)+

lemma decodeLiteralField_refuses:
  assumes "tbl_inv (dec_table d)" "maxTableSize (dec_table d) < tableCapacity (dec_table d)"
  shows "decodeLiteralField ft u d = Some (ok, r) \<Longrightarrow> \<not> ok"
  using processDecodedField_refuses [OF assms]
  by (auto simp: decodeLiteralField_def Let_def split: option.splits prod.splits if_splits) (metis fst_conv)+

text \<open>C31. After the maximum has been set below the table's capacity, a block is accepted only if it
  starts with a dynamic table size update.\<close>

theorem size_update_required:
  assumes "tbl_inv (dec_table d)" "maxTableSize (dec_table d) < tableCapacity (dec_table d)"
    and "src \<noteq> []" "8 * length src < 2 ^ 32"
    and "decodeHeaderFields (BitIStream src) d = Some (True, s', d')"
  shows "take 3 (bits_of src) = [False, False, True]"
proof (rule ccontr)
  assume n: "take 3 (bits_of src) \<noteq> [False, False, True]"
  let ?s = "BitIStream src" and ?d = "d\<lparr>dec_header := []\<rparr>"
  obtain b1 b2 b3 b4 xs where b: "bits_of src = b1 # b2 # b3 # b4 # xs"
    using assms(3) by (cases src) (auto simp: bits_of_def word_bits_def upt_conv_Cons)
  have rd: "reads ?s (b1 # b2 # b3 # b4 # xs)" using b assms(4) by (simp add: reads_def BitIStream_def)
  have i: "keep_going (decodeIndexedField u ?d) \<notin> {Some (Inl (True, v)), Some (Inr z)}" for u v z
    using decodeIndexedField_refuses [of ?d u] assms(1,2) by (auto simp: keep_going_def)
  have l: "keep_going (decodeLiteralField ft u ?d) \<notin> {Some (Inl (True, v)), Some (Inr z)}" for ft u v z
    using decodeLiteralField_refuses [of ?d ft u] assms(1,2) by (auto simp: keep_going_def)
  consider b1 | "\<not> b1" b2 | "\<not> b1" "\<not> b2" "\<not> b3" b4 | "\<not> b1" "\<not> b2" "\<not> b3" "\<not> b4"
    using n b by auto
  then have "decode_round ?s ?d \<notin> {Some (Inl (True, v)), Some (Inr z)}" for v z
  proof cases
    case 1 then show ?thesis using decode_round_cases(1) [of ?s "b2 # b3 # b4 # xs" ?d] rd i by simp
  next
    case 2 then show ?thesis using decode_round_cases(2) [of ?s "b3 # b4 # xs" ?d] rd l by simp
  next
    case 3 then show ?thesis using decode_round_cases(4) [of ?s xs ?d] rd l by simp
  next
    case 4 then show ?thesis using decode_round_cases(3) [of ?s xs ?d] rd l by simp
  qed
  then show False using assms(5) by (cases "decode_round ?s ?d") (auto simp: decodeHeaderFields_def split: sum.splits)
qed


theorem size_update_required_witness:
  "\<nexists>s' d'. decodeHeaderFields (BitIStream [0x82]) (dec_setMaxDynamicTableSize 0 (Decoder 4096)) = Some (True, s', d')"
proof (intro notI, elim exE)
  let ?d = "dec_setMaxDynamicTableSize 0 (Decoder 4096)"
  fix s' d' assume a: "decodeHeaderFields (BitIStream [0x82]) ?d = Some (True, s', d')"
  have t: "tbl_inv (dec_table ?d)" "maxTableSize (dec_table ?d) < tableCapacity (dec_table ?d)"
    using setMax_spec(2) [of "dec_table (Decoder 4096)" 0] table_init [of 4096 False]
    by (simp_all add: dec_setMaxDynamicTableSize_def Decoder_def) (simp add: setMaxDynamicTableSize_def FieldLookupTable_def)
  show False using size_update_required [OF t _ _ a] by (simp add: bits_of_def word_bits_def upt_conv_Cons)
qed

end
