(* ===== verification/Http2Frames.thy ===== *)
theory Http2Frames
  imports Prelude "HOL-Library.Monad_Syntax"
begin

text \<open>
  HTTP/2 frames, \<open>src/network/access/http2/http2frames.cpp\<close> and the constants of
  \<open>http2protocol_p.h\<close>: a frame is its buffer, the accessors and validators read it, the reader
  takes one frame off a device in as many calls as it needs, the writer builds frames in place
  and writes them in pieces. A read outside the buffer is \<open>None\<close>; a null pointer is \<open>None\<close> too.
\<close>

unbundle bit_operations_syntax

subsection \<open>Constants\<close>

datatype frame_type =
  DATA | HEADERS | PRIORITY | RST_STREAM | SETTINGS | PUSH_PROMISE | PING | GOAWAY | WINDOW_UPDATE
  | CONTINUATION | LAST_FRAME_TYPE

definition frame_types :: "frame_type list" where
  "frame_types = [DATA, HEADERS, PRIORITY, RST_STREAM, SETTINGS, PUSH_PROMISE, PING, GOAWAY,
     WINDOW_UPDATE, CONTINUATION, LAST_FRAME_TYPE]"

definition type_code :: "frame_type \<Rightarrow> byte" where
  "type_code t = of_nat (length (takeWhile (\<lambda>u. u \<noteq> t) frame_types))"

type_synonym frame_flags = byte

definition EMPTY :: frame_flags where "EMPTY = 0"
definition ACK :: frame_flags where "ACK = 1"
definition END_STREAM :: frame_flags where "END_STREAM = 1"
definition END_HEADERS :: frame_flags where "END_HEADERS = 4"
definition PADDED :: frame_flags where "PADDED = 8"
definition PRIORITY_FLAG :: frame_flags where "PRIORITY_FLAG = 0x20"

definition testFlag :: "frame_flags \<Rightarrow> frame_flags \<Rightarrow> bool" where
  "testFlag fs flag \<longleftrightarrow> fs AND flag = flag \<and> (flag \<noteq> 0 \<or> fs = flag)"

definition frameHeaderSize :: nat where "frameHeaderSize = 9"
definition connectionStreamID :: nat where "connectionStreamID = 0"
definition minPayloadLimit :: nat where "minPayloadLimit = 16384"
definition maxPayloadSize :: nat where "maxPayloadSize = 2 ^ 24 - 1"
definition defaultSessionWindowSize :: nat where "defaultSessionWindowSize = 65535"
definition maxConcurrentStreams :: nat where "maxConcurrentStreams = 100"
definition lastValidStreamID :: nat where "lastValidStreamID = 2 ^ 31 - 1"

lemmas h2_constants = frameHeaderSize_def connectionStreamID_def minPayloadLimit_def maxPayloadSize_def
  defaultSessionWindowSize_def maxConcurrentStreams_def lastValidStreamID_def

datatype frame_status = protocolError | sizeError | incompleteFrame | goodFrame

subsection \<open>Frames\<close>

record h2_frame =
  fr_buffer :: bytes

definition Frame :: h2_frame where
  "Frame = \<lparr>fr_buffer = replicate frameHeaderSize 0\<rparr>"

definition fr_type :: "h2_frame \<Rightarrow> frame_type" where
  "fr_type f =
     (let t = unat (fr_buffer f ! 3)
      in if t \<ge> unat (type_code LAST_FRAME_TYPE) then LAST_FRAME_TYPE else frame_types ! t)"

definition fr_streamID :: "h2_frame \<Rightarrow> nat" where
  "fr_streamID f = from_be (take 4 (drop 5 (fr_buffer f))) mod 2 ^ 31"

definition fr_flags :: "h2_frame \<Rightarrow> frame_flags" where
  "fr_flags f = fr_buffer f ! 4"

definition payloadSize :: "h2_frame \<Rightarrow> nat" where
  "payloadSize f = from_be (take 3 (fr_buffer f))"

definition padding :: "h2_frame \<Rightarrow> nat" where
  "padding f =
     (if \<not> testFlag (fr_flags f) PADDED then 0
      else case fr_type f of
             DATA \<Rightarrow> unat (fr_buffer f ! frameHeaderSize)
           | PUSH_PROMISE \<Rightarrow> unat (fr_buffer f ! frameHeaderSize)
           | HEADERS \<Rightarrow> unat (fr_buffer f ! frameHeaderSize)
           | _ \<Rightarrow> 0)"

text \<open>\<open>priority\<close>: whether the frame carries the fields, and where they start.\<close>

definition fr_priority :: "h2_frame \<Rightarrow> bool" where
  "fr_priority f \<longleftrightarrow> frameHeaderSize < length (fr_buffer f) \<and>
     (fr_type f = HEADERS \<and> testFlag (fr_flags f) PRIORITY_FLAG \<or> fr_type f = PRIORITY)"

text \<open>Reading octets of the buffer; \<open>None\<close> is a read outside the buffer, which is undefined.\<close>

definition read_bytes :: "h2_frame \<Rightarrow> nat \<Rightarrow> nat \<Rightarrow> bytes option" where
  "read_bytes f from n =
     (if from + n \<le> length (fr_buffer f) then Some (take n (drop from (fr_buffer f))) else None)"

definition priority_fields :: "h2_frame \<Rightarrow> (nat \<times> nat) option option" where
  "priority_fields f =
     (if \<not> fr_priority f then Some None
      else let src = frameHeaderSize + of_bool (fr_type f = HEADERS \<and> testFlag (fr_flags f) PADDED)
           in do { i \<leftarrow> read_bytes f src 4; w \<leftarrow> read_bytes f (src + 4) 1; Some (Some (from_be i, from_be w)) })"

definition validateHeader :: "h2_frame \<Rightarrow> frame_status" where
  "validateHeader f =
     (let framePayloadSize = payloadSize f
      in if framePayloadSize > maxPayloadSize then sizeError
         else case fr_type f of
                SETTINGS \<Rightarrow>
                  (if (if testFlag (fr_flags f) ACK then framePayloadSize \<noteq> 0 else framePayloadSize mod 6 \<noteq> 0)
                   then sizeError else goodFrame)
              | PRIORITY \<Rightarrow> (if framePayloadSize \<noteq> 5 then sizeError else goodFrame)
              | PING \<Rightarrow> (if framePayloadSize \<noteq> 8 then sizeError else goodFrame)
              | GOAWAY \<Rightarrow> (if framePayloadSize < 8 then sizeError else goodFrame)
              | RST_STREAM \<Rightarrow> (if framePayloadSize \<noteq> 4 then sizeError else goodFrame)
              | WINDOW_UPDATE \<Rightarrow> (if framePayloadSize \<noteq> 4 then sizeError else goodFrame)
              | PUSH_PROMISE \<Rightarrow> (if framePayloadSize < 4 then sizeError else goodFrame)
              | _ \<Rightarrow> goodFrame)"

definition validatePayload :: "h2_frame \<Rightarrow> frame_status" where
  "validatePayload f =
     (if fr_type f = LAST_FRAME_TYPE then goodFrame
      else let size = payloadSize f;
               src0 = unat (fr_buffer f ! frameHeaderSize);
               padded = testFlag (fr_flags f) PADDED
           in case fr_type f of
                DATA \<Rightarrow> (if padded \<and> (size = 0 \<or> size < src0) then sizeError else goodFrame)
              | HEADERS \<Rightarrow>
                  (if padded \<and> (size = 0 \<or> size < src0) then sizeError
                   else let size = (if padded then size - src0 else size)
                        in if testFlag (fr_flags f) PRIORITY_FLAG \<and> size < 5 then sizeError else goodFrame)
              | PUSH_PROMISE \<Rightarrow>
                  (if padded \<and> (size = 0 \<or> size < src0) then sizeError
                   else let size = (if padded then size - src0 else size)
                        in if size < 4 then sizeError else goodFrame)
              | _ \<Rightarrow> goodFrame)"

definition dataSize :: "h2_frame \<Rightarrow> nat" where
  "dataSize f =
     (let size = payloadSize f;
          size = (if testFlag (fr_flags f) PADDED then sub32 size (padding f + 1) else size)
      in if fr_priority f then sub32 size 5 else size)"

definition hpackBlockSize :: "h2_frame \<Rightarrow> nat" where
  "hpackBlockSize f = (if fr_type f = PUSH_PROMISE then sub32 (dataSize f) 4 else dataSize f)"

text \<open>\<open>None\<close> is the null pointer, otherwise the position in the buffer.\<close>

definition dataBegin :: "h2_frame \<Rightarrow> nat option" where
  "dataBegin f =
     (if length (fr_buffer f) \<le> frameHeaderSize then None
      else Some (frameHeaderSize + of_bool (testFlag (fr_flags f) PADDED) + (if fr_priority f then 5 else 0)))"

definition hpackBlockBegin :: "h2_frame \<Rightarrow> nat option" where
  "hpackBlockBegin f = map_option (\<lambda>p. if fr_type f = PUSH_PROMISE then p + 4 else p) (dataBegin f)"


subsection \<open>The device under the connection\<close>

text \<open>A \<open>QIODevice\<close> as the connection uses it: the octets that have arrived, the octets
  handed to it, whether it is open, and the results of the next writes (each the number of octets
  taken, or a negative number for an error; once the list is empty every write succeeds).\<close>

record io_device =
  dev_in :: bytes
  dev_out :: bytes
  dev_results :: "int list"
  dev_open :: bool

definition dev_read :: "nat \<Rightarrow> io_device \<Rightarrow> bytes \<times> io_device" where
  "dev_read n dev = (take n (dev_in dev), dev\<lparr>dev_in := drop n (dev_in dev)\<rparr>)"

definition dev_write :: "bytes \<Rightarrow> io_device \<Rightarrow> int \<times> io_device" where
  "dev_write bs dev =
     (case dev_results dev of
        [] \<Rightarrow> (int (length bs), dev\<lparr>dev_out := dev_out dev @ bs\<rparr>)
      | r # rs \<Rightarrow>
          if r < 0 then (-1, dev\<lparr>dev_results := rs\<rparr>)
          else let n = min (nat r) (length bs)
               in (int n, dev\<lparr>dev_results := rs, dev_out := dev_out dev @ take n bs\<rparr>))"

subsection \<open>FrameReader\<close>

record frame_reader =
  rd_offset :: nat
  rd_frame :: h2_frame

definition FrameReader :: frame_reader where
  "FrameReader = \<lparr>rd_offset = 0, rd_frame = Frame\<rparr>"

definition resize :: "nat \<Rightarrow> bytes \<Rightarrow> bytes" where
  "resize n bs = take n bs @ replicate (n - length bs) 0"

definition overwrite :: "bytes \<Rightarrow> nat \<Rightarrow> bytes \<Rightarrow> bytes" where
  "overwrite bs i chunk = take i bs @ chunk @ drop (i + length chunk) bs"

definition readHeader :: "frame_reader \<Rightarrow> io_device \<Rightarrow> bool \<times> frame_reader \<times> io_device" where
  "readHeader r dev =
     (let buffer = fr_buffer (rd_frame r);
          buffer = (if length buffer < frameHeaderSize then resize frameHeaderSize buffer else buffer);
          (chunk, dev) = dev_read (frameHeaderSize - rd_offset r) dev;
          r = \<lparr>rd_offset = rd_offset r + length chunk, rd_frame = \<lparr>fr_buffer = overwrite buffer (rd_offset r) chunk\<rparr>\<rparr>
      in (rd_offset r = frameHeaderSize, r, dev))"

definition readPayload :: "frame_reader \<Rightarrow> io_device \<Rightarrow> bool \<times> frame_reader \<times> io_device" where
  "readPayload r dev =
     (let buffer = fr_buffer (rd_frame r);
          (chunk, dev) = dev_read (length buffer - rd_offset r) dev;
          r = \<lparr>rd_offset = rd_offset r + length chunk, rd_frame = \<lparr>fr_buffer = overwrite buffer (rd_offset r) chunk\<rparr>\<rparr>
      in (rd_offset r = length (fr_buffer (rd_frame r)), r, dev))"

definition read_payload_part :: "frame_reader \<Rightarrow> io_device \<Rightarrow> frame_status \<times> frame_reader \<times> io_device" where
  "read_payload_part r dev =
     (let (ok, r, dev) = (if rd_offset r < length (fr_buffer (rd_frame r)) then readPayload r dev else (True, r, dev))
      in if \<not> ok then (incompleteFrame, r, dev)
         else (validatePayload (rd_frame r), r\<lparr>rd_offset := 0\<rparr>, dev))"

definition read_frame :: "frame_reader \<Rightarrow> io_device \<Rightarrow> frame_status \<times> frame_reader \<times> io_device" where
  "read_frame r dev =
     (if rd_offset r < frameHeaderSize
      then let (ok, r, dev) = readHeader r dev
           in if \<not> ok then (incompleteFrame, r, dev)
              else let status = validateHeader (rd_frame r)
                   in if status \<noteq> goodFrame then (status, r, dev)
                      else if maxPayloadSize < payloadSize (rd_frame r) then (sizeError, r, dev)
                      else read_payload_part
                             (r\<lparr>rd_frame := \<lparr>fr_buffer = resize (payloadSize (rd_frame r) + frameHeaderSize) (fr_buffer (rd_frame r))\<rparr>\<rparr>) dev
      else read_payload_part r dev)"

subsection \<open>FrameWriter\<close>

definition fw_start :: "frame_type \<Rightarrow> frame_flags \<Rightarrow> nat \<Rightarrow> h2_frame" where
  "fw_start t flags streamID = \<lparr>fr_buffer = [0, 0, 0, type_code t, flags] @ be32 streamID\<rparr>"

definition setPayloadSize :: "nat \<Rightarrow> h2_frame \<Rightarrow> h2_frame" where
  "setPayloadSize n f =
     f\<lparr>fr_buffer := (fr_buffer f)[0 := of_nat (n div 2 ^ 16), 1 := of_nat (n div 2 ^ 8), 2 := of_nat n]\<rparr>"

definition setType :: "frame_type \<Rightarrow> h2_frame \<Rightarrow> h2_frame" where
  "setType t f = f\<lparr>fr_buffer := (fr_buffer f)[3 := type_code t]\<rparr>"

definition setFlags :: "frame_flags \<Rightarrow> h2_frame \<Rightarrow> h2_frame" where
  "setFlags flags f = f\<lparr>fr_buffer := (fr_buffer f)[4 := flags]\<rparr>"

definition addFlag :: "frame_flags \<Rightarrow> h2_frame \<Rightarrow> h2_frame" where
  "addFlag flag f = setFlags (fr_flags f OR flag) f"

definition updatePayloadSize :: "h2_frame \<Rightarrow> h2_frame" where
  "updatePayloadSize f = setPayloadSize ((length (fr_buffer f) - frameHeaderSize) mod 2 ^ 32) f"

definition setOutboundFrame :: "h2_frame \<Rightarrow> h2_frame" where
  "setOutboundFrame newFrame = updatePayloadSize newFrame"

definition fw_append :: "bytes \<Rightarrow> h2_frame \<Rightarrow> h2_frame" where
  "fw_append bs f = updatePayloadSize (f\<lparr>fr_buffer := fr_buffer f @ bs\<rparr>)"

definition fw_append8 :: "byte \<Rightarrow> h2_frame \<Rightarrow> h2_frame" where "fw_append8 b f = fw_append [b] f"
definition fw_append16 :: "nat \<Rightarrow> h2_frame \<Rightarrow> h2_frame" where "fw_append16 n f = fw_append (be16 n) f"
definition fw_append32 :: "nat \<Rightarrow> h2_frame \<Rightarrow> h2_frame" where "fw_append32 n f = fw_append (be32 n) f"

definition write_frame :: "h2_frame \<Rightarrow> io_device \<Rightarrow> bool \<times> io_device" where
  "write_frame f dev =
     (let (nWritten, dev) = dev_write (fr_buffer f) dev
      in (nWritten \<noteq> -1 \<and> nWritten = int (length (fr_buffer f)), dev))"

text \<open>The loop over the CONTINUATION frames; with a limit of 0 it need not end, \<open>None\<close>.\<close>

partial_function (option) continuation_loop :: "nat \<Rightarrow> bytes \<Rightarrow> nat \<Rightarrow> h2_frame \<Rightarrow> io_device \<Rightarrow> (bool \<times> io_device) option" where
  "continuation_loop sizeLimit buffer offset writer dev =
     (if offset = length buffer then Some (True, dev)
      else let chunkSize = min sizeLimit ((length buffer - offset) mod 2 ^ 32);
               writer = (if add32 chunkSize offset = length buffer then addFlag END_HEADERS writer else writer);
               writer = setPayloadSize chunkSize writer;
               (ok, dev) = write_frame writer dev
           in if \<not> ok then Some (False, dev)
              else let (written, dev) = dev_write (take chunkSize (drop offset buffer)) dev
                   in if written \<noteq> int chunkSize then Some (False, dev)
                      else continuation_loop sizeLimit buffer (add32 offset chunkSize) writer dev)"

definition writeHEADERS :: "nat \<Rightarrow> h2_frame \<Rightarrow> io_device \<Rightarrow> (bool \<times> h2_frame \<times> io_device) option" where
  "writeHEADERS sizeLimit f dev =
     (let sizeLimit = min sizeLimit maxPayloadSize
      in if (length (fr_buffer f) - frameHeaderSize) mod 2 ^ 32 \<le> sizeLimit
         then let f = updatePayloadSize (addFlag END_HEADERS f);
                  (ok, dev) = write_frame f dev
              in Some (ok, f, dev)
         else let f = setPayloadSize sizeLimit (setFlags (fr_flags f AND NOT END_HEADERS) f);
                  firstChunkSize = frameHeaderSize + sizeLimit;
                  (written, dev) = dev_write (take firstChunkSize (fr_buffer f)) dev
              in if written \<noteq> int firstChunkSize then Some (False, f, dev)
                 else map_option (\<lambda>(ok, dev). (ok, f, dev))
                        (continuation_loop sizeLimit (fr_buffer f) firstChunkSize
                           (fw_start CONTINUATION EMPTY (fr_streamID f)) dev))"

partial_function (option) data_loop :: "nat \<Rightarrow> bytes \<Rightarrow> nat \<Rightarrow> h2_frame \<Rightarrow> io_device \<Rightarrow> (bool \<times> h2_frame \<times> io_device) option" where
  "data_loop sizeLimit src offset f dev =
     (if offset = length src then Some (True, f, dev)
      else let chunkSize = min (length src - offset) sizeLimit;
               f = setPayloadSize chunkSize f;
               (ok, dev) = write_frame f dev
           in if \<not> ok then Some (False, f, dev)
              else let (written, dev) = (if chunkSize = 0 then (0, dev) else dev_write (take chunkSize (drop offset src)) dev)
                   in if written \<noteq> int chunkSize then Some (False, f, dev)
                      else data_loop sizeLimit src (offset + chunkSize) f dev)"

definition writeDATA :: "nat \<Rightarrow> bytes \<Rightarrow> h2_frame \<Rightarrow> io_device \<Rightarrow> (bool \<times> h2_frame \<times> io_device) option" where
  "writeDATA sizeLimit src f dev = data_loop (min sizeLimit maxPayloadSize) src 0 f dev"


declare continuation_loop.simps [code]
declare data_loop.simps [code]

subsection \<open>The shape of a frame\<close>

lemma header_split:
  assumes "9 \<le> length b"
  obtains a0 a1 a2 t fl i0 i1 i2 i3 rest where "b = a0 # a1 # a2 # t # fl # i0 # i1 # i2 # i3 # rest"
  using assms by (auto simp: numeral_eq_Suc Suc_le_length_iff)

lemma from_be_24: "n < 2 ^ 24 \<Longrightarrow> from_be [of_nat (n div 2 ^ 16), of_nat (n div 2 ^ 8), of_nat n] = n"
proof -
  assume n: "n < 2 ^ 24"
  have "n = 65536 * (n div 65536) + n mod 65536" by simp
  moreover have "n mod 65536 = 256 * (n div 256 mod 256) + n mod 256"
    using mod_mult2_eq [of n 256 256] by simp
  moreover have "n div 65536 < 256" using n by (simp add: div_less_iff_less_mult)
  ultimately show ?thesis by (simp add: unat_of_nat_byte)
qed

text \<open>\<open>framed f\<close>: the payload size in the header is that of the buffer.\<close>

definition framed :: "h2_frame \<Rightarrow> bool" where
  "framed f \<longleftrightarrow> frameHeaderSize \<le> length (fr_buffer f)
     \<and> length (fr_buffer f) - frameHeaderSize \<le> maxPayloadSize
     \<and> payloadSize f = length (fr_buffer f) - frameHeaderSize"

definition fr_payload :: "h2_frame \<Rightarrow> bytes" where
  "fr_payload f = drop frameHeaderSize (fr_buffer f)"

lemma frame_eqI: "fr_buffer f = fr_buffer g \<Longrightarrow> f = (g :: h2_frame)"
  by simp

lemma framedD:
  assumes "framed f"
  shows "9 \<le> length (fr_buffer f)" "length (fr_buffer f) = 9 + payloadSize f" "payloadSize f < 2 ^ 24"
    "length (fr_payload f) = payloadSize f" "payloadSize f \<le> maxPayloadSize"
  using assms by (auto simp: framed_def h2_constants fr_payload_def)

lemma setPayloadSize_buffer:
  assumes "9 \<le> length (fr_buffer f)"
  shows "fr_buffer (setPayloadSize n f)
    = [of_nat (n div 2 ^ 16), of_nat (n div 2 ^ 8), of_nat n] @ drop 3 (fr_buffer f)"
  by (rule header_split [OF assms]) (simp add: setPayloadSize_def)

lemma setPayloadSize_fields:
  assumes "9 \<le> length (fr_buffer f)"
  shows "length (fr_buffer (setPayloadSize n f)) = length (fr_buffer f)"
    "fr_type (setPayloadSize n f) = fr_type f" "fr_flags (setPayloadSize n f) = fr_flags f"
    "fr_streamID (setPayloadSize n f) = fr_streamID f" "fr_payload (setPayloadSize n f) = fr_payload f"
    "n < 2 ^ 24 \<Longrightarrow> payloadSize (setPayloadSize n f) = n"
proof -
  obtain a0 a1 a2 t fl i0 i1 i2 i3 rest where b: "fr_buffer f = a0 # a1 # a2 # t # fl # i0 # i1 # i2 # i3 # rest"
    using header_split [OF assms] .
  note sp = setPayloadSize_buffer [OF assms, of n]
  show "length (fr_buffer (setPayloadSize n f)) = length (fr_buffer f)"
    "fr_type (setPayloadSize n f) = fr_type f" "fr_flags (setPayloadSize n f) = fr_flags f"
    "fr_streamID (setPayloadSize n f) = fr_streamID f" "fr_payload (setPayloadSize n f) = fr_payload f"
    by (simp_all add: fr_type_def fr_flags_def fr_streamID_def fr_payload_def frameHeaderSize_def sp b)
  show "payloadSize (setPayloadSize n f) = n" if "n < 2 ^ 24"
    using from_be_24 [OF that] by (simp add: payloadSize_def sp)
qed

lemma setFlags_fields:
  assumes "9 \<le> length (fr_buffer f)"
  shows "length (fr_buffer (setFlags fs f)) = length (fr_buffer f)"
    "fr_type (setFlags fs f) = fr_type f" "fr_flags (setFlags fs f) = fs"
    "fr_streamID (setFlags fs f) = fr_streamID f" "fr_payload (setFlags fs f) = fr_payload f"
    "payloadSize (setFlags fs f) = payloadSize f"
proof -
  obtain a0 a1 a2 t fl i0 i1 i2 i3 rest where b: "fr_buffer f = a0 # a1 # a2 # t # fl # i0 # i1 # i2 # i3 # rest"
    using header_split [OF assms] .
  show "length (fr_buffer (setFlags fs f)) = length (fr_buffer f)"
    "fr_type (setFlags fs f) = fr_type f" "fr_flags (setFlags fs f) = fs"
    "fr_streamID (setFlags fs f) = fr_streamID f" "fr_payload (setFlags fs f) = fr_payload f"
    "payloadSize (setFlags fs f) = payloadSize f"
    by (simp_all add: setFlags_def fr_type_def fr_flags_def fr_streamID_def fr_payload_def frameHeaderSize_def
      payloadSize_def b)
qed

lemma framed_setFlags: "framed f \<Longrightarrow> framed (setFlags fs f)"
  using setFlags_fields [of f fs] by (simp add: framed_def frameHeaderSize_def)

lemma framed_update:
  assumes "9 \<le> length (fr_buffer f)" "length (fr_buffer f) \<le> 9 + maxPayloadSize"
  shows "framed (updatePayloadSize f)"
proof -
  define n where "n = length (fr_buffer f) - 9"
  have n: "n < 2 ^ 24" "n \<le> maxPayloadSize" using assms by (simp_all add: n_def maxPayloadSize_def)
  then have m: "n mod 2 ^ 32 = n" by simp
  note sp = setPayloadSize_fields [OF assms(1), of n]
  show ?thesis
    unfolding updatePayloadSize_def frameHeaderSize_def n_def [symmetric] m framed_def sp(1) sp(6) [OF n(1)]
    using assms(1) n(2) by (simp add: n_def)
qed

lemma from_be_inject: "length bs = length cs \<Longrightarrow> from_be bs = from_be cs \<longleftrightarrow> bs = cs"
proof (induction bs cs rule: list_induct2)
  case (Cons x xs y ys)
  let ?p = "256 ^ length xs :: nat"
  have l: "from_be xs < ?p" "from_be ys < ?p" using from_be_less [of xs] from_be_less [of ys] Cons.hyps by simp_all
  have "unat x = unat y \<and> from_be xs = from_be ys" if "from_be (x # xs) = from_be (y # ys)"
  proof -
    have e: "unat x * ?p + from_be xs = unat y * ?p + from_be ys" using that Cons.hyps by simp
    have "(unat x * ?p + from_be xs) div ?p = unat x" "(unat y * ?p + from_be ys) div ?p = unat y" using l by simp_all
    with e have "unat x = unat y" by simp
    with e show ?thesis by simp
  qed
  then show ?case using Cons by (auto simp: word_unat_eq_iff)
qed simp

lemma update_framed: "framed f \<Longrightarrow> updatePayloadSize f = f"
proof -
  assume fr: "framed f"
  obtain a0 a1 a2 t fl i0 i1 i2 i3 rest where b: "fr_buffer f = a0 # a1 # a2 # t # fl # i0 # i1 # i2 # i3 # rest"
    using header_split [OF framedD(1) [OF fr]] .
  note sp = setPayloadSize_buffer [OF framedD(1) [OF fr], of "payloadSize f"]
  have "length (fr_buffer f) - 9 = payloadSize f" "payloadSize f < 2 ^ 32" using framedD(2,3) [OF fr] by simp_all
  then have l: "(length (fr_buffer f) - 9) mod 2 ^ 32 = payloadSize f" by simp
  have "from_be [a0, a1, a2] = payloadSize f" by (simp add: payloadSize_def b)
  also have "\<dots> = from_be [of_nat (payloadSize f div 2 ^ 16), of_nat (payloadSize f div 2 ^ 8), of_nat (payloadSize f)]"
    using from_be_24 [OF framedD(3) [OF fr]] by simp
  finally have h: "[of_nat (payloadSize f div 2 ^ 16), of_nat (payloadSize f div 2 ^ 8), of_nat (payloadSize f)] = [a0, a1, a2]"
    using from_be_inject by (metis length_Cons)
  show ?thesis
    by (rule frame_eqI) (simp only: updatePayloadSize_def frameHeaderSize_def l sp h, simp add: b)
qed


lemma append_fields:
  assumes "9 \<le> length (fr_buffer f)" "length (fr_buffer f) + length bs \<le> 9 + maxPayloadSize"
  shows "framed (fw_append bs f)" "fr_payload (fw_append bs f) = fr_payload f @ bs"
    "fr_type (fw_append bs f) = fr_type f" "fr_flags (fw_append bs f) = fr_flags f"
    "fr_streamID (fw_append bs f) = fr_streamID f"
proof -
  obtain a0 a1 a2 t fl i0 i1 i2 i3 rest where b: "fr_buffer f = a0 # a1 # a2 # t # fl # i0 # i1 # i2 # i3 # rest"
    using header_split [OF assms(1)] .
  let ?g = "f\<lparr>fr_buffer := fr_buffer f @ bs\<rparr>"
  have g: "9 \<le> length (fr_buffer ?g)" "length (fr_buffer ?g) \<le> 9 + maxPayloadSize" using assms by simp_all
  show "framed (fw_append bs f)" using framed_update [OF g] by (simp add: fw_append_def)
  note sp = setPayloadSize_fields [OF g(1)]
  show "fr_payload (fw_append bs f) = fr_payload f @ bs" "fr_type (fw_append bs f) = fr_type f"
    "fr_flags (fw_append bs f) = fr_flags f" "fr_streamID (fw_append bs f) = fr_streamID f"
    by (simp_all add: fw_append_def updatePayloadSize_def sp)
      (simp_all add: fr_payload_def frameHeaderSize_def fr_type_def fr_flags_def fr_streamID_def b)
qed

lemma start_fields:
  "framed (fw_start t fl i)" "fr_payload (fw_start t fl i) = []" "fr_type (fw_start t fl i) = t"
  "fr_flags (fw_start t fl i) = fl" "i < 2 ^ 31 \<Longrightarrow> fr_streamID (fw_start t fl i) = i"
  "length (fr_buffer (fw_start t fl i)) = 9" "payloadSize (fw_start t fl i) = 0"
proof -
  have l: "length (be32 i) = 4" by simp
  show "framed (fw_start t fl i)" "fr_payload (fw_start t fl i) = []"  "fr_flags (fw_start t fl i) = fl"
    "length (fr_buffer (fw_start t fl i)) = 9" "payloadSize (fw_start t fl i) = 0"
    using l by (simp_all add: framed_def fw_start_def h2_constants payloadSize_def fr_payload_def fr_flags_def)
  show "fr_type (fw_start t fl i) = t"
    by (cases t) (simp_all add: fw_start_def fr_type_def type_code_def frame_types_def)
  show "fr_streamID (fw_start t fl i) = i" if "i < 2 ^ 31"
    using that from_be_be32 [of i] by (simp add: fw_start_def fr_streamID_def)
qed

subsection \<open>Reading what was written\<close>

lemma header_only:
  assumes "take 9 (fr_buffer f) = take 9 (fr_buffer g)"
  shows "payloadSize f = payloadSize g" "9 \<le> length (fr_buffer f) \<Longrightarrow> validateHeader f = validateHeader g"
proof -
  show p: "payloadSize f = payloadSize g"
    using arg_cong [OF assms, of "take 3"] by (simp add: payloadSize_def)
  assume l: "9 \<le> length (fr_buffer f)"
  have n: "fr_buffer f ! i = fr_buffer g ! i" if "i < 9" for i
    using arg_cong [OF assms, of "\<lambda>xs. xs ! i"] that by simp
  then have e: "fr_type f = fr_type g" "fr_flags f = fr_flags g" by (simp_all add: fr_type_def fr_flags_def)
  show "validateHeader f = validateHeader g" by (simp only: validateHeader_def p e)
qed

lemma read_frame_written:
  assumes "framed f" "validateHeader f = goodFrame" "rd_offset r = 0" "dev_in dev = fr_buffer f @ rest"
  shows "read_frame r dev = (validatePayload f, \<lparr>rd_offset = 0, rd_frame = f\<rparr>, dev\<lparr>dev_in := rest\<rparr>)"
proof -
  have l: "9 \<le> length (fr_buffer f)" "length (fr_buffer f) = 9 + payloadSize f" "payloadSize f \<le> maxPayloadSize"
    using framedD [OF assms(1)] by blast+
  define h where "h = take 9 (fr_buffer f)"
  have h: "length h = 9" using l by (simp add: h_def)
  define old where "old = (if length (fr_buffer (rd_frame r)) < 9 then resize 9 (fr_buffer (rd_frame r)) else fr_buffer (rd_frame r))"
  have old: "9 \<le> length old" by (simp add: old_def resize_def)
  have old_split: "length (fr_buffer (rd_frame r)) < 9 \<Longrightarrow> resize 9 (fr_buffer (rd_frame r)) = old"
    "\<not> length (fr_buffer (rd_frame r)) < 9 \<Longrightarrow> fr_buffer (rd_frame r) = old" by (simp_all add: old_def)
  let ?f1 = "\<lparr>fr_buffer = h @ drop 9 old\<rparr>"
  have in1: "take 9 (dev_in dev) = h" "drop 9 (dev_in dev) = fr_payload f @ rest"
    using l(1) by (simp_all add: assms(4) h_def fr_payload_def frameHeaderSize_def)
  have rh: "readHeader r dev = (True, \<lparr>rd_offset = 9, rd_frame = ?f1\<rparr>, dev\<lparr>dev_in := fr_payload f @ rest\<rparr>)"
    using in1 h by (simp add: readHeader_def frameHeaderSize_def dev_read_def assms(3) overwrite_def Let_def old_split)
  have t: "take 9 (fr_buffer ?f1) = take 9 (fr_buffer f)" using h by (simp add: h_def)
  have v: "payloadSize ?f1 = payloadSize f" "validateHeader ?f1 = goodFrame"
    using header_only [OF t] h assms(2) by simp_all
  define b2 where "b2 = resize (payloadSize f + 9) (h @ drop 9 old)"
  have b2: "length b2 = payloadSize f + 9" "take 9 b2 = h" using h by (simp_all add: b2_def resize_def)
  have "read_frame r dev = read_payload_part \<lparr>rd_offset = 9, rd_frame = \<lparr>fr_buffer = b2\<rparr>\<rparr> (dev\<lparr>dev_in := fr_payload f @ rest\<rparr>)"
    using rh v l(3) assms(3) by (simp add: read_frame_def frameHeaderSize_def b2_def)
  also have "\<dots> = (validatePayload f, \<lparr>rd_offset = 0, rd_frame = f\<rparr>, dev\<lparr>dev_in := rest\<rparr>)"
  proof (cases "payloadSize f = 0")
    case True
    have "fr_buffer f = h" using l(2) True by (simp add: h_def)
    moreover have "b2 = h" using b2 True by simp
    ultimately have "\<lparr>fr_buffer = b2\<rparr> = f" by (intro frame_eqI) simp
    moreover have "fr_payload f = []" using framedD(4) [OF assms(1)] True by simp
    moreover have "length (fr_buffer f) = 9" using l(2) True by (metis add_0_right)
    ultimately show ?thesis by (simp add: read_payload_part_def)
  next
    case False
    have p: "length (fr_payload f) = payloadSize f" using framedD(4) [OF assms(1)] .
    have "overwrite b2 9 (fr_payload f) = h @ fr_payload f" using b2 p by (simp add: overwrite_def)
    also have "\<dots> = fr_buffer f" by (simp add: h_def fr_payload_def frameHeaderSize_def)
    finally have o: "overwrite b2 9 (fr_payload f) = fr_buffer f" .
    have "readPayload \<lparr>rd_offset = 9, rd_frame = \<lparr>fr_buffer = b2\<rparr>\<rparr> (dev\<lparr>dev_in := fr_payload f @ rest\<rparr>)
       = (True, \<lparr>rd_offset = 9 + payloadSize f, rd_frame = f\<rparr>, dev\<lparr>dev_in := rest\<rparr>)"
      using b2(1) p o l(2) by (simp add: readPayload_def dev_read_def)
    then show ?thesis using False b2(1) by (simp add: read_payload_part_def)
  qed
  finally show ?thesis .
qed


subsection \<open>The data of a frame\<close>

definition data_of :: "h2_frame \<Rightarrow> bytes option" where
  "data_of f =
     (case dataBegin f of
        None \<Rightarrow> if dataSize f = 0 then Some [] else None
      | Some p \<Rightarrow> read_bytes f p (dataSize f))"

definition hpack_block_of :: "h2_frame \<Rightarrow> bytes option" where
  "hpack_block_of f =
     (case hpackBlockBegin f of
        None \<Rightarrow> if hpackBlockSize f = 0 then Some [] else None
      | Some p \<Rightarrow> read_bytes f p (hpackBlockSize f))"

definition overhead :: "h2_frame \<Rightarrow> nat" where
  "overhead f = of_bool (testFlag (fr_flags f) PADDED) + (if fr_priority f then 5 else 0)"

definition pad_ok :: "h2_frame \<Rightarrow> bool" where
  "pad_ok f \<longleftrightarrow> (testFlag (fr_flags f) PADDED \<longrightarrow> fr_type f \<in> {DATA, HEADERS, PUSH_PROMISE}) \<and> overhead f + padding f \<le> payloadSize f"

lemma padding_less: "padding f < 256"
  using unsigned_less [of "fr_buffer f ! frameHeaderSize"]
  by (auto simp: padding_def split: frame_type.split)

lemma dataSize_exact:
  assumes "framed f" "pad_ok f"
  shows "dataSize f = payloadSize f - overhead f - padding f"
proof -
  have p: "overhead f + padding f \<le> payloadSize f" "payloadSize f < 2 ^ 24"
    using assms framedD(3) by (simp_all add: pad_ok_def)
  show ?thesis using p by (auto simp: dataSize_def overhead_def u32_simps padding_def)
qed

lemma data_of_layout:
  assumes "framed f" "pad_ok f"
  shows "data_of f = Some (take (payloadSize f - overhead f - padding f) (drop (overhead f) (fr_payload f)))"
proof (cases "payloadSize f = 0")
  case True
  then have "fr_payload f = []" "length (fr_buffer f) = 9"
    using framedD(4) [OF assms(1)] framedD(2) [OF assms(1)] by (simp, metis add_0_right)
  then show ?thesis using dataSize_exact [OF assms] True by (simp add: data_of_def dataBegin_def frameHeaderSize_def)
next
  case False
  have l: "length (fr_buffer f) = 9 + payloadSize f" using framedD(2) [OF assms(1)] .
  have "overhead f + padding f \<le> payloadSize f" using assms(2) by (simp add: pad_ok_def)
  then have "9 + overhead f + (payloadSize f - overhead f - padding f) \<le> 9 + payloadSize f" by linarith
  moreover have "dataBegin f = Some (9 + overhead f)"
    using False l by (simp add: dataBegin_def frameHeaderSize_def overhead_def)
  ultimately show ?thesis unfolding data_of_def
    using dataSize_exact [OF assms] l by (simp add: read_bytes_def fr_payload_def frameHeaderSize_def add.commute)
qed

lemma hpack_block_of_layout:
  assumes "framed f" "pad_ok f" "fr_type f = PUSH_PROMISE \<Longrightarrow> 4 + overhead f + padding f \<le> payloadSize f"
  shows "hpack_block_of f = Some (let d = take (payloadSize f - overhead f - padding f) (drop (overhead f) (fr_payload f))
     in if fr_type f = PUSH_PROMISE then drop 4 d else d)"
proof (cases "fr_type f = PUSH_PROMISE")
  case True
  have l: "length (fr_buffer f) = 9 + payloadSize f" using framedD(2) [OF assms(1)] .
  have p: "4 + overhead f + padding f \<le> payloadSize f" "payloadSize f < 2 ^ 24"
    using assms True framedD(3) by simp_all
  then have s: "hpackBlockSize f = payloadSize f - overhead f - padding f - 4"
    using dataSize_exact [OF assms(1,2)] True by (simp add: hpackBlockSize_def u32_simps)
  have b: "hpackBlockBegin f = Some (13 + overhead f)"
    using p l True by (simp add: hpackBlockBegin_def dataBegin_def frameHeaderSize_def overhead_def)
  have "13 + overhead f + (payloadSize f - overhead f - padding f - 4) \<le> 9 + payloadSize f" using p by linarith
  then show ?thesis using b s l True
    by (simp add: hpack_block_of_def read_bytes_def fr_payload_def frameHeaderSize_def drop_take add.commute Let_def)
next
  case False
  then have "hpack_block_of f = data_of f"
    by (cases "dataBegin f") (simp_all add: hpack_block_of_def data_of_def hpackBlockBegin_def hpackBlockSize_def)
  with data_of_layout [OF assms(1,2)] False show ?thesis by simp
qed

subsection \<open>Properties of frames\<close>

text \<open>C38. A frame the writer built is read back unchanged by a reader at the start of a frame,
  whatever its buffer held before, and exactly its octets are consumed.\<close>

theorem frame_roundtrip:
  assumes "9 + length bs \<le> 9 + maxPayloadSize" "i < 2 ^ 31"
    and "f = fw_append bs (fw_start t fl i)" "validateHeader f = goodFrame"
    and "rd_offset r = 0" "dev_in dev = fr_buffer f @ rest"
  shows "read_frame r dev = (validatePayload f, \<lparr>rd_offset = 0, rd_frame = f\<rparr>, dev\<lparr>dev_in := rest\<rparr>)
    \<and> fr_type f = t \<and> fr_flags f = fl \<and> fr_streamID f = i \<and> fr_payload f = bs"
proof -
  have "9 \<le> length (fr_buffer (fw_start t fl i))" "length (fr_buffer (fw_start t fl i)) + length bs \<le> 9 + maxPayloadSize"
    using assms(1) start_fields(6) [of t fl i] by simp_all
  note a = append_fields [OF this]
  show ?thesis
    using read_frame_written [OF _ assms(4-6)] a start_fields(2-4) [of t fl i] start_fields(5) [OF assms(2), of t fl]
    by (simp add: assms(3))
qed

definition empty_device :: io_device where
  "empty_device = \<lparr>dev_in = [], dev_out = [], dev_results = [], dev_open = True\<rparr>"

theorem frame_roundtrip_witness:
  "fst (read_frame FrameReader (empty_device\<lparr>dev_in := fr_buffer (fw_append32 5 (fw_start WINDOW_UPDATE EMPTY 3)) @ [1, 2]\<rparr>)) = goodFrame"
proof -
  let ?f = "fw_append (be32 5) (fw_start WINDOW_UPDATE EMPTY 3)"
  have v: "validateHeader ?f = goodFrame" "validatePayload ?f = goodFrame"
    by (simp_all add: validateHeader_def validatePayload_def fw_append_def fw_start_def updatePayloadSize_def setPayloadSize_def
      be32_def payloadSize_def fr_type_def type_code_def frame_types_def h2_constants)
  show ?thesis
    using frame_roundtrip [OF _ _ refl v(1), of FrameReader "empty_device\<lparr>dev_in := fr_buffer ?f @ [1, 2]\<rparr>" "[1, 2]"] v(2)
    by (simp add: fw_append32_def FrameReader_def maxPayloadSize_def)
qed

text \<open>C40. The parts of a payload: if the frame's padding and priority fields fit, the data the
  handlers read lies between them, inside the buffer.\<close>

theorem payload_layout:
  assumes "framed f" "pad_ok f"
  shows "\<exists>front d pad. fr_payload f = front @ d @ pad \<and> data_of f = Some d \<and> length pad = padding f
    \<and> length front = of_bool (testFlag (fr_flags f) PADDED) + (if fr_priority f then 5 else 0)"
proof (intro exI conjI)
  let ?n = "payloadSize f - overhead f - padding f"
  have l: "length (fr_payload f) = payloadSize f" "overhead f + padding f \<le> payloadSize f"
    using framedD(4) [OF assms(1)] assms(2) by (simp_all add: pad_ok_def)
  show "fr_payload f = take (overhead f) (fr_payload f) @ take ?n (drop (overhead f) (fr_payload f)) @ drop ?n (drop (overhead f) (fr_payload f))"
    by (simp only: append_take_drop_id)
  show "data_of f = Some (take ?n (drop (overhead f) (fr_payload f)))" by (rule data_of_layout [OF assms])
  show "length (drop ?n (drop (overhead f) (fr_payload f))) = padding f"
    "length (take (overhead f) (fr_payload f)) = of_bool (testFlag (fr_flags f) PADDED) + (if fr_priority f then 5 else 0)"
    using l by (simp_all add: overhead_def)
qed

theorem payload_layout_witness:
  "\<exists>front d pad. fr_payload (fw_append [2, 7, 0, 0] (fw_start DATA PADDED 1)) = front @ d @ pad
    \<and> data_of (fw_append [2, 7, 0, 0] (fw_start DATA PADDED 1)) = Some d \<and> length pad = 2"
proof -
  let ?f = "fw_append [2, 7, 0, 0] (fw_start DATA PADDED 1)"
  have f: "framed ?f" using append_fields(1) [of "fw_start DATA PADDED 1" "[2, 7, 0, 0]"] start_fields(6) [of DATA PADDED 1]
    by (simp add: maxPayloadSize_def)
  have p: "padding ?f = 2" "pad_ok ?f"
    by (simp_all add: pad_ok_def overhead_def padding_def testFlag_def fr_flags_def PADDED_def fw_append_def fw_start_def updatePayloadSize_def
      setPayloadSize_def be32_def payloadSize_def fr_type_def type_code_def frame_types_def fr_priority_def h2_constants)
  show ?thesis using payload_layout [OF f p(2)] p(1) by auto
qed

text \<open>A padded DATA frame whose padding is as long as its payload passes both validators, yet
  its data size wraps around and its data lies outside the buffer.\<close>

theorem padding_fills_payload_accepted:
  assumes "framed f" "fr_type f = DATA" "testFlag (fr_flags f) PADDED" "payloadSize f = padding f" "0 < padding f"
  shows "validateHeader f = goodFrame \<and> validatePayload f = goodFrame \<and> dataSize f = 2 ^ 32 - 1 \<and> data_of f = None"
proof -
  have l: "length (fr_buffer f) = 9 + padding f" using framedD(2) [OF assms(1)] assms(4) by simp
  have p: "padding f = unat (fr_buffer f ! frameHeaderSize)" using assms(2,3) by (simp add: padding_def)
  have n: "\<not> fr_priority f" using assms(2) by (simp add: fr_priority_def)
  have d: "dataSize f = 2 ^ 32 - 1"
    using sub32_wraps [of "padding f" "padding f + 1"] padding_less [of f] n assms(3,4) by (simp add: dataSize_def)
  have "dataBegin f = Some 10" using l n assms(3,5) by (simp add: dataBegin_def frameHeaderSize_def)
  then have "data_of f = None" using d l padding_less [of f] by (simp add: data_of_def read_bytes_def)
  then show ?thesis using d assms p padding_less [of f]
    by (simp add: validateHeader_def validatePayload_def maxPayloadSize_def)
qed

theorem padding_fills_payload_accepted_witness:
  "data_of (fw_append [1] (fw_start DATA PADDED 1)) = None \<and> validatePayload (fw_append [1] (fw_start DATA PADDED 1)) = goodFrame"
proof -
  let ?f = "fw_append [1] (fw_start DATA PADDED 1)"
  have f: "framed ?f" using append_fields(1) [of "fw_start DATA PADDED 1" "[1]"] start_fields(6) [of DATA PADDED 1]
    by (simp add: maxPayloadSize_def)
  have p: "padding ?f = 1" "testFlag (fr_flags ?f) PADDED" "fr_type ?f = DATA" "payloadSize ?f = 1"
    by (simp_all add: padding_def testFlag_def fr_flags_def PADDED_def fw_append_def fw_start_def updatePayloadSize_def
      setPayloadSize_def be32_def payloadSize_def fr_type_def type_code_def frame_types_def h2_constants)
  show ?thesis using padding_fills_payload_accepted [OF f p(3,2)] p by simp
qed

text \<open>The flag bit of PADDED shifts the data of every frame, also of those that have no padding:
  reading a fixed-size payload such as that of RST_STREAM, WINDOW_UPDATE, PING or GOAWAY from
  the start of the data then leaves the buffer.\<close>

theorem padded_flag_shifts_any_frame:
  assumes "framed f" "testFlag (fr_flags f) PADDED" "fr_type f \<in> {RST_STREAM, WINDOW_UPDATE, PING, GOAWAY, SETTINGS, CONTINUATION}"
    and "0 < payloadSize f"
  shows "validatePayload f = goodFrame \<and> dataBegin f = Some 10 \<and> dataSize f = payloadSize f - 1
    \<and> read_bytes f 10 (payloadSize f) = None"
proof -
  have n: "\<not> fr_priority f" "padding f = 0" using assms(3) by (auto simp: fr_priority_def padding_def)
  have l: "length (fr_buffer f) = 9 + payloadSize f" "payloadSize f < 2 ^ 24" using framedD(2,3) [OF assms(1)] .
  have "dataSize f = payloadSize f - 1" using n assms(2,4) l(2) by (simp add: dataSize_def u32_simps)
  moreover have "dataBegin f = Some 10" using n assms(2,4) l(1) by (simp add: dataBegin_def frameHeaderSize_def)
  moreover have "validatePayload f = goodFrame" using assms(3) by (auto simp: validatePayload_def)
  ultimately show ?thesis using l by (simp add: read_bytes_def)
qed

theorem padded_flag_shifts_any_frame_witness:
  "read_bytes (fw_append32 0 (fw_start RST_STREAM PADDED 1)) 10 4 = None"
proof -
  let ?f = "fw_append (be32 0) (fw_start RST_STREAM PADDED 1)"
  have f: "framed ?f" using append_fields(1) [of "fw_start RST_STREAM PADDED 1" "be32 0"] start_fields(6) [of RST_STREAM PADDED 1]
    by (simp add: maxPayloadSize_def)
  have p: "testFlag (fr_flags ?f) PADDED" "fr_type ?f = RST_STREAM" "payloadSize ?f = 4"
    by (simp_all add: padding_def testFlag_def fr_flags_def PADDED_def fw_append_def fw_start_def updatePayloadSize_def
      setPayloadSize_def be32_def payloadSize_def fr_type_def type_code_def frame_types_def h2_constants)
  show ?thesis using padded_flag_shifts_any_frame [OF f p(1)] p by (simp add: fw_append32_def)
qed


subsection \<open>Frames that arrive in pieces\<close>

lemma overwrite_append:
  "i \<le> length buf \<Longrightarrow> overwrite (overwrite buf i a) (i + length a) b = overwrite buf i (a @ b)"
  by (simp add: overwrite_def add.commute add.left_commute)

lemma overwrite_length: "i + length a \<le> length buf \<Longrightarrow> length (overwrite buf i a) = length buf"
  by (simp add: overwrite_def)

definition reader_ok :: "frame_reader \<Rightarrow> bool" where
  "reader_ok r \<longleftrightarrow> (frameHeaderSize \<le> rd_offset r \<longrightarrow> rd_offset r \<le> length (fr_buffer (rd_frame r)))
     \<and> (0 < rd_offset r \<longrightarrow> frameHeaderSize \<le> length (fr_buffer (rd_frame r)))"

lemma validators_decide: "validateHeader f \<noteq> incompleteFrame" "validatePayload f \<noteq> incompleteFrame"
  by (auto simp: validateHeader_def validatePayload_def Let_def split: frame_type.split)

lemma read_payload_part_incomplete:
  assumes "read_payload_part r (dev\<lparr>dev_in := a\<rparr>) = (incompleteFrame, r', dev')"
    and "rd_offset r \<le> length (fr_buffer (rd_frame r))"
  shows "dev' = dev\<lparr>dev_in := []\<rparr>" "rd_offset r' = rd_offset r + length a"
    "rd_offset r' < length (fr_buffer (rd_frame r'))"
    "length (fr_buffer (rd_frame r')) = length (fr_buffer (rd_frame r))"
    "read_payload_part r' (dev\<lparr>dev_in := b\<rparr>) = read_payload_part r (dev\<lparr>dev_in := a @ b\<rparr>)"
proof -
  define buf i where "buf = fr_buffer (rd_frame r)" and "i = rd_offset r"
  have r: "r = \<lparr>rd_offset = i, rd_frame = \<lparr>fr_buffer = buf\<rparr>\<rparr>" by (simp add: buf_def i_def)
  have i: "i \<le> length buf" using assms(2) by (simp add: i_def buf_def)
  have short: "i + length a < length buf"
  proof (rule ccontr)
    assume "\<not> i + length a < length buf"
    then have "i + min (length a) (length buf - i) = length buf" using i by simp
    then have "read_payload_part r (dev\<lparr>dev_in := a\<rparr>)
      = (validatePayload \<lparr>fr_buffer = overwrite buf i (take (length buf - i) a)\<rparr>,
         \<lparr>rd_offset = 0, rd_frame = \<lparr>fr_buffer = overwrite buf i (take (length buf - i) a)\<rparr>\<rparr>,
         dev\<lparr>dev_in := drop (length buf - i) a\<rparr>)"
      using i by (cases "i < length buf") (simp_all add: read_payload_part_def readPayload_def dev_read_def r overwrite_def Let_def)
    with assms(1) validators_decide(2) show False by (metis prod.inject)
  qed
  then have t: "take (length buf - i) a = a" "drop (length buf - i) a = []" by simp_all
  have l: "length (overwrite buf i a) = length buf" using overwrite_length short by simp
  have "read_payload_part r (dev\<lparr>dev_in := a\<rparr>)
    = (incompleteFrame, \<lparr>rd_offset = i + length a, rd_frame = \<lparr>fr_buffer = overwrite buf i a\<rparr>\<rparr>, dev\<lparr>dev_in := []\<rparr>)"
    using short i l by (simp add: read_payload_part_def readPayload_def dev_read_def r t)
  then have r': "r' = \<lparr>rd_offset = i + length a, rd_frame = \<lparr>fr_buffer = overwrite buf i a\<rparr>\<rparr>"
    and d': "dev' = dev\<lparr>dev_in := []\<rparr>" using assms(1) by simp_all
  show "dev' = dev\<lparr>dev_in := []\<rparr>" by fact
  show "rd_offset r' = rd_offset r + length a" "rd_offset r' < length (fr_buffer (rd_frame r'))"
    "length (fr_buffer (rd_frame r')) = length (fr_buffer (rd_frame r))"
    using short l by (simp_all add: r' r)
  have o: "overwrite (overwrite buf i a) (i + length a) c = overwrite buf i (a @ c)" for c
    by (rule overwrite_append [OF i])
  have t2: "take (length buf - i) (a @ b) = a @ take (length buf - (i + length a)) b"
    "drop (length buf - i) (a @ b) = drop (length buf - (i + length a)) b" using short by simp_all
  have m: "length a + min (length b) (length buf - (i + length a)) = min (length a + length b) (length buf - i)"
    using short by simp
  show "read_payload_part r' (dev\<lparr>dev_in := b\<rparr>) = read_payload_part r (dev\<lparr>dev_in := a @ b\<rparr>)"
    using short i
    by (simp add: read_payload_part_def readPayload_def dev_read_def r r' l o t2 m add.assoc Let_def del: take_append drop_append)
qed

text \<open>The state after the header is complete, up to the payload.\<close>

lemma readHeader_append:
  assumes "readHeader r (dev\<lparr>dev_in := a\<rparr>) = (ok, r', dev')" "rd_offset r < frameHeaderSize" "reader_ok r"
  shows "ok \<Longrightarrow> readHeader r (dev\<lparr>dev_in := a @ b\<rparr>) = (True, r', dev'\<lparr>dev_in := dev_in dev' @ b\<rparr>)"
    "dev' = dev\<lparr>dev_in := dev_in dev'\<rparr>"
    "\<not> ok \<Longrightarrow> dev' = dev\<lparr>dev_in := []\<rparr> \<and> rd_offset r' < frameHeaderSize \<and> reader_ok r'
       \<and> readHeader r' (dev\<lparr>dev_in := b\<rparr>) = readHeader r (dev\<lparr>dev_in := a @ b\<rparr>)"
    "ok \<Longrightarrow> rd_offset r' = frameHeaderSize \<and> frameHeaderSize \<le> length (fr_buffer (rd_frame r'))"
proof -
  define i buf where "i = rd_offset r" and "buf = (let bu = fr_buffer (rd_frame r)
    in if length bu < frameHeaderSize then resize frameHeaderSize bu else bu)"
  have i: "i < 9" using assms(2) by (simp add: i_def frameHeaderSize_def)
  have buf: "9 \<le> length buf" by (simp add: buf_def resize_def Let_def frameHeaderSize_def)
  have rh: "readHeader r (dev\<lparr>dev_in := c\<rparr>) = (i + length (take (9 - i) c) = 9,
     \<lparr>rd_offset = i + length (take (9 - i) c), rd_frame = \<lparr>fr_buffer = overwrite buf i (take (9 - i) c)\<rparr>\<rparr>,
     dev\<lparr>dev_in := drop (9 - i) c\<rparr>)" for c
    by (simp add: readHeader_def dev_read_def i_def buf_def frameHeaderSize_def Let_def)
  have ok: "ok \<longleftrightarrow> 9 - i \<le> length a" and r': "r' = \<lparr>rd_offset = i + length (take (9 - i) a), rd_frame = \<lparr>fr_buffer = overwrite buf i (take (9 - i) a)\<rparr>\<rparr>"
    and d': "dev' = dev\<lparr>dev_in := drop (9 - i) a\<rparr>" using assms(1) rh [of a] i by auto
  show "dev' = dev\<lparr>dev_in := dev_in dev'\<rparr>" by (simp add: d')
  have lo: "9 \<le> length (overwrite buf i (take (9 - i) c))" for c using buf i by (simp add: overwrite_def)
  show "readHeader r (dev\<lparr>dev_in := a @ b\<rparr>) = (True, r', dev'\<lparr>dev_in := dev_in dev' @ b\<rparr>)" if ok
    using that i by (simp add: rh ok r' d')
  show "rd_offset r' = frameHeaderSize \<and> frameHeaderSize \<le> length (fr_buffer (rd_frame r'))" if ok
    using that i lo [of a] by (simp add: ok r' frameHeaderSize_def)
  show "dev' = dev\<lparr>dev_in := []\<rparr> \<and> rd_offset r' < frameHeaderSize \<and> reader_ok r'
       \<and> readHeader r' (dev\<lparr>dev_in := b\<rparr>) = readHeader r (dev\<lparr>dev_in := a @ b\<rparr>)" if "\<not> ok"
  proof -
    have s: "i + length a < 9" using that ok by simp
    have "i \<le> length buf" using i buf by simp
    note o = overwrite_append [OF this]
    have l: "9 \<le> length (overwrite buf i a)" using lo [of a] s by simp
    have r2: "r' = \<lparr>rd_offset = i + length a, rd_frame = \<lparr>fr_buffer = overwrite buf i a\<rparr>\<rparr>" using s r' by simp
    have t: "take (9 - i) (a @ b) = a @ take (9 - (i + length a)) b" "drop (9 - i) (a @ b) = drop (9 - (i + length a)) b"
      using s by simp_all
    have "readHeader r' (dev\<lparr>dev_in := b\<rparr>) = (i + length a + length (take (9 - (i + length a)) b) = 9,
       \<lparr>rd_offset = i + length a + length (take (9 - (i + length a)) b),
         rd_frame = \<lparr>fr_buffer = overwrite buf i (a @ take (9 - (i + length a)) b)\<rparr>\<rparr>,
       dev\<lparr>dev_in := drop (9 - (i + length a)) b\<rparr>)"
      using l by (simp add: r2 readHeader_def dev_read_def frameHeaderSize_def o Let_def)
    also have "\<dots> = readHeader r (dev\<lparr>dev_in := a @ b\<rparr>)"
      unfolding rh t by (simp only: length_append add.assoc)
    finally have "readHeader r' (dev\<lparr>dev_in := b\<rparr>) = readHeader r (dev\<lparr>dev_in := a @ b\<rparr>)" .
    then show ?thesis using s l by (simp add: d' r2 reader_ok_def frameHeaderSize_def)
  qed
qed

lemma read_frame_pieces:
  assumes "read_frame r (dev\<lparr>dev_in := a\<rparr>) = (incompleteFrame, r', dev')" "reader_ok r"
  shows "dev' = dev\<lparr>dev_in := []\<rparr> \<and> reader_ok r'
    \<and> read_frame r' (dev'\<lparr>dev_in := b\<rparr>) = read_frame r (dev\<lparr>dev_in := a @ b\<rparr>)"
proof (cases "rd_offset r < frameHeaderSize")
  case False
  then have o: "rd_offset r \<le> length (fr_buffer (rd_frame r))" "9 \<le> rd_offset r"
    using assms(2) by (simp_all add: reader_ok_def frameHeaderSize_def)
  have "read_payload_part r (dev\<lparr>dev_in := a\<rparr>) = (incompleteFrame, r', dev')" using assms(1) False by (simp add: read_frame_def)
  note pp = read_payload_part_incomplete [OF this o(1)]
  show ?thesis using pp(1,3,5) pp(2,4) o by (simp add: read_frame_def reader_ok_def frameHeaderSize_def)
next
  case True
  obtain ok r1 d1 where rh: "readHeader r (dev\<lparr>dev_in := a\<rparr>) = (ok, r1, d1)" by (metis prod_cases3)
  note h = readHeader_append [OF rh True assms(2)]
  show ?thesis
  proof (cases ok)
    case False
    then have "r' = r1" "dev' = d1" using assms(1) rh True by (simp_all add: read_frame_def)
    then show ?thesis using h(3) [OF False, of b] True by (simp add: read_frame_def)
  next
    case ok: True
    define r2 where "r2 = r1\<lparr>rd_frame := \<lparr>fr_buffer = resize (payloadSize (rd_frame r1) + frameHeaderSize) (fr_buffer (rd_frame r1))\<rparr>\<rparr>"
    have o1: "rd_offset r1 = 9" "9 \<le> length (fr_buffer (rd_frame r1))" using h(4) ok by (simp_all add: frameHeaderSize_def)
    have o2: "rd_offset r2 = 9" "9 \<le> length (fr_buffer (rd_frame r2))" using o1 by (simp_all add: r2_def resize_def frameHeaderSize_def)
    define x where "x = dev_in d1"
    have d1: "d1 = dev\<lparr>dev_in := x\<rparr>" using h(2) by (simp add: x_def)
    have good: "validateHeader (rd_frame r1) = goodFrame" "\<not> maxPayloadSize < payloadSize (rd_frame r1)"
      using assms(1) rh True ok validators_decide(1) [of "rd_frame r1"]
      by (auto simp: read_frame_def Let_def split: if_splits)
    have "read_payload_part r2 (dev\<lparr>dev_in := x\<rparr>) = (incompleteFrame, r', dev')"
      using assms(1) rh True ok good by (simp add: read_frame_def d1 r2_def)
    note pp0 = read_payload_part_incomplete [OF this]
    have o2': "rd_offset r2 \<le> length (fr_buffer (rd_frame r2))" using o2 by simp
    note pp = pp0 [OF o2']
    have "read_frame r (dev\<lparr>dev_in := a @ b\<rparr>) = read_payload_part r2 (dev\<lparr>dev_in := x @ b\<rparr>)"
      using h(1) [OF ok, of b] True good by (simp add: read_frame_def d1 r2_def)
    moreover have "read_frame r' (dev\<lparr>dev_in := b\<rparr>) = read_payload_part r' (dev\<lparr>dev_in := b\<rparr>)"
      using pp(2) o2 by (simp add: read_frame_def frameHeaderSize_def)
    ultimately have "read_frame r' (dev\<lparr>dev_in := b\<rparr>) = read_frame r (dev\<lparr>dev_in := a @ b\<rparr>)"
      using pp(5) [of b] by simp
    then show ?thesis using pp(1-4) o2 by (simp add: reader_ok_def frameHeaderSize_def)
  qed
qed


subsection \<open>Fragmentation\<close>

lemma testFlag_END_HEADERS: "testFlag (fl OR END_HEADERS) END_HEADERS" "\<not> testFlag (fl AND NOT END_HEADERS) END_HEADERS"
proof -
  have "(fl OR 4) AND 4 = (4 :: byte)" by (rule bit_word_eqI) (auto simp: bit_or_iff bit_and_iff)
  then show "testFlag (fl OR END_HEADERS) END_HEADERS" by (simp add: testFlag_def END_HEADERS_def)
  have "bit ((fl AND NOT 4) AND 4 :: byte) 2 = False" by (simp add: bit_simps)
  moreover have "bit (4 :: byte) 2" by (simp add: bit_iff_odd)
  ultimately show "\<not> testFlag (fl AND NOT END_HEADERS) END_HEADERS"
    unfolding testFlag_def END_HEADERS_def by metis
qed

text \<open>A frame of a CONTINUATION or DATA writer and a chunk, as the two writes leave it on the wire.\<close>

definition with_chunk :: "h2_frame \<Rightarrow> bytes \<Rightarrow> h2_frame" where
  "with_chunk w chunk = (setPayloadSize (length chunk) w)\<lparr>fr_buffer := fr_buffer (setPayloadSize (length chunk) w) @ chunk\<rparr>"

lemma with_chunk_fields:
  assumes "length (fr_buffer w) = 9" "length chunk \<le> maxPayloadSize"
  shows "framed (with_chunk w chunk)" "fr_payload (with_chunk w chunk) = chunk" "fr_type (with_chunk w chunk) = fr_type w"
    "fr_flags (with_chunk w chunk) = fr_flags w" "fr_streamID (with_chunk w chunk) = fr_streamID w"
    "payloadSize (with_chunk w chunk) = length chunk"
proof -
  have l: "9 \<le> length (fr_buffer w)" "length chunk < 2 ^ 24" using assms by (simp_all add: maxPayloadSize_def)
  note s = setPayloadSize_fields [OF l(1), of "length chunk"]
  obtain a0 a1 a2 t fl i0 i1 i2 i3 rest where b: "fr_buffer (setPayloadSize (length chunk) w) = a0 # a1 # a2 # t # fl # i0 # i1 # i2 # i3 # rest"
    using header_split [of "fr_buffer (setPayloadSize (length chunk) w)"] s(1) l(1) by metis
  have r: "rest = []" using b s(1) assms(1) by simp
  have p: "payloadSize (with_chunk w chunk) = payloadSize (setPayloadSize (length chunk) w)"
    "fr_type (with_chunk w chunk) = fr_type (setPayloadSize (length chunk) w)"
    "fr_flags (with_chunk w chunk) = fr_flags (setPayloadSize (length chunk) w)"
    "fr_streamID (with_chunk w chunk) = fr_streamID (setPayloadSize (length chunk) w)"
    by (simp_all add: with_chunk_def payloadSize_def fr_type_def fr_flags_def fr_streamID_def b)
  show "fr_type (with_chunk w chunk) = fr_type w"
    "fr_flags (with_chunk w chunk) = fr_flags w" "fr_streamID (with_chunk w chunk) = fr_streamID w"
    by (simp_all only: p s)
  show z: "payloadSize (with_chunk w chunk) = length chunk" by (simp only: p s(6) [OF l(2)])
  show "fr_payload (with_chunk w chunk) = chunk" by (simp add: with_chunk_def fr_payload_def frameHeaderSize_def s(1) assms(1))
  have "length (fr_buffer (with_chunk w chunk)) = 9 + length chunk" by (simp add: with_chunk_def s(1) assms(1))
  then show "framed (with_chunk w chunk)" using z assms(2) by (simp add: framed_def frameHeaderSize_def)
qed

lemma dev_write_ok: "dev_results dev = [] \<Longrightarrow> dev_write bs dev = (int (length bs), dev\<lparr>dev_out := dev_out dev @ bs\<rparr>)"
  by (simp add: dev_write_def)

lemma write_frame_ok:
  "dev_results dev = [] \<Longrightarrow> write_frame f dev = (True, dev\<lparr>dev_out := dev_out dev @ fr_buffer f\<rparr>)"
  by (simp add: write_frame_def dev_write_ok)

lemma testFlag_refl: "testFlag END_HEADERS END_HEADERS" "\<not> testFlag EMPTY END_HEADERS"
  by (simp_all add: testFlag_def END_HEADERS_def EMPTY_def)

text \<open>The frames of a header block on the wire: the first of type \<open>t\<close> with the flags \<open>fl\<close>, then
  CONTINUATION, END_HEADERS on the last only, none longer than the limit and all but the last as long.\<close>

definition but_END_HEADERS :: "frame_flags \<Rightarrow> frame_flags" where
  "but_END_HEADERS fl = fl AND NOT END_HEADERS"

lemma but_END_HEADERS [simp]:
  "but_END_HEADERS (fl OR END_HEADERS) = but_END_HEADERS fl" "but_END_HEADERS (fl AND NOT END_HEADERS) = but_END_HEADERS fl"
  "but_END_HEADERS END_HEADERS = but_END_HEADERS EMPTY"
  unfolding but_END_HEADERS_def EMPTY_def by (rule bit_word_eqI; auto simp: bit_simps)+

fun header_frames :: "frame_type \<Rightarrow> frame_flags \<Rightarrow> nat \<Rightarrow> nat \<Rightarrow> h2_frame list \<Rightarrow> bool" where
  "header_frames t fl i limit [] \<longleftrightarrow> False"
| "header_frames t fl i limit (f # fs) \<longleftrightarrow> framed f \<and> payloadSize f \<le> limit \<and> fr_type f = t \<and> fr_streamID f = i
     \<and> but_END_HEADERS (fr_flags f) = but_END_HEADERS fl
     \<and> (testFlag (fr_flags f) END_HEADERS \<longleftrightarrow> fs = [])
     \<and> (fs \<noteq> [] \<longrightarrow> payloadSize f = limit \<and> header_frames CONTINUATION EMPTY i limit fs)"

lemma continuation_loop_frames:
  assumes "dev_results dev = []" "0 < limit" "limit \<le> maxPayloadSize" "length (fr_buffer w) = 9"
    "fr_type w = CONTINUATION" "fr_flags w = EMPTY" "offset < length buffer" "length buffer < 2 ^ 32"
  shows "\<exists>fs. continuation_loop limit buffer offset w dev
      = Some (True, dev\<lparr>dev_out := dev_out dev @ concat (map fr_buffer fs)\<rparr>)
    \<and> header_frames CONTINUATION EMPTY (fr_streamID w) limit fs \<and> concat (map fr_payload fs) = drop offset buffer"
  using assms
proof (induction "length buffer - offset" arbitrary: offset w dev rule: less_induct)
  case less
  define n where "n = min limit (length buffer - offset)"
  define chunk where "chunk = take n (drop offset buffer)"
  have n: "length chunk = n" "0 < n" "n \<le> maxPayloadSize" "n \<le> limit"
    using less.prems by (auto simp: n_def chunk_def min_def)
  have n': "min (length buffer - offset) n = n" by (simp add: n_def)
  have u32: "(length buffer - offset) mod 4294967296 = length buffer - offset" "add32 n offset = n + offset"
    "add32 offset n = offset + n" using less.prems(7,8) by (simp_all add: add32_def n_def)
  define v where "v = (if n + offset = length buffer then addFlag END_HEADERS w else w)"
  have nine: "9 \<le> length (fr_buffer w)" using less.prems(4) by simp
  have v: "length (fr_buffer v) = 9" "fr_type v = CONTINUATION" "fr_streamID v = fr_streamID w"
    "fr_flags v = (if n + offset = length buffer then END_HEADERS else EMPTY)"
    using less.prems setFlags_fields [OF nine] by (simp_all add: v_def addFlag_def EMPTY_def)
  have c: "length chunk \<le> maxPayloadSize" using n by simp
  note wc = with_chunk_fields [OF v(1) c]
  define dev2 where "dev2 = dev\<lparr>dev_out := dev_out dev @ fr_buffer (with_chunk v chunk)\<rparr>"
  have step: "continuation_loop limit buffer offset w dev
    = continuation_loop limit buffer (offset + n) (setPayloadSize n v) dev2"
    using less.prems n(1) by (subst continuation_loop.simps)
      (simp add: u32(1) n_def [symmetric] u32(2,3) v_def [symmetric] chunk_def [symmetric] write_frame_ok dev_write_ok dev2_def with_chunk_def Let_def n')
  have d: "drop offset buffer = chunk @ drop (offset + n) buffer"
    by (simp add: chunk_def add.commute flip: drop_drop)
  show ?case
  proof (cases "n + offset = length buffer")
    case True
    then have "continuation_loop limit buffer (offset + n) (setPayloadSize n v) dev2 = Some (True, dev2)"
      by (subst continuation_loop.simps) (simp add: add.commute)
    moreover have "header_frames CONTINUATION EMPTY (fr_streamID w) limit [with_chunk v chunk]"
      using wc v n True testFlag_refl by simp
    moreover have "drop (offset + n) buffer = []" using True by simp
    ultimately show ?thesis using step wc(2) d by (intro exI [of _ "[with_chunk v chunk]"]) (simp add: dev2_def)
  next
    case False
    then have "offset + n < length buffer" using n_def less.prems(7) by (auto simp: min_def split: if_splits)
    moreover have nv: "9 \<le> length (fr_buffer v)" using v by simp
    moreover have "dev_results dev2 = []" using less.prems(1) by (simp add: dev2_def)
    moreover have "length buffer - (offset + n) < length buffer - offset" using n(2) less.prems(7) by linarith
    ultimately obtain fs where fs: "continuation_loop limit buffer (offset + n) (setPayloadSize n v) dev2
        = Some (True, dev2\<lparr>dev_out := dev_out dev2 @ concat (map fr_buffer fs)\<rparr>)"
      "header_frames CONTINUATION EMPTY (fr_streamID w) limit fs" "concat (map fr_payload fs) = drop (offset + n) buffer"
      using less.hyps [of "offset + n" dev2 "setPayloadSize n v"] less.prems v False setPayloadSize_fields(1-4) [OF nv, of n] by auto
    have "fs \<noteq> []" using fs(2) by auto
    moreover have "n = limit" using False less.prems(7) unfolding n_def by linarith
    ultimately have "header_frames CONTINUATION EMPTY (fr_streamID w) limit (with_chunk v chunk # fs)"
      using wc v n False fs(2) testFlag_refl by simp
    then show ?thesis using step fs wc(2) d
      by (intro exI [of _ "with_chunk v chunk # fs"]) (simp add: dev2_def)
  qed
qed


lemma setPayloadSize_take:
  assumes "9 \<le> length (fr_buffer f)"
  shows "take (9 + k) (fr_buffer (setPayloadSize n f)) =
    fr_buffer (setPayloadSize n \<lparr>fr_buffer = take 9 (fr_buffer f)\<rparr>) @ take k (fr_payload f)"
proof -
  obtain a0 a1 a2 t fl i0 i1 i2 i3 rest where b: "fr_buffer f = a0 # a1 # a2 # t # fl # i0 # i1 # i2 # i3 # rest"
    using header_split [OF assms] .
  have nine: "9 + k = Suc (Suc (Suc (Suc (Suc (Suc (Suc (Suc (Suc k))))))))" by simp
  show ?thesis unfolding nine by (simp add: setPayloadSize_def fr_payload_def frameHeaderSize_def b)
qed

lemma frame_prefix_fields:
  assumes "9 \<le> length (fr_buffer f)"
  shows "fr_type \<lparr>fr_buffer = take 9 (fr_buffer f)\<rparr> = fr_type f" "fr_flags \<lparr>fr_buffer = take 9 (fr_buffer f)\<rparr> = fr_flags f"
    "fr_streamID \<lparr>fr_buffer = take 9 (fr_buffer f)\<rparr> = fr_streamID f"
  using assms by (simp_all add: fr_type_def fr_flags_def fr_streamID_def drop_take)

lemma writeHEADERS_frames:
  assumes "dev_results dev = []" "0 < sizeLimit" "9 \<le> length (fr_buffer f)" "length (fr_buffer f) < 2 ^ 32"
  shows "\<exists>fs f'. writeHEADERS sizeLimit f dev
      = Some (True, f', dev\<lparr>dev_out := dev_out dev @ concat (map fr_buffer fs)\<rparr>)
    \<and> header_frames (fr_type f) (fr_flags f) (fr_streamID f) (min sizeLimit maxPayloadSize) fs
    \<and> concat (map fr_payload fs) = fr_payload f"
proof -
  define limit where "limit = min sizeLimit maxPayloadSize"
  have limit: "0 < limit" "limit \<le> maxPayloadSize" using assms(2) by (simp_all add: limit_def maxPayloadSize_def)
  have m: "(length (fr_buffer f) - 9) mod 4294967296 = length (fr_buffer f) - 9" using assms(4) by simp
  show ?thesis
  proof (cases "length (fr_buffer f) - 9 \<le> limit")
    case True
    note sf = setFlags_fields [OF assms(3), of "fr_flags f OR END_HEADERS"]
    let ?g = "addFlag END_HEADERS f"
    have g: "9 \<le> length (fr_buffer ?g)" using sf assms(3) by (simp add: addFlag_def)
    have fr: "framed (updatePayloadSize ?g)"
      using framed_update [OF g] True limit assms(3) sf by (simp add: addFlag_def)
    note sp = setPayloadSize_fields [OF g, folded updatePayloadSize_def]
    have u: "fr_type (updatePayloadSize ?g) = fr_type f" "fr_flags (updatePayloadSize ?g) = fr_flags f OR END_HEADERS"
      "fr_streamID (updatePayloadSize ?g) = fr_streamID f" "fr_payload (updatePayloadSize ?g) = fr_payload f"
      "length (fr_buffer (updatePayloadSize ?g)) = length (fr_buffer f)"
      unfolding updatePayloadSize_def using setPayloadSize_fields(1-5) [OF g] sf by (simp_all add: addFlag_def)
    have "payloadSize (updatePayloadSize ?g) = length (fr_buffer f) - 9" using fr u(5) by (simp add: framed_def frameHeaderSize_def)
    then have "header_frames (fr_type f) (fr_flags f) (fr_streamID f) limit [updatePayloadSize ?g]"
      using fr u True testFlag_END_HEADERS by simp
    then show ?thesis using True assms(1) u(4)
      by (intro exI [of _ "[updatePayloadSize ?g]"] exI [of _ "updatePayloadSize ?g"])
        (simp add: Let_def writeHEADERS_def frameHeaderSize_def m limit_def [symmetric] write_frame_ok)
  next
    case False
    define g where "g = setFlags (fr_flags f AND NOT END_HEADERS) f"
    note sf = setFlags_fields [OF assms(3), of "fr_flags f AND NOT END_HEADERS", folded g_def]
    have g: "9 \<le> length (fr_buffer g)" using sf(1) assms(3) by simp
    define w where "w = \<lparr>fr_buffer = take 9 (fr_buffer g)\<rparr>"
    define chunk where "chunk = take limit (fr_payload f)"
    have c: "length chunk = limit" using False sf assms(3) by (simp add: chunk_def fr_payload_def frameHeaderSize_def)
    have "length (fr_buffer w) = 9" using g by (simp add: w_def)
    note wc = with_chunk_fields [OF this, of chunk, unfolded c, OF limit(2)]
    note pf = frame_prefix_fields [OF g, folded w_def]
    have first: "take (9 + limit) (fr_buffer (setPayloadSize limit g)) = fr_buffer (with_chunk w chunk)"
      unfolding setPayloadSize_take [OF g] w_def [symmetric] by (simp add: with_chunk_def c) (simp add: chunk_def sf(5))
    note sp = setPayloadSize_fields [OF g, of limit]
    have len: "length (fr_buffer (setPayloadSize limit g)) = length (fr_buffer f)" using sp(1) sf(1) by simp
    have off: "9 + limit < length (fr_buffer (setPayloadSize limit g))" using False len by simp
    have rest: "drop (9 + limit) (fr_buffer (setPayloadSize limit g)) = drop limit (fr_payload f)"
      using sp(5) sf(5) by (simp add: fr_payload_def frameHeaderSize_def add.commute flip: drop_drop)
    let ?dev = "dev\<lparr>dev_out := dev_out dev @ fr_buffer (with_chunk w chunk)\<rparr>"
    have short: "length (fr_buffer (setPayloadSize limit g)) < 2 ^ 32" using assms(4) len by simp
    have "dev_results ?dev = []" using assms(1) by simp
    from continuation_loop_frames [OF this limit _ _ _ off short, of "fw_start CONTINUATION EMPTY (fr_streamID f)"]
    obtain fs where fs: "continuation_loop limit (fr_buffer (setPayloadSize limit g)) (9 + limit)
        (fw_start CONTINUATION EMPTY (fr_streamID f)) ?dev = Some (True, ?dev\<lparr>dev_out := dev_out ?dev @ concat (map fr_buffer fs)\<rparr>)"
      "header_frames CONTINUATION EMPTY (fr_streamID (fw_start CONTINUATION EMPTY (fr_streamID f))) limit fs"
      "concat (map fr_payload fs) = drop limit (fr_payload f)"
      using start_fields(3,4,6) [of CONTINUATION EMPTY "fr_streamID f"] rest by auto
    have "fr_streamID f < 2 ^ 31" by (simp add: fr_streamID_def)
    then have i: "fr_streamID (fw_start CONTINUATION EMPTY (fr_streamID f)) = fr_streamID f" by (rule start_fields(5))
    have "fs \<noteq> []" using fs(2) by auto
    then have h: "header_frames (fr_type f) (fr_flags f) (fr_streamID f) limit (with_chunk w chunk # fs)"
      using wc pf sf fs(2) i testFlag_END_HEADERS by simp
    have t: "fr_streamID (setPayloadSize limit g) = fr_streamID f" using sp(4) sf(4) by simp
    have w1: "dev_write (take (9 + limit) (fr_buffer (setPayloadSize limit g))) dev = (int (9 + limit), ?dev)"
      using dev_write_ok [OF assms(1)] off by (simp add: first [symmetric])
    have "writeHEADERS sizeLimit f dev = Some (True, setPayloadSize limit g, ?dev\<lparr>dev_out := dev_out ?dev @ concat (map fr_buffer fs)\<rparr>)"
      using False w1 fs(1) t by (simp add: writeHEADERS_def frameHeaderSize_def m limit_def [symmetric] g_def [symmetric])
    then show ?thesis using h wc(2) fs(3)
      by (intro exI [of _ "with_chunk w chunk # fs"]) (simp add: limit_def [symmetric] chunk_def)
  qed
qed

text \<open>\<open>writeDATA\<close> cuts the octets of a body into frames of the type, flags and stream of the writer.\<close>

lemma data_loop_frames:
  assumes "dev_results dev = []" "0 < limit" "limit \<le> maxPayloadSize" "length (fr_buffer f) = 9" "offset \<le> length src"
  shows "\<exists>fs f'. data_loop limit src offset f dev
      = Some (True, f', dev\<lparr>dev_out := dev_out dev @ concat (map fr_buffer fs)\<rparr>)
    \<and> (\<forall>g\<in>set fs. framed g \<and> 0 < payloadSize g \<and> payloadSize g \<le> limit
         \<and> fr_type g = fr_type f \<and> fr_flags g = fr_flags f \<and> fr_streamID g = fr_streamID f)
    \<and> concat (map fr_payload fs) = drop offset src"
  using assms
proof (induction "length src - offset" arbitrary: offset f dev rule: less_induct)
  case less
  show ?case
  proof (cases "offset = length src")
    case True
    then show ?thesis by (intro exI [of _ "[]"] exI [of _ f]) (subst data_loop.simps, simp)
  next
    case False
    define n where "n = min (length src - offset) limit"
    define chunk where "chunk = take n (drop offset src)"
    have n: "length chunk = n" "0 < n" "n \<le> maxPayloadSize" "n \<le> limit"
      using less.prems False by (auto simp: n_def chunk_def min_def)
    have n': "min (length src - offset) n = n" by (simp add: n_def)
    have c: "length chunk \<le> maxPayloadSize" using n by simp
    note wc = with_chunk_fields [OF less.prems(4) c]
    define dev2 where "dev2 = dev\<lparr>dev_out := dev_out dev @ fr_buffer (with_chunk f chunk)\<rparr>"
    have step: "data_loop limit src offset f dev = data_loop limit src (offset + n) (setPayloadSize n f) dev2"
      using less.prems n(1,2) False by (subst data_loop.simps)
        (simp add: n_def [symmetric] chunk_def [symmetric] write_frame_ok dev_write_ok dev2_def with_chunk_def Let_def n')
    have d: "drop offset src = chunk @ drop (offset + n) src" by (simp add: chunk_def add.commute flip: drop_drop)
    have nv: "9 \<le> length (fr_buffer f)" using less.prems by simp
    note sp = setPayloadSize_fields(1-4) [OF nv, of n]
    have "length src - (offset + n) < length src - offset" "offset + n \<le> length src"
      using n(2) False less.prems(5) by (auto simp: n_def)
    moreover have "dev_results dev2 = []" using less.prems(1) by (simp add: dev2_def)
    ultimately obtain fs f' where fs: "data_loop limit src (offset + n) (setPayloadSize n f) dev2
        = Some (True, f', dev2\<lparr>dev_out := dev_out dev2 @ concat (map fr_buffer fs)\<rparr>)"
      "\<forall>g\<in>set fs. framed g \<and> 0 < payloadSize g \<and> payloadSize g \<le> limit
         \<and> fr_type g = fr_type f \<and> fr_flags g = fr_flags f \<and> fr_streamID g = fr_streamID f"
      "concat (map fr_payload fs) = drop (offset + n) src"
      using less.hyps [of "offset + n" dev2 "setPayloadSize n f"] less.prems sp by auto
    then show ?thesis using step wc n d
      by (intro exI [of _ "with_chunk f chunk # fs"] exI [of _ f']) (simp add: dev2_def)
  qed
qed


text \<open>C39. A frame may arrive in any number of pieces: a reader that ran out of input has taken all
  of it, and goes on with the next piece as if the two had arrived together.\<close>

theorem reading_in_pieces:
  assumes "read_frame r (dev\<lparr>dev_in := a\<rparr>) = (incompleteFrame, r', dev')" "reader_ok r"
  shows "dev' = dev\<lparr>dev_in := []\<rparr> \<and> reader_ok r'
    \<and> read_frame r' (dev'\<lparr>dev_in := b\<rparr>) = read_frame r (dev\<lparr>dev_in := a @ b\<rparr>)"
  by (rule read_frame_pieces [OF assms])

theorem reading_in_pieces_witness:
  "\<exists>r' dev'. read_frame FrameReader (empty_device\<lparr>dev_in := [0, 0, 4, 8]\<rparr>) = (incompleteFrame, r', dev')
    \<and> read_frame r' (dev'\<lparr>dev_in := [0, 0, 0, 0, 3, 0, 0, 0, 9]\<rparr>)
      = read_frame FrameReader (empty_device\<lparr>dev_in := [0, 0, 4, 8, 0, 0, 0, 0, 3, 0, 0, 0, 9]\<rparr>)"
proof -
  obtain r' dev' where r: "read_frame FrameReader (empty_device\<lparr>dev_in := [0, 0, 4, 8]\<rparr>) = (incompleteFrame, r', dev')"
    by (simp add: read_frame_def FrameReader_def readHeader_def dev_read_def h2_constants Frame_def Let_def)
  moreover have "reader_ok FrameReader" by (simp add: reader_ok_def FrameReader_def)
  ultimately show ?thesis using reading_in_pieces [OF r, of "[0, 0, 0, 0, 3, 0, 0, 0, 9]"] by auto
qed

text \<open>\<open>writeHEADERS\<close> always returns when the limit is positive; on a device that takes every write,
  what it sends is a sequence of frames of the stream: the first of the frame's type and flags, the others
  CONTINUATION without other flags, none longer than the limit and all but the last as long, END_HEADERS on the last one only, and their payloads
  put together are the payload that was built.\<close>

theorem writeHEADERS_fragments:
  assumes "dev_results dev = []" "0 < sizeLimit" "frameHeaderSize \<le> length (fr_buffer f)" "length (fr_buffer f) < 2 ^ 32"
  shows "\<exists>fs f'. writeHEADERS sizeLimit f dev
      = Some (True, f', dev\<lparr>dev_out := dev_out dev @ concat (map fr_buffer fs)\<rparr>)
    \<and> header_frames (fr_type f) (fr_flags f) (fr_streamID f) (min sizeLimit maxPayloadSize) fs
    \<and> concat (map fr_payload fs) = fr_payload f"
  using writeHEADERS_frames [OF assms(1,2)] assms(3,4) by (simp add: frameHeaderSize_def)

theorem writeHEADERS_fragments_witness:
  "\<exists>fs f'. writeHEADERS 2 (fw_append [1, 2, 3, 4, 5] (fw_start HEADERS END_STREAM 1)) empty_device
      = Some (True, f', empty_device\<lparr>dev_out := concat (map fr_buffer fs)\<rparr>)
    \<and> header_frames HEADERS END_STREAM 1 2 fs \<and> concat (map fr_payload fs) = [1, 2, 3, 4, 5]"
proof -
  let ?f = "fw_append [1, 2, 3, 4, 5] (fw_start HEADERS END_STREAM 1)"
  have l: "9 \<le> length (fr_buffer (fw_start HEADERS END_STREAM 1))"
    "length (fr_buffer (fw_start HEADERS END_STREAM 1)) + length [1 :: byte, 2, 3, 4, 5] \<le> 9 + maxPayloadSize"
    using start_fields(6) [of HEADERS END_STREAM 1] by (simp_all add: maxPayloadSize_def)
  note a = append_fields [OF l]
  have "framed ?f" "fr_type ?f = HEADERS" "fr_flags ?f = END_STREAM" "fr_streamID ?f = 1" "fr_payload ?f = [1, 2, 3, 4, 5]"
    using a start_fields(2,3,4) [of HEADERS END_STREAM 1] start_fields(5) [of 1 HEADERS END_STREAM] by simp_all
  then show ?thesis
    using writeHEADERS_fragments [of empty_device 2 ?f] framedD(1-3) [of ?f]
    by (simp add: empty_device_def frameHeaderSize_def maxPayloadSize_def)
qed

text \<open>\<open>writeDATA\<close> always returns when the limit is positive; on a device that takes every write it
  sends the octets in order, in non-empty frames within the limit.\<close>

theorem writeDATA_pieces:
  assumes "dev_results dev = []" "0 < sizeLimit" "length (fr_buffer f) = frameHeaderSize"
  shows "\<exists>fs f'. writeDATA sizeLimit src f dev
      = Some (True, f', dev\<lparr>dev_out := dev_out dev @ concat (map fr_buffer fs)\<rparr>)
    \<and> (\<forall>g\<in>set fs. framed g \<and> 0 < payloadSize g \<and> payloadSize g \<le> sizeLimit
         \<and> fr_type g = fr_type f \<and> fr_flags g = fr_flags f \<and> fr_streamID g = fr_streamID f)
    \<and> concat (map fr_payload fs) = src"
proof -
  have "0 < min sizeLimit maxPayloadSize" "length (fr_buffer f) = 9"
    using assms(2,3) by (simp_all add: h2_constants)
  from data_loop_frames [OF assms(1) this(1) _ this(2), of 0 src] show ?thesis
    by (auto simp: writeDATA_def)
qed

theorem writeDATA_pieces_witness:
  "\<exists>fs f'. writeDATA 2 [7, 8, 9] (fw_start DATA EMPTY 1) empty_device
      = Some (True, f', empty_device\<lparr>dev_out := concat (map fr_buffer fs)\<rparr>)
    \<and> concat (map fr_payload fs) = [7, 8, 9]"
  using writeDATA_pieces [of empty_device 2 "fw_start DATA EMPTY 1" "[7, 8, 9]"] start_fields(6) [of DATA EMPTY 1]
  by (auto simp: empty_device_def frameHeaderSize_def)

end
