(* ===== verification/Http2Protocol.thy ===== *)
theory Http2Protocol
  imports HpackTable Http2Frames
begin

text \<open>
  Constants, configuration and helpers of the protocol: \<open>src/network/access/http2/http2protocol_p.h\<close>,
  \<open>http2protocol.cpp\<close> and \<open>src/network/access/qhttp2configuration.cpp\<close>: the client preface,
  the identifiers of settings, the error codes and their translation to network errors, the
  SETTINGS frame of a configuration, the test for a protocol upgrade and the assembly of a
  header block from its frames. \<open>unsigned\<close> and \<open>quint32\<close> are \<open>nat\<close> below \<open>2 ^ 32\<close>.
\<close>

subsection \<open>Constants\<close>

definition HEADER_TABLE_SIZE_ID :: nat where "HEADER_TABLE_SIZE_ID = 1"
definition ENABLE_PUSH_ID :: nat where "ENABLE_PUSH_ID = 2"
definition MAX_CONCURRENT_STREAMS_ID :: nat where "MAX_CONCURRENT_STREAMS_ID = 3"
definition INITIAL_WINDOW_SIZE_ID :: nat where "INITIAL_WINDOW_SIZE_ID = 4"
definition MAX_FRAME_SIZE_ID :: nat where "MAX_FRAME_SIZE_ID = 5"
definition MAX_HEADER_LIST_SIZE_ID :: nat where "MAX_HEADER_LIST_SIZE_ID = 6"

lemmas setting_ids = HEADER_TABLE_SIZE_ID_def ENABLE_PUSH_ID_def MAX_CONCURRENT_STREAMS_ID_def
  INITIAL_WINDOW_SIZE_ID_def MAX_FRAME_SIZE_ID_def MAX_HEADER_LIST_SIZE_ID_def

definition clientPrefaceLength :: nat where "clientPrefaceLength = 24"

definition Http2clientPreface :: bytes where
  "Http2clientPreface =
     [0x50, 0x52, 0x49, 0x20, 0x2a, 0x20,
      0x48, 0x54, 0x54, 0x50, 0x2f, 0x32,
      0x2e, 0x30, 0x0d, 0x0a, 0x0d, 0x0a,
      0x53, 0x4d, 0x0d, 0x0a, 0x0d, 0x0a]"

definition maxSessionReceiveWindow :: nat where "maxSessionReceiveWindow = 2 ^ 31 - 1"

definition HTTP2_NO_ERROR :: nat where "HTTP2_NO_ERROR = 0"
definition PROTOCOL_ERROR :: nat where "PROTOCOL_ERROR = 1"
definition INTERNAL_ERROR :: nat where "INTERNAL_ERROR = 2"
definition FLOW_CONTROL_ERROR :: nat where "FLOW_CONTROL_ERROR = 3"
definition SETTINGS_TIMEOUT :: nat where "SETTINGS_TIMEOUT = 4"
definition STREAM_CLOSED :: nat where "STREAM_CLOSED = 5"
definition FRAME_SIZE_ERROR :: nat where "FRAME_SIZE_ERROR = 6"
definition REFUSE_STREAM :: nat where "REFUSE_STREAM = 7"
definition CANCEL :: nat where "CANCEL = 8"
definition COMPRESSION_ERROR :: nat where "COMPRESSION_ERROR = 9"
definition CONNECT_ERROR :: nat where "CONNECT_ERROR = 10"
definition ENHANCE_YOUR_CALM :: nat where "ENHANCE_YOUR_CALM = 11"
definition INADEQUATE_SECURITY :: nat where "INADEQUATE_SECURITY = 12"
definition HTTP_1_1_REQUIRED :: nat where "HTTP_1_1_REQUIRED = 13"

lemmas error_codes = HTTP2_NO_ERROR_def PROTOCOL_ERROR_def INTERNAL_ERROR_def FLOW_CONTROL_ERROR_def
  SETTINGS_TIMEOUT_def STREAM_CLOSED_def FRAME_SIZE_ERROR_def REFUSE_STREAM_def CANCEL_def
  COMPRESSION_ERROR_def CONNECT_ERROR_def ENHANCE_YOUR_CALM_def INADEQUATE_SECURITY_def HTTP_1_1_REQUIRED_def

subsection \<open>Errors\<close>

datatype network_error =
  RemoteHostClosedError | ProtocolFailure | InternalServerError | TimeoutError | UnknownNetworkError
  | UnknownServerError | ContentAccessDenied

fun decimal :: "nat \<Rightarrow> string" where
  "decimal n = (if n < 10 then [char_of (48 + n)] else decimal (n div 10) @ [char_of (48 + n mod 10)])"

definition qt_error :: "nat \<Rightarrow> network_error \<times> string" where
  "qt_error errorCode =
     (if errorCode > HTTP_1_1_REQUIRED
      then (ProtocolFailure, ''RST_STREAM with unknown error code ('' @ decimal errorCode @ '')'')
      else if errorCode = HTTP2_NO_ERROR then (RemoteHostClosedError, ''Remote host signaled shutdown'')
      else if errorCode = PROTOCOL_ERROR then (ProtocolFailure, ''HTTP/2 protocol error'')
      else if errorCode = INTERNAL_ERROR then (InternalServerError, ''Internal server error'')
      else if errorCode = FLOW_CONTROL_ERROR then (ProtocolFailure, ''Flow control error'')
      else if errorCode = SETTINGS_TIMEOUT then (TimeoutError, ''SETTINGS ACK timeout error'')
      else if errorCode = STREAM_CLOSED then (ProtocolFailure, ''Server received frame(s) on a half-closed stream'')
      else if errorCode = FRAME_SIZE_ERROR then (ProtocolFailure, ''Server received a frame with an invalid size'')
      else if errorCode = REFUSE_STREAM then (ProtocolFailure, ''Server refused a stream'')
      else if errorCode = CANCEL then (ProtocolFailure, ''Stream is no longer needed'')
      else if errorCode = COMPRESSION_ERROR
        then (ProtocolFailure, ''Server is unable to maintain the header compression context for the connection'')
      else if errorCode = CONNECT_ERROR
        then (UnknownNetworkError, ''The connection established in response to a CONNECT request was reset or abnormally closed'')
      else if errorCode = ENHANCE_YOUR_CALM
        then (UnknownServerError, ''Server dislikes our behavior, excessive load detected.'')
      else if errorCode = INADEQUATE_SECURITY
        then (ContentAccessDenied, ''The underlying transport has properties that do not meet minimum security requirements'')
      else (ProtocolFailure, ''Server requires that HTTP/1.1 be used instead of HTTP/2.''))"

definition qt_error_string :: "nat \<Rightarrow> string" where
  "qt_error_string errorCode = snd (qt_error errorCode)"

definition qt_network_error :: "nat \<Rightarrow> network_error" where
  "qt_network_error errorCode = fst (qt_error errorCode)"

subsection \<open>Configuration\<close>

record h2_config =
  sessionWindowSize :: nat
  streamWindowSize :: nat
  cfg_maxFrameSize :: nat
  cfg_maxConcurrentStreams :: nat
  pushEnabled :: bool
  huffmanCompressionEnabled :: bool

definition QHttp2Configuration :: h2_config where
  "QHttp2Configuration =
     \<lparr>sessionWindowSize = defaultSessionWindowSize, streamWindowSize = defaultSessionWindowSize,
      cfg_maxFrameSize = minPayloadLimit, cfg_maxConcurrentStreams = maxConcurrentStreams,
      pushEnabled = False, huffmanCompressionEnabled = True\<rparr>"

definition setServerPushEnabled :: "bool \<Rightarrow> h2_config \<Rightarrow> h2_config" where
  "setServerPushEnabled enable d = d\<lparr>pushEnabled := enable\<rparr>"

definition setHuffmanCompressionEnabled :: "bool \<Rightarrow> h2_config \<Rightarrow> h2_config" where
  "setHuffmanCompressionEnabled enable d = d\<lparr>huffmanCompressionEnabled := enable\<rparr>"

definition setSessionReceiveWindowSize :: "nat \<Rightarrow> h2_config \<Rightarrow> bool \<times> h2_config" where
  "setSessionReceiveWindowSize n d =
     (if n = 0 \<or> n > maxSessionReceiveWindow then (False, d) else (True, d\<lparr>sessionWindowSize := n\<rparr>))"

definition setStreamReceiveWindowSize :: "nat \<Rightarrow> h2_config \<Rightarrow> bool \<times> h2_config" where
  "setStreamReceiveWindowSize n d =
     (if n = 0 \<or> n > maxSessionReceiveWindow then (False, d) else (True, d\<lparr>streamWindowSize := n\<rparr>))"

definition setMaxFrameSize :: "nat \<Rightarrow> h2_config \<Rightarrow> bool \<times> h2_config" where
  "setMaxFrameSize n d =
     (if n < minPayloadLimit \<or> n > maxPayloadSize then (False, d) else (True, d\<lparr>cfg_maxFrameSize := n\<rparr>))"

definition setMaxConcurrentStreams :: "nat \<Rightarrow> h2_config \<Rightarrow> h2_config" where
  "setMaxConcurrentStreams n d = d\<lparr>cfg_maxConcurrentStreams := n\<rparr>"

text \<open>The shared data pointers of two configurations are taken to differ: with equal pointers the
  data is equal, and so is the result.\<close>

definition config_isEqual :: "h2_config \<Rightarrow> h2_config \<Rightarrow> bool" where
  "config_isEqual d other \<longleftrightarrow> pushEnabled d = pushEnabled other
     \<and> huffmanCompressionEnabled d = huffmanCompressionEnabled other
     \<and> sessionWindowSize d = sessionWindowSize other
     \<and> streamWindowSize d = streamWindowSize other
     \<and> cfg_maxConcurrentStreams d = cfg_maxConcurrentStreams other"

definition configurationToSettingsFrame :: "h2_config \<Rightarrow> h2_frame" where
  "configurationToSettingsFrame config =
     (let builder = fw_start SETTINGS EMPTY connectionStreamID;
          builder = fw_append16 ENABLE_PUSH_ID builder;
          builder = fw_append32 (of_bool (pushEnabled config)) builder;
          builder = (if streamWindowSize config \<noteq> defaultSessionWindowSize
                     then fw_append32 (streamWindowSize config) (fw_append16 INITIAL_WINDOW_SIZE_ID builder)
                     else builder);
          builder = (if cfg_maxFrameSize config \<noteq> minPayloadLimit
                     then fw_append32 (cfg_maxFrameSize config) (fw_append16 MAX_FRAME_SIZE_ID builder)
                     else builder)
      in builder)"

subsection \<open>Upgrade and header blocks\<close>

text \<open>\<open>upgrades\<close> are the values of the reply's Upgrade fields.\<close>

definition lower_char :: "byte \<Rightarrow> byte" where
  "lower_char b = (if 65 \<le> b \<and> b \<le> 90 then b + 32 else b)"

definition is_protocol_upgraded :: "int \<Rightarrow> bytes list \<Rightarrow> bool" where
  "is_protocol_upgraded statusCode upgrades \<longleftrightarrow>
     statusCode = 101 \<and> list_ex (\<lambda>v. map lower_char v = chars ''h2c'') upgrades"

text \<open>The octets \<open>[hpackBlockBegin, hpackBlockBegin + hpackBlockSize)\<close> of each frame; \<open>None\<close> if one of
  these ranges is not inside its buffer. The sum of the sizes does not overflow a 64-bit \<open>size_t\<close>.\<close>

definition hpack_chunk :: "h2_frame \<Rightarrow> bytes option" where
  "hpack_chunk frame =
     (if hpackBlockSize frame = 0 then Some []
      else do { src \<leftarrow> hpackBlockBegin frame; read_bytes frame src (hpackBlockSize frame) })"

fun assemble_hpack_block :: "h2_frame list \<Rightarrow> bytes option" where
  "assemble_hpack_block [] = Some []"
| "assemble_hpack_block (frame # frames) =
     do { chunk \<leftarrow> hpack_chunk frame; rest \<leftarrow> assemble_hpack_block frames; Some (chunk @ rest) }"

end
