(* ===== verification/Http2Stream.thy ===== *)
theory Http2Stream
  imports HpackCodec Http2Protocol
begin

text \<open>
  Streams, \<open>QHttp2Stream\<close> of \<open>src/network/access/qhttp2connection.cpp\<close>. A stream lives in the table
  of its connection, so the state of both is one record; an operation of a stream takes the
  stream's identifier and the connection. \<open>None\<close> is undefined behaviour (a null stream, a read
  outside a buffer, \<open>Q_UNREACHABLE\<close>) or a call that never returns. Signals are appended to the
  list of events; slots of the application run after the operation that emits them. Calls queued
  on the event loop are kept in a list of their own. Assertions are not checked.
\<close>

subsection \<open>The states of a stream\<close>

datatype stream_state = Idle | ReservedRemote | Open | HalfClosedLocal | HalfClosedRemote | Closed

datatype state_transition = TOpen | CloseLocal | CloseRemote | RST

text \<open>The state after a transition; \<open>None\<close> is the unreachable case of an idle stream.\<close>

fun next_state :: "stream_state \<Rightarrow> state_transition \<Rightarrow> stream_state option" where
  "next_state Idle transition = (if transition = TOpen then Some Open else None)"
| "next_state Open transition =
     Some (case transition of
             CloseLocal \<Rightarrow> HalfClosedLocal
           | CloseRemote \<Rightarrow> HalfClosedRemote
           | RST \<Rightarrow> Closed
           | TOpen \<Rightarrow> Open)"
| "next_state HalfClosedLocal transition =
     Some (if transition = CloseRemote \<or> transition = RST then Closed else HalfClosedLocal)"
| "next_state HalfClosedRemote transition =
     Some (if transition = CloseLocal \<or> transition = RST then Closed else HalfClosedRemote)"
| "next_state ReservedRemote transition =
     Some (if transition = RST then Closed
           else if transition = CloseLocal then HalfClosedLocal else ReservedRemote)"
| "next_state Closed transition = Some Closed"

subsection \<open>Upload devices\<close>

text \<open>\<open>QNonContiguousByteDeviceByteArrayImpl\<close>; \<open>None\<close> is the null pointer.\<close>

record byte_device =
  bd_view :: bytes
  currentPosition :: nat

definition bd_atEnd :: "byte_device \<Rightarrow> bool" where
  "bd_atEnd d \<longleftrightarrow> currentPosition d \<ge> length (bd_view d)"

definition bd_readPointer :: "int \<Rightarrow> byte_device \<Rightarrow> nat option \<times> int" where
  "bd_readPointer maximumLength d =
     (if bd_atEnd d then (None, -1)
      else (Some (currentPosition d),
            if maximumLength \<noteq> -1 then min maximumLength (int (length (bd_view d)) - int (currentPosition d))
            else int (length (bd_view d)) - int (currentPosition d)))"

definition advanceReadPointer :: "nat \<Rightarrow> byte_device \<Rightarrow> byte_device" where
  "advanceReadPointer amount d = d\<lparr>currentPosition := currentPosition d + amount\<rparr>"

definition byteDevice :: "bytes \<Rightarrow> byte_device" where
  "byteDevice payload = \<lparr>bd_view = payload, currentPosition = 0\<rparr>"

subsection \<open>State\<close>

record h2_stream =
  m_streamID :: nat
  m_recvWindow :: int
  m_sendWindow :: int
  m_endStreamAfterDATA :: bool
  m_RST_STREAM_received :: "nat option"
  m_RST_STREAM_sent :: "nat option"
  m_uploadDevice :: bool
  m_uploadByteDevice :: "byte_device option"
  m_downloadBuffer :: "bytes list"
  m_state :: stream_state
  m_headers :: "header_field list"
  m_isReserved :: bool
  m_owningByteDevice :: bool
  useDownloadBuffer :: bool

definition QHttp2Stream :: "nat \<Rightarrow> bool \<Rightarrow> h2_stream" where
  "QHttp2Stream streamID configuration =
     \<lparr>m_streamID = streamID, m_recvWindow = 0, m_sendWindow = 0, m_endStreamAfterDATA = False,
      m_RST_STREAM_received = None, m_RST_STREAM_sent = None, m_uploadDevice = False,
      m_uploadByteDevice = None, m_downloadBuffer = [], m_state = Idle, m_headers = [],
      m_isReserved = False, m_owningByteDevice = False, useDownloadBuffer = configuration\<rparr>"

definition isActive :: "h2_stream \<Rightarrow> bool" where
  "isActive s \<longleftrightarrow> m_state s \<noteq> Closed \<and> m_state s \<noteq> Idle"

definition isUploadingDATA :: "h2_stream \<Rightarrow> bool" where
  "isUploadingDATA s \<longleftrightarrow> m_uploadByteDevice s \<noteq> None"

definition wasResetbyPeer :: "h2_stream \<Rightarrow> bool" where
  "wasResetbyPeer s \<longleftrightarrow> m_RST_STREAM_received s \<noteq> None"

datatype connection_type = Client | Server

datatype create_stream_error = MaxConcurrentStreamsReached | StreamIdsExhausted | ReceivedGOAWAY | UnknownError

datatype ping_state = Ping | PongSignatureIdentical | PongSignatureChanged | PongNoPingSent

datatype graceful_shutdown = NoShutdown | AwaitingPriorPing | AwaitingShutdownPing | FinalGOAWAYSent

text \<open>The signals: of the stream with the given identifier, then of the connection.\<close>

datatype h2_event =
  headersReceived nat "header_field list" bool
| headersUpdated nat
| errorOccurred nat nat string
| stateChanged nat stream_state
| uploadBlocked nat
| dataReceived nat bytes bool
| rstFrameReceived nat nat
| bytesWritten nat nat
| uploadDeviceError nat string
| uploadFinished nat
| newIncomingStream nat
| newPromisedStream nat
| connectionClosed
| settingsFrameReceived
| pingFrameReceived ping_state
| connectionErrorOccurred nat string
| receivedGOAWAY nat nat
| receivedEND_STREAM nat
| incomingStreamErrorOccured create_stream_error

datatype queued_call = Queued_handleReadyRead | Queued_sendWINDOW_UPDATE nat nat | Queued_maybeResumeUpload nat

text \<open>The connection. \<open>m_streams\<close> and \<open>m_promisedStreams\<close> are association lists, an entry of the
  first may hold a null pointer; the order of the entries stands for the unspecified iteration
  order of the hash. The last fields are the world around it: the socket, the signals emitted, the
  calls queued and the clock in seconds, on which \<open>m_goawayGraceTimer\<close> is a deadline.\<close>

record 'url h2_conn =
  m_connectionType :: connection_type
  waitingForSettingsACK :: bool
  c_decoder :: hpack_decoder
  c_encoder :: hpack_encoder
  pendingTableSizeUpdates :: "nat option \<times> nat option"
  m_config :: h2_config
  m_streams :: "(nat \<times> h2_stream option) list"
  m_blockedStreams :: "nat list"
  m_promisedStreams :: "('url \<times> nat) list"
  m_resetStreamIDs :: "nat list"
  m_lastPingSignature :: "bytes option"
  m_nextStreamID :: nat
  c_maxFrameSize :: nat
  frameReader :: frame_reader
  inboundFrame :: h2_frame
  frameWriter :: h2_frame
  continuationExpected :: bool
  continuedFrames :: "h2_frame list"
  m_peerMaxConcurrentStreams :: nat
  m_maxConcurrentStreams :: nat
  maxSessionReceiveWindowSize :: int
  sessionReceiveWindowSize :: int
  streamInitialReceiveWindowSize :: int
  sessionSendWindowSize :: int
  streamInitialSendWindowSize :: int
  m_maxHeaderListSize :: nat
  m_upgradedConnection :: bool
  m_goingAway :: bool
  pushPromiseEnabled :: bool
  m_lastIncomingStreamID :: nat
  m_lastStreamToProcess :: nat
  m_goawayGraceTimer :: nat
  m_lastGoAwayLastStreamID :: "nat option"
  m_connectionAborted :: bool
  m_gracefulShutdownState :: graceful_shutdown
  m_prefaceSent :: bool
  m_waitingForClientPreface :: bool
  c_socket :: io_device
  c_events :: "h2_event list"
  c_queue :: "queued_call list"
  c_now :: nat

definition getStream :: "nat \<Rightarrow> 'url h2_conn \<Rightarrow> h2_stream option" where
  "getStream streamID c = Option.bind (map_of (m_streams c) streamID) (\<lambda>s. s)"

definition has_entry :: "nat \<Rightarrow> 'url h2_conn \<Rightarrow> bool" where
  "has_entry streamID c \<longleftrightarrow> map_of (m_streams c) streamID \<noteq> None"

definition with_stream :: "nat \<Rightarrow> (h2_stream \<Rightarrow> h2_stream) \<Rightarrow> 'url h2_conn \<Rightarrow> 'url h2_conn" where
  "with_stream streamID f c =
     c\<lparr>m_streams := map (\<lambda>(k, s). (k, if k = streamID then map_option f s else s)) (m_streams c)\<rparr>"

definition emit :: "h2_event \<Rightarrow> 'url h2_conn \<Rightarrow> 'url h2_conn" where
  "emit ev c = c\<lparr>c_events := c_events c @ [ev]\<rparr>"

definition enqueue :: "queued_call \<Rightarrow> 'url h2_conn \<Rightarrow> 'url h2_conn" where
  "enqueue q c = c\<lparr>c_queue := c_queue c @ [q]\<rparr>"

definition block_stream :: "nat \<Rightarrow> 'url h2_conn \<Rightarrow> 'url h2_conn" where
  "block_stream i c = c\<lparr>m_blockedStreams := List.insert i (m_blockedStreams c)\<rparr>"

text \<open>Starting a frame in the writer and writing it out.\<close>

definition send_frame :: "h2_frame \<Rightarrow> 'url h2_conn \<Rightarrow> bool \<times> 'url h2_conn" where
  "send_frame f c = (let (ok, sock) = write_frame f (c_socket c) in (ok, c\<lparr>frameWriter := f, c_socket := sock\<rparr>))"

subsection \<open>Operations of the connection that streams use\<close>

definition closeSession :: "'url h2_conn \<Rightarrow> 'url h2_conn" where
  "closeSession c = emit connectionClosed c"

definition streamIsActive :: "h2_stream option \<Rightarrow> bool" where
  "streamIsActive s = (case s of None \<Rightarrow> False | Some s \<Rightarrow> isActive s)"

definition maybeCloseOnGoingAway :: "'url h2_conn \<Rightarrow> 'url h2_conn" where
  "maybeCloseOnGoingAway c =
     (if m_connectionAborted c \<or> \<not> m_goingAway c then c
      else if m_gracefulShutdownState c = AwaitingShutdownPing then c
      else if \<not> list_ex (\<lambda>(k, s). streamIsActive s) (m_streams c) then closeSession c
      else c)"

definition streamWasResetLocally :: "nat \<Rightarrow> 'url h2_conn \<Rightarrow> bool" where
  "streamWasResetLocally streamID c \<longleftrightarrow> streamID \<in> set (m_resetStreamIDs c)"

definition registerStreamAsResetLocally :: "nat \<Rightarrow> 'url h2_conn \<Rightarrow> 'url h2_conn" where
  "registerStreamAsResetLocally streamID c =
     (let ids = m_resetStreamIDs c @ [streamID]
      in c\<lparr>m_resetStreamIDs := drop (length ids - 100) ids\<rparr>)"

definition isInvalidStream :: "nat \<Rightarrow> 'url h2_conn \<Rightarrow> bool" where
  "isInvalidStream streamID c \<longleftrightarrow>
     (case getStream streamID c of None \<Rightarrow> True | Some s \<Rightarrow> wasResetbyPeer s) \<and> \<not> streamWasResetLocally streamID c"

definition streamIsIgnored :: "nat \<Rightarrow> 'url h2_conn \<Rightarrow> bool" where
  "streamIsIgnored streamID c \<longleftrightarrow>
     (streamID mod 2 = (if m_connectionType c = Client then 0 else 1)) \<and> m_lastStreamToProcess c < streamID"

definition sendWINDOW_UPDATE :: "nat \<Rightarrow> nat \<Rightarrow> 'url h2_conn \<Rightarrow> bool \<times> 'url h2_conn" where
  "sendWINDOW_UPDATE streamID delta c = send_frame (fw_append32 delta (fw_start WINDOW_UPDATE EMPTY streamID)) c"

subsection \<open>State changes and errors\<close>

definition setState :: "nat \<Rightarrow> stream_state \<Rightarrow> 'url h2_conn \<Rightarrow> 'url h2_conn option" where
  "setState i newState c =
     do { s \<leftarrow> getStream i c;
          Some (if m_state s = newState then c
                else let c = emit (stateChanged i newState) (with_stream i (m_state_update (\<lambda>_. newState)) c)
                     in if newState = Closed then maybeCloseOnGoingAway c else c) }"

definition transitionState :: "nat \<Rightarrow> state_transition \<Rightarrow> 'url h2_conn \<Rightarrow> 'url h2_conn option" where
  "transitionState i transition c =
     do { s \<leftarrow> getStream i c; newState \<leftarrow> next_state (m_state s) transition; setState i newState c }"

definition finishWithError :: "nat \<Rightarrow> nat \<Rightarrow> string \<Rightarrow> 'url h2_conn \<Rightarrow> 'url h2_conn option" where
  "finishWithError i errorCode message c =
     do { c \<leftarrow> transitionState i RST c; Some (emit (errorOccurred i errorCode message) c) }"

definition finishWithErrorCode :: "nat \<Rightarrow> nat \<Rightarrow> 'url h2_conn \<Rightarrow> 'url h2_conn option" where
  "finishWithErrorCode i errorCode c = finishWithError i errorCode (qt_error_string errorCode) c"

definition sendRST_STREAM :: "nat \<Rightarrow> nat \<Rightarrow> 'url h2_conn \<Rightarrow> (bool \<times> 'url h2_conn) option" where
  "sendRST_STREAM i errorCode c =
     do { s \<leftarrow> getStream i c;
          if m_state s = Closed \<or> m_state s = Idle then Some (False, c)
          else if m_RST_STREAM_received s \<noteq> None then Some (False, c)
          else do {
            let c = registerStreamAsResetLocally i c;
            let c = with_stream i (m_RST_STREAM_sent_update (\<lambda>_. Some errorCode)) c;
            c \<leftarrow> transitionState i RST c;
            Some (send_frame (fw_append32 errorCode (fw_start RST_STREAM EMPTY i)) c) } }"

definition streamError :: "nat \<Rightarrow> nat \<Rightarrow> string \<Rightarrow> 'url h2_conn \<Rightarrow> 'url h2_conn option" where
  "streamError i errorCode message c =
     do { (_, c) \<leftarrow> sendRST_STREAM i errorCode c; Some (emit (errorOccurred i errorCode message) c) }"


subsection \<open>Uploads\<close>

definition update_upload :: "(byte_device \<Rightarrow> byte_device) \<Rightarrow> nat \<Rightarrow> 'url h2_conn \<Rightarrow> 'url h2_conn" where
  "update_upload f i c = with_stream i (m_uploadByteDevice_update (map_option f)) c"

definition isUploadBlocked :: "h2_stream \<Rightarrow> 'url h2_conn \<Rightarrow> bool" where
  "isUploadBlocked s c \<longleftrightarrow>
     (let MinFrameSize = int frameHeaderSize + 1
      in isUploadingDATA s \<and> (m_sendWindow s \<le> MinFrameSize \<or> sessionSendWindowSize c \<le> MinFrameSize))"

definition deviceCanRead :: "byte_device \<Rightarrow> 'url h2_conn \<Rightarrow> bool" where
  "deviceCanRead d c \<longleftrightarrow>
     (let (p, tmp) = bd_readPointer (int (c_maxFrameSize c) * 10) d in p \<noteq> None \<and> tmp > 0)"

text \<open>The inner loop of \<open>internalSendDATA\<close>: it fills the frame \<open>w\<close>. A chunk of negative length
  would append octets before the read pointer, which is undefined.\<close>

partial_function (option) fill_frame ::
  "nat \<Rightarrow> int \<Rightarrow> int \<Rightarrow> nat \<Rightarrow> h2_frame \<Rightarrow> 'url h2_conn \<Rightarrow> (int \<times> nat \<times> h2_frame \<times> 'url h2_conn) option" where
  "fill_frame i remainingWindowSize remainingBytesInFrame written w c =
     do { s \<leftarrow> getStream i c;
          d \<leftarrow> m_uploadByteDevice s;
          if remainingWindowSize \<noteq> 0 \<and> deviceCanRead d c \<and> remainingBytesInFrame \<noteq> 0
          then let maxToWrite = min remainingWindowSize remainingBytesInFrame;
                   readPointer = fst (bd_readPointer maxToWrite d);
                   outBytesAvail = snd (bd_readPointer maxToWrite d);
                   bytesToWrite = min maxToWrite outBytesAvail
               in if readPointer = None \<or> outBytesAvail \<le> 0
                  then Some (remainingWindowSize, written, w, c)
                  else if bytesToWrite < 0 then None
                  else fill_frame i (remainingWindowSize - bytesToWrite) (remainingBytesInFrame - bytesToWrite)
                         (add32 written (nat bytesToWrite))
                         (fw_append (take (nat bytesToWrite) (drop (the readPointer) (bd_view d))) w)
                         (update_upload (advanceReadPointer (nat bytesToWrite)) i
                           (with_stream i (m_sendWindow_update (\<lambda>n. n - bytesToWrite)) c)
                           \<lparr>sessionSendWindowSize := sessionSendWindowSize c - bytesToWrite\<rparr>)
          else Some (remainingWindowSize, written, w, c) }"

text \<open>The outer loop: \<open>Inl\<close> is the return after a failed write, \<open>Inr\<close> the end of the loop. Without a
  positive window the loop writes empty frames for ever.\<close>

partial_function (option) send_loop ::
  "nat \<Rightarrow> int \<Rightarrow> nat \<Rightarrow> bool \<Rightarrow> 'url h2_conn \<Rightarrow> ('url h2_conn + nat \<times> bool \<times> 'url h2_conn) option" where
  "send_loop i remainingWindowSize totalBytesWritten sentEND_STREAM c =
     do { s \<leftarrow> getStream i c;
          d \<leftarrow> m_uploadByteDevice s;
          if remainingWindowSize \<noteq> 0 \<and> deviceCanRead d c
          then do {
            r \<leftarrow> fill_frame i remainingWindowSize (i32 (int (c_maxFrameSize c))) 0 (fw_start DATA EMPTY i) c;
            let remainingWindowSize = fst r;
            let n = fst (snd r);
            let w = fst (snd (snd r));
            let c = snd (snd (snd r));
            s \<leftarrow> getStream i c;
            d \<leftarrow> m_uploadByteDevice s;
            let last = (\<not> deviceCanRead d c \<and> bd_atEnd d \<and> m_endStreamAfterDATA s);
            let w = (if last then addFlag END_STREAM w else w);
            let sent = send_frame w c;
            if \<not> fst sent
            then map_option Inl (finishWithError i INTERNAL_ERROR ''failed to write to socket'' (snd sent))
            else send_loop i remainingWindowSize (totalBytesWritten + n) (sentEND_STREAM \<or> last) (snd sent) }
          else Some (Inr (totalBytesWritten, sentEND_STREAM, c)) }"

declare fill_frame.simps [code]
declare send_loop.simps [code]

definition finishSendDATA :: "nat \<Rightarrow> 'url h2_conn \<Rightarrow> 'url h2_conn option" where
  "finishSendDATA i c =
     do { s \<leftarrow> getStream i c;
          c \<leftarrow> (if m_endStreamAfterDATA s then transitionState i CloseLocal c else Some c);
          let c = with_stream i (\<lambda>s. s\<lparr>m_uploadDevice := False, m_owningByteDevice := False, m_uploadByteDevice := None\<rparr>) c;
          Some (emit (uploadFinished i) c) }"

definition internalSendDATA :: "nat \<Rightarrow> 'url h2_conn \<Rightarrow> 'url h2_conn option" where
  "internalSendDATA i c =
     do { s \<leftarrow> getStream i c;
          r \<leftarrow> send_loop i (min (sessionSendWindowSize c) (m_sendWindow s)) 0 False c;
          case r of
            Inl c \<Rightarrow> Some c
          | Inr (totalBytesWritten, sentEND_STREAM, c) \<Rightarrow>
              do { let c = emit (bytesWritten i totalBytesWritten) c;
                   s \<leftarrow> getStream i c;
                   d \<leftarrow> m_uploadByteDevice s;
                   if sentEND_STREAM \<or> (\<not> deviceCanRead d c \<and> bd_atEnd d)
                   then finishSendDATA i
                          (if \<not> sentEND_STREAM \<and> m_endStreamAfterDATA s
                           then snd (send_frame (fw_start DATA END_STREAM i) c) else c)
                   else Some (if isUploadBlocked s c then block_stream i (emit (uploadBlocked i) c) else c) } }"

text \<open>\<open>sendDATA\<close> of a byte device, of a byte array, and of a \<open>QBuffer\<close>, which the factory reads as
  the byte array after its position.\<close>

definition may_send :: "h2_stream \<Rightarrow> bool" where
  "may_send s \<longleftrightarrow> m_state s = Open \<or> m_state s = HalfClosedRemote"

definition sendDATA_byteDevice :: "nat \<Rightarrow> byte_device \<Rightarrow> bool \<Rightarrow> 'url h2_conn \<Rightarrow> (bool \<times> 'url h2_conn) option" where
  "sendDATA_byteDevice i device endStream c =
     do { s \<leftarrow> getStream i c;
          if \<not> may_send s then Some (False, c)
          else map_option (Pair True) (internalSendDATA i
                 (with_stream i (\<lambda>s. s\<lparr>m_uploadByteDevice := Some device, m_endStreamAfterDATA := endStream\<rparr>) c)) }"

definition sendDATA :: "nat \<Rightarrow> bytes \<Rightarrow> bool \<Rightarrow> 'url h2_conn \<Rightarrow> (bool \<times> 'url h2_conn) option" where
  "sendDATA i payload endStream c =
     do { s \<leftarrow> getStream i c;
          if \<not> may_send s then Some (False, c)
          else sendDATA_byteDevice i (byteDevice payload) endStream
                 (with_stream i (m_owningByteDevice_update (\<lambda>_. True)) c) }"

definition sendDATA_device :: "nat \<Rightarrow> bytes \<Rightarrow> nat \<Rightarrow> bool \<Rightarrow> 'url h2_conn \<Rightarrow> (bool \<times> 'url h2_conn) option" where
  "sendDATA_device i buffer pos endStream c =
     do { s \<leftarrow> getStream i c;
          if \<not> may_send s then Some (False, c)
          else sendDATA_byteDevice i (byteDevice (drop pos buffer)) endStream
                 (with_stream i (\<lambda>s. s\<lparr>m_owningByteDevice := True, m_uploadDevice := True\<rparr>) c) }"

definition maybeResumeUpload :: "nat \<Rightarrow> 'url h2_conn \<Rightarrow> 'url h2_conn option" where
  "maybeResumeUpload i c =
     do { s \<leftarrow> getStream i c;
          if isUploadingDATA s \<and> \<not> isUploadBlocked s c then internalSendDATA i c
          else Some (block_stream i c) }"

definition uploadDeviceReadChannelFinished :: "nat \<Rightarrow> 'url h2_conn \<Rightarrow> 'url h2_conn option" where
  "uploadDeviceReadChannelFinished i c = maybeResumeUpload i c"

definition uploadDeviceDestroyed :: "nat \<Rightarrow> 'url h2_conn \<Rightarrow> 'url h2_conn option" where
  "uploadDeviceDestroyed i c =
     do { s \<leftarrow> getStream i c;
          c \<leftarrow> (if isUploadingDATA s
               then map_option (emit (uploadDeviceError i ''Upload device destroyed while uploading''))
                      (streamError i CANCEL ''Upload device destroyed while uploading'' c)
               else Some c);
          Some (with_stream i (m_uploadDevice_update (\<lambda>_. False)) c) }"

subsection \<open>Sending headers\<close>

text \<open>The pending updates of the dynamic table size, at most two, in order.\<close>

fun size_updates :: "nat option list \<Rightarrow> bit_ostream \<Rightarrow> hpack_encoder \<Rightarrow> nat option list \<times> bit_ostream \<times> hpack_encoder" where
  "size_updates [] s e = ([], s, e)"
| "size_updates (None # us) s e = (None # us, s, e)"
| "size_updates (Some n # us) s e =
     (let e = enc_setMaxDynamicTableSize n e;
          (_, s, e) = encodeSizeUpdate n s e;
          (us, s, e) = size_updates us s e
      in (None # us, s, e))"

definition pending_size_updates :: "bit_ostream \<Rightarrow> 'url h2_conn \<Rightarrow> bit_ostream \<times> 'url h2_conn" where
  "pending_size_updates s c =
     (let (us, s, e) = size_updates [fst (pendingTableSizeUpdates c), snd (pendingTableSizeUpdates c)] s (c_encoder c)
      in (s, c\<lparr>pendingTableSizeUpdates := (us ! 0, us ! 1), c_encoder := e\<rparr>))"

definition sendHEADERS :: "nat \<Rightarrow> header_field list \<Rightarrow> bool \<Rightarrow> byte \<Rightarrow> 'url h2_conn \<Rightarrow> (bool \<times> 'url h2_conn) option" where
  "sendHEADERS i headers endStream prio c =
     (case header_size headers of
        None \<Rightarrow> Some (False, c)
      | Some hs \<Rightarrow>
          if hs > m_maxHeaderListSize c then Some (False, c)
          else do {
            c \<leftarrow> transitionState i TOpen c;
            let w = fw_start HEADERS (PRIORITY_FLAG OR END_HEADERS) i;
            let w = (if endStream then addFlag END_STREAM w else w);
            let w = fw_append8 prio (fw_append32 0 w);
            let sc = pending_size_updates (BitOStream (fr_buffer w)) c;
            let c = snd sc;
            r \<leftarrow> (if m_connectionType c = Client then encodeRequest headers (fst sc) (c_encoder c)
                 else encodeResponse headers (fst sc) (c_encoder c));
            let f = \<lparr>fr_buffer = os_buffer (fst (snd r))\<rparr>;
            let c = c\<lparr>c_encoder := snd (snd r), frameWriter := f\<rparr>;
            if \<not> fst r then Some (False, c)
            else do {
              (result, f, sock) \<leftarrow> writeHEADERS (c_maxFrameSize c) f (c_socket c);
              let c = c\<lparr>frameWriter := f, c_socket := sock\<rparr>;
              c \<leftarrow> (if endStream then transitionState i CloseLocal c else Some c);
              Some (result, c) } })"

definition fits_i32 :: "int \<Rightarrow> bool" where
  "fits_i32 x \<longleftrightarrow> - (2 ^ 31) \<le> x \<and> x < 2 ^ 31"

text \<open>\<open>QHttp2Stream::sendWINDOW_UPDATE\<close>; an overflow of the signed window is undefined.\<close>

definition stream_sendWINDOW_UPDATE :: "nat \<Rightarrow> nat \<Rightarrow> 'url h2_conn \<Rightarrow> 'url h2_conn option" where
  "stream_sendWINDOW_UPDATE i delta c =
     do { s \<leftarrow> getStream i c;
          if fits_i32 (m_recvWindow s + i32 (int delta))
          then Some (snd (sendWINDOW_UPDATE i delta (with_stream i (m_recvWindow_update (\<lambda>n. n + i32 (int delta))) c)))
          else None }"

text \<open>The application takes or clears what the stream has kept of the data it received.\<close>

definition takeDownloadBuffer :: "nat \<Rightarrow> 'url h2_conn \<Rightarrow> (bytes list \<times> 'url h2_conn) option" where
  "takeDownloadBuffer i c =
     do { s \<leftarrow> getStream i c; Some (m_downloadBuffer s, with_stream i (m_downloadBuffer_update (\<lambda>_. [])) c) }"

definition clearDownloadBuffer :: "nat \<Rightarrow> 'url h2_conn \<Rightarrow> 'url h2_conn option" where
  "clearDownloadBuffer i c =
     do { s \<leftarrow> getStream i c; Some (with_stream i (m_downloadBuffer_update (\<lambda>_. [])) c) }"

subsection \<open>Frames of a stream\<close>

text \<open>Division by two as in C++, and the conversion to \<open>quint32\<close>.\<close>

definition half :: "int \<Rightarrow> int" where
  "half x = (if x < 0 then - ((- x) div 2) else x div 2)"

definition u32 :: "int \<Rightarrow> nat" where
  "u32 x = nat (x mod 2 ^ 32)"

text \<open>The byte array made of the data of a frame; from a null pointer it is empty.\<close>

definition fragment_of :: "h2_frame \<Rightarrow> bytes option" where
  "fragment_of f = (case dataBegin f of None \<Rightarrow> Some [] | Some p \<Rightarrow> read_bytes f p (dataSize f))"

definition stream_handleDATA :: "nat \<Rightarrow> h2_frame \<Rightarrow> 'url h2_conn \<Rightarrow> 'url h2_conn option" where
  "stream_handleDATA i f c =
     do { s \<leftarrow> getStream i c;
          if i32 (int (payloadSize f)) > m_recvWindow s
          then streamError i FLOW_CONTROL_ERROR ''data bigger than window size'' c
          else do {
            let c = with_stream i (m_recvWindow_update (\<lambda>n. n - i32 (int (payloadSize f)))) c;
            let endStream = testFlag (fr_flags f) END_STREAM;
            let ignoreData = streamIsIgnored i c;
            c \<leftarrow> (if (dataSize f > 0 \<or> endStream) \<and> \<not> ignoreData
                 then do {
                   fragment \<leftarrow> fragment_of f;
                   c \<leftarrow> (if endStream then transitionState i CloseRemote c else Some c);
                   let c = (if useDownloadBuffer s \<and> fragment \<noteq> []
                            then with_stream i (m_downloadBuffer_update (\<lambda>b. b @ [fragment])) c else c);
                   Some (emit (dataReceived i fragment endStream) c) }
                 else Some c);
            s \<leftarrow> getStream i c;
            if \<not> endStream \<and> m_recvWindow s < half (streamInitialReceiveWindowSize c)
            then stream_sendWINDOW_UPDATE i (u32 (streamInitialReceiveWindowSize c - m_recvWindow s)) c
            else Some c } }"

definition stream_handleHEADERS :: "nat \<Rightarrow> frame_flags \<Rightarrow> header_field list \<Rightarrow> 'url h2_conn \<Rightarrow> 'url h2_conn option" where
  "stream_handleHEADERS i frameFlags headers c =
     do { s \<leftarrow> getStream i c;
          c \<leftarrow> (if m_state s = Idle then transitionState i TOpen c else Some c);
          let endStream = testFlag frameFlags END_STREAM;
          c \<leftarrow> (if endStream then transitionState i CloseRemote c else Some c);
          let c = (if headers \<noteq> [] then emit (headersUpdated i) (with_stream i (m_headers_update (\<lambda>h. h @ headers)) c) else c);
          Some (emit (headersReceived i headers endStream) c) }"

text \<open>The four octets at the beginning of the data, of a RST_STREAM or WINDOW_UPDATE frame.\<close>

definition data_u32 :: "h2_frame \<Rightarrow> nat option" where
  "data_u32 f = do { p \<leftarrow> dataBegin f; b \<leftarrow> read_bytes f p 4; Some (from_be b) }"

definition stream_handleRST_STREAM :: "nat \<Rightarrow> h2_frame \<Rightarrow> 'url h2_conn \<Rightarrow> 'url h2_conn option" where
  "stream_handleRST_STREAM i f c =
     do { s \<leftarrow> getStream i c;
          if m_state s = Closed then Some c
          else do {
            c \<leftarrow> transitionState i RST c;
            code \<leftarrow> data_u32 f;
            let c = with_stream i (m_RST_STREAM_received_update (\<lambda>_. Some code)) c;
            let c = (if isUploadingDATA s
                     then with_stream i (\<lambda>s. s\<lparr>m_uploadDevice := False, m_uploadByteDevice := None\<rparr>) c else c);
            finishWithErrorCode i code c } }"

definition valid_delta :: "nat \<Rightarrow> bool" where
  "valid_delta delta \<longleftrightarrow> delta \<noteq> 0 \<and> delta \<le> 2 ^ 31 - 1"

definition stream_handleWINDOW_UPDATE :: "nat \<Rightarrow> h2_frame \<Rightarrow> 'url h2_conn \<Rightarrow> 'url h2_conn option" where
  "stream_handleWINDOW_UPDATE i f c =
     do { s \<leftarrow> getStream i c;
          delta \<leftarrow> data_u32 f;
          case (if valid_delta delta then qAddOverflow32 (m_sendWindow s) (i32 (int delta)) else None) of
            None \<Rightarrow> streamError i PROTOCOL_ERROR ''invalid WINDOW_UPDATE delta'' c
          | Some newWindow \<Rightarrow>
              let c = with_stream i (m_sendWindow_update (\<lambda>_. newWindow)) c
              in if isUploadingDATA s then maybeResumeUpload i c else Some c }"

text \<open>The destructor.\<close>

definition delete_stream :: "nat \<Rightarrow> 'url h2_conn \<Rightarrow> 'url h2_conn option" where
  "delete_stream i c =
     do { s \<leftarrow> getStream i c;
          c \<leftarrow> (if isActive s
               then map_option snd (sendRST_STREAM i (if isUploadingDATA s then CANCEL else HTTP2_NO_ERROR) c)
               else Some c);
          Some (c\<lparr>m_streams := filter (\<lambda>(k, _). k \<noteq> i) (m_streams c)\<rparr>) }"

end
