(* ===== verification/Http2Connection.thy ===== *)
theory Http2Connection
  imports Http2Stream
begin

text \<open>
  The connection, \<open>QHttp2Connection\<close> of \<open>src/network/access/qhttp2connection.cpp\<close>: creation of
  connections and streams, prefaces and settings, shutdown, the handler of each frame type, header
  blocks over CONTINUATION frames, and the loop over the frames that have arrived. Results are
  as in the theory of streams. \<open>QUrl\<close> and the octets of the random generator are parameters.
\<close>

record 'url h2_env =
  make_url :: "bytes \<Rightarrow> bytes \<Rightarrow> bytes \<Rightarrow> 'url option"
  ping_data :: bytes

subsection \<open>Sending\<close>

definition sendGOAWAYFrame :: "nat \<Rightarrow> nat \<Rightarrow> 'url h2_conn \<Rightarrow> bool \<times> 'url h2_conn" where
  "sendGOAWAYFrame errorCode lastStreamID c =
     (if \<not> dev_open (c_socket c) then (False, c)
      else send_frame (fw_append32 errorCode (fw_append32 lastStreamID (fw_start GOAWAY EMPTY connectionStreamID))) c)"

definition sendSETTINGS_ACK :: "'url h2_conn \<Rightarrow> bool \<times> 'url h2_conn" where
  "sendSETTINGS_ACK c = send_frame (fw_start SETTINGS ACK connectionStreamID) c"

definition sendSETTINGS :: "'url h2_conn \<Rightarrow> bool \<times> 'url h2_conn" where
  "sendSETTINGS c =
     (let (ok, c) = send_frame (setOutboundFrame (configurationToSettingsFrame (m_config c))) c
      in if \<not> ok then (False, c)
         else let c = c\<lparr>sessionReceiveWindowSize := maxSessionReceiveWindowSize c\<rparr>;
                  delta = maxSessionReceiveWindowSize c - int defaultSessionWindowSize;
                  (ok, c) = (if delta \<noteq> 0 then sendWINDOW_UPDATE connectionStreamID (u32 delta) c else (True, c))
              in if \<not> ok then (False, c) else (True, c\<lparr>waitingForSettingsACK := True\<rparr>))"

definition sendClientPreface :: "'url h2_conn \<Rightarrow> bool \<times> 'url h2_conn" where
  "sendClientPreface c =
     (let (written, sock) = dev_write Http2clientPreface (c_socket c);
          c = c\<lparr>c_socket := sock\<rparr>
      in if written \<noteq> int clientPrefaceLength then (False, c)
         else let (ok, c) = sendSETTINGS c
              in if \<not> ok then (False, c)
                 else let c = c\<lparr>m_prefaceSent := True\<rparr>
                      in (True, if dev_in (c_socket c) \<noteq> [] then enqueue Queued_handleReadyRead c else c))"

definition sendServerPreface :: "'url h2_conn \<Rightarrow> bool \<times> 'url h2_conn" where
  "sendServerPreface c =
     (let (ok, c) = sendSETTINGS c in if \<not> ok then (False, c) else (True, c\<lparr>m_prefaceSent := True\<rparr>))"

definition sendPing_data :: "bytes \<Rightarrow> 'url h2_conn \<Rightarrow> bool \<times> 'url h2_conn" where
  "sendPing_data octets8 c =
     (let w = fw_start PING EMPTY connectionStreamID
      in if m_lastPingSignature c \<noteq> None then (False, c\<lparr>frameWriter := w\<rparr>)
         else (True, snd (send_frame (fw_append octets8 w) (c\<lparr>m_lastPingSignature := Some octets8\<rparr>))))"

definition sendPing :: "'url h2_env \<Rightarrow> 'url h2_conn \<Rightarrow> bool \<times> 'url h2_conn" where
  "sendPing e c = sendPing_data (ping_data e) c"

subsection \<open>Errors and shutdown\<close>

fun each_stream :: "(nat \<Rightarrow> 'url h2_conn \<Rightarrow> 'url h2_conn option) \<Rightarrow> nat list \<Rightarrow> 'url h2_conn \<Rightarrow> 'url h2_conn option" where
  "each_stream f [] c = Some c"
| "each_stream f (i # is) c = do { c \<leftarrow> f i c; each_stream f is c }"

definition finish_if_active :: "nat \<Rightarrow> string \<Rightarrow> nat \<Rightarrow> 'url h2_conn \<Rightarrow> 'url h2_conn option" where
  "finish_if_active errorCode message i c =
     (if streamIsActive (getStream i c) then finishWithError i errorCode message c else Some c)"

definition connectionError :: "nat \<Rightarrow> string \<Rightarrow> 'url h2_conn \<Rightarrow> 'url h2_conn option" where
  "connectionError errorCode message c =
     (if m_connectionAborted c then Some c
      else let c = c\<lparr>m_connectionAborted := True, m_goingAway := True,
                     m_lastStreamToProcess := min (m_lastIncomingStreamID c) (m_lastStreamToProcess c)\<rparr>;
               c = snd (sendGOAWAYFrame errorCode (m_lastStreamToProcess c) c)
           in map_option closeSession (each_stream (finish_if_active errorCode message) (map fst (m_streams c)) c))"

definition handleConnectionClosure :: "'url h2_conn \<Rightarrow> 'url h2_conn option" where
  "handleConnectionClosure c = each_stream (finish_if_active PROTOCOL_ERROR ''Connection closed'') (map fst (m_streams c)) c"

definition sendClientGracefulShutdownGoaway :: "'url h2_conn \<Rightarrow> 'url h2_conn" where
  "sendClientGracefulShutdownGoaway c =
     (if m_connectionAborted c \<or> m_goingAway c then c
      else let c = c\<lparr>m_goingAway := True, m_gracefulShutdownState := FinalGOAWAYSent,
                     m_lastStreamToProcess := m_lastIncomingStreamID c\<rparr>
           in maybeCloseOnGoingAway (snd (sendGOAWAYFrame HTTP2_NO_ERROR (m_lastStreamToProcess c) c)))"

definition GoawayGracePeriod :: nat where "GoawayGracePeriod = 60"

definition sendInitialServerGracefulShutdownGoaway :: "'url h2_env \<Rightarrow> 'url h2_conn \<Rightarrow> 'url h2_conn" where
  "sendInitialServerGracefulShutdownGoaway e c =
     (if m_connectionAborted c \<or> m_goingAway c then c
      else let c = c\<lparr>m_goingAway := True, m_goawayGraceTimer := c_now c + GoawayGracePeriod\<rparr>;
               c = snd (sendGOAWAYFrame HTTP2_NO_ERROR lastValidStreamID c);
               (ok, c) = sendPing e c
           in c\<lparr>m_gracefulShutdownState := (if ok then AwaitingShutdownPing else AwaitingPriorPing)\<rparr>)"

definition sendFinalServerGracefulShutdownGoaway :: "'url h2_conn \<Rightarrow> 'url h2_conn" where
  "sendFinalServerGracefulShutdownGoaway c =
     (if m_connectionAborted c \<or> \<not> m_goingAway c then c
      else let c = c\<lparr>m_gracefulShutdownState := FinalGOAWAYSent, m_lastStreamToProcess := m_lastIncomingStreamID c\<rparr>
           in maybeCloseOnGoingAway (snd (sendGOAWAYFrame HTTP2_NO_ERROR (m_lastStreamToProcess c) c)))"

definition close_connection :: "'url h2_env \<Rightarrow> nat \<Rightarrow> 'url h2_conn \<Rightarrow> 'url h2_conn option" where
  "close_connection e errorCode c =
     (if m_connectionAborted c then Some c
      else if errorCode = HTTP2_NO_ERROR
      then Some (if m_connectionType c = Server then sendInitialServerGracefulShutdownGoaway e c
                 else sendClientGracefulShutdownGoaway c)
      else connectionError errorCode ''Connection closed with error'' c)"

subsection \<open>Creation\<close>

definition numActiveStreamsImpl :: "nat \<Rightarrow> 'url h2_conn \<Rightarrow> nat" where
  "numActiveStreamsImpl parity c =
     length (filter (\<lambda>(k, s). case s of None \<Rightarrow> False | Some s \<Rightarrow> m_streamID s mod 2 = parity \<and> isActive s) (m_streams c))"

definition numActiveRemoteStreams :: "'url h2_conn \<Rightarrow> nat" where
  "numActiveRemoteStreams c = numActiveStreamsImpl (if m_connectionType c = Client then 0 else 1) c"

definition numActiveLocalStreams :: "'url h2_conn \<Rightarrow> nat" where
  "numActiveLocalStreams c = numActiveStreamsImpl (if m_connectionType c = Client then 1 else 0) c"

definition createStreamInternal_impl :: "nat \<Rightarrow> bool \<Rightarrow> 'url h2_conn \<Rightarrow> bool \<times> 'url h2_conn" where
  "createStreamInternal_impl streamID conf c =
     (let (ok, c) = (if m_connectionType c = Client \<and> \<not> m_prefaceSent c then sendClientPreface c else (True, c))
      in if \<not> ok then (False, c)
         else if has_entry streamID c then (False, c)
         else (True, c\<lparr>m_streams := m_streams c @
                [(streamID, Some ((QHttp2Stream streamID conf)\<lparr>m_recvWindow := streamInitialReceiveWindowSize c,
                                                               m_sendWindow := streamInitialSendWindowSize c\<rparr>))]\<rparr>))"

definition createLocalStreamInternal :: "bool \<Rightarrow> 'url h2_conn \<Rightarrow> (create_stream_error + nat) \<times> 'url h2_conn" where
  "createLocalStreamInternal conf c =
     (if m_goingAway c then (Inl ReceivedGOAWAY, c)
      else let streamID = m_nextStreamID c
           in if m_peerMaxConcurrentStreams c \<le> numActiveLocalStreams c then (Inl MaxConcurrentStreamsReached, c)
              else let (ok, c) = createStreamInternal_impl streamID conf c
                   in if ok then (Inr streamID, c\<lparr>m_nextStreamID := add32 (m_nextStreamID c) 2\<rparr>)
                      else (Inl UnknownError, c))"

definition createStream :: "bool \<Rightarrow> 'url h2_conn \<Rightarrow> (create_stream_error + nat) \<times> 'url h2_conn" where
  "createStream configuration c =
     (if m_nextStreamID c > lastValidStreamID then (Inl StreamIdsExhausted, c)
      else createLocalStreamInternal configuration c)"

text \<open>The constructor with the initial values of the members, and \<open>setH2Configuration\<close>.\<close>

definition QHttp2Connection :: "io_device \<Rightarrow> nat \<Rightarrow> 'url h2_conn" where
  "QHttp2Connection sock now =
     \<lparr>m_connectionType = Client, waitingForSettingsACK = False, c_decoder = Decoder DefaultSize,
      c_encoder = Encoder DefaultSize True, pendingTableSizeUpdates = (None, None), m_config = QHttp2Configuration,
      m_streams = [], m_blockedStreams = [], m_promisedStreams = [], m_resetStreamIDs = [],
      m_lastPingSignature = None, m_nextStreamID = 1, c_maxFrameSize = minPayloadLimit,
      frameReader = FrameReader, inboundFrame = Frame, frameWriter = Frame,
      continuationExpected = False, continuedFrames = [], m_peerMaxConcurrentStreams = maxConcurrentStreams,
      m_maxConcurrentStreams = maxConcurrentStreams,
      maxSessionReceiveWindowSize = int defaultSessionWindowSize,
      sessionReceiveWindowSize = int defaultSessionWindowSize,
      streamInitialReceiveWindowSize = int defaultSessionWindowSize,
      sessionSendWindowSize = int defaultSessionWindowSize,
      streamInitialSendWindowSize = int defaultSessionWindowSize, m_maxHeaderListSize = 2 ^ 32 - 1,
      m_upgradedConnection = False, m_goingAway = False, pushPromiseEnabled = False,
      m_lastIncomingStreamID = connectionStreamID, m_lastStreamToProcess = lastValidStreamID,
      m_goawayGraceTimer = 0, m_lastGoAwayLastStreamID = None, m_connectionAborted = False,
      m_gracefulShutdownState = NoShutdown, m_prefaceSent = False, m_waitingForClientPreface = False,
      c_socket = sock, c_events = [], c_queue = [], c_now = now\<rparr>"

definition setH2Configuration :: "h2_config \<Rightarrow> 'url h2_conn \<Rightarrow> 'url h2_conn" where
  "setH2Configuration config c =
     c\<lparr>m_config := config,
       maxSessionReceiveWindowSize := i32 (int (sessionWindowSize config)),
       pushPromiseEnabled := pushEnabled config,
       streamInitialReceiveWindowSize := i32 (int (streamWindowSize config)),
       m_maxConcurrentStreams := cfg_maxConcurrentStreams config,
       c_encoder := setCompressStrings (huffmanCompressionEnabled config) (c_encoder c)\<rparr>"

definition createDirectConnection :: "io_device \<Rightarrow> nat \<Rightarrow> h2_config \<Rightarrow> 'url h2_conn" where
  "createDirectConnection sock now config =
     (setH2Configuration config (QHttp2Connection sock now))\<lparr>m_connectionType := Client\<rparr>"

definition createDirectServerConnection :: "io_device \<Rightarrow> nat \<Rightarrow> h2_config \<Rightarrow> 'url h2_conn" where
  "createDirectServerConnection sock now config =
     (setH2Configuration config (QHttp2Connection sock now))
       \<lparr>m_connectionType := Server, m_nextStreamID := 2, m_waitingForClientPreface := True\<rparr>"

text \<open>\<open>unwrap\<close> of an error throws, here \<open>None\<close>; \<open>Some None\<close> is the null pointer.\<close>

definition createUpgradedConnection :: "io_device \<Rightarrow> nat \<Rightarrow> h2_config \<Rightarrow> 'url h2_conn option option" where
  "createUpgradedConnection sock now config =
     (let c = (setH2Configuration config (QHttp2Connection sock now))
                \<lparr>m_connectionType := Client, m_upgradedConnection := True\<rparr>;
          (r, c) = createLocalStreamInternal True c
      in case r of
           Inl _ \<Rightarrow> None
         | Inr i \<Rightarrow> do { c \<leftarrow> setState i HalfClosedLocal c;
                        Some (if m_prefaceSent c then Some c else None) })"

subsection \<open>Client preface\<close>

definition readClientPreface :: "'url h2_conn \<Rightarrow> bool \<times> 'url h2_conn" where
  "readClientPreface c =
     (let (buffer, sock) = dev_read clientPrefaceLength (c_socket c);
          c = c\<lparr>c_socket := sock\<rparr>
      in if length buffer \<noteq> clientPrefaceLength then (False, c) else (buffer = Http2clientPreface, c))"

definition serverCheckClientPreface :: "'url h2_conn \<Rightarrow> (bool \<times> 'url h2_conn) option" where
  "serverCheckClientPreface c =
     (if \<not> m_waitingForClientPreface c then Some (True, c)
      else if length (dev_in (c_socket c)) < clientPrefaceLength then Some (False, c)
      else let (ok, c) = readClientPreface c
           in if \<not> ok
              then Some (False, emit (connectionErrorOccurred PROTOCOL_ERROR ''invalid client preface'')
                                  (c\<lparr>c_socket := (c_socket c)\<lparr>dev_open := False\<rparr>\<rparr>))
              else let (ok, c) = sendServerPreface (c\<lparr>m_waitingForClientPreface := False\<rparr>)
                   in if \<not> ok then map_option (Pair False) (connectionError INTERNAL_ERROR ''Failed to send server preface'' c)
                      else Some (True, c))"


subsection \<open>SETTINGS\<close>

definition maxAcceptableTableSize :: nat where "maxAcceptableTableSize = 16 * DefaultSize"

definition refuse_setting :: "nat \<Rightarrow> string \<Rightarrow> 'url h2_conn \<Rightarrow> (bool \<times> 'url h2_conn) option" where
  "refuse_setting errorCode message c = map_option (Pair False) (connectionError errorCode message c)"

definition accept_table_size :: "nat \<Rightarrow> 'url h2_conn \<Rightarrow> 'url h2_conn" where
  "accept_table_size newValue c =
     (case pendingTableSizeUpdates c of
        (first, second) \<Rightarrow>
          if first = None \<and> tableCapacity (enc_table (c_encoder c)) = newValue then c
          else if (case first of None \<Rightarrow> 2 ^ 32 - 1 | Some n \<Rightarrow> n) \<ge> newValue
          then c\<lparr>pendingTableSizeUpdates := (Some newValue, None)\<rparr>
          else c\<lparr>pendingTableSizeUpdates := (first, Some newValue)\<rparr>)"

definition adjust_window :: "int \<Rightarrow> nat \<Rightarrow> 'url h2_conn \<Rightarrow> 'url h2_conn option" where
  "adjust_window delta i c =
     (case getStream i c of
        None \<Rightarrow> Some c
      | Some s \<Rightarrow>
          (case qAddOverflow32 (m_sendWindow s) delta of
             None \<Rightarrow> streamError i PROTOCOL_ERROR ''SETTINGS window overflow'' c
           | Some newWindow \<Rightarrow>
               let c = with_stream i (m_sendWindow_update (\<lambda>_. newWindow)) c;
                   s = s\<lparr>m_sendWindow := newWindow\<rparr>
               in Some (if delta > 0 \<and> isUploadingDATA s \<and> \<not> isUploadBlocked s c
                        then enqueue (Queued_maybeResumeUpload i) c else c)))"

definition acceptSetting :: "nat \<Rightarrow> nat \<Rightarrow> 'url h2_conn \<Rightarrow> (bool \<times> 'url h2_conn) option" where
  "acceptSetting identifier newValue c =
     (if identifier = HEADER_TABLE_SIZE_ID
      then (if newValue > maxAcceptableTableSize then refuse_setting PROTOCOL_ERROR ''SETTINGS invalid table size'' c
            else Some (True, accept_table_size newValue c))
      else if identifier = INITIAL_WINDOW_SIZE_ID
      then (if newValue > 2 ^ 31 - 1 then refuse_setting FLOW_CONTROL_ERROR ''SETTINGS invalid initial window size'' c
            else let delta = int newValue - streamInitialSendWindowSize c;
                     c = c\<lparr>streamInitialSendWindowSize := int newValue\<rparr>
                 in map_option (Pair True) (each_stream (adjust_window delta) (map fst (m_streams c)) c))
      else if identifier = MAX_CONCURRENT_STREAMS_ID then Some (True, c\<lparr>m_peerMaxConcurrentStreams := newValue\<rparr>)
      else if identifier = MAX_FRAME_SIZE_ID
      then (if newValue < minPayloadLimit \<or> newValue > maxPayloadSize
            then refuse_setting PROTOCOL_ERROR ''SETTINGS max frame size is out of range'' c
            else Some (True, c\<lparr>c_maxFrameSize := newValue\<rparr>))
      else if identifier = MAX_HEADER_LIST_SIZE_ID then Some (True, c\<lparr>m_maxHeaderListSize := newValue\<rparr>)
      else if identifier = ENABLE_PUSH_ID
      then (if newValue \<noteq> 0 \<and> newValue \<noteq> 1
            then refuse_setting PROTOCOL_ERROR ''SETTINGS peer sent illegal value for ENABLE_PUSH'' c
            else if m_connectionType c = Client
            then (if newValue = 1 then refuse_setting PROTOCOL_ERROR ''SETTINGS server sent ENABLE_PUSH=1'' c
                  else Some (True, c))
            else Some (True, c\<lparr>pushPromiseEnabled := (newValue \<noteq> 0)\<rparr>))
      else Some (True, c))"

text \<open>The loop over the settings of a frame, \<open>src\<close> and \<open>endp\<close> being positions in its buffer.\<close>

partial_function (option) settings_loop :: "h2_frame \<Rightarrow> nat \<Rightarrow> nat \<Rightarrow> 'url h2_conn \<Rightarrow> (bool \<times> 'url h2_conn) option" where
  "settings_loop f src endp c =
     (if src = endp then Some (True, c)
      else do { identifier \<leftarrow> read_bytes f src 2;
                intVal \<leftarrow> read_bytes f (src + 2) 4;
                r \<leftarrow> acceptSetting (from_be identifier) (from_be intVal) c;
                if \<not> fst r then Some r else settings_loop f (src + 6) endp (snd r) })"

declare settings_loop.simps [code]

definition handleSETTINGS :: "'url h2_conn \<Rightarrow> 'url h2_conn option" where
  "handleSETTINGS c =
     (let f = inboundFrame c
      in if fr_streamID f \<noteq> connectionStreamID then connectionError PROTOCOL_ERROR ''SETTINGS on invalid stream'' c
         else if testFlag (fr_flags f) ACK
         then (if payloadSize f \<noteq> 0 then connectionError FRAME_SIZE_ERROR ''SETTINGS ACK with data'' c
               else if \<not> waitingForSettingsACK c then connectionError PROTOCOL_ERROR ''unexpected SETTINGS ACK'' c
               else Some (c\<lparr>waitingForSettingsACK := False\<rparr>))
         else do {
           (ok, c) \<leftarrow> (if dataSize f \<noteq> 0
                      then do { src \<leftarrow> dataBegin f; settings_loop f src (src + dataSize f) c }
                      else Some (True, c));
           Some (if ok then emit settingsFrameReceived (snd (sendSETTINGS_ACK c)) else c) })"

subsection \<open>DATA, PRIORITY, RST_STREAM, PING, GOAWAY and WINDOW_UPDATE\<close>

definition handleDATA :: "'url h2_conn \<Rightarrow> 'url h2_conn option" where
  "handleDATA c =
     (let f = inboundFrame c; streamID = fr_streamID f
      in if streamID = connectionStreamID then connectionError PROTOCOL_ERROR ''DATA on the connection stream'' c
         else if isInvalidStream streamID c then connectionError ENHANCE_YOUR_CALM ''DATA on invalid stream'' c
         else if \<not> streamWasResetLocally streamID c
            \<and> (case getStream streamID c of None \<Rightarrow> False | Some s \<Rightarrow> m_state s = HalfClosedRemote \<or> m_state s = Closed)
         then streamError streamID STREAM_CLOSED ''Data on closed stream'' c
         else if i32 (int (payloadSize f)) > sessionReceiveWindowSize c
         then connectionError FLOW_CONTROL_ERROR ''Flow control error'' c
         else do {
           let handled = \<not> streamWasResetLocally streamID c;
           let c = c\<lparr>sessionReceiveWindowSize := i32 (sessionReceiveWindowSize c - int (payloadSize f))\<rparr>;
           c \<leftarrow> (if handled then stream_handleDATA streamID f c else Some c);
           c \<leftarrow> (if testFlag (fr_flags f) END_STREAM
                then (if \<not> (handled \<and> streamIsIgnored streamID c) then Some (emit (receivedEND_STREAM streamID) c)
                      else do { c \<leftarrow> setState streamID Closed c; delete_stream streamID c })
                else Some c);
           Some (if sessionReceiveWindowSize c < half (maxSessionReceiveWindowSize c)
                 then (enqueue (Queued_sendWINDOW_UPDATE connectionStreamID
                                  (u32 (maxSessionReceiveWindowSize c - sessionReceiveWindowSize c))) c)
                      \<lparr>sessionReceiveWindowSize := maxSessionReceiveWindowSize c\<rparr>
                 else c) })"

definition handlePRIORITY :: "'url h2_conn \<Rightarrow> 'url h2_conn option" where
  "handlePRIORITY c =
     (let f = inboundFrame c; streamID = fr_streamID f
      in if streamIsIgnored streamID c then Some c
         else if streamID = connectionStreamID then connectionError PROTOCOL_ERROR ''PRIORITY on 0x0 stream'' c
         else if isInvalidStream streamID c then connectionError ENHANCE_YOUR_CALM ''PRIORITY on invalid stream'' c
         else do { _ \<leftarrow> priority_fields f; Some c })"

text \<open>\<open>operator[]\<close> of the hash inserts a null pointer for a missing key.\<close>

definition subscript_streams :: "nat \<Rightarrow> 'url h2_conn \<Rightarrow> 'url h2_conn" where
  "subscript_streams streamID c =
     (if has_entry streamID c then c else c\<lparr>m_streams := m_streams c @ [(streamID, None)]\<rparr>)"

definition handleRST_STREAM :: "'url h2_conn \<Rightarrow> 'url h2_conn option" where
  "handleRST_STREAM c =
     (let f = inboundFrame c; streamID = fr_streamID f
      in if streamIsIgnored streamID c then Some c
         else if streamID = connectionStreamID then connectionError PROTOCOL_ERROR ''RST_STREAM on 0x0'' c
         else do {
           code \<leftarrow> data_u32 f;
           let c = subscript_streams streamID c;
           let c = (if getStream streamID c \<noteq> None then emit (rstFrameReceived streamID code) c else c);
           let peerMask = (if m_connectionType c = Client then 0 else 1);
           let lastRelevantStreamID = (if streamID mod 2 = peerMask then m_lastIncomingStreamID c
                                       else sub32 (m_nextStreamID c) 2);
           if streamID > lastRelevantStreamID then connectionError PROTOCOL_ERROR ''RST_STREAM on idle stream'' c
           else if getStream streamID c \<noteq> None then stream_handleRST_STREAM streamID f c else Some c })"

definition handlePING :: "'url h2_env \<Rightarrow> 'url h2_conn \<Rightarrow> 'url h2_conn option" where
  "handlePING e c =
     (let f = inboundFrame c
      in if fr_streamID f \<noteq> connectionStreamID then connectionError PROTOCOL_ERROR ''PING on invalid stream'' c
         else do {
           p \<leftarrow> dataBegin f;
           payload \<leftarrow> read_bytes f p 8;
           if fr_flags f AND ACK \<noteq> 0
           then let c = emit (pingFrameReceived
                          (case m_lastPingSignature c of
                             None \<Rightarrow> PongNoPingSent
                           | Some signature \<Rightarrow> if payload \<noteq> signature then PongSignatureChanged else PongSignatureIdentical)) c;
                    c = c\<lparr>m_lastPingSignature := None\<rparr>
                in Some (if m_gracefulShutdownState c = AwaitingShutdownPing then sendFinalServerGracefulShutdownGoaway c
                         else if m_gracefulShutdownState c = AwaitingPriorPing
                         then snd (sendPing e (c\<lparr>m_gracefulShutdownState := AwaitingShutdownPing\<rparr>))
                         else c)
           else Some (snd (send_frame (fw_append payload (fw_start PING ACK connectionStreamID))
                             (emit (pingFrameReceived Ping) c))) })"

text \<open>The identifiers \<open>a\<close>, \<open>a + 2\<close>, \dots below \<open>b\<close>.\<close>

definition every_second :: "nat \<Rightarrow> nat \<Rightarrow> nat list" where
  "every_second a b = map (\<lambda>k. a + 2 * k) [0..<(b - a + 1) div 2]"

definition handleGOAWAY :: "'url h2_conn \<Rightarrow> 'url h2_conn option" where
  "handleGOAWAY c =
     (let f = inboundFrame c
      in if fr_streamID f \<noteq> connectionStreamID then connectionError PROTOCOL_ERROR ''GOAWAY on invalid stream'' c
         else do {
           src \<leftarrow> dataBegin f;
           b1 \<leftarrow> read_bytes f src 4;
           b2 \<leftarrow> read_bytes f (src + 4) 4;
           let lastStreamID = from_be b1 mod 2 ^ 31;
           let errorCode = from_be b2;
           let LocalMask = (if m_connectionType c = Client then 1 else 0);
           if lastStreamID \<noteq> 0 \<and> lastStreamID mod 2 \<noteq> LocalMask
           then connectionError PROTOCOL_ERROR ''GOAWAY with invalid last stream ID'' c
           else if (case m_lastGoAwayLastStreamID c of None \<Rightarrow> False | Some l \<Rightarrow> lastStreamID > l)
           then connectionError PROTOCOL_ERROR ''Repeated GOAWAY with invalid last stream ID'' c
           else do {
             let c = emit (receivedGOAWAY errorCode lastStreamID)
                       (c\<lparr>m_lastGoAwayLastStreamID := Some lastStreamID, m_goingAway := True\<rparr>);
             if errorCode = HTTP2_NO_ERROR
             then do {
               let firstPossibleStream = (if m_connectionType c = Client then 1 else 2);
               let firstCancelledStream = (if lastStreamID \<noteq> 0 then lastStreamID + 2 else firstPossibleStream);
               c \<leftarrow> each_stream (finish_if_active errorCode ''Received GOAWAY'')
                      (every_second firstCancelledStream (m_nextStreamID c)) c;
               Some (maybeCloseOnGoingAway c) }
             else do {
               let c = c\<lparr>m_connectionAborted := True\<rparr>;
               c \<leftarrow> each_stream (finish_if_active errorCode ''Received GOAWAY'') (map fst (m_streams c)) c;
               Some (closeSession c) } } })"

definition resume_blocked :: "nat \<Rightarrow> 'url h2_conn \<Rightarrow> 'url h2_conn" where
  "resume_blocked i c =
     (case getStream i c of
        None \<Rightarrow> c
      | Some s \<Rightarrow> if isActive s \<and> isUploadingDATA s \<and> \<not> isUploadBlocked s c
                  then enqueue (Queued_maybeResumeUpload i) c else c)"

definition handleWINDOW_UPDATE :: "'url h2_conn \<Rightarrow> 'url h2_conn option" where
  "handleWINDOW_UPDATE c =
     do { let f = inboundFrame c;
          delta \<leftarrow> data_u32 f;
          let streamID = fr_streamID f;
          if streamIsIgnored streamID c then Some c
          else if streamID = connectionStreamID
          then (case (if valid_delta delta then qAddOverflow32 (sessionSendWindowSize c) (i32 (int delta)) else None) of
                  None \<Rightarrow> connectionError PROTOCOL_ERROR ''WINDOW_UPDATE invalid delta'' c
                | Some newWindow \<Rightarrow>
                    let blockedStreams = m_blockedStreams c
                    in Some (fold resume_blocked blockedStreams
                               (c\<lparr>sessionSendWindowSize := newWindow, m_blockedStreams := []\<rparr>)))
          else if \<not> streamIsActive (getStream streamID c) then Some c
          else if \<not> valid_delta delta then streamError streamID PROTOCOL_ERROR ''WINDOW_UPDATE invalid delta'' c
          else stream_handleWINDOW_UPDATE streamID f c }"


subsection \<open>HEADERS, PUSH_PROMISE and CONTINUATION\<close>

definition keep_frame :: "'url h2_conn \<Rightarrow> 'url h2_conn" where
  "keep_frame c = c\<lparr>continuedFrames := continuedFrames c @ [inboundFrame c], inboundFrame := \<lparr>fr_buffer = []\<rparr>\<rparr>"

text \<open>The header block is decoded, or it was empty; \<open>first\<close> is the HEADERS or PUSH_PROMISE frame.\<close>

definition handle_header_list :: "'url h2_env \<Rightarrow> h2_frame \<Rightarrow> 'url h2_conn \<Rightarrow> 'url h2_conn option" where
  "handle_header_list e first c =
     (let streamID = fr_streamID first;
          decodedHeader = dec_header (c_decoder c)
      in if streamWasResetLocally streamID c \<or> \<not> has_entry streamID c then Some c
         else if streamIsIgnored streamID c
         then (if testFlag (fr_flags first) END_STREAM \<and> getStream streamID c \<noteq> None
               then do { c \<leftarrow> setState streamID Closed c; delete_stream streamID c }
               else Some c)
         else case fr_type first of
                HEADERS \<Rightarrow> stream_handleHEADERS streamID (fr_flags first) decodedHeader c
              | PUSH_PROMISE \<Rightarrow>
                  (case makePromiseKeyUrl (make_url e) decodedHeader of
                     None \<Rightarrow> Some c
                   | Some promiseKey \<Rightarrow>
                       if map_of (m_promisedStreams c) promiseKey \<noteq> None then Some c
                       else do {
                         promiseID \<leftarrow> data_u32 first;
                         c \<leftarrow> transitionState promiseID CloseLocal c;
                         c \<leftarrow> stream_handleHEADERS promiseID (fr_flags first) decodedHeader c;
                         let c = emit (newPromisedStream promiseID) c;
                         Some (c\<lparr>m_promisedStreams := m_promisedStreams c @ [(promiseKey, promiseID)]\<rparr>) })
              | _ \<Rightarrow> Some c)"

definition decode_header_block :: "'url h2_env \<Rightarrow> h2_frame \<Rightarrow> 'url h2_conn \<Rightarrow> 'url h2_conn option" where
  "decode_header_block e first c =
     do { hpackBlock \<leftarrow> assemble_hpack_block (continuedFrames c);
          if hpackBlock \<noteq> []
          then do {
            (ok, _, d) \<leftarrow> decodeHeaderFields (BitIStream hpackBlock) (c_decoder c);
            let c = c\<lparr>c_decoder := d\<rparr>;
            if \<not> ok then connectionError COMPRESSION_ERROR ''HPACK decompression failed'' c
            else handle_header_list e first c }
          else if fr_type first = PUSH_PROMISE
          then (if has_entry (fr_streamID first) c
                then streamError (fr_streamID first) PROTOCOL_ERROR ''PUSH_PROMISE with incomplete headers'' c
                else Some c)
          else if list_ex (\<lambda>f. hpackBlockSize f > 0) (continuedFrames c)
          then connectionError FRAME_SIZE_ERROR ''HEADERS frame too large'' c
          else handle_header_list e first c }"

definition handleContinuedHEADERS :: "'url h2_env \<Rightarrow> 'url h2_conn \<Rightarrow> 'url h2_conn option" where
  "handleContinuedHEADERS e c =
     (case continuedFrames c of
        [] \<Rightarrow> None
      | first # _ \<Rightarrow>
          let streamID = fr_streamID first
          in if fr_type first = HEADERS \<and> has_entry streamID c \<and> \<not> streamWasResetLocally streamID c
             then do {
               s \<leftarrow> getStream streamID c;
               if m_state s \<noteq> HalfClosedLocal \<and> m_state s \<noteq> ReservedRemote \<and> m_state s \<noteq> Idle \<and> m_state s \<noteq> Open
               then streamError streamID PROTOCOL_ERROR ''HEADERS on invalid stream'' c
               else decode_header_block e first c }
             else decode_header_block e first c)"

definition start_block :: "'url h2_env \<Rightarrow> 'url h2_conn \<Rightarrow> 'url h2_conn option" where
  "start_block e c =
     (let endHeaders = testFlag (fr_flags (inboundFrame c)) END_HEADERS;
          c = keep_frame (c\<lparr>continuedFrames := []\<rparr>)
      in if \<not> endHeaders then Some (c\<lparr>continuationExpected := True\<rparr>) else handleContinuedHEADERS e c)"

definition handleHEADERS :: "'url h2_env \<Rightarrow> 'url h2_conn \<Rightarrow> 'url h2_conn option" where
  "handleHEADERS e c =
     (let f = inboundFrame c;
          streamID = fr_streamID f;
          isClient = (m_connectionType c = Client);
          isClientInitiatedStream = (streamID mod 2 = 1);
          isRemotelyInitiatedStream = (isClient \<noteq> isClientInitiatedStream);
          go_on = (\<lambda>c. do { c \<leftarrow> (if testFlag (fr_flags f) PRIORITY_FLAG then handlePRIORITY c else Some c); start_block e c })
      in if streamID = connectionStreamID then connectionError PROTOCOL_ERROR ''HEADERS on 0x0 stream'' c
         else if isRemotelyInitiatedStream \<and> streamID > m_lastIncomingStreamID c
         then (let streamCountIsOk = (m_maxConcurrentStreams c > numActiveRemoteStreams c);
                   (created, c) = createStreamInternal_impl streamID True c
               in if \<not> created then None
                  else let c = c\<lparr>m_lastIncomingStreamID := streamID\<rparr>
                       in if \<not> streamCountIsOk
                          then do {
                            c \<leftarrow> setState streamID Open c;
                            c \<leftarrow> streamError streamID PROTOCOL_ERROR ''Max concurrent streams reached'' c;
                            Some (emit (incomingStreamErrorOccured MaxConcurrentStreamsReached) c) }
                          else if \<not> streamIsIgnored streamID c then go_on (emit (newIncomingStream streamID) c)
                          else if m_goawayGraceTimer c \<le> c_now c
                          then connectionError PROTOCOL_ERROR ''Peer refused to GOAWAY.'' c
                          else go_on c)
         else if streamWasResetLocally streamID c then go_on c
         else if \<not> has_entry streamID c then connectionError PROTOCOL_ERROR ''HEADERS on invalid stream'' c
         else if isInvalidStream streamID c then connectionError ENHANCE_YOUR_CALM ''HEADERS on invalid stream'' c
         else go_on c)"

definition handlePUSH_PROMISE :: "'url h2_env \<Rightarrow> 'url h2_conn \<Rightarrow> 'url h2_conn option" where
  "handlePUSH_PROMISE e c =
     (let f = inboundFrame c; streamID = fr_streamID f
      in if \<not> pushPromiseEnabled c \<and> \<not> waitingForSettingsACK c
         then connectionError PROTOCOL_ERROR ''unexpected PUSH_PROMISE frame'' c
         else if streamID = connectionStreamID
         then connectionError PROTOCOL_ERROR ''PUSH_PROMISE with invalid associated stream (0x0)'' c
         else if \<not> has_entry streamID c \<or> streamID mod 2 = (if m_connectionType c = Client then 0 else 1)
         then connectionError ENHANCE_YOUR_CALM ''PUSH_PROMISE with invalid associated stream'' c
         else do {
           associated \<leftarrow> getStream streamID c;
           if m_state associated \<noteq> Open \<and> m_state associated \<noteq> HalfClosedLocal
           then connectionError ENHANCE_YOUR_CALM ''PUSH_PROMISE with invalid associated stream'' c
           else do {
             reservedID \<leftarrow> data_u32 f;
             if reservedID mod 2 = 1 \<or> reservedID \<le> m_lastIncomingStreamID c \<or> reservedID > lastValidStreamID
             then connectionError PROTOCOL_ERROR ''PUSH_PROMISE with invalid promised stream ID'' c
             else let streamCountIsOk = (m_maxConcurrentStreams c > numActiveRemoteStreams c);
                      (created, c) = createStreamInternal_impl reservedID True c
                  in if \<not> created then connectionError PROTOCOL_ERROR ''PUSH_PROMISE with already active stream ID'' c
                     else do {
                       c \<leftarrow> setState reservedID ReservedRemote (c\<lparr>m_lastIncomingStreamID := reservedID\<rparr>);
                       if \<not> streamCountIsOk
                       then map_option (emit (incomingStreamErrorOccured MaxConcurrentStreamsReached))
                              (streamError reservedID PROTOCOL_ERROR ''Max concurrent streams reached'' c)
                       else if \<not> pushPromiseEnabled c
                       then streamError reservedID REFUSE_STREAM ''PUSH_PROMISE not enabled but ignored'' c
                       else start_block e c } } })"

definition handleCONTINUATION :: "'url h2_env \<Rightarrow> 'url h2_conn \<Rightarrow> 'url h2_conn option" where
  "handleCONTINUATION e c =
     (case continuedFrames c of
        [] \<Rightarrow> connectionError PROTOCOL_ERROR ''CONTINUATION without a preceding HEADERS or PUSH_PROMISE'' c
      | first # _ \<Rightarrow>
          let f = inboundFrame c
          in if \<not> continuationExpected c
             then connectionError PROTOCOL_ERROR ''CONTINUATION after a frame with the END_HEADERS flag set'' c
             else if fr_streamID f \<noteq> fr_streamID first
             then connectionError PROTOCOL_ERROR ''CONTINUATION on invalid stream'' c
             else let c = keep_frame c
                  in if \<not> testFlag (fr_flags f) END_HEADERS then Some c
                     else handleContinuedHEADERS e (c\<lparr>continuationExpected := False\<rparr>))"

subsection \<open>Reading frames\<close>

definition handle_frame :: "'url h2_env \<Rightarrow> 'url h2_conn \<Rightarrow> 'url h2_conn option" where
  "handle_frame e c =
     (case fr_type (inboundFrame c) of
        DATA \<Rightarrow> handleDATA c
      | HEADERS \<Rightarrow> handleHEADERS e c
      | PRIORITY \<Rightarrow> handlePRIORITY c
      | RST_STREAM \<Rightarrow> handleRST_STREAM c
      | SETTINGS \<Rightarrow> handleSETTINGS c
      | PUSH_PROMISE \<Rightarrow> handlePUSH_PROMISE e c
      | PING \<Rightarrow> handlePING e c
      | GOAWAY \<Rightarrow> handleGOAWAY c
      | WINDOW_UPDATE \<Rightarrow> handleWINDOW_UPDATE c
      | CONTINUATION \<Rightarrow> handleCONTINUATION e c
      | LAST_FRAME_TYPE \<Rightarrow> Some c)"

definition frame_size_error :: "'url h2_conn \<Rightarrow> 'url h2_conn option" where
  "frame_size_error c =
     (let f = rd_frame (frameReader c); streamID = fr_streamID f; frameType = fr_type f
      in if frameType = HEADERS \<or> frameType = SETTINGS \<or> frameType = PUSH_PROMISE \<or> frameType = CONTINUATION
            \<or> frameType = RST_STREAM \<or> streamID = connectionStreamID
         then connectionError FRAME_SIZE_ERROR ''invalid frame size'' c
         else if getStream streamID c \<noteq> None then streamError streamID FRAME_SIZE_ERROR ''invalid frame size'' c
         else Some c)"

text \<open>One round of the loop: \<open>True\<close> if the loop goes on. The frame is moved out of the reader.\<close>

definition read_round :: "'url h2_env \<Rightarrow> 'url h2_conn \<Rightarrow> (bool \<times> 'url h2_conn) option" where
  "read_round e c =
     (let (status, reader, sock) = read_frame (frameReader c) (c_socket c);
          c = c\<lparr>frameReader := reader, c_socket := sock\<rparr>
      in case status of
           incompleteFrame \<Rightarrow> Some (False, c)
         | protocolError \<Rightarrow> map_option (Pair False) (connectionError PROTOCOL_ERROR ''invalid frame'' c)
         | sizeError \<Rightarrow> map_option (Pair False) (frame_size_error c)
         | goodFrame \<Rightarrow>
             let c = c\<lparr>inboundFrame := rd_frame reader, frameReader := reader\<lparr>rd_frame := \<lparr>fr_buffer = []\<rparr>\<rparr>\<rparr>
             in if continuationExpected c \<and> fr_type (inboundFrame c) \<noteq> CONTINUATION
                then map_option (Pair False) (connectionError PROTOCOL_ERROR ''CONTINUATION expected'' c)
                else map_option (Pair True) (handle_frame e c))"

partial_function (option) read_loop :: "'url h2_env \<Rightarrow> 'url h2_conn \<Rightarrow> 'url h2_conn option" where
  "read_loop e c =
     (if m_connectionAborted c then Some c
      else do { r \<leftarrow> read_round e c; if fst r then read_loop e (snd r) else Some (snd r) })"

declare read_loop.simps [code]

definition handleReadyRead :: "'url h2_env \<Rightarrow> 'url h2_conn \<Rightarrow> 'url h2_conn option" where
  "handleReadyRead e c =
     do { (ok, c) \<leftarrow> (if m_connectionType c = Server then serverCheckClientPreface c else Some (True, c));
          if \<not> ok \<or> \<not> m_prefaceSent c then Some c else read_loop e c }"

text \<open>A call from the event loop; a stream that has gone takes its queued calls with it.\<close>

definition run_queued :: "'url h2_env \<Rightarrow> queued_call \<Rightarrow> 'url h2_conn \<Rightarrow> 'url h2_conn option" where
  "run_queued e q c =
     (case q of
        Queued_handleReadyRead \<Rightarrow> handleReadyRead e c
      | Queued_sendWINDOW_UPDATE streamID delta \<Rightarrow> Some (snd (sendWINDOW_UPDATE streamID delta c))
      | Queued_maybeResumeUpload i \<Rightarrow> if getStream i c = None then Some c else maybeResumeUpload i c)"

text \<open>The destructor takes the streams out of the table and deletes them: the active ones are reset.\<close>

definition destroy_stream :: "h2_stream \<Rightarrow> 'url h2_conn \<Rightarrow> 'url h2_conn" where
  "destroy_stream s c =
     (if isActive s \<and> m_RST_STREAM_received s = None
      then let c = registerStreamAsResetLocally (m_streamID s) c;
               c = maybeCloseOnGoingAway (emit (stateChanged (m_streamID s) Closed) c)
           in snd (send_frame (fw_append32 (if isUploadingDATA s then CANCEL else HTTP2_NO_ERROR)
                                 (fw_start RST_STREAM EMPTY (m_streamID s))) c)
      else c)"

definition destroy_connection :: "'url h2_conn \<Rightarrow> 'url h2_conn" where
  "destroy_connection c =
     fold (\<lambda>(k, s) c. case s of None \<Rightarrow> c | Some s \<Rightarrow> destroy_stream s c) (m_streams c) (c\<lparr>m_streams := []\<rparr>)"

end
