(* ===== verification/Http2Steps.thy ===== *)
theory Http2Steps
  imports Http2Connection
begin

text \<open>
  Operations as sequences of small changes. \<open>change\<close> lists what one assignment of the code may do
  to a connection, each under the guard the code establishes before it: a window shrinks by what it
  holds at most, an identifier is used once, a state follows the state machine. Every operation
  of a stream and of sending leads from a state to its result by such changes, so that an invariant
  or a relation that each single change keeps is kept by all of them.
\<close>


subsection \<open>Single changes of a connection\<close>

definition sock_step :: "io_device \<Rightarrow> io_device \<Rightarrow> bool" where
  "sock_step a b \<longleftrightarrow> dev_in b = dev_in a \<and> (\<exists>ys. dev_out b = dev_out a @ ys) \<and> (dev_open b \<longrightarrow> dev_open a)"

text \<open>The part of the state that only changes under guards.\<close>

definition guarded :: "'url h2_conn \<Rightarrow> _" where
  "guarded c = (m_connectionType c, m_config c, c_encoder c, pendingTableSizeUpdates c, m_streams c, m_resetStreamIDs c,
     m_nextStreamID c, c_maxFrameSize c, frameReader c, continuationExpected c, continuedFrames c,
     (maxSessionReceiveWindowSize c, sessionReceiveWindowSize c, streamInitialReceiveWindowSize c,
      sessionSendWindowSize c, streamInitialSendWindowSize c),
     m_goingAway c, m_lastIncomingStreamID c, m_lastStreamToProcess c, m_lastGoAwayLastStreamID c, m_connectionAborted c)"

definition log_grows :: "'url h2_conn \<Rightarrow> 'url h2_conn \<Rightarrow> bool" where
  "log_grows c d \<longleftrightarrow> (\<exists>evs. c_events d = c_events c @ evs) \<and> sock_step (c_socket c) (c_socket d)"

definition may_become :: "stream_state \<Rightarrow> stream_state \<Rightarrow> bool" where
  "may_become s t \<longleftrightarrow> (\<exists>tr. next_state s tr = Some t) \<or> t = Closed \<or> (s = Idle \<and> t \<in> {ReservedRemote, HalfClosedLocal})"

text \<open>Updates of a stream that leave its identity, state and windows alone.\<close>

definition inert :: "(h2_stream \<Rightarrow> h2_stream) \<Rightarrow> bool" where
  "inert f \<longleftrightarrow> (\<forall>s. m_streamID (f s) = m_streamID s \<and> m_state (f s) = m_state s
     \<and> m_recvWindow (f s) = m_recvWindow s \<and> m_sendWindow (f s) = m_sendWindow s)"

definition pending_ok :: "nat option \<times> nat option \<Rightarrow> bool" where
  "pending_ok p \<longleftrightarrow> (case p of
     (None, None) \<Rightarrow> True
   | (Some a, None) \<Rightarrow> a \<le> maxAcceptableTableSize
   | (Some a, Some b) \<Rightarrow> a < b \<and> b \<le> maxAcceptableTableSize
   | _ \<Rightarrow> False)"

definition enc_ok :: "hpack_encoder \<Rightarrow> bool" where
  "enc_ok e \<longleftrightarrow> tbl_inv (enc_table e) \<and> useIndex (enc_table e)"

definition block_ok :: "bool \<Rightarrow> h2_frame list \<Rightarrow> bool" where
  "block_ok expected fs \<longleftrightarrow> (expected \<longrightarrow> fs \<noteq> [] \<and> (\<forall>f\<in>set fs. fr_streamID f = fr_streamID (hd fs)))"

definition fresh_stream :: "nat \<Rightarrow> bool \<Rightarrow> 'url h2_conn \<Rightarrow> h2_stream" where
  "fresh_stream i conf c = (QHttp2Stream i conf)
     \<lparr>m_recvWindow := streamInitialReceiveWindowSize c, m_sendWindow := streamInitialSendWindowSize c\<rparr>"

inductive change :: "'url h2_conn \<Rightarrow> 'url h2_conn \<Rightarrow> bool" where
  quiet: "guarded d = guarded c \<Longrightarrow> log_grows c d \<Longrightarrow> change c d"
| abort: "change c (c\<lparr>m_connectionAborted := True\<rparr>)"
| go_away: "change c (c\<lparr>m_goingAway := True\<rparr>)"
| cut_off: "n = m_lastIncomingStreamID c \<or> n \<le> m_lastStreamToProcess c \<Longrightarrow> change c (c\<lparr>m_lastStreamToProcess := n\<rparr>)"
| peer_cut_off: "(\<And>l. m_lastGoAwayLastStreamID c = Some l \<Longrightarrow> n \<le> l) \<Longrightarrow> n \<le> lastValidStreamID
    \<Longrightarrow> change c (c\<lparr>m_lastGoAwayLastStreamID := Some n\<rparr>)"
| reset_id: "change c (registerStreamAsResetLocally i c)"
| frame_size: "minPayloadLimit \<le> n \<Longrightarrow> n \<le> maxPayloadSize \<Longrightarrow> change c (c\<lparr>c_maxFrameSize := n\<rparr>)"
| table_size: "(pending_ok (pendingTableSizeUpdates c) \<Longrightarrow> pending_ok p) \<Longrightarrow> change c (c\<lparr>pendingTableSizeUpdates := p\<rparr>)"
| encoder: "(enc_ok (c_encoder c) \<Longrightarrow> pending_ok (pendingTableSizeUpdates c) \<Longrightarrow> enc_ok e)
    \<Longrightarrow> change c (c\<lparr>c_encoder := e\<rparr>)"
| header_block: "(block_ok (continuationExpected c) (continuedFrames c) \<Longrightarrow> block_ok b fs)
    \<Longrightarrow> change c (c\<lparr>continuationExpected := b, continuedFrames := fs\<rparr>)"
| session_take: "0 \<le> n \<Longrightarrow> n \<le> sessionReceiveWindowSize c
    \<Longrightarrow> change c (c\<lparr>sessionReceiveWindowSize := i32 (sessionReceiveWindowSize c - n)\<rparr>)"
| session_refill: "change c (c\<lparr>sessionReceiveWindowSize := maxSessionReceiveWindowSize c\<rparr>)"
| session_grant: "sessionSendWindowSize c \<le> n \<Longrightarrow> n < 2 ^ 31 \<Longrightarrow> change c (c\<lparr>sessionSendWindowSize := n\<rparr>)"
| initial_grant: "0 \<le> n \<Longrightarrow> n < 2 ^ 31 \<Longrightarrow> change c (c\<lparr>streamInitialSendWindowSize := n\<rparr>)"
| stream_state: "getStream i c = Some s \<Longrightarrow> may_become (m_state s) t
    \<Longrightarrow> change c (with_stream i (m_state_update (\<lambda>_. t)) c)"
| stream_inert: "inert f \<Longrightarrow> change c (with_stream i f c)"
| stream_take: "getStream i c = Some s \<Longrightarrow> 0 \<le> n \<Longrightarrow> n \<le> m_recvWindow s
    \<Longrightarrow> change c (with_stream i (m_recvWindow_update (\<lambda>w. w - n)) c)"
| stream_refill: "getStream i c = Some s
    \<Longrightarrow> (0 \<le> m_recvWindow s \<Longrightarrow> streamInitialReceiveWindowSize c < 2 ^ 31 \<Longrightarrow> m_recvWindow s + n = streamInitialReceiveWindowSize c)
    \<Longrightarrow> fits_i32 (m_recvWindow s + n)
    \<Longrightarrow> change c (with_stream i (m_recvWindow_update (\<lambda>w. w + n)) c)"
| stream_grant: "fits_i32 n \<Longrightarrow> change c (with_stream i (m_sendWindow_update (\<lambda>_. n)) c)"
| stream_spend: "getStream i c = Some s \<Longrightarrow> 0 \<le> n \<Longrightarrow> n \<le> m_sendWindow s \<Longrightarrow> n \<le> sessionSendWindowSize c
    \<Longrightarrow> change c ((with_stream i (m_sendWindow_update (\<lambda>w. w - n)) c)\<lparr>sessionSendWindowSize := sessionSendWindowSize c - n\<rparr>)"
| new_local: "i = m_nextStreamID c \<Longrightarrow> \<not> has_entry i c \<Longrightarrow> i \<noteq> 0 \<Longrightarrow> i \<le> lastValidStreamID
    \<Longrightarrow> change c (c\<lparr>m_streams := m_streams c @ [(i, Some (fresh_stream i conf c))], m_nextStreamID := i + 2\<rparr>)"
| new_remote: "m_lastIncomingStreamID c < i \<Longrightarrow> \<not> has_entry i c \<Longrightarrow> i \<le> lastValidStreamID
    \<Longrightarrow> (m_connectionType c = Client \<Longrightarrow> even i)
    \<Longrightarrow> change c (c\<lparr>m_streams := m_streams c @ [(i, Some (fresh_stream i conf c))], m_lastIncomingStreamID := i\<rparr>)"
| null_stream: "\<not> has_entry i c \<Longrightarrow> i \<noteq> 0 \<Longrightarrow> change c (c\<lparr>m_streams := m_streams c @ [(i, None)]\<rparr>)"
| drop_stream: "change c (c\<lparr>m_streams := filter (\<lambda>(k, _). k \<noteq> i) (m_streams c)\<rparr>)"

abbreviation reaches :: "'url h2_conn \<Rightarrow> 'url h2_conn \<Rightarrow> bool" where
  "reaches \<equiv> change\<^sup>*\<^sup>*"

definition leads :: "('a \<Rightarrow> 'url h2_conn) \<Rightarrow> 'url h2_conn \<Rightarrow> 'a option \<Rightarrow> bool" where
  "leads f c m \<longleftrightarrow> (\<forall>x. m = Some x \<longrightarrow> reaches c (f x))"

named_theorems steps \<open>changes of a connection, and how results lead to them\<close>

lemma leads_Some [steps]: "reaches c (f x) \<Longrightarrow> leads f c (Some x)"
  by (simp add: leads_def)

lemma leads_None [steps]: "leads f c None"
  by (simp add: leads_def)

lemma leadsD: "leads f c m \<Longrightarrow> m = Some x \<Longrightarrow> reaches c (f x)"
  by (simp add: leads_def)

lemma leads_bind: "leads f c m \<Longrightarrow> (\<And>x. m = Some x \<Longrightarrow> reaches c (f x) \<Longrightarrow> leads g c (k x)) \<Longrightarrow> leads g c (Option.bind m k)"
  by (cases m) (simp_all add: leads_def)

lemma leads_lookup: "(\<And>x. m = Some x \<Longrightarrow> leads g c (k x)) \<Longrightarrow> leads g c (Option.bind m k)"
  by (cases m) (simp_all add: leads_None)

lemma leads_map: "leads (\<lambda>x. g (h x)) c m \<Longrightarrow> leads g c (map_option h m)"
  by (cases m) (simp_all add: leads_def)

lemma leads_map_conn: "leads (\<lambda>c. c) c m \<Longrightarrow> (\<And>x. reaches c x \<Longrightarrow> reaches c (h x)) \<Longrightarrow> leads (\<lambda>c. c) c (map_option h m)"
  by (cases m) (simp_all add: leads_def)

lemma leads_map_Pair [steps]: "leads (\<lambda>c. c) c m \<Longrightarrow> leads snd c (map_option (Pair b) m)"
  by (cases m) (simp_all add: leads_def)

lemma reaches_prod: "reaches c (snd p) \<Longrightarrow> (\<And>a b. p = (a, b) \<Longrightarrow> reaches c b \<Longrightarrow> reaches c (snd (f a b)))
    \<Longrightarrow> reaches c (snd (case p of (a, b) \<Rightarrow> f a b))"
  by (cases p) simp

lemma leads_prod: "reaches c (snd p) \<Longrightarrow> (\<And>a b. p = (a, b) \<Longrightarrow> reaches c b \<Longrightarrow> leads g c (f a b))
    \<Longrightarrow> leads g c (case p of (a, b) \<Rightarrow> f a b)"
  by (cases p) simp

lemma leads_from: "reaches c d \<Longrightarrow> leads f d m \<Longrightarrow> leads f c m"
  by (auto simp: leads_def)

lemma leads_if [steps]: "(b \<Longrightarrow> leads f c m) \<Longrightarrow> (\<not> b \<Longrightarrow> leads f c n) \<Longrightarrow> leads f c (if b then m else n)"
  by simp

lemma reaches_if [steps]: "(b \<Longrightarrow> reaches c d) \<Longrightarrow> (\<not> b \<Longrightarrow> reaches c e) \<Longrightarrow> reaches c (if b then d else e)"
  by simp

lemma reaches_snd_if [steps]: "(b \<Longrightarrow> reaches c (snd d)) \<Longrightarrow> (\<not> b \<Longrightarrow> reaches c (snd e)) \<Longrightarrow> reaches c (snd (if b then d else e))"
  by simp

lemma reaches_snd_pair [steps]: "reaches c d \<Longrightarrow> reaches c (snd (a, d))"
  by simp

lemma reaches_refl [steps]: "reaches c c"
  by simp

lemma after: "reaches c d \<Longrightarrow> change d e \<Longrightarrow> reaches c e"
  by (rule rtranclp.rtrancl_into_rtrancl)

lemma after_quiet: "reaches c d \<Longrightarrow> guarded e = guarded d \<Longrightarrow> log_grows d e \<Longrightarrow> reaches c e"
  by (rule after [OF _ quiet])

lemma sock_step_refl [simp]: "sock_step s s"
  by (simp add: sock_step_def)

lemma quiet_updates [steps]:
  assumes "reaches c d"
  shows "reaches c (emit ev d)" "reaches c (enqueue q d)" "reaches c (block_stream i d)"
    "reaches c (d\<lparr>waitingForSettingsACK := b\<rparr>)" "reaches c (d\<lparr>c_decoder := dec\<rparr>)" "reaches c (d\<lparr>m_blockedStreams := is\<rparr>)"
    "reaches c (d\<lparr>m_promisedStreams := ps\<rparr>)" "reaches c (d\<lparr>m_lastPingSignature := sig\<rparr>)"
    "reaches c (d\<lparr>inboundFrame := f\<rparr>)" "reaches c (d\<lparr>frameWriter := f\<rparr>)"
    "reaches c (d\<lparr>m_peerMaxConcurrentStreams := n\<rparr>)" "reaches c (d\<lparr>m_maxHeaderListSize := n\<rparr>)"
    "reaches c (d\<lparr>pushPromiseEnabled := b\<rparr>)" "reaches c (d\<lparr>m_goawayGraceTimer := n\<rparr>)"
    "reaches c (d\<lparr>m_gracefulShutdownState := gs\<rparr>)" "reaches c (d\<lparr>m_prefaceSent := b\<rparr>)"
    "reaches c (d\<lparr>m_waitingForClientPreface := b\<rparr>)" "reaches c (closeSession d)"
    "sock_step (c_socket d) sock \<Longrightarrow> reaches c (d\<lparr>c_socket := sock\<rparr>)"
  by (rule after_quiet [OF assms], simp_all add: guarded_def log_grows_def emit_def enqueue_def block_stream_def closeSession_def)+

lemmas change_after [steps] =
  after [OF _ abort] after [OF _ go_away] after [OF _ cut_off] after [OF _ peer_cut_off]
  after [OF _ reset_id] after [OF _ frame_size] after [OF _ table_size] after [OF _ encoder]
  after [OF _ session_refill] after [OF _ stream_inert]


subsection \<open>Writing\<close>

lemma sock_step_trans: "sock_step a b \<Longrightarrow> sock_step b c \<Longrightarrow> sock_step a c"
  by (auto simp: sock_step_def)

lemma dev_write_step: "dev_write bs s = (n, s') \<Longrightarrow> sock_step s s'"
  by (auto simp: dev_write_def sock_step_def Let_def split: list.splits if_splits)

lemma write_frame_step: "write_frame f s = (ok, s') \<Longrightarrow> sock_step s s'"
  by (auto simp: write_frame_def dest: dev_write_step split: prod.splits)

lemma continuation_loop_step:
  assumes "continuation_loop l b off w s = Some r" shows "sock_step s (snd r)"
  using assms
proof (induction rule: continuation_loop.raw_induct [rotated, consumes 1, case_names step])
  case (step cl l b off w s r)
  define k where "k = min l ((length b - off) mod 4294967296)"
  define v where "v = setPayloadSize k (if add32 k off = length b then addFlag END_HEADERS w else w)"
  obtain ok s1 where w1: "write_frame v s = (ok, s1)" by fastforce
  obtain n s2 where w2: "dev_write (take k (drop off b)) s1 = (n, s2)" by fastforce
  have "sock_step s s1" "sock_step s s2"
    using write_frame_step [OF w1] dev_write_step [OF w2] by (blast intro: sock_step_trans)+
  moreover have "off \<noteq> length b \<Longrightarrow> r = (False, s1) \<or> r = (False, s2) \<or> cl l b (add32 off k) v s2 = Some r"
    using step(2) w1 w2 unfolding v_def
    by (cases "add32 k off = length b") (auto simp: Let_def k_def [symmetric] split: if_splits)
  ultimately show ?case using step(2) step(1) [of l b "add32 off k" v s2 r]
    by (cases "off = length b") (auto intro: sock_step_trans)
qed

lemma writeHEADERS_step: "writeHEADERS l f s = Some (ok, f', s') \<Longrightarrow> sock_step s s'"
  by (auto simp: writeHEADERS_def Let_def split: if_splits prod.splits
      dest: write_frame_step dev_write_step dest!: continuation_loop_step intro: sock_step_trans)

lemma send_frame_reaches [steps]: "reaches c d \<Longrightarrow> reaches c (snd (send_frame f d))"
  by (auto simp: send_frame_def split: prod.splits intro!: steps dest: write_frame_step)

lemma sendWINDOW_UPDATE_reaches [steps]: "reaches c d \<Longrightarrow> reaches c (snd (sendWINDOW_UPDATE i n d))"
  by (simp add: sendWINDOW_UPDATE_def steps)

subsection \<open>Streams\<close>

lemma maybeClose_reaches [steps]: "reaches c d \<Longrightarrow> reaches c (maybeCloseOnGoingAway d)"
  by (simp add: maybeCloseOnGoingAway_def steps)

lemma setState_leads:
  assumes "reaches c d" "\<And>s. getStream i d = Some s \<Longrightarrow> may_become (m_state s) t"
  shows "leads (\<lambda>c. c) c (setState i t d)"
  unfolding setState_def
proof (intro leads_lookup steps)
  fix s assume s: "getStream i d = Some s"
  note r = after [OF assms(1) stream_state [OF s assms(2) [OF s]]]
  show "reaches c (let c = emit (stateChanged i t) (with_stream i (m_state_update (\<lambda>_. t)) d)
      in if t = Closed then maybeCloseOnGoingAway c else c)"
    unfolding Let_def by (intro steps r)
qed (rule assms(1))

lemma setState_Closed_leads [steps]: "reaches c d \<Longrightarrow> leads (\<lambda>c. c) c (setState i Closed d)"
  by (rule setState_leads) (simp_all add: may_become_def)

lemma transitionState_leads [steps]: "reaches c d \<Longrightarrow> leads (\<lambda>c. c) c (transitionState i tr d)"
  unfolding transitionState_def by (intro leads_lookup setState_leads) (auto simp: may_become_def)

lemma finishWithError_leads [steps]: "reaches c d \<Longrightarrow> leads (\<lambda>c. c) c (finishWithError i code msg d)"
  unfolding finishWithError_def by (rule leads_bind, rule steps) (simp_all add: steps)

lemma finishWithErrorCode_leads [steps]: "reaches c d \<Longrightarrow> leads (\<lambda>c. c) c (finishWithErrorCode i code d)"
  by (simp add: finishWithErrorCode_def steps)

lemma inertI [steps]:
  "inert (m_RST_STREAM_sent_update g)" "inert (m_RST_STREAM_received_update g)" "inert (m_uploadByteDevice_update h)"
  "inert (m_uploadDevice_update b)" "inert (m_owningByteDevice_update b)" "inert (m_downloadBuffer_update d)"
  "inert (m_headers_update e)" "inert (m_endStreamAfterDATA_update b)"
  by (simp_all add: inert_def)

lemma inert_comp [steps]:
  "inert (\<lambda>s. s\<lparr>m_uploadDevice := a, m_owningByteDevice := b, m_uploadByteDevice := x\<rparr>)"
  "inert (\<lambda>s. s\<lparr>m_uploadByteDevice := x, m_endStreamAfterDATA := a\<rparr>)"
  "inert (\<lambda>s. s\<lparr>m_owningByteDevice := b, m_uploadDevice := a\<rparr>)"
  "inert (\<lambda>s. s\<lparr>m_uploadDevice := a, m_uploadByteDevice := x\<rparr>)"
  by (simp_all add: inert_def)

lemma sendRST_STREAM_leads [steps]: "reaches c d \<Longrightarrow> leads snd c (sendRST_STREAM i code d)"
  unfolding sendRST_STREAM_def Let_def
  by (intro leads_lookup steps leads_bind [where f = "\<lambda>c. c"]) simp_all

lemma streamError_leads [steps]: "reaches c d \<Longrightarrow> leads (\<lambda>c. c) c (streamError i code msg d)"
  unfolding streamError_def by (rule leads_bind, rule steps) (auto intro!: steps)

lemma delete_stream_leads [steps]: "reaches c d \<Longrightarrow> leads (\<lambda>c. c) c (delete_stream i d)"
  unfolding delete_stream_def
  by (intro leads_lookup leads_bind [where f = "\<lambda>c. c"] steps leads_map) (auto intro!: steps after [OF _ drop_stream])

lemma finishSendDATA_leads [steps]: "reaches c d \<Longrightarrow> leads (\<lambda>c. c) c (finishSendDATA i d)"
  unfolding finishSendDATA_def Let_def
  by (intro leads_lookup leads_bind [where f = "\<lambda>c. c"] steps) simp_all


subsection \<open>The encoder\<close>

lemma enc_ok_prepend: "enc_ok e \<Longrightarrow> enc_ok (e\<lparr>enc_table := snd (prependField n v (enc_table e))\<rparr>)"
  using prependField_spec(2) [of "enc_table e" n v] by (auto simp: enc_ok_def)

lemma encodeHeaderField_enc_ok: "encodeHeaderField f s e = Some (ok, s', e') \<Longrightarrow> enc_ok e \<Longrightarrow> enc_ok e'"
  by (auto simp: encodeHeaderField_def encodeIndexedField_def encodeLiteralField_def encodeLiteralIndexedName_def Let_def
      split: if_splits option.splits dest: enc_ok_prepend)

lemma encodeMethod_enc_ok: "encodeMethod f s e = Some (ok, s', e') \<Longrightarrow> enc_ok e \<Longrightarrow> enc_ok e'"
  by (auto simp: encodeMethod_def encodeIndexedField_def encodeLiteralIndexedName_def Let_def
      split: if_splits option.splits dest: enc_ok_prepend)

lemma encode_fields_enc_ok: "encode_fields skip fs s e = Some (ok, s', e') \<Longrightarrow> enc_ok e \<Longrightarrow> enc_ok e'"
  by (induction skip fs s e rule: encode_fields.induct)
    (auto split: if_splits option.splits bool.splits dest: encodeHeaderField_enc_ok)

lemma response_pseudo_enc_ok: "response_pseudo_loop fs b s e = Some (ok, s', e') \<Longrightarrow> enc_ok e \<Longrightarrow> enc_ok e'"
  by (induction fs b s e rule: response_pseudo_loop.induct)
    (auto split: if_splits option.splits bool.splits dest: encodeHeaderField_enc_ok)

lemma request_pseudo_enc_ok:
  "request_pseudo_loop fs b hs s e = Some r \<Longrightarrow> enc_ok e
    \<Longrightarrow> enc_ok (case r of Inl (s, e) \<Rightarrow> e | Inr (_, _, s, e) \<Rightarrow> e)"
proof (induction fs b hs s e arbitrary: r rule: request_pseudo_loop.induct)
  case (2 f fs b hs s e)
  define j where "j = length (takeWhile (\<lambda>n. n \<noteq> hf_name f) headerName)"
  consider (status) "hf_name f = chars '':status''"
    | (meth) "hf_name f \<noteq> chars '':status''" "hf_name f = chars '':method''"
    | (skip) "hf_name f \<noteq> chars '':status''" "hf_name f \<noteq> chars '':method''" "hf_name f = chars ''cookie'' \<or> \<not> j < length headerName"
    | (pseudo) "hf_name f \<noteq> chars '':status''" "hf_name f \<noteq> chars '':method''" "hf_name f \<noteq> chars ''cookie''" "j < length headerName"
    by blast
  then show ?case
  proof cases
    case status
    then show ?thesis using 2(5,6) by auto
  next
    case meth
    show ?thesis
    proof (cases "b \<or> encodeMethod f s e = None")
      case True
      then show ?thesis using 2(5,6) meth by (auto split: if_splits)
    next
      case False
      then obtain ok s1 e1 where em: "encodeMethod f s e = Some (ok, s1, e1)" by auto
      have e1: "enc_ok e1" using encodeMethod_enc_ok [OF em 2(6)] .
      show ?thesis using 2(5) meth False em e1 2(1) [OF meth(1,2) _ em] by (cases ok) auto
    qed
  next
    case skip
    then show ?thesis using 2(2) 2(4) [OF skip(1,2) _ j_def] 2(5,6) by (auto simp: Let_def j_def [symmetric] split: if_splits)
  next
    case pseudo
    show ?thesis
    proof (cases "hs ! j \<or> encodeHeaderField f s e = None")
      case True
      then show ?thesis using 2(5,6) pseudo by (auto simp: Let_def j_def [symmetric] split: if_splits)
    next
      case False
      then obtain ok s1 e1 where em: "encodeHeaderField f s e = Some (ok, s1, e1)" by auto
      have e1: "enc_ok e1" using encodeHeaderField_enc_ok [OF em 2(6)] .
      show ?thesis using 2(5) pseudo False em e1 2(3) [OF pseudo(1,2,3) j_def pseudo(4) _ em]
        by (cases ok) (auto simp: Let_def j_def [symmetric])
    qed
  qed
qed auto

lemma encodeRequest_enc_ok: "encodeRequest h s e = Some (ok, s', e') \<Longrightarrow> enc_ok e \<Longrightarrow> enc_ok e'"
  using request_pseudo_enc_ok [of h False "[False, False, False]" s e]
  by (auto simp: encodeRequest_def encodeRequestPseudoHeaders_def
      split: if_splits option.splits bool.splits sum.splits prod.splits dest: encode_fields_enc_ok)

lemma encodeResponse_enc_ok:
  assumes "encodeResponse h s e = Some (ok, s', e')" "enc_ok e" shows "enc_ok e'"
proof (cases "h = [] \<or> response_pseudo_loop h False s e = None")
  case False
  then obtain k s1 e1 where r: "response_pseudo_loop h False s e = Some (k, s1, e1)" by auto
  have "enc_ok e1" using response_pseudo_enc_ok [OF r assms(2)] .
  then show ?thesis using assms(1) False r encode_fields_enc_ok
    by (cases k) (auto simp: encodeResponse_def encodeResponsePseudoHeaders_def)
qed (use assms in \<open>auto simp: encodeResponse_def encodeResponsePseudoHeaders_def split: if_splits\<close>)

lemma size_updates_ok:
  assumes "size_updates us s e = (us', s', e')" "enc_ok e" "\<forall>u\<in>set us. case u of None \<Rightarrow> True | Some n \<Rightarrow> n < 2 ^ 32"
  shows "enc_ok e'"
  using assms
proof (induction us s e arbitrary: us' s' e' rule: size_updates.induct)
  case (3 n us s e)
  have "enc_ok (enc_setMaxDynamicTableSize n e)"
    using 3(3,4) by (simp add: enc_ok_def enc_setMaxDynamicTableSize_def setMax_spec) (simp add: setMaxDynamicTableSize_def)
  then have "enc_ok (snd (snd (encodeSizeUpdate n s (enc_setMaxDynamicTableSize n e))))"
    using updateDynamicTableSize_spec [of "enc_table (enc_setMaxDynamicTableSize n e)" n]
    by (auto simp: enc_ok_def encodeSizeUpdate_def split: prod.splits)
  moreover obtain k s1 e1 where u: "encodeSizeUpdate n s (enc_setMaxDynamicTableSize n e) = (k, s1, e1)"
    by (rule prod_cases3)
  moreover obtain us2 s2 e2 where u2: "size_updates us s1 e1 = (us2, s2, e2)" by (rule prod_cases3)
  ultimately show ?case using 3(1) [OF refl u [symmetric] refl refl u2] 3(2,4) by simp
qed auto

lemma size_updates_pending:
  assumes "size_updates [a, b] s e = (us, s', e')"
  shows "(us ! 0, us ! 1) = (if a = None then (a, b) else (None, None))"
  using assms by (cases a; cases b) (auto split: prod.splits)

lemma pending_size_updates_reaches [steps]:
  assumes "reaches c d" shows "reaches c (snd (pending_size_updates s d))"
proof -
  obtain a b where ab: "pendingTableSizeUpdates d = (a, b)" by fastforce
  obtain us s' e' where u: "size_updates [a, b] s (c_encoder d) = (us, s', e')" by (metis prod_cases3)
  have e: "enc_ok e'" if "enc_ok (c_encoder d)" "pending_ok (pendingTableSizeUpdates d)"
    using size_updates_ok [OF u that(1)] that(2)
    by (auto simp: ab pending_ok_def maxAcceptableTableSize_def DefaultSize_def split: option.splits)
  have p: "pending_ok (us ! 0, us ! 1)" if "pending_ok (pendingTableSizeUpdates (d\<lparr>c_encoder := e'\<rparr>))"
    using that size_updates_pending [OF u] ab by (auto simp: pending_ok_def)
  have "change d (d\<lparr>c_encoder := e'\<rparr>)" using e by (rule encoder)
  moreover have "change (d\<lparr>c_encoder := e'\<rparr>) (d\<lparr>c_encoder := e'\<rparr>\<lparr>pendingTableSizeUpdates := (us ! 0, us ! 1)\<rparr>)"
    using p by (rule table_size)
  moreover have "snd (pending_size_updates s d) = d\<lparr>c_encoder := e'\<rparr>\<lparr>pendingTableSizeUpdates := (us ! 0, us ! 1)\<rparr>"
    by (simp add: pending_size_updates_def ab u)
  ultimately show ?thesis using after [OF after [OF assms]] by metis
qed

subsection \<open>Sending headers and data\<close>

lemma encode_reaches:
  assumes "reaches c y"
    and "(if m_connectionType y = Client then encodeRequest h s (c_encoder y) else encodeResponse h s (c_encoder y)) = Some r"
  shows "reaches c (y\<lparr>c_encoder := snd (snd r), frameWriter := f\<rparr>)"
proof -
  have "enc_ok (c_encoder y) \<Longrightarrow> enc_ok (snd (snd r))"
    using assms(2) encodeRequest_enc_ok [of h s "c_encoder y" "fst r" "fst (snd r)" "snd (snd r)"]
      encodeResponse_enc_ok [of h s "c_encoder y" "fst r" "fst (snd r)" "snd (snd r)"]
    by (cases "m_connectionType y = Client") simp_all
  then show ?thesis by (intro steps assms(1))
qed

lemma write_block_leads:
  assumes "reaches c x"
  shows "leads snd c (writeHEADERS l f (c_socket x) \<bind> (\<lambda>(result, f, sock).
            (if fin then transitionState i CloseLocal (x\<lparr>frameWriter := f, c_socket := sock\<rparr>)
             else Some (x\<lparr>frameWriter := f, c_socket := sock\<rparr>)) \<bind> (\<lambda>c. Some (result, c))))"
proof (rule leads_lookup)
  fix r assume r: "writeHEADERS l f (c_socket x) = Some r"
  obtain ok f' s' where r': "r = (ok, f', s')" by (rule prod_cases3)
  have "sock_step (c_socket x) s'" using writeHEADERS_step r r' by simp
  then show "leads snd c (case r of (result, f, sock) \<Rightarrow>
            (if fin then transitionState i CloseLocal (x\<lparr>frameWriter := f, c_socket := sock\<rparr>)
             else Some (x\<lparr>frameWriter := f, c_socket := sock\<rparr>)) \<bind> (\<lambda>c. Some (result, c)))"
    unfolding r' prod.case by (intro leads_bind [where f = "\<lambda>c. c"] steps; simp add: assms)
qed

lemma sendHEADERS_leads [steps]:
  assumes "reaches c d" shows "leads snd c (sendHEADERS i h fin prio d)"
proof (cases "header_size h")
  case None
  then show ?thesis using assms by (simp add: sendHEADERS_def steps)
next
  case (Some hs)
  have r: "reaches c (snd (False, d))" using assms by simp
  show ?thesis
    unfolding sendHEADERS_def Some option.case Let_def
    apply (rule leads_if, rule leads_Some [where f = snd], rule r)
    apply (rule leads_bind [OF transitionState_leads [OF assms]])
    apply (rule leads_lookup)
    apply (rule leads_if)
     apply (rule leads_Some [where f = snd], simp only: snd_conv, erule (1) encode_reaches [OF pending_size_updates_reaches])
    apply (rule write_block_leads)
    apply (erule (1) encode_reaches [OF pending_size_updates_reaches])
    done
qed


lemma map_of_with: "map_of (map (\<lambda>(k, s). (k, if k = i then h s else s)) xs) j
    = (if j = i then map_option h (map_of xs j) else map_of xs j)"
  by (induction xs) auto

lemma getStream_with_stream [simp]:
  "getStream j (with_stream i f c) = (if j = i then map_option f (getStream j c) else getStream j c)"
proof (cases "j = i")
  case True
  then show ?thesis by (cases "map_of (m_streams c) i") (simp_all add: getStream_def with_stream_def map_of_with)
qed (simp add: getStream_def with_stream_def map_of_with)

lemma has_entry_with_stream [simp]: "has_entry j (with_stream i f c) = has_entry j c"
  by (simp add: has_entry_def with_stream_def map_of_with)

lemma with_stream_other [simp]:
  "sessionSendWindowSize (with_stream i f c) = sessionSendWindowSize c"
  "c_maxFrameSize (with_stream i f c) = c_maxFrameSize c" "c_socket (with_stream i f c) = c_socket c"
  "sessionReceiveWindowSize (with_stream i f c) = sessionReceiveWindowSize c"
  "streamInitialReceiveWindowSize (with_stream i f c) = streamInitialReceiveWindowSize c"
  "m_connectionType (with_stream i f c) = m_connectionType c"
  by (simp_all add: with_stream_def)

lemma getStream_other [simp]:
  "getStream i (c\<lparr>sessionSendWindowSize := n\<rparr>) = getStream i c" "getStream i (c\<lparr>c_socket := s, frameWriter := f\<rparr>) = getStream i c"
  "getStream i (emit ev c) = getStream i c" "getStream i (enqueue q c) = getStream i c" "getStream i (block_stream j c) = getStream i c"
  by (simp_all add: getStream_def emit_def enqueue_def block_stream_def)

lemma send_frame_other [simp]:
  "getStream i (snd (send_frame f c)) = getStream i c"
  "sessionSendWindowSize (snd (send_frame f c)) = sessionSendWindowSize c"
  by (simp_all add: send_frame_def getStream_def split: prod.splits)

subsection \<open>Uploads\<close>

definition window_ok :: "nat \<Rightarrow> int \<Rightarrow> 'url h2_conn \<Rightarrow> bool" where
  "window_ok i n c \<longleftrightarrow> (\<forall>s. getStream i c = Some s \<longrightarrow> n \<le> m_sendWindow s \<and> n \<le> sessionSendWindowSize c)"

lemma fill_frame_reaches:
  assumes "fill_frame i rw rf n w d = Some r" "window_ok i rw d"
  shows "reaches d (snd (snd (snd r))) \<and> window_ok i (fst r) (snd (snd (snd r)))"
  using assms
proof (induction rule: fill_frame.raw_induct [rotated, consumes 1, case_names step])
  case (step ff i rw rf n w d r)
  obtain s bd where s: "getStream i d = Some s" "m_uploadByteDevice s = Some bd"
    using step(2) by (auto simp: bind_eq_Some_conv)
  define k where "k = min (min rw rf) (snd (bd_readPointer (min rw rf) bd))"
  define d2 where "d2 = (with_stream i (m_sendWindow_update (\<lambda>x. x - k)) d)\<lparr>sessionSendWindowSize := sessionSendWindowSize d - k\<rparr>"
  define d3 where "d3 = update_upload (advanceReadPointer (nat k)) i d2"
  have swap: "update_upload (advanceReadPointer (nat k)) i (with_stream i (m_sendWindow_update (\<lambda>x. x - k)) d)
      \<lparr>sessionSendWindowSize := sessionSendWindowSize d - k\<rparr> = d3"
    by (simp add: d3_def d2_def update_upload_def with_stream_def)
  have cases: "r = (rw, n, w, d) \<or> (\<exists>n' w'. 0 \<le> k \<and> ff i (rw - k) (rf - k) n' w' d3 = Some r)"
    using step(2) s by (auto simp: Let_def k_def [symmetric] swap split: if_splits)
  have w: "rw \<le> m_sendWindow s" "rw \<le> sessionSendWindowSize d" using step(3) s by (simp_all add: window_ok_def)
  have k: "k \<le> rw" by (simp add: k_def)
  show ?case
  proof (cases "r = (rw, n, w, d)")
    case True
    then show ?thesis using step(3) by simp
  next
    case False
    with cases obtain n' w' where c: "0 \<le> k" "ff i (rw - k) (rf - k) n' w' d3 = Some r" by blast
    have "change d d2" unfolding d2_def by (rule stream_spend [OF s(1) c(1)]) (use k w in simp_all)
    moreover have "change d2 d3" unfolding d3_def update_upload_def by (rule stream_inert) (simp add: steps)
    ultimately have d3: "reaches d d3" by (meson after reaches_refl)
    have "window_ok i (rw - k) d3"
      using step(3) by (auto simp: window_ok_def d3_def d2_def update_upload_def)
    with step(1) [OF c(2)] d3 show ?thesis by (meson rtranclp_trans)
  qed
qed

lemma send_loop_reaches:
  assumes "send_loop i rw n b d = Some r" "window_ok i rw d"
  shows "reaches d (case r of Inl c \<Rightarrow> c | Inr (_, _, c) \<Rightarrow> c)"
  using assms
proof (induction rule: send_loop.raw_induct [rotated, consumes 1, case_names step])
  case (step sl i rw n b d r)
  obtain s bd where s: "getStream i d = Some s" "m_uploadByteDevice s = Some bd"
    using step(2) by (auto simp: bind_eq_Some_conv)
  show ?case
  proof (cases "rw \<noteq> 0 \<and> deviceCanRead bd d")
    case False
    then show ?thesis using step(2) s by auto
  next
    case True
    then obtain x where x: "fill_frame i rw (i32 (int (c_maxFrameSize d))) 0 (fw_start DATA EMPTY i) d = Some x"
      using step(2) s by (auto simp: bind_eq_Some_conv)
    obtain rw' k w c where xx: "x = (rw', k, w, c)" by (rule prod_cases4)
    have c: "reaches d c" "window_ok i rw' c" using fill_frame_reaches [OF x step(3)] by (simp_all add: xx)
    obtain s2 bd2 where s2: "getStream i c = Some s2" "m_uploadByteDevice s2 = Some bd2"
      using step(2) s True x by (auto simp: xx bind_eq_Some_conv)
    define last where "last = (\<not> deviceCanRead bd2 c \<and> bd_atEnd bd2 \<and> m_endStreamAfterDATA s2)"
    define v where "v = (if last then addFlag END_STREAM w else w)"
    have sent: "reaches d (snd (send_frame v c))" using c(1) by (intro steps)
    have "(if \<not> fst (send_frame v c)
         then map_option Inl (finishWithError i INTERNAL_ERROR ''failed to write to socket'' (snd (send_frame v c)))
         else sl i rw' (n + k) (b \<or> last) (snd (send_frame v c))) = Some r"
      using step(2) s True x s2 by (simp add: xx v_def last_def Let_def cong: if_cong)
    then consider (fail) z where "r = Inl z" "finishWithError i INTERNAL_ERROR ''failed to write to socket'' (snd (send_frame v c)) = Some z"
      | (go) "sl i rw' (n + k) (b \<or> last) (snd (send_frame v c)) = Some r"
      by (auto split: if_splits)
    then show ?thesis
    proof cases
      case fail
      then show ?thesis using leadsD [OF finishWithError_leads [OF sent]] by simp
    next
      case go
      have "window_ok i rw' (snd (send_frame v c))" using c(2) by (simp add: window_ok_def)
      from step(1) [OF go this] sent show ?thesis by (meson rtranclp_trans)
    qed
  qed
qed

lemma internalSendDATA_leads [steps]:
  assumes "reaches c d" shows "leads (\<lambda>c. c) c (internalSendDATA i d)"
  unfolding internalSendDATA_def
proof (intro leads_lookup)
  fix s r assume s: "getStream i d = Some s" and r: "send_loop i (min (sessionSendWindowSize d) (m_sendWindow s)) 0 False d = Some r"
  have "window_ok i (min (sessionSendWindowSize d) (m_sendWindow s)) d" using s by (simp add: window_ok_def)
  note rr = rtranclp_trans [OF assms send_loop_reaches [OF r this]]
  show "leads (\<lambda>c. c) c (case r of Inl c \<Rightarrow> Some c | Inr (totalBytesWritten, sentEND_STREAM, c) \<Rightarrow>
              do { let c = emit (bytesWritten i totalBytesWritten) c;
                   s \<leftarrow> getStream i c;
                   d \<leftarrow> m_uploadByteDevice s;
                   if sentEND_STREAM \<or> (\<not> deviceCanRead d c \<and> bd_atEnd d)
                   then finishSendDATA i
                          (if \<not> sentEND_STREAM \<and> m_endStreamAfterDATA s
                           then snd (send_frame (fw_start DATA END_STREAM i) c) else c)
                   else Some (if isUploadBlocked s c then block_stream i (emit (uploadBlocked i) c) else c) })"
  proof (cases r)
    case (Inl a)
    then show ?thesis using rr by (simp add: leads_def)
  next
    case (Inr x)
    obtain n b e where x: "x = (n, b, e)" by (rule prod_cases3)
    have "reaches c e" using rr by (simp add: Inr x)
    then show ?thesis unfolding Inr x sum.case prod.case Let_def by (intro leads_lookup steps)
  qed
qed

lemma maybeResumeUpload_leads [steps]: "reaches c d \<Longrightarrow> leads (\<lambda>c. c) c (maybeResumeUpload i d)"
  unfolding maybeResumeUpload_def by (intro leads_lookup steps)

lemma sendDATA_byteDevice_leads [steps]: "reaches c d \<Longrightarrow> leads snd c (sendDATA_byteDevice i dev fin d)"
  unfolding sendDATA_byteDevice_def by (intro leads_lookup steps leads_map; simp add: steps)

lemma sendDATA_leads [steps]: "reaches c d \<Longrightarrow> leads snd c (sendDATA i payload fin d)"
  unfolding sendDATA_def by (intro leads_lookup steps leads_map; simp)

lemma sendDATA_device_leads [steps]: "reaches c d \<Longrightarrow> leads snd c (sendDATA_device i buf pos fin d)"
  unfolding sendDATA_device_def by (intro leads_lookup steps leads_map; simp)

lemma takeDownloadBuffer_leads [steps]: "reaches c d \<Longrightarrow> leads snd c (takeDownloadBuffer i d)"
  unfolding takeDownloadBuffer_def by (intro leads_lookup steps) (simp add: steps)+

lemma clearDownloadBuffer_leads [steps]: "reaches c d \<Longrightarrow> leads (\<lambda>c. c) c (clearDownloadBuffer i d)"
  unfolding clearDownloadBuffer_def by (intro leads_lookup steps) (simp add: steps)+

lemma uploadDeviceDestroyed_leads [steps]: "reaches c d \<Longrightarrow> leads (\<lambda>c. c) c (uploadDeviceDestroyed i d)"
  unfolding uploadDeviceDestroyed_def
  by (intro leads_lookup leads_bind [where f = "\<lambda>c. c"] steps leads_map) (auto simp: leads_def intro!: steps dest: leadsD [OF streamError_leads])


subsection \<open>Frames of a stream\<close>

lemma payloadSize_less: "payloadSize f < 2 ^ 24"
proof -
  have "from_be (take 3 (fr_buffer f)) < 256 ^ length (take 3 (fr_buffer f))" by (rule from_be_less)
  also have "\<dots> \<le> 256 ^ 3" by (rule power_increasing) simp_all
  finally show ?thesis by (simp add: payloadSize_def)
qed

lemma i32_payload [simp]: "i32 (int (payloadSize f)) = int (payloadSize f)"
  using payloadSize_less [of f] by (simp add: i32_exact)

lemma i32_u32: "i32 (int (u32 x)) = i32 x"
  by (simp add: i32_def u32_def mod_add_left_eq)

lemma refill_leads:
  assumes "reaches c e" "getStream i e = Some t" "m_recvWindow t < half (streamInitialReceiveWindowSize e)"
  shows "leads (\<lambda>c. c) c (stream_sendWINDOW_UPDATE i (u32 (streamInitialReceiveWindowSize e - m_recvWindow t)) e)"
proof -
  define n where "n = i32 (int (u32 (streamInitialReceiveWindowSize e - m_recvWindow t)))"
  have "m_recvWindow t + n = streamInitialReceiveWindowSize e"
    if "0 \<le> m_recvWindow t" "streamInitialReceiveWindowSize e < 2 ^ 31"
  proof -
    have "0 \<le> streamInitialReceiveWindowSize e" using that assms(3) by (simp add: half_def split: if_splits)
    then have "i32 (streamInitialReceiveWindowSize e - m_recvWindow t) = streamInitialReceiveWindowSize e - m_recvWindow t"
      using that assms(3) by (intro i32_exact) (auto simp: half_def split: if_splits)
    then show ?thesis by (simp add: n_def i32_u32)
  qed
  then have "change e (with_stream i (m_recvWindow_update (\<lambda>w. w + n)) e)" if "fits_i32 (m_recvWindow t + n)"
    using that by (intro stream_refill [OF assms(2)])
  then have "reaches c (with_stream i (m_recvWindow_update (\<lambda>w. w + n)) e)" if "fits_i32 (m_recvWindow t + n)"
    using that by (blast intro: after [OF assms(1)])
  then show ?thesis
    using assms(2) by (simp add: stream_sendWINDOW_UPDATE_def n_def [symmetric] leads_def sendWINDOW_UPDATE_reaches)
qed

lemma stream_handleDATA_leads [steps]:
  assumes "reaches c d" shows "leads (\<lambda>c. c) c (stream_handleDATA i f d)"
  unfolding stream_handleDATA_def Let_def
proof (rule leads_lookup, rule leads_if)
  fix s assume "getStream i d = Some s" "i32 (int (payloadSize f)) > m_recvWindow s"
  show "leads (\<lambda>c. c) c (streamError i FLOW_CONTROL_ERROR ''data bigger than window size'' d)" by (intro steps assms)
next
  fix s assume s: "getStream i d = Some s" and w: "\<not> i32 (int (payloadSize f)) > m_recvWindow s"
  let ?x = "with_stream i (m_recvWindow_update (\<lambda>n. n - i32 (int (payloadSize f)))) d"
  have x: "reaches c ?x" using w by (intro after [OF assms stream_take [OF s]]) simp_all
  show "leads (\<lambda>c. c) c
     ((if (dataSize f > 0 \<or> testFlag (fr_flags f) END_STREAM) \<and> \<not> streamIsIgnored i ?x
       then fragment_of f \<bind> (\<lambda>fragment.
              (if testFlag (fr_flags f) END_STREAM then transitionState i CloseRemote ?x else Some ?x) \<bind>
              (\<lambda>c. Some (emit (dataReceived i fragment (testFlag (fr_flags f) END_STREAM))
                      (if useDownloadBuffer s \<and> fragment \<noteq> []
                       then with_stream i (m_downloadBuffer_update (\<lambda>b. b @ [fragment])) c else c))))
       else Some ?x) \<bind>
      (\<lambda>c. getStream i c \<bind> (\<lambda>s.
         if \<not> testFlag (fr_flags f) END_STREAM \<and> m_recvWindow s < half (streamInitialReceiveWindowSize c)
         then stream_sendWINDOW_UPDATE i (u32 (streamInitialReceiveWindowSize c - m_recvWindow s)) c
         else Some c)))"
  proof (rule leads_bind [where f = "\<lambda>c. c"], goal_cases)
    case 1
    show ?case by (intro steps leads_lookup leads_bind [where f = "\<lambda>c. c"] x)
  next
    case (2 y)
    show ?case by (intro leads_lookup leads_if refill_leads steps 2) simp_all
  qed
qed

lemma stream_handleHEADERS_leads [steps]: "reaches c d \<Longrightarrow> leads (\<lambda>c. c) c (stream_handleHEADERS i fl hs d)"
  unfolding stream_handleHEADERS_def Let_def
  by (intro leads_lookup leads_bind [where f = "\<lambda>c. c"] steps)

lemma stream_handleRST_STREAM_leads [steps]: "reaches c d \<Longrightarrow> leads (\<lambda>c. c) c (stream_handleRST_STREAM i f d)"
  unfolding stream_handleRST_STREAM_def Let_def
  by (rule leads_lookup, rule leads_if, (intro steps; assumption),
      rule leads_bind [where f = "\<lambda>c. c"], (intro steps; assumption), rule leads_lookup, intro steps)

lemma stream_handleWINDOW_UPDATE_leads [steps]:
  assumes "reaches c d" shows "leads (\<lambda>c. c) c (stream_handleWINDOW_UPDATE i f d)"
  unfolding stream_handleWINDOW_UPDATE_def
proof (intro leads_lookup)
  fix s delta assume s: "getStream i d = Some s"
  show "leads (\<lambda>c. c) c (case (if valid_delta delta then qAddOverflow32 (m_sendWindow s) (i32 (int delta)) else None) of
            None \<Rightarrow> streamError i PROTOCOL_ERROR ''invalid WINDOW_UPDATE delta'' d
          | Some newWindow \<Rightarrow>
              let c = with_stream i (m_sendWindow_update (\<lambda>_. newWindow)) d
              in if isUploadingDATA s then maybeResumeUpload i c else Some c)"
  proof (cases "if valid_delta delta then qAddOverflow32 (m_sendWindow s) (i32 (int delta)) else None")
    case None
    show ?thesis unfolding None option.case by (intro steps assms)
  next
    case (Some n)
    then have "fits_i32 n" by (auto simp: qAddOverflow32_Some fits_i32_def split: if_splits)
    note r = after [OF assms stream_grant [OF this]]
    show ?thesis unfolding Some option.case Let_def by (intro leads_if leads_Some maybeResumeUpload_leads r)
  qed
qed

subsection \<open>Operations of the connection\<close>

lemma sendGOAWAYFrame_reaches [steps]: "reaches c d \<Longrightarrow> reaches c (snd (sendGOAWAYFrame n l d))"
  unfolding sendGOAWAYFrame_def by (intro steps)

lemma sendSETTINGS_ACK_reaches [steps]: "reaches c d \<Longrightarrow> reaches c (snd (sendSETTINGS_ACK d))"
  unfolding sendSETTINGS_ACK_def by (intro steps)

lemma sendPing_data_reaches [steps]: "reaches c d \<Longrightarrow> reaches c (snd (sendPing_data b d))"
  unfolding sendPing_data_def Let_def by (intro steps)

lemma sendPing_reaches [steps]: "reaches c d \<Longrightarrow> reaches c (snd (sendPing e d))"
  unfolding sendPing_def by (intro steps)

lemma each_stream_leads:
  assumes "reaches c d" "\<And>i d. reaches c d \<Longrightarrow> leads (\<lambda>c. c) c (f i d)"
  shows "leads (\<lambda>c. c) c (each_stream f is d)"
  using assms(1)
proof (induction "is" arbitrary: d)
  case (Cons i "is")
  then show ?case by (auto intro!: leads_bind [where f = "\<lambda>c. c"] assms(2))
qed (simp add: steps)

lemma finish_if_active_leads [steps]: "reaches c d \<Longrightarrow> leads (\<lambda>c. c) c (finish_if_active n msg i d)"
  unfolding finish_if_active_def by (intro steps)

lemma connectionError_leads [steps]:
  assumes "reaches c d" shows "leads (\<lambda>c. c) c (connectionError n msg d)"
  unfolding connectionError_def Let_def
proof (rule leads_if, (intro steps assms), rule leads_map_conn, rule each_stream_leads)
  let ?d = "d\<lparr>m_connectionAborted := True, m_goingAway := True,
      m_lastStreamToProcess := min (m_lastIncomingStreamID d) (m_lastStreamToProcess d)\<rparr>"
  have "reaches c (d\<lparr>m_connectionAborted := True, m_goingAway := True\<rparr>)" by (intro steps assms)
  from after [OF this cut_off [of "min (m_lastIncomingStreamID d) (m_lastStreamToProcess d)"]]
  have "reaches c ?d" by simp
  then show "reaches c (snd (sendGOAWAYFrame n (m_lastStreamToProcess ?d) ?d))" by (rule sendGOAWAYFrame_reaches)
qed (intro steps; assumption)+

lemma handleConnectionClosure_leads [steps]: "reaches c d \<Longrightarrow> leads (\<lambda>c. c) c (handleConnectionClosure d)"
  unfolding handleConnectionClosure_def by (rule each_stream_leads, assumption, rule finish_if_active_leads)

lemma cut_at_incoming: "reaches c d \<Longrightarrow> reaches c (d\<lparr>m_lastStreamToProcess := m_lastIncomingStreamID d\<rparr>)"
  by (rule after [OF _ cut_off]) simp_all

lemma client_goaway_reaches [steps]: "reaches c d \<Longrightarrow> reaches c (sendClientGracefulShutdownGoaway d)"
proof -
  assume r: "reaches c d"
  have "reaches c (d\<lparr>m_goingAway := True, m_gracefulShutdownState := FinalGOAWAYSent\<rparr>)" by (intro steps r)
  from cut_at_incoming [OF this] show ?thesis
    unfolding sendClientGracefulShutdownGoaway_def Let_def by (intro reaches_if r maybeClose_reaches sendGOAWAYFrame_reaches) simp
qed

lemma server_goaway_reaches [steps]:
  "reaches c d \<Longrightarrow> reaches c (sendInitialServerGracefulShutdownGoaway e d)"
  unfolding sendInitialServerGracefulShutdownGoaway_def Let_def
  by (intro reaches_if) (auto split: prod.splits intro!: steps dest!: arg_cong [where f = snd])

lemma final_goaway_reaches [steps]: "reaches c d \<Longrightarrow> reaches c (sendFinalServerGracefulShutdownGoaway d)"
proof -
  assume r: "reaches c d"
  have "reaches c (d\<lparr>m_gracefulShutdownState := FinalGOAWAYSent\<rparr>)" by (intro steps r)
  from cut_at_incoming [OF this] show ?thesis
    unfolding sendFinalServerGracefulShutdownGoaway_def Let_def by (intro reaches_if r maybeClose_reaches sendGOAWAYFrame_reaches) simp
qed

lemma close_connection_leads [steps]: "reaches c d \<Longrightarrow> leads (\<lambda>c. c) c (close_connection e n d)"
  unfolding close_connection_def by (intro steps)

end
