(* ===== verification/Http2Session.thy ===== *)
theory Http2Session
  imports Http2Steps
begin

text \<open>
  The handlers of frames, the loop over the frames that have arrived and the calls of the application
  as sequences of changes and of octets arriving; the loop ends. \<open>call\<close> names what the
  application and the event loop may do with a connection, and \<open>evolves\<close> relates a connection to
  those it can become.
\<close>


subsection \<open>Prefaces and creation\<close>

lemma sendSETTINGS_reaches [steps]: "reaches c d \<Longrightarrow> reaches c (snd (sendSETTINGS d))"
  unfolding sendSETTINGS_def Let_def
  by (rule reaches_prod, (intro steps; assumption), rule reaches_snd_if, (intro steps; assumption),
      rule reaches_prod, (intro steps; assumption)) (intro steps)

lemma sendClientPreface_reaches [steps]:
  assumes "reaches c d" shows "reaches c (snd (sendClientPreface d))"
proof -
  obtain n s where ns: "dev_write Http2clientPreface (c_socket d) = (n, s)" by fastforce
  have r: "reaches c (d\<lparr>c_socket := s\<rparr>)" using dev_write_step [OF ns] by (intro steps assms)
  show ?thesis unfolding sendClientPreface_def Let_def ns prod.case
    by (rule reaches_snd_if, (intro steps r), rule reaches_prod, (intro steps r)) (intro steps)
qed

lemma sendServerPreface_reaches [steps]: "reaches c d \<Longrightarrow> reaches c (snd (sendServerPreface d))"
  unfolding sendServerPreface_def Let_def by (rule reaches_prod, (intro steps; assumption), intro steps)

text \<open>What sending the preface leaves alone.\<close>

definition ids_kept :: "'url h2_conn \<Rightarrow> 'url h2_conn \<Rightarrow> bool" where
  "ids_kept c d \<longleftrightarrow> m_nextStreamID d = m_nextStreamID c \<and> m_lastIncomingStreamID d = m_lastIncomingStreamID c
     \<and> m_streams d = m_streams c \<and> m_connectionType d = m_connectionType c \<and> m_goingAway d = m_goingAway c
     \<and> m_lastStreamToProcess d = m_lastStreamToProcess c \<and> inboundFrame d = inboundFrame c"

lemma sendSETTINGS_ids: "sendSETTINGS c = (a, b) \<Longrightarrow> ids_kept c b"
  by (auto simp: sendSETTINGS_def sendWINDOW_UPDATE_def Let_def send_frame_def ids_kept_def split: prod.splits if_splits)

lemma sendClientPreface_ids: "sendClientPreface c = (a, b) \<Longrightarrow> ids_kept c b"
  by (auto simp: sendClientPreface_def Let_def enqueue_def ids_kept_def split: prod.splits if_splits dest!: sendSETTINGS_ids)

text \<open>Creating a stream sends the preface if that is due, and then appends the stream.\<close>

lemma createStreamInternal_cases:
  assumes "createStreamInternal_impl i conf d = (ok, x)" "reaches c d"
  obtains y where "reaches c y" "ids_kept d y" "\<not> ok" "x = y"
  | y where "reaches c y" "ids_kept d y" ok "\<not> has_entry i y" "x = y\<lparr>m_streams := m_streams y @ [(i, Some (fresh_stream i conf y))]\<rparr>"
proof -
  define y where "y = (if m_connectionType d = Client \<and> \<not> m_prefaceSent d then snd (sendClientPreface d) else d)"
  have "reaches c y" unfolding y_def by (intro steps assms(2))
  moreover have "ids_kept d y"
  proof (cases "sendClientPreface d")
    case (Pair a b)
    then show ?thesis using sendClientPreface_ids [OF Pair] by (auto simp: y_def ids_kept_def)
  qed
  moreover have "(\<not> ok \<and> x = y) \<or> (ok \<and> \<not> has_entry i y \<and> x = y\<lparr>m_streams := m_streams y @ [(i, Some (fresh_stream i conf y))]\<rparr>)"
    using assms(1) by (auto simp: createStreamInternal_impl_def Let_def y_def fresh_stream_def split: prod.splits if_splits)
  ultimately show ?thesis using that by blast
qed

lemma fresh_stream_fields [simp]:
  "m_state (fresh_stream i conf c) = Idle" "m_streamID (fresh_stream i conf c) = i" "m_RST_STREAM_received (fresh_stream i conf c) = None"
  "m_recvWindow (fresh_stream i conf c) = streamInitialReceiveWindowSize c" "m_sendWindow (fresh_stream i conf c) = streamInitialSendWindowSize c"
  by (simp_all add: fresh_stream_def QHttp2Stream_def)

lemma getStream_append:
  "\<not> has_entry i c \<Longrightarrow> m_streams d = m_streams c @ [(i, s)] \<Longrightarrow> getStream j d = (if j = i then s else getStream j c)"
  by (cases "map_of (m_streams c) j") (auto simp: getStream_def has_entry_def map_add_def)

lemma createStream_reaches [steps]:
  assumes "reaches c d" "m_nextStreamID d \<noteq> 0" shows "reaches c (snd (createStream conf d))"
proof (cases "m_nextStreamID d > lastValidStreamID \<or> m_goingAway d \<or> m_peerMaxConcurrentStreams d \<le> numActiveLocalStreams d")
  case True
  then show ?thesis using assms by (auto simp: createStream_def createLocalStreamInternal_def)
next
  case False
  define i where "i = m_nextStreamID d"
  obtain ok x where x: "createStreamInternal_impl i conf d = (ok, x)" by fastforce
  from createStreamInternal_cases [OF x assms(1)] show ?thesis
  proof cases
    case (1 y)
    then show ?thesis using False x by (simp add: createStream_def createLocalStreamInternal_def i_def)
  next
    case (2 y)
    have i: "i = m_nextStreamID y" "i \<noteq> 0" "i \<le> lastValidStreamID" using 2(2) False assms(2) by (simp_all add: ids_kept_def i_def)
    have "change y (y\<lparr>m_streams := m_streams y @ [(i, Some (fresh_stream i conf y))], m_nextStreamID := i + 2\<rparr>)"
      by (rule new_local [OF i(1) 2(4) i(2,3)])
    note r = after [OF 2(1) this]
    have a: "add32 i 2 = i + 2" using i(3) by (simp add: add32_def lastValidStreamID_def)
    show ?thesis using False x 2(3,5) i(1) r unfolding createStream_def createLocalStreamInternal_def i_def [symmetric]
      by (simp add: Let_def add32_def lastValidStreamID_def i(3))
  qed
qed

text \<open>Creating a stream of the peer, with the new bound on its identifiers.\<close>

lemma create_remote:
  assumes "createStreamInternal_impl i True d = (True, x)" "reaches c d"
    and "m_lastIncomingStreamID d < i" "i \<le> lastValidStreamID" "m_connectionType d = Client \<Longrightarrow> even i"
  shows "reaches c (x\<lparr>m_lastIncomingStreamID := i\<rparr>)"
    "\<exists>s. getStream i (x\<lparr>m_lastIncomingStreamID := i\<rparr>) = Some s \<and> m_state s = Idle"
proof -
  obtain y where y: "reaches c y" "ids_kept d y" "\<not> has_entry i y" "x = y\<lparr>m_streams := m_streams y @ [(i, Some (fresh_stream i True y))]\<rparr>"
    using createStreamInternal_cases [OF assms(1,2)] by metis
  have "change y (y\<lparr>m_streams := m_streams y @ [(i, Some (fresh_stream i True y))], m_lastIncomingStreamID := i\<rparr>)"
    using assms(3-5) y(2) by (intro new_remote y(3)) (simp_all add: ids_kept_def)
  then show "reaches c (x\<lparr>m_lastIncomingStreamID := i\<rparr>)" using after [OF y(1)] by (simp add: y(4))
  show "\<exists>s. getStream i (x\<lparr>m_lastIncomingStreamID := i\<rparr>) = Some s \<and> m_state s = Idle"
    using getStream_append [OF y(3), of "x\<lparr>m_lastIncomingStreamID := i\<rparr>" "Some (fresh_stream i True y)" i] by (simp add: y(4))
qed

subsection \<open>SETTINGS\<close>

lemma refuse_setting_leads [steps]: "reaches c d \<Longrightarrow> leads snd c (refuse_setting n msg d)"
  unfolding refuse_setting_def by (intro steps)

lemma accept_table_size_reaches [steps]:
  assumes "reaches c d" "n \<le> maxAcceptableTableSize" shows "reaches c (accept_table_size n d)"
proof -
  obtain a b where ab: "pendingTableSizeUpdates d = (a, b)" by fastforce
  have p: "pending_ok (Some n, None)" using assms(2) by (simp add: pending_ok_def)
  have q: "pending_ok (a, Some n)" if "\<not> (case a of None \<Rightarrow> 2 ^ 32 - 1 | Some k \<Rightarrow> k) \<ge> n"
    using that assms(2) by (cases a) (auto simp: pending_ok_def maxAcceptableTableSize_def DefaultSize_def)
  show ?thesis unfolding accept_table_size_def ab prod.case
    by (intro reaches_if assms(1) after [OF assms(1) table_size] p) (use q in blast)
qed

lemma adjust_window_leads [steps]: "reaches c d \<Longrightarrow> leads (\<lambda>c. c) c (adjust_window delta i d)"
proof -
  assume r: "reaches c d"
  show ?thesis
  proof (cases "getStream i d")
    case None
    then show ?thesis by (simp add: adjust_window_def steps r)
  next
    case (Some s)
    show ?thesis
    proof (cases "qAddOverflow32 (m_sendWindow s) delta")
      case None
      then show ?thesis using Some by (simp add: adjust_window_def streamError_leads r)
    next
      case (Some n)
      then have "fits_i32 n" by (simp add: qAddOverflow32_Some fits_i32_def)
      note r2 = after [OF r stream_grant [OF this]]
      show ?thesis unfolding adjust_window_def \<open>getStream i d = _\<close> option.case Some Let_def
        by (intro leads_Some reaches_if quiet_updates r2)
    qed
  qed
qed

lemma acceptSetting_leads [steps]:
  assumes "reaches c d" shows "leads snd c (acceptSetting identifier n d)"
  unfolding acceptSetting_def Let_def
proof (intro leads_if refuse_setting_leads assms)
  assume "\<not> n > maxAcceptableTableSize"
  then show "leads snd c (Some (True, accept_table_size n d))" by (intro steps assms) simp
next
  assume "\<not> n > 2 ^ 31 - 1"
  then have "reaches c (d\<lparr>streamInitialSendWindowSize := int n\<rparr>)" by (intro after [OF assms initial_grant]) simp_all
  then show "leads snd c (map_option (Pair True) (each_stream (adjust_window (int n - streamInitialSendWindowSize d))
      (map fst (m_streams (d\<lparr>streamInitialSendWindowSize := int n\<rparr>))) (d\<lparr>streamInitialSendWindowSize := int n\<rparr>)))"
    by (intro leads_map_Pair each_stream_leads adjust_window_leads) simp_all
next
  assume "\<not> (n < minPayloadLimit \<or> n > maxPayloadSize)"
  then show "leads snd c (Some (True, d\<lparr>c_maxFrameSize := n\<rparr>))" by (intro leads_Some reaches_snd_pair after [OF assms frame_size]) auto
qed (intro steps assms)+


lemma settings_loop_leads:
  assumes "settings_loop f src endp d = Some r" shows "reaches d (snd r)"
  using assms
proof (induction rule: settings_loop.raw_induct [rotated, consumes 1, case_names step])
  case (step sl f src endp d r)
  show ?case
  proof (cases "src = endp")
    case True
    then show ?thesis using step(2) by auto
  next
    case False
    with step(2) obtain a b x where x1: "acceptSetting a b d = Some x"
      and x2: "(if \<not> fst x then Some x else sl f (src + 6) endp (snd x)) = Some r"
      by (auto simp: bind_eq_Some_conv)
    then have x: "acceptSetting a b d = Some x" "\<not> fst x \<Longrightarrow> r = x" "fst x \<Longrightarrow> sl f (src + 6) endp (snd x) = Some r"
      by (simp_all split: if_splits)
    have "reaches d (snd x)" using leadsD [OF acceptSetting_leads [OF reaches_refl] x(1)] .
    then show ?thesis using x(2) step(1) [OF x(3)] by (cases "fst x") (auto intro: rtranclp_trans)
  qed
qed

lemma handleSETTINGS_leads [steps]:
  assumes "reaches c d" shows "leads (\<lambda>c. c) c (handleSETTINGS d)"
  unfolding handleSETTINGS_def Let_def
proof (intro leads_if connectionError_leads assms leads_Some quiet_updates)
  let ?f = "inboundFrame d"
  show "leads (\<lambda>c. c) c ((if dataSize ?f \<noteq> 0 then dataBegin ?f \<bind> (\<lambda>src. settings_loop ?f src (src + dataSize ?f) d)
           else Some (True, d)) \<bind> (\<lambda>(ok, c). Some (if ok then emit settingsFrameReceived (snd (sendSETTINGS_ACK c)) else c)))"
  proof (rule leads_bind [where f = snd], goal_cases)
    case 1
    show ?case
      by (intro leads_if leads_lookup leads_Some reaches_snd_pair assms)
        (auto simp: leads_def dest!: settings_loop_leads intro: rtranclp_trans [OF assms])
  next
    case (2 x)
    then show ?case by (cases x) (auto intro!: steps)
  qed
qed

lemma session_take_reaches:
  "reaches c d \<Longrightarrow> int (payloadSize f) \<le> sessionReceiveWindowSize d
    \<Longrightarrow> reaches c (d\<lparr>sessionReceiveWindowSize := i32 (sessionReceiveWindowSize d - int (payloadSize f))\<rparr>)"
  by (rule after [OF _ session_take]) simp_all

lemma session_refill_reaches:
  assumes "reaches c d"
  shows "reaches c ((enqueue q d)\<lparr>sessionReceiveWindowSize := maxSessionReceiveWindowSize d\<rparr>)"
proof -
  have "maxSessionReceiveWindowSize (enqueue q d) = maxSessionReceiveWindowSize d" by (simp add: enqueue_def)
  with after [OF quiet_updates(2) [OF assms] session_refill, of q] show ?thesis by simp
qed

lemma handleDATA_leads [steps]:
  assumes "reaches c d" shows "leads (\<lambda>c. c) c (handleDATA d)"
  unfolding handleDATA_def Let_def
proof (rule leads_if, (intro steps assms), rule leads_if, (intro steps assms), rule leads_if, (intro steps assms),
    rule leads_if, (intro steps assms), goal_cases)
  case 1
  then have "int (payloadSize (inboundFrame d)) \<le> sessionReceiveWindowSize d" by simp
  note r = session_take_reaches [OF assms this]
  show ?case
    by (rule leads_bind [where f = "\<lambda>c. c"], (intro steps r), rule leads_bind [where f = "\<lambda>c. c"],
        (intro steps leads_bind [where f = "\<lambda>c. c"]; assumption), rule leads_Some, rule reaches_if,
        rule session_refill_reaches)
qed

lemma handlePRIORITY_leads [steps]: "reaches c d \<Longrightarrow> leads (\<lambda>c. c) c (handlePRIORITY d)"
  unfolding handlePRIORITY_def Let_def by (intro steps leads_lookup)

lemma subscript_reaches [steps]: "reaches c d \<Longrightarrow> i \<noteq> 0 \<Longrightarrow> reaches c (subscript_streams i d)"
  unfolding subscript_streams_def by (intro reaches_if after [OF _ null_stream])

lemma handleRST_STREAM_leads [steps]:
  assumes "reaches c d" shows "leads (\<lambda>c. c) c (handleRST_STREAM d)"
  unfolding handleRST_STREAM_def Let_def
proof (rule leads_if, (intro steps assms), rule leads_if, (intro steps assms), rule leads_lookup, goal_cases)
  case (1 code)
  then have "fr_streamID (inboundFrame d) \<noteq> 0" by (simp add: connectionStreamID_def)
  note r = subscript_reaches [OF assms this]
  show ?case by (intro leads_if connectionError_leads stream_handleRST_STREAM_leads leads_Some reaches_if quiet_updates r)
qed

lemma handlePING_leads [steps]: "reaches c d \<Longrightarrow> leads (\<lambda>c. c) c (handlePING e d)"
  unfolding handlePING_def Let_def by (intro steps leads_lookup)

lemma handleGOAWAY_leads [steps]:
  assumes "reaches c d" shows "leads (\<lambda>c. c) c (handleGOAWAY d)"
  unfolding handleGOAWAY_def Let_def
proof (rule leads_if, (intro steps assms), rule leads_lookup, rule leads_lookup, rule leads_lookup,
    rule leads_if, (intro steps assms), rule leads_if, (intro steps assms), goal_cases)
  case (1 src b1 b2)
  let ?n = "from_be b1 mod 2 ^ 31"
  have n: "?n \<le> l" if "m_lastGoAwayLastStreamID d = Some l" for l using 1 that by simp
  have "?n < 2 ^ 31" by simp
  then have "?n \<le> lastValidStreamID" unfolding lastValidStreamID_def by linarith
  have "change d (d\<lparr>m_lastGoAwayLastStreamID := Some ?n\<rparr>)" by (rule peer_cut_off) (use n \<open>?n \<le> _\<close> in blast)+
  note r0 = after [OF assms this]
  have r: "reaches c (emit ev (d\<lparr>m_lastGoAwayLastStreamID := Some ?n, m_goingAway := True\<rparr>))" for ev
    by (intro quiet_updates after [OF r0 go_away])
  show ?case
  proof ((rule leads_if; rule leads_bind [where f = "\<lambda>c. c"]), goal_cases)
    case 1
    show ?case by (rule each_stream_leads [OF r finish_if_active_leads])
  next
    case (2 x)
    show ?case by (intro leads_Some maybeClose_reaches 2)
  next
    case 3
    show ?case by (rule each_stream_leads [OF after [OF r abort] finish_if_active_leads])
  next
    case (4 x)
    show ?case by (intro leads_Some quiet_updates 4)
  qed
qed

lemma resume_blocked_reaches: "reaches c d \<Longrightarrow> reaches c (fold resume_blocked is d)"
proof (induction "is" arbitrary: d)
  case (Cons i "is")
  have "reaches c (resume_blocked i d)"
    using Cons(2) by (cases "getStream i d") (simp_all add: resume_blocked_def steps)
  then show ?case using Cons(1) by simp
qed simp

lemma handleWINDOW_UPDATE_leads [steps]:
  assumes "reaches c d" shows "leads (\<lambda>c. c) c (handleWINDOW_UPDATE d)"
  unfolding handleWINDOW_UPDATE_def Let_def
proof (rule leads_lookup, rule leads_if, (intro steps assms), rule leads_if, goal_cases)
  case (1 delta)
  show ?case
  proof (cases "if valid_delta delta then qAddOverflow32 (sessionSendWindowSize d) (i32 (int delta)) else None")
    case None
    show ?thesis unfolding None option.case by (intro steps assms)
  next
    case (Some n)
    have "i32 (int delta) = int delta" if "valid_delta delta"
      using that by (intro i32_exact) (simp_all add: valid_delta_def)
    with Some have "sessionSendWindowSize d \<le> n" "n < 2 ^ 31" by (auto simp: qAddOverflow32_Some split: if_splits)
    note r = after [OF assms session_grant [OF this]]
    show ?thesis unfolding Some option.case by (intro leads_Some resume_blocked_reaches quiet_updates r)
  qed
next
  case (2 delta)
  show ?case by (intro steps assms)
qed

subsection \<open>Header blocks\<close>

lemma handle_header_list_leads [steps]:
  assumes "reaches c d" shows "leads (\<lambda>c. c) c (handle_header_list e first d)"
  unfolding handle_header_list_def Let_def
proof (rule leads_if, (intro steps assms), rule leads_if, goal_cases)
  case 1
  show ?case by (intro steps leads_bind [where f = "\<lambda>c. c"] assms)
next
  case 2
  have push: "leads (\<lambda>c. c) c (case makePromiseKeyUrl (make_url e) (dec_header (c_decoder d)) of
                     None \<Rightarrow> Some d
                   | Some promiseKey \<Rightarrow>
                       if map_of (m_promisedStreams d) promiseKey \<noteq> None then Some d
                       else data_u32 first \<bind> (\<lambda>promiseID. transitionState promiseID CloseLocal d \<bind>
                         (\<lambda>c. stream_handleHEADERS promiseID (fr_flags first) (dec_header (c_decoder d)) c \<bind>
                         (\<lambda>c. Some ((emit (newPromisedStream promiseID) c)\<lparr>m_promisedStreams :=
                             m_promisedStreams (emit (newPromisedStream promiseID) c) @ [(promiseKey, promiseID)]\<rparr>)))))"
    by (cases "makePromiseKeyUrl (make_url e) (dec_header (c_decoder d))")
      (simp_all only: option.case, (intro steps leads_lookup leads_bind [where f = "\<lambda>c. c"] assms)+)
  show ?case
    by (cases "fr_type first"; simp only: frame_type.case) (rule push | intro steps assms)+
qed

lemma decode_header_block_leads [steps]:
  assumes "reaches c d" shows "leads (\<lambda>c. c) c (decode_header_block e first d)"
  unfolding decode_header_block_def Let_def
proof (rule leads_lookup, rule leads_if, goal_cases)
  case 1
  show ?case by (rule leads_lookup) (auto intro!: steps assms split: prod.split simp del: split_paired_All)
next
  case 2
  show ?case by (intro steps assms)
qed

lemma handleContinuedHEADERS_leads [steps]:
  "reaches c d \<Longrightarrow> leads (\<lambda>c. c) c (handleContinuedHEADERS e d)"
  unfolding handleContinuedHEADERS_def Let_def
  by (cases "continuedFrames d"; simp only: list.case) (intro steps leads_lookup; assumption)+

lemma block_reaches:
  assumes "reaches c d" "block_ok (continuationExpected d) (continuedFrames d) \<Longrightarrow> block_ok b fs"
  shows "reaches c (d\<lparr>continuationExpected := b, continuedFrames := fs, inboundFrame := f\<rparr>)"
  by (intro quiet_updates after [OF assms(1) header_block] assms(2))

lemma start_block_leads [steps]:
  assumes "reaches c d" shows "leads (\<lambda>c. c) c (start_block e d)"
proof -
  let ?d = "keep_frame (d\<lparr>continuedFrames := []\<rparr>)"
  have b: "block_ok b [f]" for b f by (simp add: block_ok_def)
  have e: "?d\<lparr>continuationExpected := True\<rparr>
      = d\<lparr>continuationExpected := True, continuedFrames := [inboundFrame d], inboundFrame := \<lparr>fr_buffer = []\<rparr>\<rparr>"
    by (simp add: keep_frame_def)
  have "reaches c (?d\<lparr>continuationExpected := True\<rparr>)"
    unfolding e using b by (rule block_reaches [OF assms])
  moreover have "reaches c ?d"
    using block_reaches [OF assms, of "continuationExpected d" "[inboundFrame d]" "\<lparr>fr_buffer = []\<rparr>"] b
    by (simp add: keep_frame_def)
  ultimately show ?thesis unfolding start_block_def Let_def
    by (intro leads_if leads_Some handleContinuedHEADERS_leads)
qed

lemma handleCONTINUATION_leads [steps]:
  assumes "reaches c d" shows "leads (\<lambda>c. c) c (handleCONTINUATION e d)"
proof (cases "continuedFrames d")
  case Nil
  then show ?thesis by (simp add: handleCONTINUATION_def steps assms)
next
  case (Cons first rest)
  show ?thesis unfolding handleCONTINUATION_def Cons list.case Let_def
  proof (intro leads_if connectionError_leads assms leads_Some handleContinuedHEADERS_leads)
    assume a: "\<not> \<not> continuationExpected d" "\<not> fr_streamID (inboundFrame d) \<noteq> fr_streamID first"
    have b: "block_ok b (continuedFrames d @ [inboundFrame d])" if "block_ok (continuationExpected d) (continuedFrames d)" for b
      using that a Cons by (auto simp: block_ok_def)
    show "reaches c (keep_frame d)"
      using block_reaches [OF assms, of "continuationExpected d" "continuedFrames d @ [inboundFrame d]" "\<lparr>fr_buffer = []\<rparr>"] b
      by (simp add: keep_frame_def)
    have e: "keep_frame d\<lparr>continuationExpected := False\<rparr> = d\<lparr>continuationExpected := False,
        continuedFrames := continuedFrames d @ [inboundFrame d], inboundFrame := \<lparr>fr_buffer = []\<rparr>\<rparr>"
      by (simp add: keep_frame_def)
    show "reaches c (keep_frame d\<lparr>continuationExpected := False\<rparr>)"
      unfolding e using b by (rule block_reaches [OF assms])
  qed
qed


lemma handleHEADERS_leads [steps]:
  assumes "reaches c d" shows "leads (\<lambda>c. c) c (handleHEADERS e d)"
proof -
  let ?f = "inboundFrame d"
  define go_on where "go_on c = (if testFlag (fr_flags ?f) PRIORITY_FLAG then handlePRIORITY c else Some c) \<bind> start_block e" for c :: "'a h2_conn"
  have go: "leads (\<lambda>c. c) c (go_on x)" if "reaches c x" for x
    unfolding go_on_def by (rule leads_bind [where f = "\<lambda>c. c"]) (intro steps that, rule start_block_leads)
  show ?thesis
    unfolding handleHEADERS_def Let_def go_on_def [symmetric]
  proof (intro leads_if connectionError_leads assms go, goal_cases)
    case 1
    then have nz: "fr_streamID ?f \<noteq> 0" by (simp add: connectionStreamID_def)
    have le: "fr_streamID ?f \<le> lastValidStreamID"
    proof -
      have "fr_streamID ?f < 2 ^ 31" by (simp add: fr_streamID_def)
      then show ?thesis unfolding lastValidStreamID_def by linarith
    qed
    obtain ok x where x: "createStreamInternal_impl (fr_streamID ?f) True d = (ok, x)" by fastforce
    show ?case
    proof (cases ok)
      case False
      then show ?thesis by (simp add: x leads_None)
    next
      case True
      have "m_lastIncomingStreamID d < fr_streamID ?f" "m_connectionType d = Client \<Longrightarrow> even (fr_streamID ?f)"
        using 1 by (auto simp: odd_iff_mod_2_eq_one)
      note r = create_remote [OF x [unfolded eqTrueI [OF True]] assms this(1) le this(2)]
      obtain s where "getStream (fr_streamID ?f) (x\<lparr>m_lastIncomingStreamID := fr_streamID ?f\<rparr>) = Some s" "m_state s = Idle"
        using r(2) by blast
      then have o: "leads (\<lambda>c. c) c (setState (fr_streamID ?f) Open (x\<lparr>m_lastIncomingStreamID := fr_streamID ?f\<rparr>))"
        by (intro setState_leads [OF r(1)]) (auto simp: may_become_def)
      show ?thesis
        unfolding x prod.case
      proof (rule leads_if, rule leads_None, rule leads_if, goal_cases)
        case 1
        show ?case by (rule leads_bind [where f = "\<lambda>c. c"], rule o) (intro leads_bind [where f = "\<lambda>c. c"] steps; assumption)
      next
        case 2
        show ?case by (intro leads_if go connectionError_leads quiet_updates r(1))
      qed
    qed
  qed
qed

lemma handlePUSH_PROMISE_leads [steps]:
  assumes "reaches c d" shows "leads (\<lambda>c. c) c (handlePUSH_PROMISE e d)"
  unfolding handlePUSH_PROMISE_def Let_def
proof (rule leads_if, (intro steps assms), rule leads_if, (intro steps assms), rule leads_if, (intro steps assms),
    rule leads_lookup, rule leads_if, (intro steps assms), rule leads_lookup, rule leads_if, (intro steps assms), goal_cases)
  case (1 associated i)
  then have i: "m_lastIncomingStreamID d < i" "i \<le> lastValidStreamID" "i \<noteq> 0" by auto
  obtain ok x where x: "createStreamInternal_impl i True d = (ok, x)" by fastforce
  show ?case
  proof (cases ok)
    case False
    from createStreamInternal_cases [OF x assms] have "reaches c x" by cases (use False in auto)
    then show ?thesis using False by (simp add: x) (intro steps)
  next
    case True
    note r = create_remote [OF x [unfolded eqTrueI [OF True]] assms i(1,2)]
    have e: "m_connectionType d = Client \<Longrightarrow> even i" using 1 by auto
    obtain s where "getStream i (x\<lparr>m_lastIncomingStreamID := i\<rparr>) = Some s" "m_state s = Idle"
      using r(2) e by blast
    then have o: "leads (\<lambda>c. c) c (setState i ReservedRemote (x\<lparr>m_lastIncomingStreamID := i\<rparr>))"
      using e by (intro setState_leads [OF r(1)]) (auto simp: may_become_def)
    show ?thesis
      unfolding x prod.case
    proof (rule leads_if, use True in simp, rule leads_bind [where f = "\<lambda>c. c"], rule o, goal_cases)
      case (1 y)
      show ?case by (intro leads_if leads_map_conn streamError_leads start_block_leads quiet_updates 1; assumption)
    qed
  qed
qed

lemma handle_frame_leads [steps]: "reaches c d \<Longrightarrow> leads (\<lambda>c. c) c (handle_frame e d)"
  unfolding handle_frame_def by (cases "fr_type (inboundFrame d)"; simp only: frame_type.case) (intro steps; assumption)+

lemma frame_size_error_leads [steps]: "reaches c d \<Longrightarrow> leads (\<lambda>c. c) c (frame_size_error d)"
  unfolding frame_size_error_def Let_def by (intro steps)

subsection \<open>Sessions\<close>

text \<open>A step of a session is a change, the reader taking octets from the socket, a step of the
  world (octets arrive, the outcome of coming writes is settled, the socket closes, time passes), or the
  application granting the peer more of the receive window of a stream. The last is bound by nothing but
  the width of the window, so the set \<open>T\<close> names the streams that may be granted to.\<close>

inductive session :: "nat set \<Rightarrow> 'url h2_conn \<Rightarrow> 'url h2_conn \<Rightarrow> bool" for T where
  changed: "change c d \<Longrightarrow> session T c d"
| received: "dev_in (c_socket c) = xs @ dev_in s \<Longrightarrow> dev_out s = dev_out (c_socket c) \<Longrightarrow> (dev_open s \<longrightarrow> dev_open (c_socket c))
    \<Longrightarrow> session T c (c\<lparr>c_socket := s, frameReader := r, inboundFrame := f\<rparr>)"
| world: "dev_out s = dev_out (c_socket c) \<Longrightarrow> (dev_open s \<longrightarrow> dev_open (c_socket c))
    \<Longrightarrow> session T c (c\<lparr>c_socket := s, c_now := t\<rparr>)"
| granted: "i \<in> T \<Longrightarrow> getStream i c = Some s \<Longrightarrow> fits_i32 (m_recvWindow s + n)
    \<Longrightarrow> session T c (with_stream i (m_recvWindow_update (\<lambda>w. w + n)) c)"

abbreviation evolves :: "nat set \<Rightarrow> 'url h2_conn \<Rightarrow> 'url h2_conn \<Rightarrow> bool" where
  "evolves T \<equiv> (session T)\<^sup>*\<^sup>*"

lemma reaches_evolves: "reaches c d \<Longrightarrow> evolves T c d"
  by (rule mono_rtranclp [rule_format, of change "session T"]) (rule changed)

lemma dev_read_in: "dev_read n s = (bs, s') \<Longrightarrow> dev_in s = bs @ dev_in s' \<and> dev_out s' = dev_out s \<and> dev_open s' = dev_open s"
  by (auto simp: dev_read_def)

lemma readPayload_in: "readPayload r s = (ok, r', s') \<Longrightarrow> \<exists>xs. dev_in s = xs @ dev_in s' \<and> dev_out s' = dev_out s \<and> dev_open s' = dev_open s"
  by (auto simp: readPayload_def Let_def split: prod.splits dest: dev_read_in)

lemma read_payload_part_in:
  "read_payload_part r s = (st, r', s') \<Longrightarrow> \<exists>xs. dev_in s = xs @ dev_in s' \<and> dev_out s' = dev_out s \<and> dev_open s' = dev_open s"
  by (auto simp: read_payload_part_def split: prod.splits if_splits dest!: readPayload_in)

lemma readHeader_in: "readHeader r s = (ok, r', s') \<Longrightarrow> \<exists>xs. dev_in s = xs @ dev_in s' \<and> dev_out s' = dev_out s \<and> dev_open s' = dev_open s"
  by (auto simp: readHeader_def Let_def split: prod.splits dest: dev_read_in)

lemma read_frame_in:
  "read_frame r s = (st, r', s') \<Longrightarrow> \<exists>xs. dev_in s = xs @ dev_in s' \<and> dev_out s' = dev_out s \<and> dev_open s' = dev_open s"
  by (fastforce simp: read_frame_def Let_def split: prod.splits if_splits dest!: readHeader_in read_payload_part_in)


lemma evolves_read:
  assumes "read_frame r (c_socket c) = (st, r', s')"
  shows "evolves T c (c\<lparr>frameReader := q, c_socket := s', inboundFrame := f\<rparr>)"
proof -
  obtain xs where "dev_in (c_socket c) = xs @ dev_in s'" "dev_out s' = dev_out (c_socket c)" "dev_open s' = dev_open (c_socket c)"
    using read_frame_in [OF assms] by blast
  then have "session T c (c\<lparr>c_socket := s', frameReader := q, inboundFrame := f\<rparr>)" by (intro received) simp_all
  moreover have "c\<lparr>c_socket := s', frameReader := q, inboundFrame := f\<rparr> = c\<lparr>frameReader := q, c_socket := s', inboundFrame := f\<rparr>" by simp
  ultimately show ?thesis by (metis r_into_rtranclp)
qed

lemma then_leads: "evolves T c d \<Longrightarrow> leads f d m \<Longrightarrow> m = Some x \<Longrightarrow> evolves T c (f x)"
  by (auto simp: leads_def dest!: reaches_evolves [where T = T])

text \<open>The state in which a round handles its frame, and how the round goes on from there.\<close>

definition after_read :: "'url h2_conn \<Rightarrow> 'url h2_conn" where
  "after_read c = (let (status, reader, sock) = read_frame (frameReader c) (c_socket c)
     in if status = goodFrame
        then c\<lparr>frameReader := reader\<lparr>rd_frame := \<lparr>fr_buffer = []\<rparr>\<rparr>, c_socket := sock, inboundFrame := rd_frame reader\<rparr>
        else c\<lparr>frameReader := reader, c_socket := sock\<rparr>)"

lemma after_read_evolves: "evolves T c (after_read c)"
proof -
  obtain st r s where r: "read_frame (frameReader c) (c_socket c) = (st, r, s)" by (rule prod_cases3)
  have "c\<lparr>frameReader := r, c_socket := s, inboundFrame := inboundFrame c\<rparr> = c\<lparr>frameReader := r, c_socket := s\<rparr>" by simp
  then show ?thesis using evolves_read [OF r, where q = r and f = "inboundFrame c"]
      evolves_read [OF r, where q = "r\<lparr>rd_frame := \<lparr>fr_buffer = []\<rparr>\<rparr>" and f = "rd_frame r"]
    by (simp add: after_read_def r)
qed

lemma read_round_leads: "leads snd (after_read c) (read_round e c)"
proof -
  obtain st r s where r: "read_frame (frameReader c) (c_socket c) = (st, r, s)" by (rule prod_cases3)
  have eq: "c\<lparr>frameReader := r, c_socket := s\<rparr>\<lparr>inboundFrame := rd_frame r, frameReader := r\<lparr>rd_frame := \<lparr>fr_buffer = []\<rparr>\<rparr>\<rparr>
      = c\<lparr>frameReader := r\<lparr>rd_frame := \<lparr>fr_buffer = []\<rparr>\<rparr>, c_socket := s, inboundFrame := rd_frame r\<rparr>" by simp
  show ?thesis
    by (cases st; simp only: read_round_def after_read_def r prod.case frame_status.case Let_def frame_status.distinct if_True if_False
        simp_thms eq) (intro steps)+
qed

lemma read_loop_evolves:
  assumes "read_loop e c = Some d" shows "evolves T c d"
  using assms
proof (induction rule: read_loop.raw_induct [rotated, consumes 1, case_names step])
  case (step rl e c d)
  show ?case
  proof (cases "m_connectionAborted c")
    case True
    then show ?thesis using step(2) by simp
  next
    case False
    then obtain r where r: "read_round e c = Some r" "(if fst r then rl e (snd r) else Some (snd r)) = Some d"
      using step(2) by (auto simp: bind_eq_Some_conv)
    have "evolves T c (snd r)" by (rule then_leads [OF after_read_evolves read_round_leads r(1)])
    then show ?thesis using r(2) step(1) [of e "snd r" d] by (cases "fst r") (auto intro: rtranclp_trans)
  qed
qed

lemma serverCheck_evolves:
  assumes "serverCheckClientPreface c = Some (ok, d)" shows "evolves T c d"
proof -
  obtain bs s where bs: "dev_read clientPrefaceLength (c_socket c) = (bs, s)" by fastforce
  note s = dev_read_in [OF bs]
  obtain ok2 x where x: "readClientPreface c = (ok2, x)" by fastforce
  then have x': "x = c\<lparr>c_socket := s\<rparr>" using bs by (auto simp: readClientPreface_def Let_def split: if_splits)
  have "session T c (c\<lparr>c_socket := s, frameReader := frameReader c, inboundFrame := inboundFrame c\<rparr>)"
    by (rule received) (use s in auto)
  then have e: "evolves T c x" by (simp add: x')
  have "reaches x (emit ev (x\<lparr>c_socket := (c_socket x)\<lparr>dev_open := False\<rparr>\<rparr>))" for ev
    by (intro steps) (simp add: sock_step_def)
  moreover have "reaches x (snd (sendServerPreface (x\<lparr>m_waitingForClientPreface := False\<rparr>)))" by (intro steps)
  ultimately have l: "leads snd x (if \<not> ok2
              then Some (False, emit (connectionErrorOccurred PROTOCOL_ERROR ''invalid client preface'')
                                  (x\<lparr>c_socket := (c_socket x)\<lparr>dev_open := False\<rparr>\<rparr>))
              else case sendServerPreface (x\<lparr>m_waitingForClientPreface := False\<rparr>) of (ok, c) \<Rightarrow>
                if \<not> ok then map_option (Pair False) (connectionError INTERNAL_ERROR ''Failed to send server preface'' c)
                      else Some (True, c))"
    by (intro leads_if leads_Some leads_prod leads_map_Pair connectionError_leads) simp_all
  have "evolves T x d" if "m_waitingForClientPreface c" "\<not> length (dev_in (c_socket c)) < clientPrefaceLength"
  proof -
    have "evolves T x (snd (ok, d))"
      by (rule then_leads [OF rtranclp.rtrancl_refl l]) (use assms that x in \<open>cases ok2; simp add: serverCheckClientPreface_def Let_def\<close>)
    then show ?thesis by simp
  qed
  then show ?thesis using e assms
    by (cases "m_waitingForClientPreface c \<and> \<not> length (dev_in (c_socket c)) < clientPrefaceLength")
      (auto simp: serverCheckClientPreface_def intro: rtranclp_trans split: if_splits)
qed

lemma handleReadyRead_evolves:
  assumes "handleReadyRead e c = Some d" shows "evolves T c d"
proof -
  obtain ok x where x: "(if m_connectionType c = Server then serverCheckClientPreface c else Some (True, c)) = Some (ok, x)"
    "(if \<not> ok \<or> \<not> m_prefaceSent x then Some x else read_loop e x) = Some d"
    using assms by (auto simp: handleReadyRead_def bind_eq_Some_conv)
  have "evolves T c x" using x(1) serverCheck_evolves by (auto split: if_splits)
  then show ?thesis using x(2) read_loop_evolves [where T = T] by (auto split: if_splits intro: rtranclp_trans)
qed

lemma run_queued_evolves:
  assumes "run_queued e q c = Some d" shows "evolves T c d"
proof (cases q)
  case Queued_handleReadyRead
  then show ?thesis using assms handleReadyRead_evolves by (simp add: run_queued_def)
next
  case (Queued_sendWINDOW_UPDATE i n)
  then show ?thesis using assms reaches_evolves [OF sendWINDOW_UPDATE_reaches [OF reaches_refl]] by (auto simp: run_queued_def)
next
  case (Queued_maybeResumeUpload i)
  then show ?thesis using assms reaches_evolves [OF leadsD [OF maybeResumeUpload_leads [OF reaches_refl]]]
    by (auto simp: run_queued_def split: if_splits)
qed


subsection \<open>The operations of a session\<close>

datatype h2_call =
  Call_handleReadyRead | Call_queued queued_call | Call_createStream bool
| Call_sendHEADERS nat "header_field list" bool byte | Call_sendDATA nat bytes bool | Call_sendDATA_device nat bytes nat bool
| Call_sendRST_STREAM nat nat | Call_uploadDeviceDestroyed nat | Call_uploadReady nat | Call_delete_stream nat
| Call_sendDATA_byteDevice nat byte_device bool | Call_takeDownloadBuffer nat | Call_clearDownloadBuffer nat
| Call_sendWINDOW_UPDATE nat nat | Call_sendPing bytes | Call_close nat | Call_handleConnectionClosure

text \<open>What the application and the event loop may call on a connection.\<close>

fun call :: "'url h2_env \<Rightarrow> h2_call \<Rightarrow> 'url h2_conn \<Rightarrow> 'url h2_conn option" where
  "call e Call_handleReadyRead c = handleReadyRead e c"
| "call e (Call_queued q) c = run_queued e q c"
| "call e (Call_createStream conf) c = Some (snd (createStream conf c))"
| "call e (Call_sendHEADERS i h fin prio) c = map_option snd (sendHEADERS i h fin prio c)"
| "call e (Call_sendDATA i payload fin) c = map_option snd (sendDATA i payload fin c)"
| "call e (Call_sendDATA_device i buf pos fin) c = map_option snd (sendDATA_device i buf pos fin c)"
| "call e (Call_sendDATA_byteDevice i dev fin) c = map_option snd (sendDATA_byteDevice i dev fin c)"
| "call e (Call_takeDownloadBuffer i) c = map_option snd (takeDownloadBuffer i c)"
| "call e (Call_clearDownloadBuffer i) c = clearDownloadBuffer i c"
| "call e (Call_sendWINDOW_UPDATE i n) c = stream_sendWINDOW_UPDATE i n c"
| "call e (Call_sendRST_STREAM i n) c = map_option snd (sendRST_STREAM i n c)"
| "call e (Call_uploadDeviceDestroyed i) c = uploadDeviceDestroyed i c"
| "call e (Call_uploadReady i) c = maybeResumeUpload i c"
| "call e (Call_delete_stream i) c = delete_stream i c"
| "call e (Call_sendPing b) c = Some (snd (sendPing_data b c))"
| "call e (Call_close n) c = close_connection e n c"
| "call e Call_handleConnectionClosure c = handleConnectionClosure c"

lemma leads_snd: "leads snd c m \<Longrightarrow> leads (\<lambda>c. c) c (map_option snd m)"
  by (cases m) (simp_all add: leads_def)

text \<open>The streams whose receive window the application enlarges by a call of its own.\<close>

fun call_grants :: "h2_call \<Rightarrow> nat set" where
  "call_grants (Call_sendWINDOW_UPDATE i n) = {i}"
| "call_grants _ = {}"

lemma grant_evolves:
  assumes "stream_sendWINDOW_UPDATE i n c = Some d" "i \<in> T" shows "evolves T c d"
proof -
  let ?x = "with_stream i (m_recvWindow_update (\<lambda>w. w + i32 (int n))) c"
  obtain s where s: "getStream i c = Some s" "fits_i32 (m_recvWindow s + i32 (int n))" "d = snd (sendWINDOW_UPDATE i n ?x)"
    using assms(1) by (auto simp: stream_sendWINDOW_UPDATE_def bind_eq_Some_conv split: if_splits)
  have "evolves T c ?x" by (rule r_into_rtranclp) (rule granted [OF assms(2) s(1,2)])
  also have "evolves T ?x d" unfolding s(3) by (intro reaches_evolves steps)
  finally show ?thesis .
qed

lemma call_evolves:
  assumes "call e op c = Some d" "m_nextStreamID c \<noteq> 0" "call_grants op \<subseteq> T" shows "evolves T c d"
proof -
  have r: "reaches c c" by simp
  have l: "leads (\<lambda>c. c) c (call e op c) \<Longrightarrow> ?thesis" using assms(1) by (auto simp: leads_def intro: reaches_evolves)
  show ?thesis
  proof (cases op)
    case Call_handleReadyRead
    then show ?thesis using assms handleReadyRead_evolves by simp
  next
    case (Call_queued q)
    then show ?thesis using assms run_queued_evolves by simp
  next
    case (Call_createStream conf)
    show ?thesis by (rule l, unfold Call_createStream call.simps) (intro steps r assms(2))
  next
    case (Call_sendWINDOW_UPDATE i n)
    then show ?thesis using assms grant_evolves by simp
  qed (rule l; simp only: call.simps; (intro leads_snd steps r))+
qed


text \<open>A history of a connection: calls, and what happens in the world between them.\<close>

datatype h2_step = Call h2_call | Arrive bytes | Outcomes "int list" | Hang_up | Clock nat

fun step :: "'url h2_env \<Rightarrow> h2_step \<Rightarrow> 'url h2_conn \<Rightarrow> 'url h2_conn option" where
  "step e (Call op) c = call e op c"
| "step e (Arrive xs) c = Some (c\<lparr>c_socket := (c_socket c)\<lparr>dev_in := dev_in (c_socket c) @ xs\<rparr>\<rparr>)"
| "step e (Outcomes rs) c = Some (c\<lparr>c_socket := (c_socket c)\<lparr>dev_results := rs\<rparr>\<rparr>)"
| "step e Hang_up c = Some (c\<lparr>c_socket := (c_socket c)\<lparr>dev_open := False\<rparr>\<rparr>)"
| "step e (Clock t) c = Some (c\<lparr>c_now := t\<rparr>)"

fun history :: "'url h2_env \<Rightarrow> h2_step list \<Rightarrow> 'url h2_conn \<Rightarrow> 'url h2_conn option" where
  "history e [] c = Some c"
| "history e (x # xs) c = do { d \<leftarrow> step e x c; history e xs d }"

fun step_grants :: "h2_step \<Rightarrow> nat set" where
  "step_grants (Call op) = call_grants op"
| "step_grants _ = {}"

definition grants :: "h2_step list \<Rightarrow> nat set" where
  "grants xs = (\<Union>x \<in> set xs. step_grants x)"

lemma grants_simps [simp]: "grants [] = {}" "grants (x # xs) = step_grants x \<union> grants xs"
  by (simp_all add: grants_def)

lemma world_socket: "dev_out s = dev_out (c_socket c) \<Longrightarrow> (dev_open s \<longrightarrow> dev_open (c_socket c)) \<Longrightarrow> session T c (c\<lparr>c_socket := s\<rparr>)"
  using world [of s c T "c_now c"] by simp

lemma world_clock: "session T c (c\<lparr>c_now := t\<rparr>)"
  using world [of "c_socket c" c T t] by simp

lemma step_evolves: "step e x c = Some d \<Longrightarrow> m_nextStreamID c \<noteq> 0 \<Longrightarrow> step_grants x \<subseteq> T \<Longrightarrow> evolves T c d"
  by (cases x) (auto intro: call_evolves r_into_rtranclp [of "session T", OF world_clock] intro!: r_into_rtranclp [of "session T", OF world_socket])

lemma change_next: "change c d \<Longrightarrow> m_nextStreamID c \<le> m_nextStreamID d"
  by (induction rule: change.induct) (auto simp: guarded_def registerStreamAsResetLocally_def with_stream_def Let_def)

lemma evolves_next: "evolves T c d \<Longrightarrow> m_nextStreamID c \<le> m_nextStreamID d"
  by (induction rule: rtranclp_induct) (auto elim!: session.cases dest!: change_next simp: with_stream_def)

lemma history_evolves: "history e xs c = Some d \<Longrightarrow> m_nextStreamID c \<noteq> 0 \<Longrightarrow> grants xs \<subseteq> T \<Longrightarrow> evolves T c d"
proof (induction xs arbitrary: c)
  case (Cons x xs)
  then obtain y where y: "step e x c = Some y" "history e xs y = Some d" by (auto simp: bind_eq_Some_conv)
  have e: "evolves T c y" by (rule step_evolves [OF y(1) Cons.prems(2)]) (use Cons.prems(3) in simp)
  have "evolves T y d" using Cons.IH [OF y(2)] evolves_next [OF e] Cons.prems(2,3) by simp
  then show ?case using e by simp
qed simp

subsection \<open>Relations and invariants of sessions\<close>

locale session_relation =
  fixes T :: "nat set" and R :: "'url h2_conn \<Rightarrow> 'url h2_conn \<Rightarrow> bool"
  assumes same: "R c c"
    and chain: "R c d \<Longrightarrow> R d d' \<Longrightarrow> R c d'"
    and one: "session T c d \<Longrightarrow> R c d"
begin

lemma over_reaches: "reaches c d \<Longrightarrow> R c d"
  by (induction rule: rtranclp_induct) (auto intro: same chain one changed)

lemma over_evolves: "evolves T c d \<Longrightarrow> R c d"
  by (induction rule: rtranclp_induct) (auto intro: same chain one)

lemma over_read_loop: "read_loop e c = Some d \<Longrightarrow> R c d"
  by (rule over_evolves) (rule read_loop_evolves)

lemma over_handleReadyRead: "handleReadyRead e c = Some d \<Longrightarrow> R c d"
  by (rule over_evolves) (rule handleReadyRead_evolves)

lemma over_call: "call e op c = Some d \<Longrightarrow> m_nextStreamID c \<noteq> 0 \<Longrightarrow> call_grants op \<subseteq> T \<Longrightarrow> R c d"
  by (rule over_evolves) (rule call_evolves)

lemma over_history: "history e xs c = Some d \<Longrightarrow> m_nextStreamID c \<noteq> 0 \<Longrightarrow> grants xs \<subseteq> T \<Longrightarrow> R c d"
  by (rule over_evolves) (rule history_evolves)

end

text \<open>An invariant that every single change keeps, and every grant to one of the streams \<open>T\<close>, and that
  speaks of nothing the world does.\<close>

locale session_invariant =
  fixes T :: "nat set" and I :: "'url h2_conn \<Rightarrow> bool"
  assumes kept: "change c d \<Longrightarrow> I c \<Longrightarrow> I d"
    and enlarged: "i \<in> T \<Longrightarrow> getStream i c = Some x \<Longrightarrow> fits_i32 (m_recvWindow x + n) \<Longrightarrow> I c
      \<Longrightarrow> I (with_stream i (m_recvWindow_update (\<lambda>w. w + n)) c)"
    and apart: "I (c\<lparr>c_socket := s, frameReader := r, inboundFrame := f\<rparr>) = I c"
      "I (c\<lparr>c_socket := s, c_now := t\<rparr>) = I c"

sublocale session_invariant \<subseteq> session_relation T "\<lambda>c d. I c \<longrightarrow> I d"
  by unfold_locales (auto elim!: session.cases simp: apart dest: kept enlarged)

subsection \<open>The read loop ends\<close>

lemma change_reader: "change c d \<Longrightarrow> frameReader d = frameReader c \<and> dev_in (c_socket d) = dev_in (c_socket c)"
  by (induction rule: change.induct)
    (auto simp: guarded_def log_grows_def sock_step_def registerStreamAsResetLocally_def with_stream_def Let_def)

lemma reaches_reader: "reaches c d \<Longrightarrow> frameReader d = frameReader c \<and> dev_in (c_socket d) = dev_in (c_socket c)"
  by (induction rule: rtranclp_induct) (auto dest: change_reader)

text \<open>What a round can still do: read the octets that have arrived, and finish the frame already in
  the reader.\<close>

definition unread :: "'url h2_conn \<Rightarrow> nat" where
  "unread c = length (dev_in (c_socket c)) + of_bool (frameHeaderSize \<le> rd_offset (frameReader c))"

lemma read_payload_part_progress:
  "read_payload_part r s = (goodFrame, r', s') \<Longrightarrow> rd_offset r' = 0"
  by (auto simp: read_payload_part_def Let_def split: prod.splits if_splits)

lemma read_frame_progress:
  assumes "read_frame r s = (goodFrame, r', s')"
  shows "length (dev_in s') + of_bool (frameHeaderSize \<le> rd_offset r')
    < length (dev_in s) + of_bool (frameHeaderSize \<le> rd_offset r)"
proof (cases "rd_offset r < frameHeaderSize")
  case False
  then have "read_payload_part r s = (goodFrame, r', s')" using assms by (simp add: read_frame_def)
  with read_payload_part_progress [OF this] read_payload_part_in [OF this] False show ?thesis
    by (auto simp: frameHeaderSize_def)
next
  case True
  obtain ok r1 s1 where rh: "readHeader r s = (ok, r1, s1)" by (rule prod_cases3)
  have ok: ok using assms True rh by (auto simp: read_frame_def split: if_splits)
  obtain r2 where r2: "read_payload_part r2 s1 = (goodFrame, r', s')"
    using assms True rh ok by (auto simp: read_frame_def Let_def split: if_splits)
  have "length (dev_in s1) < length (dev_in s)"
    using rh ok True by (auto simp: readHeader_def dev_read_def Let_def frameHeaderSize_def)
  moreover have "length (dev_in s') \<le> length (dev_in s1)" using read_payload_part_in [OF r2] by auto
  ultimately show ?thesis using read_payload_part_progress [OF r2] True by (auto simp: frameHeaderSize_def)
qed

lemma read_round_progress:
  assumes "read_round e c = Some (True, d)" shows "unread d < unread c"
proof -
  obtain st r s where r: "read_frame (frameReader c) (c_socket c) = (st, r, s)" by (rule prod_cases3)
  have g: "st = goodFrame"
    using assms r by (cases st) (auto simp: read_round_def)
  have "reaches (after_read c) d" using read_round_leads assms by (fastforce simp: leads_def)
  from reaches_reader [OF this] show ?thesis
    using read_frame_progress [OF r [unfolded g]] by (simp add: unread_def after_read_def r g)
qed

text \<open>The loop with a bound on its rounds: \<open>Inl\<close> if the bound was too small.\<close>

fun bounded_read_loop :: "nat \<Rightarrow> 'url h2_env \<Rightarrow> 'url h2_conn \<Rightarrow> ('url h2_conn + 'url h2_conn) option" where
  "bounded_read_loop 0 e c = Some (Inl c)"
| "bounded_read_loop (Suc n) e c =
     (if m_connectionAborted c then Some (Inr c)
      else do { r \<leftarrow> read_round e c; if fst r then bounded_read_loop n e (snd r) else Some (Inr (snd r)) })"

lemma read_loop_bounded:
  "unread c < n \<Longrightarrow> bounded_read_loop n e c = map_option Inr (read_loop e c)"
proof (induction n arbitrary: c)
  case (Suc n)
  show ?case
  proof (cases "m_connectionAborted c")
    case True
    then show ?thesis by (subst read_loop.simps) simp
  next
    case False
    show ?thesis
    proof (cases "read_round e c")
      case None
      then show ?thesis using False by (subst read_loop.simps) simp
    next
      case (Some r)
      obtain go d where r: "r = (go, d)" by fastforce
      have "bounded_read_loop n e d = map_option Inr (read_loop e d)" if go
        using Suc.IH [of d] Suc.prems read_round_progress [of e c d] Some r that by simp
      then show ?thesis using False Some r by (subst read_loop.simps) auto
    qed
  qed
qed simp

end
