(* ===== verification/Http2Invariant.thy ===== *)
theory Http2Invariant
  imports Http2Session "HOL-Library.Sublist"
begin

text \<open>
  What every history of a connection keeps. Three invariants (the table of streams with its windows,
  the numbers and identifiers, the header codec with the block being received) and two relations
  between earlier and later states (what only grows, and the life of the streams of a client) are
  interpretations of the contracts of sessions: each is checked once per single change.
\<close>


subsection \<open>The invariants\<close>

text \<open>The flow-control windows of the connection.\<close>

definition window_size :: "int \<Rightarrow> bool" where
  "window_size w \<longleftrightarrow> 0 \<le> w \<and> w < 2 ^ 31"

definition windows_ok :: "'url h2_conn \<Rightarrow> bool" where
  "windows_ok c \<longleftrightarrow> window_size (sessionReceiveWindowSize c) \<and> window_size (maxSessionReceiveWindowSize c)
     \<and> window_size (streamInitialReceiveWindowSize c)
     \<and> window_size (sessionSendWindowSize c) \<and> window_size (streamInitialSendWindowSize c)"

text \<open>The table of streams: a stream is found under its identifier, its windows are \<open>qint32\<close> values, and its
  receive window lies between zero and the initial window of the connection unless it is one of the streams
  \<open>T\<close> whose window the application enlarges itself.\<close>

definition stream_ok :: "nat set \<Rightarrow> int \<Rightarrow> nat \<Rightarrow> h2_stream \<Rightarrow> bool" where
  "stream_ok T w i s \<longleftrightarrow> m_streamID s = i \<and> fits_i32 (m_recvWindow s) \<and> fits_i32 (m_sendWindow s)
     \<and> (i \<notin> T \<longrightarrow> 0 \<le> m_recvWindow s \<and> m_recvWindow s \<le> w)"

definition entries_ok :: "nat set \<Rightarrow> int \<Rightarrow> (nat \<times> h2_stream option) list \<Rightarrow> bool" where
  "entries_ok T w ss \<longleftrightarrow> distinct (map fst ss) \<and> 0 \<notin> fst ` set ss
     \<and> (\<forall>(i, s) \<in> set ss. case s of None \<Rightarrow> True | Some s \<Rightarrow> stream_ok T w i s)"

definition streams_ok :: "nat set \<Rightarrow> 'url h2_conn \<Rightarrow> bool" where
  "streams_ok T c \<longleftrightarrow> windows_ok c \<and> entries_ok T (streamInitialReceiveWindowSize c) (m_streams c)"

text \<open>The bounds of the remaining numbers.\<close>

definition limits_ok :: "'url h2_conn \<Rightarrow> bool" where
  "limits_ok c \<longleftrightarrow> length (m_resetStreamIDs c) \<le> 100
     \<and> minPayloadLimit \<le> c_maxFrameSize c \<and> c_maxFrameSize c \<le> maxPayloadSize
     \<and> m_nextStreamID c \<noteq> 0 \<and> m_nextStreamID c \<le> lastValidStreamID + 2
     \<and> m_nextStreamID c mod 2 = (if m_connectionType c = Client then 1 else 0)
     \<and> m_lastIncomingStreamID c \<le> lastValidStreamID \<and> m_lastStreamToProcess c \<le> lastValidStreamID
     \<and> (\<forall>l. m_lastGoAwayLastStreamID c = Some l \<longrightarrow> l \<le> lastValidStreamID)"

text \<open>The header codec and the header block that is being received.\<close>

definition codec_ok :: "'url h2_conn \<Rightarrow> bool" where
  "codec_ok c \<longleftrightarrow> pending_ok (pendingTableSizeUpdates c) \<and> enc_ok (c_encoder c)
     \<and> block_ok (continuationExpected c) (continuedFrames c)"

lemma guarded_windows: "guarded d = guarded c \<Longrightarrow> windows_ok d = windows_ok c"
  by (simp add: guarded_def windows_ok_def)

lemma windows_with_stream: "windows_ok (with_stream i f c) = windows_ok c"
  by (simp add: windows_ok_def with_stream_def)

lemma i32_fits: "fits_i32 x \<Longrightarrow> i32 x = x"
  by (simp add: fits_i32_def i32_def)

lemma windows_change: "change c d \<Longrightarrow> windows_ok c \<Longrightarrow> windows_ok d"
proof (induction rule: change.induct)
  case (quiet d c)
  then show ?case by (simp only: guarded_windows [OF quiet(1)])
next
  case (session_take n c)
  then have "fits_i32 (sessionReceiveWindowSize c - n)" "window_size (sessionReceiveWindowSize c - n)"
    by (auto simp: windows_ok_def window_size_def fits_i32_def)
  with i32_fits [OF this(1)] session_take show ?case by (simp add: windows_ok_def)
next
  case (session_grant c n)
  then show ?case by (auto simp: windows_ok_def window_size_def)
next
  case (initial_grant n c)
  then show ?case by (simp add: windows_ok_def window_size_def)
next
  case (stream_spend i c s n)
  then have "window_size (sessionSendWindowSize c - n)" by (auto simp: windows_ok_def window_size_def)
  with stream_spend show ?case by (simp add: windows_ok_def with_stream_def)
qed (auto simp: windows_ok_def registerStreamAsResetLocally_def with_stream_def Let_def)

lemma fresh_stream_ok: "windows_ok c \<Longrightarrow> stream_ok T (streamInitialReceiveWindowSize c) i (fresh_stream i conf c)"
  by (auto simp: windows_ok_def window_size_def stream_ok_def fits_i32_def)

lemma entry_ok: "entries_ok T w (m_streams c) \<Longrightarrow> getStream i c = Some s \<Longrightarrow> stream_ok T w i s"
  by (auto simp: entries_ok_def getStream_def bind_eq_Some_conv dest!: map_of_SomeD split: option.splits)

lemma streams_ok_getStream: "streams_ok T c \<Longrightarrow> getStream i c = Some s \<Longrightarrow> stream_ok T (streamInitialReceiveWindowSize c) i s"
  by (auto simp: streams_ok_def dest: entry_ok)

text \<open>An entry of a table without duplicates is what is found.\<close>

lemma found_entry: "distinct (map fst (m_streams c)) \<Longrightarrow> (i, s) \<in> set (m_streams c) \<Longrightarrow> getStream i c = s"
  by (simp add: getStream_def)

lemma entries_with_stream:
  assumes c: "entries_ok T w (m_streams c)" and f: "\<And>s. getStream i c = Some s \<Longrightarrow> stream_ok T w i s \<Longrightarrow> stream_ok T w i (f s)"
  shows "entries_ok T w (m_streams (with_stream i f c))"
proof -
  have "stream_ok T w k t" if "(k, s) \<in> set (m_streams c)" "(if k = i then map_option f s else s) = Some t" for k s t
  proof -
    have "getStream k c = s" using c that(1) by (simp add: entries_ok_def found_entry)
    with f entry_ok [OF c, of k] that(2) show ?thesis by (auto split: if_splits)
  qed
  then have "case t of None \<Rightarrow> True | Some t \<Rightarrow> stream_ok T w k t" if "(k, t) \<in> set (m_streams (with_stream i f c))" for k t
    using that by (fastforce simp: with_stream_def split: option.split)
  moreover have "map fst (m_streams (with_stream i f c)) = map fst (m_streams c)" by (auto simp: with_stream_def)
  ultimately show ?thesis using c unfolding entries_ok_def set_map [symmetric] by auto
qed

lemma entries_append:
  "entries_ok T w (m_streams c) \<Longrightarrow> \<not> has_entry i c \<Longrightarrow> i \<noteq> 0 \<Longrightarrow> (\<And>s. x = Some s \<Longrightarrow> stream_ok T w i s)
    \<Longrightarrow> entries_ok T w (m_streams c @ [(i, x)])"
  by (auto simp: entries_ok_def has_entry_def map_of_eq_None_iff split: option.splits)

lemma entries_filter: "entries_ok T w ss \<Longrightarrow> entries_ok T w (filter p ss)"
  by (auto simp: entries_ok_def distinct_map_filter)

lemma streams_change: "change c d \<Longrightarrow> streams_ok T c \<Longrightarrow> windows_ok d \<Longrightarrow> streams_ok T d"
proof (induction rule: change.induct)
  case (quiet d c)
  then show ?case by (simp add: streams_ok_def guarded_def)
next
  case (stream_state i c s t)
  then show ?case by (auto simp: streams_ok_def stream_ok_def intro: entries_with_stream)
next
  case (stream_inert f c i)
  then show ?case by (auto simp: streams_ok_def stream_ok_def inert_def intro: entries_with_stream)
next
  case (stream_take i c s n)
  then show ?case by (auto simp: streams_ok_def stream_ok_def fits_i32_def intro!: entries_with_stream)
next
  case (stream_refill i c s n)
  then have "window_size (streamInitialReceiveWindowSize c)" by (simp add: streams_ok_def windows_ok_def)
  then show ?case using stream_refill by (auto simp: streams_ok_def stream_ok_def window_size_def intro!: entries_with_stream)
next
  case (stream_grant n c i)
  then show ?case by (auto simp: streams_ok_def stream_ok_def intro: entries_with_stream)
next
  case (stream_spend i c s n)
  then show ?case by (auto simp: streams_ok_def stream_ok_def fits_i32_def intro!: entries_with_stream)
next
  case (new_local i c conf)
  then show ?case by (auto simp: streams_ok_def fresh_stream_ok intro!: entries_append)
next
  case (new_remote c i conf)
  then show ?case by (auto simp: streams_ok_def fresh_stream_ok intro!: entries_append)
next
  case (null_stream i c)
  then show ?case by (auto simp: streams_ok_def intro!: entries_append)
next
  case (drop_stream c i)
  then show ?case by (simp add: streams_ok_def entries_filter)
qed (auto simp: streams_ok_def registerStreamAsResetLocally_def Let_def)

lemma limits_change: "change c d \<Longrightarrow> limits_ok c \<Longrightarrow> limits_ok d"
proof (induction rule: change.induct)
  case (quiet d c)
  then show ?case by (simp add: guarded_def limits_ok_def)
next
  case (new_local i c conf)
  then show ?case by (simp add: limits_ok_def)
qed (auto simp: limits_ok_def registerStreamAsResetLocally_def with_stream_def Let_def)

lemma codec_change: "change c d \<Longrightarrow> codec_ok c \<Longrightarrow> codec_ok d"
proof (induction rule: change.induct)
  case (quiet d c)
  then show ?case by (simp add: guarded_def codec_ok_def)
qed (auto simp: codec_ok_def registerStreamAsResetLocally_def with_stream_def Let_def)

interpretation streams: session_invariant T "streams_ok T" for T
proof unfold_locales
  show "change c d \<Longrightarrow> streams_ok T c \<Longrightarrow> streams_ok T d" for c d :: "'a h2_conn"
    by (rule streams_change) (auto simp: streams_ok_def intro: windows_change)
  show "streams_ok T (with_stream i (m_recvWindow_update (\<lambda>w. w + n)) c)"
    if "i \<in> T" "getStream i c = Some s" "fits_i32 (m_recvWindow s + n)" "streams_ok T c" for i n s and c :: "'a h2_conn"
    using that by (auto simp: streams_ok_def stream_ok_def windows_with_stream intro!: entries_with_stream)
qed (simp_all add: streams_ok_def windows_ok_def)

interpretation limits: session_invariant UNIV limits_ok
  by unfold_locales (erule limits_change, assumption, simp_all add: limits_ok_def with_stream_def)

interpretation codec: session_invariant UNIV codec_ok
  by unfold_locales (erule codec_change, assumption, simp_all add: codec_ok_def with_stream_def)


subsection \<open>Where a connection starts\<close>

definition config_ok :: "h2_config \<Rightarrow> bool" where
  "config_ok cfg \<longleftrightarrow> 0 < sessionWindowSize cfg \<and> sessionWindowSize cfg \<le> maxSessionReceiveWindow
     \<and> 0 < streamWindowSize cfg \<and> streamWindowSize cfg \<le> maxSessionReceiveWindow
     \<and> minPayloadLimit \<le> cfg_maxFrameSize cfg \<and> cfg_maxFrameSize cfg \<le> maxPayloadSize"

inductive starts :: "h2_config \<Rightarrow> 'url h2_conn \<Rightarrow> bool" for cfg where
  direct: "starts cfg (createDirectConnection sock now cfg)"
| server: "starts cfg (createDirectServerConnection sock now cfg)"
| upgraded: "createUpgradedConnection sock now cfg = Some (Some c) \<Longrightarrow> starts cfg c"

definition connection_ok :: "nat set \<Rightarrow> 'url h2_conn \<Rightarrow> bool" where
  "connection_ok T c \<longleftrightarrow> streams_ok T c \<and> limits_ok c \<and> codec_ok c"

text \<open>What holds if only the streams \<open>T\<close> may be granted to holds if more of them may.\<close>

lemma evolves_mono: "evolves T c d \<Longrightarrow> T \<subseteq> U \<Longrightarrow> evolves U c d"
  by (rule mono_rtranclp [rule_format, of "session T" "session U"]) (auto elim!: session.cases intro: session.intros)

lemma evolves_ok: "evolves T c d \<Longrightarrow> connection_ok T c \<Longrightarrow> connection_ok T d"
  using streams.over_evolves [of T c d] limits.over_evolves [of c d] codec.over_evolves [of c d]
    evolves_mono [of T c d UNIV]
  by (simp add: connection_ok_def)

lemma constants [simp]:
  "maxSessionReceiveWindow = 2147483647" "defaultSessionWindowSize = 65535" "minPayloadLimit = 16384"
  "maxPayloadSize = 16777215" "lastValidStreamID = 2147483647"
  by (simp_all add: maxSessionReceiveWindow_def h2_constants)

lemma created_ok:
  assumes "config_ok cfg"
  shows "connection_ok T (createDirectConnection sock now cfg)"
    and "connection_ok T (createDirectServerConnection sock now cfg)"
    and "connection_ok T (c\<lparr>m_upgradedConnection := b\<rparr>) = connection_ok T c"
proof -
  have "enc_ok (setCompressStrings b (Encoder DefaultSize True))" for b
    by (simp add: enc_ok_def setCompressStrings_def Encoder_def table_init DefaultSize_def)
       (simp add: FieldLookupTable_def)
  moreover have "i32 (int n) = int n" if "n \<le> 2147483647" for n
    using that by (intro i32_fits) (simp add: fits_i32_def)
  ultimately show "connection_ok T (createDirectConnection sock now cfg)"
    "connection_ok T (createDirectServerConnection sock now cfg)"
    using assms
    by (simp_all add: connection_ok_def streams_ok_def entries_ok_def windows_ok_def window_size_def limits_ok_def codec_ok_def
        pending_ok_def block_ok_def config_ok_def createDirectConnection_def createDirectServerConnection_def
        setH2Configuration_def QHttp2Connection_def connectionStreamID_def)
qed (simp add: connection_ok_def streams_ok_def windows_ok_def limits_ok_def codec_ok_def)

lemma upgraded_evolves:
  fixes c :: "'url h2_conn"
  assumes "createUpgradedConnection sock now cfg = Some (Some c)"
  shows "evolves T ((createDirectConnection sock now cfg)\<lparr>m_upgradedConnection := True\<rparr>) c"
proof -
  define x :: "'url h2_conn" where "x = (createDirectConnection sock now cfg)\<lparr>m_upgradedConnection := True\<rparr>"
  have start: "(setH2Configuration cfg (QHttp2Connection sock now))\<lparr>m_connectionType := Client, m_upgradedConnection := True\<rparr> = x"
    by (simp add: createDirectConnection_def x_def)
  have fields: "m_nextStreamID x = 1" "\<not> m_goingAway x" "m_connectionType x = Client"
    by (simp_all add: x_def createDirectConnection_def setH2Configuration_def QHttp2Connection_def)
  obtain r d where xd: "createLocalStreamInternal True x = (r, d)" by fastforce
  from xd assms obtain i where i: "r = Inr i" "setState i HalfClosedLocal d = Some c"
    by (auto simp: createUpgradedConnection_def start Let_def bind_eq_Some_conv split: sum.splits if_splits)
  have cs: "createStream True x = (Inr i, d)" using xd i(1) fields by (simp add: createStream_def)
  have r: "reaches x d" using createStream_reaches [of x x True] cs fields(1) by simp
  obtain y where y: "createStreamInternal_impl (m_nextStreamID x) True x = (True, y)" "i = m_nextStreamID x"
      "d = y\<lparr>m_nextStreamID := add32 (m_nextStreamID y) 2\<rparr>"
    using xd i(1) by (auto simp: createLocalStreamInternal_def Let_def split: prod.splits if_splits)
  have "m_state s = Idle" if "getStream i d = Some s" for s
    using createStreamInternal_cases [OF y(1) rtranclp.rtrancl_refl]
  proof cases
    case (2 z)
    from getStream_append [OF 2(4), of d "Some (fresh_stream (m_nextStreamID x) True z)" i] that
    show ?thesis by (simp add: y(2,3) 2(5)) (metis fresh_stream_fields(1))
  qed simp
  then have "leads (\<lambda>c. c) x (setState i HalfClosedLocal d)"
    by (intro setState_leads [OF r]) (simp add: may_become_def)
  from leadsD [OF this i(2)] show ?thesis unfolding x_def by (rule reaches_evolves)
qed

lemma starts_ok: "starts cfg c \<Longrightarrow> config_ok cfg \<Longrightarrow> connection_ok T c"
  by (induction rule: starts.induct) (simp_all add: created_ok evolves_ok [OF upgraded_evolves])

lemma starts_next: "starts cfg c \<Longrightarrow> m_nextStreamID c \<noteq> 0"
proof (induction rule: starts.induct)
  case (upgraded sock now c)
  from evolves_next [OF upgraded_evolves [OF this, of "{}"]] show ?case
    by (simp add: createDirectConnection_def setH2Configuration_def QHttp2Connection_def)
qed (simp_all add: createDirectConnection_def createDirectServerConnection_def setH2Configuration_def QHttp2Connection_def)

subsection \<open>What never goes back\<close>

definition later :: "'url h2_conn \<Rightarrow> 'url h2_conn \<Rightarrow> bool" where
  "later c d \<longleftrightarrow> m_connectionType d = m_connectionType c \<and> m_config d = m_config c
     \<and> (m_connectionAborted c \<longrightarrow> m_connectionAborted d) \<and> (m_goingAway c \<longrightarrow> m_goingAway d)
     \<and> m_nextStreamID c \<le> m_nextStreamID d \<and> m_lastIncomingStreamID c \<le> m_lastIncomingStreamID d
     \<and> (\<forall>l. m_lastGoAwayLastStreamID c = Some l \<longrightarrow> (\<exists>k\<le>l. m_lastGoAwayLastStreamID d = Some k))
     \<and> prefix (c_events c) (c_events d) \<and> prefix (dev_out (c_socket c)) (dev_out (c_socket d))
     \<and> (dev_open (c_socket d) \<longrightarrow> dev_open (c_socket c))"

lemma later_change: "change c d \<Longrightarrow> later c d"
proof (induction rule: change.induct)
  case (quiet d c)
  then show ?case by (auto simp: later_def guarded_def log_grows_def sock_step_def)
qed (auto simp: later_def registerStreamAsResetLocally_def with_stream_def Let_def)

lemma later_chain:
  assumes "later c d" "later d e" shows "later c e"
proof -
  have "\<exists>k\<le>l. m_lastGoAwayLastStreamID e = Some k" if "m_lastGoAwayLastStreamID c = Some l" for l
    using assms that unfolding later_def by (metis order_trans)
  then show ?thesis using assms by (auto simp: later_def)
qed

interpretation later: session_relation UNIV later
proof unfold_locales
  show "later c c" for c :: "'a h2_conn" by (simp add: later_def)
  show "later c d \<Longrightarrow> later d d' \<Longrightarrow> later c d'" for c d d' :: "'a h2_conn" by (rule later_chain)
  show "session UNIV c d \<Longrightarrow> later c d" for c d :: "'a h2_conn"
    by (erule session.cases) (simp add: later_change, simp_all add: later_def with_stream_def)
qed

subsection \<open>The life of a stream\<close>

text \<open>The states that may follow a state, directly or not.\<close>

fun may_follow :: "stream_state \<Rightarrow> stream_state \<Rightarrow> bool" where
  "may_follow Idle t = True"
| "may_follow ReservedRemote t \<longleftrightarrow> t \<in> {ReservedRemote, HalfClosedLocal, Closed}"
| "may_follow Open t \<longleftrightarrow> t \<in> {Open, HalfClosedLocal, HalfClosedRemote, Closed}"
| "may_follow HalfClosedLocal t \<longleftrightarrow> t \<in> {HalfClosedLocal, Closed}"
| "may_follow HalfClosedRemote t \<longleftrightarrow> t \<in> {HalfClosedRemote, Closed}"
| "may_follow Closed t \<longleftrightarrow> t = Closed"

lemma may_follow_refl [simp]: "may_follow s s"
  by (cases s) auto

lemma may_follow_trans: "may_follow s t \<Longrightarrow> may_follow t u \<Longrightarrow> may_follow s u"
  by (cases s; cases t) auto

lemma may_become_follow: "may_become s t \<Longrightarrow> may_follow s t"
  unfolding may_become_def by (cases s) (auto split: if_splits state_transition.splits, metis state_transition.exhaust)

text \<open>The identifiers a client or its server has used up.\<close>

definition used_id :: "nat \<Rightarrow> 'url h2_conn \<Rightarrow> bool" where
  "used_id i c \<longleftrightarrow> (if odd i then i < m_nextStreamID c else i \<le> m_lastIncomingStreamID c)"

definition succeeds :: "'url h2_conn \<Rightarrow> 'url h2_conn \<Rightarrow> bool" where
  "succeeds c d \<longleftrightarrow> later c d \<and> (m_connectionType c = Client \<and> odd (m_nextStreamID c) \<longrightarrow> odd (m_nextStreamID d) \<and>
     (\<forall>i t. used_id i c \<longrightarrow> getStream i d = Some t \<longrightarrow> (\<exists>s. getStream i c = Some s \<and> may_follow (m_state s) (m_state t))))"

lemma getStream_same: "m_streams d = m_streams c \<Longrightarrow> getStream i d = getStream i c"
  by (simp add: getStream_def)

lemma with_stream_next [simp]: "m_nextStreamID (with_stream i f c) = m_nextStreamID c"
  by (simp add: with_stream_def)

lemma succeeds_with_stream:
  assumes "later c (with_stream i f c)" "m_nextStreamID (with_stream i f c) = m_nextStreamID c"
    and "\<And>s. getStream i c = Some s \<Longrightarrow> may_follow (m_state s) (m_state (f s))"
  shows "succeeds c (with_stream i f c)"
  using assms by (auto simp: succeeds_def split: if_splits)

lemma succeeds_append:
  assumes "later c d" "\<not> has_entry j c" "m_streams d = m_streams c @ [(j, x)]" "m_connectionType c = Client \<Longrightarrow> odd (m_nextStreamID c) \<Longrightarrow> x \<noteq> None \<Longrightarrow> \<not> used_id j c"
    "m_connectionType c = Client \<Longrightarrow> odd (m_nextStreamID c) \<Longrightarrow> odd (m_nextStreamID d)"
  shows "succeeds c d"
  using assms getStream_append [OF assms(2,3)] by (auto simp: succeeds_def split: if_splits)

lemma map_of_drop: "map_of (filter (\<lambda>(k, _). k \<noteq> i) ss) j = (if j = i then None else map_of ss j)"
  by (induction ss) auto

lemma succeeds_change: "change c d \<Longrightarrow> succeeds c d"
proof -
  assume ch: "change c d"
  note l = later_change [OF ch]
  from ch show ?thesis
  proof cases
    case quiet
    then have "m_streams d = m_streams c" "m_nextStreamID d = m_nextStreamID c" by (simp_all add: guarded_def)
    with l getStream_same [OF this(1)] show ?thesis by (auto simp: succeeds_def)
  next
    case (stream_state i s t)
    with l show ?thesis by (auto intro!: succeeds_with_stream may_become_follow)
  next
    case (stream_inert f i)
    with l show ?thesis by (auto intro!: succeeds_with_stream simp: inert_def)
  next
    case (stream_take i s n)
    with l show ?thesis by (auto intro!: succeeds_with_stream)
  next
    case (stream_refill i s n)
    with l show ?thesis by (auto intro!: succeeds_with_stream)
  next
    case (stream_grant n i)
    with l show ?thesis by (auto intro!: succeeds_with_stream)
  next
    case (stream_spend i s n)
    have "getStream j d = getStream j (with_stream i (m_sendWindow_update (\<lambda>w. w - n)) c)" for j
      by (simp add: stream_spend(1) getStream_def)
    with l show ?thesis by (auto simp: succeeds_def stream_spend(1) split: if_splits)
  next
    case (new_local i conf)
    then show ?thesis using l by (intro succeeds_append [OF l new_local(3)]) (auto simp: used_id_def)
  next
    case (new_remote i conf)
    then show ?thesis by (intro succeeds_append [OF l new_remote(3)]) (auto simp: used_id_def)
  next
    case (null_stream i)
    then show ?thesis by (intro succeeds_append [OF l null_stream(2)]) auto
  next
    case (drop_stream i)
    have "getStream j d = (if j = i then None else getStream j c)" for j
      unfolding drop_stream getStream_def by (simp add: map_of_drop)
    with l show ?thesis by (auto simp: succeeds_def drop_stream split: if_splits)
  qed (use l in \<open>auto simp: succeeds_def registerStreamAsResetLocally_def Let_def getStream_def\<close>)
qed

lemma succeeds_chain:
  assumes cd: "succeeds c d" and de: "succeeds d e" shows "succeeds c e"
proof -
  have l: "later c d" "later d e" "later c e" using assms later_chain by (auto simp: succeeds_def)
  have u: "used_id i d" if "used_id i c" for i using that l(1) by (auto simp: used_id_def later_def split: if_splits)
  have t: "m_connectionType d = m_connectionType c" using l(1) by (simp add: later_def)
  have "\<exists>s. getStream i c = Some s \<and> may_follow (m_state s) (m_state v)"
    if h: "m_connectionType c = Client" "odd (m_nextStreamID c)" "used_id i c" "getStream i e = Some v" for i v
  proof -
    have n: "odd (m_nextStreamID d)" using cd h(1,2) by (simp add: succeeds_def)
    obtain w where w: "getStream i d = Some w" "may_follow (m_state w) (m_state v)"
      using de u [OF h(3)] h(1,4) n t by (fastforce simp: succeeds_def)
    obtain s where "getStream i c = Some s" "may_follow (m_state s) (m_state w)"
      using cd h(1-3) w(1) by (fastforce simp: succeeds_def)
    with w(2) show ?thesis by (blast intro: may_follow_trans)
  qed
  then show ?thesis using l(3) cd de t by (simp add: succeeds_def)
qed

interpretation succeeds: session_relation UNIV succeeds
proof unfold_locales
  show "succeeds c c" for c :: "'a h2_conn" using later.same [of c] by (auto simp: succeeds_def)
  show "succeeds c d \<Longrightarrow> succeeds d d' \<Longrightarrow> succeeds c d'" for c d d' :: "'a h2_conn" by (rule succeeds_chain)
  show "session UNIV c d \<Longrightarrow> succeeds c d" for c d :: "'a h2_conn"
  proof (induction rule: session.induct)
    case (changed c d)
    then show ?case by (rule succeeds_change)
  next
    case (received c xs s r f)
    from later.one [OF session.received [OF this], of r f] show ?case by (auto simp: succeeds_def getStream_def)
  next
    case (world s c t)
    from later.one [OF session.world [OF this], of t] show ?case by (auto simp: succeeds_def getStream_def)
  next
    case (granted i c s n)
    from later.one [OF session.granted [OF this]] show ?case by (rule succeeds_with_stream) simp_all
  qed
qed

end
