(* ===== verification/Http2Histories.thy ===== *)
theory Http2Histories
  imports Http2Invariant
begin

text \<open>
  Properties of whole histories of a connection: the invariant, what never goes back, the streams
  of a client, the end of the read loop; and the two sides that the state of a stream stands for.
\<close>


text \<open>C7. However a connection is created from a valid configuration, and whatever the application calls,
  the event loop runs and the peer sends after that: as long as no undefined behaviour is reached, the
  flow-control windows of the connection are \<open>qint32\<close> values that are not negative, each stream is found once and under
  its own identifier with windows that are \<open>qint32\<close> values, the receive window of every stream for which the application
  has not called \<open>sendWINDOW_UPDATE\<close> itself lies between zero and the initial one, at most 100 reset identifiers are
  remembered, the frame size limit stays in the range of the protocol, the next identifier keeps the parity
  of its side, the pending table size updates are ordered, the table of the encoder is well formed,
  and the frames of an unfinished header block belong to one stream.\<close>

theorem history_connection_ok:
  assumes "config_ok cfg" "starts cfg c" "history e xs c = Some d"
  shows "connection_ok (grants xs) d"
  by (rule evolves_ok [OF history_evolves [OF assms(3) starts_next [OF assms(2)] subset_refl] starts_ok [OF assms(2,1)]])

abbreviation plain_socket :: io_device where
  "plain_socket \<equiv> \<lparr>dev_in = [], dev_out = [], dev_results = [], dev_open = True\<rparr>"

lemma config_ok_default: "config_ok QHttp2Configuration"
  by (simp add: config_ok_def QHttp2Configuration_def)

abbreviation server0 :: "nat h2_conn" where
  "server0 \<equiv> createDirectServerConnection plain_socket 7 QHttp2Configuration"

lemma granted_server:
  "\<exists>d s. history e [Call (Call_createStream True), Call (Call_sendWINDOW_UPDATE 2 1)] server0 = Some d
     \<and> getStream 2 d = Some s \<and> m_recvWindow s = streamInitialReceiveWindowSize d + 1"
proof -
  define s where "s = (QHttp2Stream 2 True)\<lparr>m_recvWindow := 65535, m_sendWindow := 65535\<rparr>"
  define c where "c = server0\<lparr>m_streams := [(2, Some s)], m_nextStreamID := 4\<rparr>"
  have c: "createStream True server0 = (Inr 2, c)"
    by (simp add: c_def s_def createStream_def createLocalStreamInternal_def createStreamInternal_impl_def createDirectServerConnection_def
        setH2Configuration_def QHttp2Connection_def QHttp2Configuration_def has_entry_def numActiveLocalStreams_def
        numActiveStreamsImpl_def maxConcurrentStreams_def add32_def i32_def)
  have s: "getStream 2 c = Some s" "m_recvWindow s = 65535" "streamInitialReceiveWindowSize c = 65535"
    by (simp_all add: c_def s_def getStream_def createDirectServerConnection_def setH2Configuration_def QHttp2Connection_def
        QHttp2Configuration_def i32_def)
  moreover have "streamInitialReceiveWindowSize (snd (send_frame w x)) = streamInitialReceiveWindowSize x"
    "streamInitialReceiveWindowSize (with_stream i f x) = streamInitialReceiveWindowSize x" for w i f and x :: "nat h2_conn"
    by (simp_all add: send_frame_def with_stream_def split: prod.split)
  ultimately show ?thesis by (simp add: c stream_sendWINDOW_UPDATE_def sendWINDOW_UPDATE_def fits_i32_def i32_def)
qed

text \<open>A server creates a stream, and grants the peer one octet more than the initial window.\<close>

theorem history_connection_ok_witness:
  "\<exists>d s. history undefined [Call (Call_createStream True), Call (Call_sendWINDOW_UPDATE 2 1)] server0 = Some d
     \<and> getStream 2 d = Some s \<and> m_recvWindow s = streamInitialReceiveWindowSize d + 1 \<and> connection_ok {2} d"
proof -
  obtain d s where d: "history undefined [Call (Call_createStream True), Call (Call_sendWINDOW_UPDATE 2 1)] server0 = Some d"
      "getStream 2 d = Some s" "m_recvWindow s = streamInitialReceiveWindowSize d + 1"
    using granted_server by blast
  from history_connection_ok [OF config_ok_default starts.server d(1)] d show ?thesis by simp
qed

abbreviation client0 :: "nat h2_conn" where
  "client0 \<equiv> createDirectConnection plain_socket 7 QHttp2Configuration"

text \<open>C35. Over any history of a connection the role and the configuration stay, an aborted connection stays
  aborted and one that is going away does not come back, the next identifier and the last one of the
  peer never decrease, the bound of the peer's GOAWAY never rises, a closed socket stays closed, and
  signals and octets are only appended to what has been emitted and written.\<close>

theorem history_later:
  assumes "starts cfg c" "history e xs c = Some d" "history e ys d = Some d'"
  shows "m_connectionType d' = m_connectionType d \<and> m_config d' = m_config d
     \<and> (m_connectionAborted d \<longrightarrow> m_connectionAborted d') \<and> (m_goingAway d \<longrightarrow> m_goingAway d')
     \<and> m_nextStreamID d \<le> m_nextStreamID d' \<and> m_lastIncomingStreamID d \<le> m_lastIncomingStreamID d'
     \<and> (\<forall>l. m_lastGoAwayLastStreamID d = Some l \<longrightarrow> (\<exists>k\<le>l. m_lastGoAwayLastStreamID d' = Some k))
     \<and> prefix (c_events d) (c_events d') \<and> prefix (dev_out (c_socket d)) (dev_out (c_socket d'))
     \<and> (dev_open (c_socket d') \<longrightarrow> dev_open (c_socket d))"
proof -
  have "m_nextStreamID d \<noteq> 0"
    using evolves_next [OF history_evolves [OF assms(2) starts_next [OF assms(1)] subset_UNIV]] starts_next [OF assms(1)] by simp
  from later.over_history [OF assms(3) this subset_UNIV] show ?thesis by (simp add: later_def)
qed

theorem history_later_witness:
  "prefix (c_events client0) (c_events (snd (createStream True client0)))"
  using history_later [of QHttp2Configuration client0 undefined "[]" client0 "[Call (Call_createStream True)]"
      "snd (createStream True client0)", OF starts.direct]
  by simp

text \<open>C12. On a client, an identifier that has been used is never used again: if a stream with it is found
  later, it was there before, and its state is one that may follow the state it had. So a stream that is closed
  or gone stays so, and a half-closed side never opens again.\<close>

theorem client_streams_never_return:
  assumes "connection_ok T c" "m_connectionType c = Client" "used_id i c" "history e xs c = Some d" "getStream i d = Some t"
  shows "\<exists>s. getStream i c = Some s \<and> may_follow (m_state s) (m_state t)"
proof -
  have n: "m_nextStreamID c \<noteq> 0" "odd (m_nextStreamID c)"
    using assms(1,2) by (auto simp: connection_ok_def limits_ok_def odd_iff_mod_2_eq_one)
  from succeeds.over_history [OF assms(4) n(1) subset_UNIV] show ?thesis using assms n(2) by (auto simp: succeeds_def)
qed

definition open_client :: "nat h2_conn" where
  "open_client = client0\<lparr>m_nextStreamID := 3, m_prefaceSent := True,
     m_streams := [(1, Some ((QHttp2Stream 1 True)\<lparr>m_state := Open, m_recvWindow := 65535, m_sendWindow := 65535\<rparr>))]\<rparr>"

lemma open_client_ok: "connection_ok T open_client" "m_connectionType open_client = Client" "m_nextStreamID open_client = 3"
proof -
  have "connection_ok T client0" by (rule created_ok [OF config_ok_default])
  then show "connection_ok T open_client"
    by (simp add: open_client_def connection_ok_def streams_ok_def entries_ok_def stream_ok_def limits_ok_def codec_ok_def windows_ok_def
        fits_i32_def QHttp2Stream_def createDirectConnection_def setH2Configuration_def QHttp2Connection_def QHttp2Configuration_def i32_def)
qed (simp_all add: open_client_def createDirectConnection_def)

lemma open_client_reset:
  "\<exists>d t. history e [Call (Call_sendRST_STREAM 1 8)] open_client = Some d \<and> getStream 1 d = Some t \<and> m_state t = Closed"
  by (simp add: open_client_def sendRST_STREAM_def getStream_def QHttp2Stream_def createDirectConnection_def transitionState_def
      setState_def registerStreamAsResetLocally_def with_stream_def Let_def emit_def maybeCloseOnGoingAway_def send_frame_def
      setH2Configuration_def QHttp2Connection_def streamIsActive_def split: prod.split)

theorem client_streams_never_return_witness:
  "\<exists>d s t. history undefined [Call (Call_sendRST_STREAM 1 8)] open_client = Some d \<and> getStream 1 open_client = Some s
     \<and> getStream 1 d = Some t \<and> m_state t = Closed \<and> may_follow (m_state s) (m_state t)"
proof -
  obtain d t where d: "history undefined [Call (Call_sendRST_STREAM 1 8)] open_client = Some d" "getStream 1 d = Some t" "m_state t = Closed"
    using open_client_reset by blast
  have "used_id 1 open_client" by (simp add: used_id_def open_client_ok)
  from client_streams_never_return [OF open_client_ok(1,2) this d(1,2)] d show ?thesis by blast
qed

text \<open>C20. The loop over the frames that have arrived ends: one more round than there are octets to read, and a
  frame in the reader, is enough. If it does not reach undefined behaviour it returns, and it is the same
  as the loop with that bound.\<close>

theorem read_loop_ends:
  "bounded_read_loop (Suc (unread c)) e c = map_option Inr (read_loop e c)"
  by (rule read_loop_bounded) simp

text \<open>The two sides of a stream that has been opened.\<close>

datatype sides = Sides (local_open: bool) (remote_open: bool)

fun sides_of :: "stream_state \<Rightarrow> sides option" where
  "sides_of Idle = None"
| "sides_of ReservedRemote = None"
| "sides_of Open = Some (Sides True True)"
| "sides_of HalfClosedLocal = Some (Sides False True)"
| "sides_of HalfClosedRemote = Some (Sides True False)"
| "sides_of Closed = Some (Sides False False)"

fun close_side :: "state_transition \<Rightarrow> sides \<Rightarrow> sides" where
  "close_side TOpen s = s"
| "close_side CloseLocal (Sides l r) = Sides False r"
| "close_side CloseRemote (Sides l r) = Sides l False"
| "close_side RST s = Sides False False"

lemma next_state_sides: "sides_of s = Some a \<Longrightarrow> \<exists>t. next_state s tr = Some t \<and> sides_of t = Some (close_side tr a)"
  by (cases s; cases tr) auto

lemma maybeClose_streams [simp]: "m_streams (maybeCloseOnGoingAway c) = m_streams c"
  by (simp add: maybeCloseOnGoingAway_def closeSession_def emit_def)

lemma setState_spec:
  assumes "getStream i c = Some s"
  obtains d where "setState i t c = Some d" "getStream i d = Some (s\<lparr>m_state := t\<rparr>)" "\<And>j. j \<noteq> i \<Longrightarrow> getStream j d = getStream j c"
    "stateChanged i t \<in> set (drop (length (c_events c)) (c_events d)) \<longleftrightarrow> t \<noteq> m_state s"
proof (cases "m_state s = t")
  case True
  then show ?thesis using that [of c] assms by (auto simp: setState_def)
next
  case False
  let ?w = "emit (stateChanged i t) (with_stream i (m_state_update (\<lambda>_. t)) c)"
  let ?d = "if t = Closed then maybeCloseOnGoingAway ?w else ?w"
  have "m_streams ?d = m_streams (with_stream i (m_state_update (\<lambda>_. t)) c)" by (simp add: emit_def)
  then have g: "getStream j ?d = getStream j (with_stream i (m_state_update (\<lambda>_. t)) c)" for j by (simp add: getStream_def)
  have "\<exists>es. c_events ?d = c_events c @ stateChanged i t # es"
    by (auto simp: maybeCloseOnGoingAway_def closeSession_def emit_def with_stream_def)
  then show ?thesis using that [of ?d] False assms g by (auto simp: setState_def Let_def)
qed

text \<open>C36. The state of an opened stream is that of its two sides: a transition that closes the local or the
  remote side closes exactly that side, a reset closes both, and nothing opens a side again. The other
  streams are left alone, and the application is told exactly if the state changes.\<close>

theorem transition_refines_sides:
  assumes "getStream i c = Some s" "sides_of (m_state s) = Some a"
  shows "\<exists>d t. transitionState i tr c = Some d \<and> getStream i d = Some (s\<lparr>m_state := t\<rparr>)
     \<and> sides_of t = Some (close_side tr a) \<and> (\<forall>j. j \<noteq> i \<longrightarrow> getStream j d = getStream j c)
     \<and> (stateChanged i t \<in> set (drop (length (c_events c)) (c_events d)) \<longleftrightarrow> t \<noteq> m_state s)"
proof -
  obtain t where t: "next_state (m_state s) tr = Some t" "sides_of t = Some (close_side tr a)"
    using next_state_sides [OF assms(2)] by blast
  obtain d where "setState i t c = Some d" "getStream i d = Some (s\<lparr>m_state := t\<rparr>)" "\<And>j. j \<noteq> i \<Longrightarrow> getStream j d = getStream j c"
    "stateChanged i t \<in> set (drop (length (c_events c)) (c_events d)) \<longleftrightarrow> t \<noteq> m_state s"
    using setState_spec [OF assms(1)] by blast
  then show ?thesis using assms(1) t by (auto simp: transitionState_def intro!: exI [of _ d] exI [of _ t])
qed

theorem transition_refines_sides_witness:
  "\<exists>d t. transitionState 1 CloseRemote open_client = Some d \<and> sides_of t = Some (Sides True False) \<and> (\<exists>s. getStream 1 d = Some (s\<lparr>m_state := t\<rparr>))"
proof -
  obtain s where s: "getStream 1 open_client = Some s" "m_state s = Open"
    by (simp add: open_client_def getStream_def)
  from transition_refines_sides [of 1 open_client s "Sides True True" CloseRemote] s show ?thesis by auto
qed

end
