(* ===== verification/Http2Uploads.thy ===== *)
theory Http2Uploads
  imports Http2Histories
begin

text \<open>
  Uploads, \<open>QHttp2Stream::sendDATA\<close> and \<open>internalSendDATA\<close>: the two nested loops in closed form, what one
  upload sends and leaves behind, and the negative windows with which it does not return.
\<close>


subsection \<open>Uploads\<close>

text \<open>What is left to send, and the state after \<open>n\<close> octets of it have left.\<close>

definition remaining :: "byte_device \<Rightarrow> bytes" where
  "remaining d = drop (currentPosition d) (bd_view d)"

definition spend :: "nat \<Rightarrow> nat \<Rightarrow> 'url h2_conn \<Rightarrow> 'url h2_conn" where
  "spend i n c = (with_stream i (\<lambda>s. s\<lparr>m_sendWindow := m_sendWindow s - int n,
       m_uploadByteDevice := map_option (advanceReadPointer n) (m_uploadByteDevice s)\<rparr>) c)
     \<lparr>sessionSendWindowSize := sessionSendWindowSize c - int n\<rparr>"

lemma with_stream_compose: "with_stream i f (with_stream i g c) = with_stream i (\<lambda>s. f (g s)) c"
  by (simp add: with_stream_def comp_def option.map_comp case_prod_beta)

lemma with_stream_update [simp]:
  "with_stream i f (c\<lparr>sessionSendWindowSize := n\<rparr>) = (with_stream i f c)\<lparr>sessionSendWindowSize := n\<rparr>"
  "with_stream i f (c\<lparr>c_socket := s\<rparr>) = (with_stream i f c)\<lparr>c_socket := s\<rparr>"
  "with_stream i f (c\<lparr>frameWriter := w\<rparr>) = (with_stream i f c)\<lparr>frameWriter := w\<rparr>"
  by (simp_all add: with_stream_def)

lemma with_stream_id: "with_stream i (\<lambda>s. s) c = c"
proof -
  have "map (\<lambda>(k, s). (k, if k = i then map_option (\<lambda>s. s) s else s)) (m_streams c) = m_streams c"
    by (rule map_idI) (auto simp: option.map_ident)
  then show ?thesis by (simp add: with_stream_def)
qed

lemma advance [simp]: "advanceReadPointer 0 = (\<lambda>d. d)" "advanceReadPointer m (advanceReadPointer n d) = advanceReadPointer (m + n) d"
  by (simp_all add: advanceReadPointer_def fun_eq_iff)

lemma spend_zero [simp]: "spend i 0 c = c"
  by (simp add: spend_def option.map_ident with_stream_id)

lemma spend_spend: "spend i m (spend i n c) = spend i (m + n) c"
  by (simp add: spend_def with_stream_compose option.map_comp comp_def algebra_simps)

lemma remaining_advance: "remaining (advanceReadPointer n d) = drop n (remaining d)"
  by (simp add: remaining_def advanceReadPointer_def add.commute)

lemma atEnd_remaining: "bd_atEnd d \<longleftrightarrow> remaining d = []"
  by (simp add: bd_atEnd_def remaining_def)

lemma deviceCanRead_remaining: "0 < c_maxFrameSize c \<Longrightarrow> deviceCanRead d c \<longleftrightarrow> remaining d \<noteq> []"
  by (auto simp: deviceCanRead_def bd_readPointer_def Let_def atEnd_remaining remaining_def)

lemma getStream_spend:
  "getStream i c = Some s \<Longrightarrow> getStream i (spend i n c) = Some (s\<lparr>m_sendWindow := m_sendWindow s - int n,
     m_uploadByteDevice := map_option (advanceReadPointer n) (m_uploadByteDevice s)\<rparr>)"
  by (cases "map_of (m_streams c) i") (simp_all add: spend_def getStream_def with_stream_def map_of_with)

lemma spend_other [simp]: "c_maxFrameSize (spend i n c) = c_maxFrameSize c" "c_socket (spend i n c) = c_socket c"
  "sessionSendWindowSize (spend i n c) = sessionSendWindowSize c - int n"
  by (simp_all add: spend_def)

text \<open>A frame is filled in one round, as far as the window, the frame and the device go.\<close>

lemma fill_frame_once:
  assumes "getStream i c = Some s" "m_uploadByteDevice s = Some d" "remaining d \<noteq> []" "0 < c_maxFrameSize c"
    and "0 < W" "0 < M" "k = min (min (nat W) (nat M)) (length (remaining d))"
  shows "fill_frame i W M n w c = Some (W - int k, add32 n k, fw_append (take k (remaining d)) w, spend i k c)"
proof -
  let ?s = "s\<lparr>m_sendWindow := m_sendWindow s - int k, m_uploadByteDevice := Some (advanceReadPointer k d)\<rparr>"
  have k: "0 < k" using assms(3,5-7) by simp
  have len: "int (length (bd_view d)) - int (currentPosition d) = int (length (remaining d))" "\<not> bd_atEnd d"
    using assms(3) by (auto simp: remaining_def atEnd_remaining)
  have mk: "min (min W M) (int (length (remaining d))) = int k" using assms(5-7) by linarith
  have spent: "m_uploadByteDevice_update (map_option (advanceReadPointer k)) (m_sendWindow_update (\<lambda>n. n - int k) t)
      = t\<lparr>m_sendWindow := m_sendWindow t - int k, m_uploadByteDevice := map_option (advanceReadPointer k) (m_uploadByteDevice t)\<rparr>" for t :: h2_stream
    by (cases t) simp
  have sp: "update_upload (advanceReadPointer k) i (with_stream i (m_sendWindow_update (\<lambda>n. n - int k)) c)
      \<lparr>sessionSendWindowSize := sessionSendWindowSize c - int k\<rparr> = spend i k c"
    by (simp add: update_upload_def spend_def with_stream_compose spent)
  have g: "getStream i (spend i k c) = Some ?s" using getStream_spend [OF assms(1), of k] assms(2) by simp
  have stop: "\<not> (W - int k \<noteq> 0 \<and> deviceCanRead (advanceReadPointer k d) (spend i k c) \<and> M - int k \<noteq> 0)"
  proof -
    have "k = nat W \<or> k = nat M \<or> k = length (remaining d)" unfolding assms(7) min_def by auto
    then show ?thesis using assms(4-6) by (auto simp: deviceCanRead_remaining remaining_advance)
  qed
  have ended: "fill_frame i (W - int k) (M - int k) n' w' (spend i k c) = Some (W - int k, n', w', spend i k c)" for n' w'
    using stop by (subst fill_frame.simps) (auto simp: g)
  have r: "bd_readPointer (min W M) d = (Some (currentPosition d), int k)"
    using len mk assms(5,6) by (auto simp: bd_readPointer_def min_def)
  have pos: "W \<noteq> 0" "M \<noteq> 0" "k \<noteq> 0" using assms(5,6) k by auto
  have mm: "min (min W M) (int k) = int k" unfolding mk [symmetric] by simp
  show ?thesis
    by (subst fill_frame.simps) (simp add: assms(1,2) deviceCanRead_remaining [OF assms(4)] assms(3) r pos mm sp ended remaining_def [symmetric] Let_def)
qed

text \<open>Data frames of a stream, of which only the last may end it.\<close>

fun data_frames :: "nat \<Rightarrow> nat \<Rightarrow> bool \<Rightarrow> h2_frame list \<Rightarrow> bool" where
  "data_frames i limit fin [] \<longleftrightarrow> \<not> fin"
| "data_frames i limit fin (f # fs) \<longleftrightarrow> framed f \<and> fr_type f = DATA \<and> fr_streamID f = i \<and> payloadSize f \<le> limit
     \<and> fr_flags f = (if fin \<and> fs = [] then END_STREAM else EMPTY) \<and> (fs \<noteq> [] \<longrightarrow> data_frames i limit fin fs)"

lemma spend_socket [simp]:
  "spend i n (c\<lparr>c_socket := s\<rparr>) = (spend i n c)\<lparr>c_socket := s\<rparr>"
  "spend i n (c\<lparr>frameWriter := w\<rparr>) = (spend i n c)\<lparr>frameWriter := w\<rparr>"
  by (simp_all add: spend_def)

lemma getStream_writer [simp]: "getStream i (c\<lparr>frameWriter := w\<rparr>) = getStream i c" "getStream i (c\<lparr>c_socket := s\<rparr>) = getStream i c"
  by (simp_all add: getStream_def)

lemma addFlag_END_STREAM:
  assumes "framed w" "fr_flags w = EMPTY"
  shows "framed (addFlag END_STREAM w)" "fr_type (addFlag END_STREAM w) = fr_type w" "fr_flags (addFlag END_STREAM w) = END_STREAM"
    "fr_streamID (addFlag END_STREAM w) = fr_streamID w" "fr_payload (addFlag END_STREAM w) = fr_payload w"
    "payloadSize (addFlag END_STREAM w) = payloadSize w"
proof -
  have l: "9 \<le> length (fr_buffer w)" using assms(1) by (simp add: framed_def frameHeaderSize_def)
  show "framed (addFlag END_STREAM w)" "fr_type (addFlag END_STREAM w) = fr_type w" "fr_flags (addFlag END_STREAM w) = END_STREAM"
    "fr_streamID (addFlag END_STREAM w) = fr_streamID w" "fr_payload (addFlag END_STREAM w) = fr_payload w"
    "payloadSize (addFlag END_STREAM w) = payloadSize w"
    using setFlags_fields [OF l] assms by (simp_all add: addFlag_def framed_setFlags EMPTY_def)
qed

lemma DATA_frame:
  assumes "i < 2 ^ 31" "length bs \<le> maxPayloadSize" "w = fw_append bs (fw_start DATA EMPTY i)"
  shows "framed w" "fr_type w = DATA" "fr_flags w = EMPTY" "fr_streamID w = i" "fr_payload w = bs" "payloadSize w = length bs"
proof -
  have a: "9 \<le> length (fr_buffer (fw_start DATA EMPTY i))" "length (fr_buffer (fw_start DATA EMPTY i)) + length bs \<le> 9 + maxPayloadSize"
    using assms(2) start_fields(6) [of DATA EMPTY i] by simp_all
  show "framed w" "fr_type w = DATA" "fr_flags w = EMPTY" "fr_streamID w = i" "fr_payload w = bs"
    using append_fields [OF a] start_fields(2-4) [of DATA EMPTY i] start_fields(5) [OF assms(1), of DATA EMPTY]
    by (simp_all add: assms(3))
  then show "payloadSize w = length bs" by (auto simp: framed_def fr_payload_def)
qed

lemma send_loop_sends:
  assumes "getStream i c = Some s" "m_uploadByteDevice s = Some d" "dev_results (c_socket c) = []"
    and "i < 2 ^ 31" "0 < c_maxFrameSize c" "c_maxFrameSize c \<le> maxPayloadSize" "0 \<le> W"
    and "n = min (nat W) (length (remaining d))" "fin \<longleftrightarrow> n = length (remaining d) \<and> n \<noteq> 0 \<and> m_endStreamAfterDATA s"
  shows "\<exists>fs w. send_loop i W n0 e0 c = Some (Inr (n0 + n, e0 \<or> fin, (spend i n c)\<lparr>frameWriter := w,
       c_socket := (c_socket c)\<lparr>dev_out := dev_out (c_socket c) @ concat (map fr_buffer fs)\<rparr>\<rparr>))
     \<and> data_frames i (c_maxFrameSize c) fin fs \<and> concat (map fr_payload fs) = take n (remaining d) \<and> (\<forall>f\<in>set fs. fr_payload f \<noteq> [])"
  using assms
proof (induction "length (remaining d)" arbitrary: c s d W n n0 e0 fin rule: less_induct)
  case less
  note d = deviceCanRead_remaining [OF less.prems(5)]
  show ?case
  proof (cases "W = 0 \<or> remaining d = []")
    case True
    then have "send_loop i W n0 e0 c = Some (Inr (n0, e0, c))" by (subst send_loop.simps) (auto simp: less.prems(1,2) d)
    moreover have "n = 0" "\<not> fin" using True less.prems(8,9) by auto
    ultimately show ?thesis by (intro exI [of _ "[]"] exI [of _ "frameWriter c"]) (simp add:)
  next
    case False
    define M where "M = c_maxFrameSize c"
    define k where "k = min (min (nat W) M) (length (remaining d))"
    define w where "w = fw_append (take k (remaining d)) (fw_start DATA EMPTY i)"
    define last where "last \<longleftrightarrow> k = length (remaining d) \<and> m_endStreamAfterDATA s"
    define f where "f = (if last then addFlag END_STREAM w else w)"
    define c2 where "c2 = (spend i k c)\<lparr>frameWriter := f, c_socket := (c_socket c)\<lparr>dev_out := dev_out (c_socket c) @ fr_buffer f\<rparr>\<rparr>"
    define s2 where "s2 = s\<lparr>m_sendWindow := m_sendWindow s - int k, m_uploadByteDevice := Some (advanceReadPointer k d)\<rparr>"
    have M: "i32 (int M) = int M" "0 < int M" using less.prems(5,6) by (auto simp: M_def i32_def maxPayloadSize_def)
    have k: "0 < k" "k \<le> M" "k \<le> nat W" "k \<le> length (remaining d)" using False less.prems(5,7) by (auto simp: k_def M_def)
    have lk: "length (take k (remaining d)) = k" using k(4) by simp
    have fill: "fill_frame i W (i32 (int M)) 0 (fw_start DATA EMPTY i) c = Some (W - int k, k, w, spend i k c)"
      using fill_frame_once [OF less.prems(1,2) _ less.prems(5), of W "int M" k 0] False less.prems(6,7) M k(2)
      by (simp add: k_def w_def add32_def M_def maxPayloadSize_def)
    have g: "getStream i (spend i k c) = Some s2" using getStream_spend [OF less.prems(1), of k] less.prems(2) by (simp add: s2_def)
    have wf: "framed w" "fr_type w = DATA" "fr_flags w = EMPTY" "fr_streamID w = i" "fr_payload w = take k (remaining d)" "payloadSize w = k"
      using DATA_frame [OF less.prems(4) _ w_def] lk k(2) less.prems(6) by (simp_all add: M_def)
    have ff: "framed f" "fr_type f = DATA" "fr_flags f = (if last then END_STREAM else EMPTY)" "fr_streamID f = i"
      "fr_payload f = take k (remaining d)" "payloadSize f = k"
      using addFlag_END_STREAM [OF wf(1,3)] wf by (simp_all add: f_def)
    have step: "send_loop i W n0 e0 c = send_loop i (W - int k) (n0 + k) (e0 \<or> last) c2"
    proof -
      have l: "(\<not> deviceCanRead (advanceReadPointer k d) (spend i k c) \<and> bd_atEnd (advanceReadPointer k d) \<and> m_endStreamAfterDATA s2) = last"
        using k(4) deviceCanRead_remaining [of "spend i k c"] less.prems(5)
        by (auto simp: last_def atEnd_remaining remaining_advance s2_def)
      have sf: "send_frame f (spend i k c) = (True, c2)" using less.prems(3) by (simp add: send_frame_def write_frame_ok c2_def)
      then have sf2: "last \<Longrightarrow> send_frame (addFlag END_STREAM w) (spend i k c) = (True, c2)" "\<not> last \<Longrightarrow> send_frame w (spend i k c) = (True, c2)"
        by (simp_all add: f_def)
      have u: "m_uploadByteDevice s2 = Some (advanceReadPointer k d)" by (simp add: s2_def)
      show ?thesis using False
        by (subst send_loop.simps) (simp add: less.prems(1,2) d fill [unfolded M_def] g u l Let_def sf2)
    qed
    have "\<exists>fs v. send_loop i (W - int k) (n0 + k) (e0 \<or> last) c2 = Some (Inr (n0 + k + (n - k), (e0 \<or> last) \<or> (fin \<and> k < n), (spend i (n - k) c2)\<lparr>frameWriter := v,
         c_socket := (c_socket c2)\<lparr>dev_out := dev_out (c_socket c2) @ concat (map fr_buffer fs)\<rparr>\<rparr>))
       \<and> data_frames i (c_maxFrameSize c2) (fin \<and> k < n) fs \<and> concat (map fr_payload fs) = take (n - k) (remaining (advanceReadPointer k d)) \<and> (\<forall>f\<in>set fs. fr_payload f \<noteq> [])"
      using less.prems k
      by (intro less.hyps [where s = s2]) (auto simp: c2_def g s2_def remaining_advance)
    then obtain fs v where tl: "send_loop i (W - int k) (n0 + k) (e0 \<or> last) c2 = Some (Inr (n0 + k + (n - k), (e0 \<or> last) \<or> (fin \<and> k < n), (spend i (n - k) c2)\<lparr>frameWriter := v,
         c_socket := (c_socket c2)\<lparr>dev_out := dev_out (c_socket c2) @ concat (map fr_buffer fs)\<rparr>\<rparr>))"
       "data_frames i M (fin \<and> k < n) fs" "concat (map fr_payload fs) = take (n - k) (drop k (remaining d))"
       "\<forall>f\<in>set fs. fr_payload f \<noteq> []"
      by (auto simp: c2_def M_def remaining_advance)
    have kn: "k \<le> n" using k less.prems(8) by simp
    have lf: "last \<longleftrightarrow> fin \<and> k = n" using k less.prems(8,9) by (auto simp: last_def)
    have nn: "fs = [] \<longleftrightarrow> k = n"
    proof
      assume "k = n"
      then show "fs = []" using tl(3,4) by (cases fs) auto
    qed (use tl(3) kn less.prems(8) in auto)
    have pay: "concat (map fr_payload (f # fs)) = take n (remaining d)"
      using tl(3) ff(5) kn by (simp flip: take_add)
    have "data_frames i M fin (f # fs)"
      using ff k(2) tl(2) lf nn kn by (cases "k = n") (auto simp: le_less)
    moreover have "send_loop i W n0 e0 c = Some (Inr (n0 + n, e0 \<or> fin, (spend i n c)\<lparr>frameWriter := v,
       c_socket := (c_socket c)\<lparr>dev_out := dev_out (c_socket c) @ concat (map fr_buffer (f # fs))\<rparr>\<rparr>))"
      using step tl(1) kn lf by (auto simp: c2_def spend_spend)
    moreover have "\<forall>g\<in>set (f # fs). fr_payload g \<noteq> []" using tl(4) ff(5) k(1,4) by (cases "remaining d") auto
    ultimately show ?thesis using pay unfolding M_def by blast
  qed
qed

text \<open>The whole of \<open>internalSendDATA\<close>: what leaves is as much of the data as the windows allow.\<close>

definition upload_done :: "h2_stream \<Rightarrow> byte_device \<Rightarrow> nat \<Rightarrow> h2_stream" where
  "upload_done s d n =
     (if n = length (remaining d)
      then s\<lparr>m_sendWindow := m_sendWindow s - int n, m_uploadByteDevice := None, m_uploadDevice := False, m_owningByteDevice := False,
             m_state := (if m_endStreamAfterDATA s then the (next_state (m_state s) CloseLocal) else m_state s)\<rparr>
      else s\<lparr>m_sendWindow := m_sendWindow s - int n, m_uploadByteDevice := Some (advanceReadPointer n d)\<rparr>)"

lemma maybeClose_getStream [simp]: "getStream i (maybeCloseOnGoingAway c) = getStream i c"
  by (simp add: getStream_def)

lemma maybeClose_other [simp]: "c_socket (maybeCloseOnGoingAway c) = c_socket c"
  "sessionSendWindowSize (maybeCloseOnGoingAway c) = sessionSendWindowSize c" "\<exists>es. c_events (maybeCloseOnGoingAway c) = c_events c @ es"
  by (simp_all add: maybeCloseOnGoingAway_def closeSession_def emit_def)

lemma emit_other [simp]: "c_socket (emit ev c) = c_socket c" "sessionSendWindowSize (emit ev c) = sessionSendWindowSize c"
  "c_events (emit ev c) = c_events c @ [ev]" "c_events (with_stream i f c) = c_events c"
  by (simp_all add: emit_def with_stream_def)

lemma block_stream_other [simp]: "c_socket (block_stream i c) = c_socket c" "c_events (block_stream i c) = c_events c"
  "sessionSendWindowSize (block_stream i c) = sessionSendWindowSize c"
  by (simp_all add: block_stream_def)

lemma transitionState_spec:
  assumes "getStream i c = Some s" "next_state (m_state s) tr = Some t"
  obtains d where "transitionState i tr c = Some d" "getStream i d = Some (s\<lparr>m_state := t\<rparr>)" "c_socket d = c_socket c"
    "sessionSendWindowSize d = sessionSendWindowSize c" "\<exists>es. c_events d = c_events c @ es"
proof -
  have "\<exists>d. setState i t c = Some d \<and> getStream i d = Some (s\<lparr>m_state := t\<rparr>) \<and> c_socket d = c_socket c
    \<and> sessionSendWindowSize d = sessionSendWindowSize c \<and> (\<exists>es. c_events d = c_events c @ es)"
    using assms(1) maybeClose_other(3) [of "emit (stateChanged i Closed) (with_stream i (m_state_update (\<lambda>_. Closed)) c)"]
    by (auto simp: setState_def Let_def)
  then show ?thesis using assms that by (auto simp: transitionState_def)
qed

lemma finishSendDATA_spec:
  assumes "getStream i c = Some s" "may_send s"
  shows "\<exists>c'. finishSendDATA i c = Some c' \<and> getStream i c' = Some (s\<lparr>m_uploadByteDevice := None, m_uploadDevice := False, m_owningByteDevice := False,
       m_state := (if m_endStreamAfterDATA s then the (next_state (m_state s) CloseLocal) else m_state s)\<rparr>)
     \<and> c_socket c' = c_socket c \<and> sessionSendWindowSize c' = sessionSendWindowSize c
     \<and> (\<exists>es. c_events c' = c_events c @ es @ [uploadFinished i])"
proof (cases "m_endStreamAfterDATA s")
  case True
  obtain t where t: "next_state (m_state s) CloseLocal = Some t" using assms(2) by (auto simp: may_send_def)
  from transitionState_spec [OF assms(1) t] obtain d where d: "transitionState i CloseLocal c = Some d" "getStream i d = Some (s\<lparr>m_state := t\<rparr>)"
    "c_socket d = c_socket c" "sessionSendWindowSize d = sessionSendWindowSize c" "\<exists>es. c_events d = c_events c @ es" .
  then show ?thesis using True t assms(1) by (auto simp: finishSendDATA_def)
next
  case False
  then show ?thesis using assms(1) by (auto simp: finishSendDATA_def)
qed

lemma END_STREAM_frame:
  assumes "i < 2 ^ 31"
  shows "framed (fw_start DATA END_STREAM i)" "fr_type (fw_start DATA END_STREAM i) = DATA" "fr_flags (fw_start DATA END_STREAM i) = END_STREAM"
    "fr_streamID (fw_start DATA END_STREAM i) = i" "fr_payload (fw_start DATA END_STREAM i) = []" "payloadSize (fw_start DATA END_STREAM i) = 0"
  using start_fields(1-4,7) [of DATA END_STREAM i] start_fields(5) [OF assms, of DATA END_STREAM] by simp_all

lemma internalSendDATA_spec:
  assumes s: "getStream i c = Some s" "m_uploadByteDevice s = Some d" "may_send s" and io: "dev_results (c_socket c) = []"
    and i: "i < 2 ^ 31" "0 < c_maxFrameSize c" "c_maxFrameSize c \<le> maxPayloadSize"
    and W: "0 \<le> sessionSendWindowSize c" "0 \<le> m_sendWindow s"
    and n: "n = min (nat (min (sessionSendWindowSize c) (m_sendWindow s))) (length (remaining d))"
  shows "\<exists>c' fs. internalSendDATA i c = Some c' \<and> getStream i c' = Some (upload_done s d n)
    \<and> sessionSendWindowSize c' = sessionSendWindowSize c - int n
    \<and> c_socket c' = (c_socket c)\<lparr>dev_out := dev_out (c_socket c) @ concat (map fr_buffer fs)\<rparr>
    \<and> data_frames i (c_maxFrameSize c) (n = length (remaining d) \<and> m_endStreamAfterDATA s) fs
    \<and> concat (map fr_payload fs) = take n (remaining d)
    \<and> bytesWritten i n \<in> set (c_events c') \<and> (n = length (remaining d) \<longrightarrow> uploadFinished i \<in> set (c_events c'))"
proof -
  let ?W = "min (sessionSendWindowSize c) (m_sendWindow s)"
  define fin where "fin \<longleftrightarrow> n = length (remaining d) \<and> n \<noteq> 0 \<and> m_endStreamAfterDATA s"
  have "0 \<le> ?W" using W by simp
  from send_loop_sends [OF s(1,2) io i this n fin_def, of 0 False] obtain fs w where
    l0: "send_loop i ?W 0 False c = Some (Inr (n, fin, (spend i n c)\<lparr>frameWriter := w, c_socket := (c_socket c)\<lparr>dev_out := dev_out (c_socket c) @ concat (map fr_buffer fs)\<rparr>\<rparr>))"
    and fs: "data_frames i (c_maxFrameSize c) fin fs" "concat (map fr_payload fs) = take n (remaining d)" "\<forall>f\<in>set fs. fr_payload f \<noteq> []"
    by auto
  define y where "y = (spend i n c)\<lparr>frameWriter := w, c_socket := (c_socket c)\<lparr>dev_out := dev_out (c_socket c) @ concat (map fr_buffer fs)\<rparr>\<rparr>"
  define c2 where "c2 = emit (bytesWritten i n) y"
  have l: "send_loop i ?W 0 False c = Some (Inr (n, fin, y))" using l0 by (simp add: y_def)
  define s2 where "s2 = s\<lparr>m_sendWindow := m_sendWindow s - int n, m_uploadByteDevice := Some (advanceReadPointer n d)\<rparr>"
  have g: "getStream i c2 = Some s2" using getStream_spend [OF s(1), of n] s(2) by (simp add: c2_def y_def s2_def)
  have gy: "getStream i y = Some s2" using g by (simp add: c2_def)
  have s2: "m_uploadByteDevice s2 = Some (advanceReadPointer n d)" "m_endStreamAfterDATA s2 = m_endStreamAfterDATA s" "m_state s2 = m_state s" "may_send s2"
    using s(3) by (simp_all add: s2_def may_send_def)
  have c2: "c_socket c2 = (c_socket c)\<lparr>dev_out := dev_out (c_socket c) @ concat (map fr_buffer fs)\<rparr>"
    "sessionSendWindowSize c2 = sessionSendWindowSize c - int n" "bytesWritten i n \<in> set (c_events c2)" "c_maxFrameSize c2 = c_maxFrameSize c"
    by (simp_all add: c2_def y_def) (simp add: emit_def)
  have le: "n \<le> length (remaining d)" using n by simp
  have atend: "deviceCanRead (advanceReadPointer n d) c2 \<longleftrightarrow> n \<noteq> length (remaining d)" "bd_atEnd (advanceReadPointer n d) \<longleftrightarrow> n = length (remaining d)"
    using deviceCanRead_remaining [of c2 "advanceReadPointer n d"] i(2) le by (auto simp: c2(4) remaining_advance atEnd_remaining)
  show ?thesis
  proof (cases "n = length (remaining d)")
    case False
    have r: "internalSendDATA i c = Some (if isUploadBlocked s2 c2 then block_stream i (emit (uploadBlocked i) c2) else c2)"
      using l False by (simp add: internalSendDATA_def s(1) c2_def [symmetric] gy s2 atend fin_def)
    then show ?thesis using False fs g c2 s2
      by (intro exI [of _ "if isUploadBlocked s2 c2 then block_stream i (emit (uploadBlocked i) c2) else c2"] exI [of _ fs])
        (simp add: fin_def upload_done_def s2_def)
  next
    case True
    define c3 where "c3 = (if \<not> fin \<and> m_endStreamAfterDATA s then snd (send_frame (fw_start DATA END_STREAM i) c2) else c2)"
    define es where "es = (if \<not> fin \<and> m_endStreamAfterDATA s then [fw_start DATA END_STREAM i] else [])"
    have e: "\<not> deviceCanRead (advanceReadPointer n d) c2" "bd_atEnd (advanceReadPointer n d)" using atend True by simp_all
    have r: "internalSendDATA i c = finishSendDATA i c3"
      using l e by (simp add: internalSendDATA_def Let_def s(1) c2_def [symmetric] gy s2 c3_def)
    have c3: "getStream i c3 = Some s2" "sessionSendWindowSize c3 = sessionSendWindowSize c2" "c_events c3 = c_events c2"
      "c_socket c3 = (c_socket c)\<lparr>dev_out := dev_out (c_socket c) @ concat (map fr_buffer (fs @ es))\<rparr>"
      using g io by (auto simp: c3_def c2(1) es_def send_frame_def write_frame_ok)
    have df: "data_frames i (c_maxFrameSize c) (m_endStreamAfterDATA s) (fs @ es)"
    proof (cases "\<not> fin \<and> m_endStreamAfterDATA s")
      case True
      then have "fs = []" using fs(2,3) \<open>n = length (remaining d)\<close> by (cases fs) (auto simp: fin_def)
      then show ?thesis using True END_STREAM_frame [OF i(1)] by (simp add: es_def)
    qed (use fs(1) True in \<open>auto simp: es_def fin_def\<close>)
    have "concat (map fr_payload (fs @ es)) = take n (remaining d)" using fs(2) END_STREAM_frame [OF i(1)] by (simp add: es_def)
    then show ?thesis
      using finishSendDATA_spec [OF c3(1) s2(4)] r c3 c2 df True s2
      by (auto simp: upload_done_def s2_def intro!: exI [of _ "fs @ es"])
  qed
qed

text \<open>With a negative window and data to send the loop writes empty frames for ever, or reads before the data.\<close>

lemma fill_frame_negative:
  assumes "getStream i c = Some s" "m_uploadByteDevice s = Some d" "remaining d \<noteq> []" "0 < c_maxFrameSize c" "W < 0" "0 < M"
  shows "fill_frame i W M n w c = (if W = -1 then None else Some (W, n, w, c))"
proof -
  have e: "\<not> bd_atEnd d" using assms(3) by (simp add: atEnd_remaining)
  have len: "0 < int (length (bd_view d)) - int (currentPosition d)" using assms(3) by (simp add: remaining_def)
  have W: "min W M = W" "W \<noteq> 0" "M \<noteq> 0" using assms(5,6) by auto
  have r: "bd_readPointer W d = (Some (currentPosition d), if W = -1 then int (length (bd_view d)) - int (currentPosition d) else W)"
    using len assms(5) e by (auto simp: bd_readPointer_def)
  show ?thesis
    using W len assms(5) by (subst fill_frame.simps) (auto simp: assms(1,2) deviceCanRead_remaining [OF assms(4)] assms(3) r Let_def)
qed

lemma send_loop_negative:
  assumes "send_loop i W n0 e0 c = Some r" "W < 0"
    and "getStream i c = Some s" "m_uploadByteDevice s = Some d" "remaining d \<noteq> []" "0 < c_maxFrameSize c" "c_maxFrameSize c \<le> maxPayloadSize"
    and "dev_results (c_socket c) = []"
  shows False
  using assms
proof (induction arbitrary: s d rule: send_loop.raw_induct [rotated, consumes 1, case_names step])
  case (step f i W n0 e0 c r)
  note d = deviceCanRead_remaining [OF step.prems(5)]
  have M: "0 < i32 (int (c_maxFrameSize c))" using step.prems(5,6) by (simp add: i32_def maxPayloadSize_def)
  note fill = fill_frame_negative [OF step.prems(2,3,4,5,1) M, of 0 "fw_start DATA EMPTY i"]
  define c2 where "c2 = c\<lparr>frameWriter := fw_start DATA EMPTY i, c_socket := (c_socket c)\<lparr>dev_out := dev_out (c_socket c) @ fr_buffer (fw_start DATA EMPTY i)\<rparr>\<rparr>"
  have sf: "send_frame (fw_start DATA EMPTY i) c = (True, c2)" using step.prems(7) by (simp add: send_frame_def write_frame_ok c2_def)
  have "f i W n0 e0 c2 = Some r"
    using step.hyps(1) step.prems(1,4) fill sf by (simp add: step.prems(2,3) d Let_def split: if_splits)
  from step.IH [OF this step.prems(1), of s d] step.prems show False by (simp add: c2_def)
qed

lemma send_loop_empty:
  assumes "getStream i c = Some s" "m_uploadByteDevice s = Some d" "remaining d = []" "0 < c_maxFrameSize c"
  shows "send_loop i W n0 e0 c = Some (Inr (n0, e0, c))"
  using assms by (subst send_loop.simps) (simp add: deviceCanRead_remaining)


lemma sendDATA_upload:
  assumes "getStream i c = Some s" "may_send s"
  shows "\<exists>s' c'. sendDATA i payload fin c = map_option (Pair True) (internalSendDATA i c') \<and> getStream i c' = Some s'
    \<and> s' = s\<lparr>m_owningByteDevice := True, m_uploadByteDevice := Some (byteDevice payload), m_endStreamAfterDATA := fin\<rparr>
    \<and> c_socket c' = c_socket c \<and> c_maxFrameSize c' = c_maxFrameSize c \<and> sessionSendWindowSize c' = sessionSendWindowSize c"
proof -
  let ?c = "with_stream i (\<lambda>s. s\<lparr>m_owningByteDevice := True, m_uploadByteDevice := Some (byteDevice payload), m_endStreamAfterDATA := fin\<rparr>) c"
  have "sendDATA i payload fin c = map_option (Pair True) (internalSendDATA i ?c)"
    using assms by (auto simp: sendDATA_def sendDATA_byteDevice_def with_stream_compose may_send_def)
  moreover have "getStream i ?c = Some (s\<lparr>m_owningByteDevice := True, m_uploadByteDevice := Some (byteDevice payload), m_endStreamAfterDATA := fin\<rparr>)"
    using assms by simp
  ultimately show ?thesis by (intro exI conjI) (assumption | simp)+
qed

text \<open>C13. Sending data on an open stream returns and sends as much as the windows of stream and connection allow, in DATA
  frames of the stream within the frame size limit that carry the data in order; both windows shrink by what was sent.
  If everything fits the upload is finished, END_STREAM stands on the last frame if it was asked for, and
  the local side is closed; otherwise the device keeps the rest and the state does not change.\<close>

theorem sendDATA_spec:
  assumes "getStream i c = Some s" "may_send s" "dev_results (c_socket c) = []" "i < 2 ^ 31"
    and "0 < c_maxFrameSize c" "c_maxFrameSize c \<le> maxPayloadSize" "0 \<le> sessionSendWindowSize c" "0 \<le> m_sendWindow s"
    and "n = min (nat (min (sessionSendWindowSize c) (m_sendWindow s))) (length payload)"
  shows "\<exists>c' t fs. sendDATA i payload fin c = Some (True, c')
    \<and> c_socket c' = (c_socket c)\<lparr>dev_out := dev_out (c_socket c) @ concat (map fr_buffer fs)\<rparr>
    \<and> data_frames i (c_maxFrameSize c) (n = length payload \<and> fin) fs \<and> concat (map fr_payload fs) = take n payload
    \<and> sessionSendWindowSize c' = sessionSendWindowSize c - int n
    \<and> getStream i c' = Some t \<and> m_sendWindow t = m_sendWindow s - int n
    \<and> (if n = length payload
       then m_uploadByteDevice t = None \<and> uploadFinished i \<in> set (c_events c')
          \<and> m_state t = (if \<not> fin then m_state s else if m_state s = Open then HalfClosedLocal else Closed)
       else m_uploadByteDevice t = Some \<lparr>bd_view = payload, currentPosition = n\<rparr> \<and> m_state t = m_state s)"
proof -
  obtain s' c1 where c1: "sendDATA i payload fin c = map_option (Pair True) (internalSendDATA i c1)" "getStream i c1 = Some s'"
    "s' = s\<lparr>m_owningByteDevice := True, m_uploadByteDevice := Some (byteDevice payload), m_endStreamAfterDATA := fin\<rparr>"
    "c_socket c1 = c_socket c" "c_maxFrameSize c1 = c_maxFrameSize c" "sessionSendWindowSize c1 = sessionSendWindowSize c"
    using sendDATA_upload [OF assms(1,2)] by blast
  have r: "remaining (byteDevice payload) = payload" by (simp add: remaining_def byteDevice_def)
  have m: "may_send s'" "m_uploadByteDevice s' = Some (byteDevice payload)" using assms(2) by (simp_all add: c1(3) may_send_def)
  have st: "the (next_state (m_state s) CloseLocal) = (if m_state s = Open then HalfClosedLocal else Closed)"
    using assms(2) by (auto simp: may_send_def)
  have "\<exists>c' fs. internalSendDATA i c1 = Some c' \<and> getStream i c' = Some (upload_done s' (byteDevice payload) n)
    \<and> sessionSendWindowSize c' = sessionSendWindowSize c1 - int n
    \<and> c_socket c' = (c_socket c1)\<lparr>dev_out := dev_out (c_socket c1) @ concat (map fr_buffer fs)\<rparr>
    \<and> data_frames i (c_maxFrameSize c1) (n = length (remaining (byteDevice payload)) \<and> m_endStreamAfterDATA s') fs
    \<and> concat (map fr_payload fs) = take n (remaining (byteDevice payload))
    \<and> bytesWritten i n \<in> set (c_events c') \<and> (n = length (remaining (byteDevice payload)) \<longrightarrow> uploadFinished i \<in> set (c_events c'))"
    using assms(3-) by (intro internalSendDATA_spec [OF c1(2) m(2,1)]) (simp_all add: c1 r)
  then obtain c' fs where c': "internalSendDATA i c1 = Some c'" "getStream i c' = Some (upload_done s' (byteDevice payload) n)"
    "sessionSendWindowSize c' = sessionSendWindowSize c - int n"
    "c_socket c' = (c_socket c)\<lparr>dev_out := dev_out (c_socket c) @ concat (map fr_buffer fs)\<rparr>"
    "data_frames i (c_maxFrameSize c) (n = length payload \<and> fin) fs" "concat (map fr_payload fs) = take n payload"
    "n = length payload \<longrightarrow> uploadFinished i \<in> set (c_events c')"
    by (auto simp: c1 r)
  let ?t = "upload_done s' (byteDevice payload) n"
  have t: "m_sendWindow ?t = m_sendWindow s - int n"
    "if n = length payload then m_uploadByteDevice ?t = None \<and> m_state ?t = (if \<not> fin then m_state s else if m_state s = Open then HalfClosedLocal else Closed)
     else m_uploadByteDevice ?t = Some \<lparr>bd_view = payload, currentPosition = n\<rparr> \<and> m_state ?t = m_state s"
    by (simp_all add: upload_done_def r c1(3) st) (simp add: advanceReadPointer_def byteDevice_def)
  show ?thesis
    using c1(1) c' t by (intro exI [of _ c'] exI [of _ ?t] exI [of _ fs]) (auto split: if_splits)
qed

theorem sendDATA_spec_witness:
  "\<exists>c' fs. sendDATA 1 [7, 8, 9] True open_client = Some (True, c') \<and> concat (map fr_payload fs) = [7, 8, 9]
     \<and> dev_out (c_socket c') = concat (map fr_buffer fs) \<and> data_frames 1 16384 True fs"
proof -
  obtain s where s: "getStream 1 open_client = Some s" "m_state s = Open" "m_sendWindow s = 65535"
    by (simp add: open_client_def getStream_def)
  have c: "dev_results (c_socket open_client) = []" "dev_out (c_socket open_client) = []" "c_maxFrameSize open_client = 16384"
    "sessionSendWindowSize open_client = 65535"
    by (simp_all add: open_client_def createDirectConnection_def setH2Configuration_def QHttp2Connection_def)
  show ?thesis
    using sendDATA_spec [OF s(1) _ c(1), of 3 "[7, 8, 9]" True] s c by (auto simp: may_send_def)
qed

text \<open>C37. An upload does not start well while the window is negative, as it may be after the peer has lowered
  SETTINGS_INITIAL_WINDOW_SIZE: with data to send and a socket that takes every write, sending returns
  only if neither window is negative; otherwise it writes empty DATA frames for ever, or copies from before the data.\<close>

theorem negative_window_never_returns:
  assumes "getStream i c = Some s" "may_send s" "dev_results (c_socket c) = []" "i < 2 ^ 31"
    and "0 < c_maxFrameSize c" "c_maxFrameSize c \<le> maxPayloadSize" "payload \<noteq> []"
  shows "(\<exists>r. sendDATA i payload fin c = Some r) \<longleftrightarrow> 0 \<le> sessionSendWindowSize c \<and> 0 \<le> m_sendWindow s"
proof -
  obtain s' c1 where c1: "sendDATA i payload fin c = map_option (Pair True) (internalSendDATA i c1)" "getStream i c1 = Some s'"
    "s' = s\<lparr>m_owningByteDevice := True, m_uploadByteDevice := Some (byteDevice payload), m_endStreamAfterDATA := fin\<rparr>"
    "c_socket c1 = c_socket c" "c_maxFrameSize c1 = c_maxFrameSize c" "sessionSendWindowSize c1 = sessionSendWindowSize c"
    using sendDATA_upload [OF assms(1,2)] by blast
  have r: "remaining (byteDevice payload) = payload" by (simp add: remaining_def byteDevice_def)
  have m: "may_send s'" "m_uploadByteDevice s' = Some (byteDevice payload)" "m_sendWindow s' = m_sendWindow s"
    using assms(2) by (simp_all add: c1(3) may_send_def)
  show ?thesis
  proof (cases "0 \<le> sessionSendWindowSize c \<and> 0 \<le> m_sendWindow s")
    case True
    then have "\<exists>c'. internalSendDATA i c1 = Some c'"
      using internalSendDATA_spec [OF c1(2) m(2,1) _ assms(4) _ _ _ _ refl] assms(3,5,6) c1(4-6) m(3) by auto
    then show ?thesis using True c1(1) by auto
  next
    case False
    have "send_loop i (min (sessionSendWindowSize c1) (m_sendWindow s')) 0 False c1 = None"
      using send_loop_negative [OF _ _ c1(2) m(2)] assms(3-) False c1(4-6) m(3) r by (metis min_less_iff_disj not_le option.exhaust)
    then have "internalSendDATA i c1 = None" by (simp add: internalSendDATA_def c1(2))
    then show ?thesis using False c1(1) by simp
  qed
qed

definition starved_client :: "nat h2_conn" where
  "starved_client = with_stream 1 (m_sendWindow_update (\<lambda>_. -5)) open_client"

theorem negative_window_never_returns_witness:
  "sendDATA 1 [7] True starved_client = None"
proof -
  obtain s where s: "getStream 1 starved_client = Some s" "m_state s = Open" "m_sendWindow s = -5"
    by (simp add: starved_client_def) (simp add: open_client_def getStream_def)
  have c: "dev_results (c_socket starved_client) = []" "c_maxFrameSize starved_client = 16384"
    by (simp_all add: starved_client_def) (simp_all add: open_client_def createDirectConnection_def setH2Configuration_def QHttp2Connection_def)
  show ?thesis
    using negative_window_never_returns [OF s(1) _ c(1), of "[7]" True] s c
    by (cases "sendDATA 1 [7] True starved_client") (auto simp: may_send_def)
qed

end
