(* ===== verification/Http2Receiving.thy ===== *)
theory Http2Receiving
  imports Http2Uploads
begin

text \<open>
  Receiving data, \<open>QHttp2Connection::handleDATA\<close> and \<open>QHttp2Stream::handleDATA\<close>: the account of the
  connection's receive window with the peer, and what a stream delivers to the application.
\<close>


subsection \<open>Accounting of received data\<close>

definition recv_part :: "'url h2_conn \<Rightarrow> _" where
  "recv_part c = (sessionReceiveWindowSize c, maxSessionReceiveWindowSize c, c_queue c, m_connectionType c)"

named_theorems recv \<open>operations that leave the receive window of the connection and the queue alone\<close>

lemma recv_simple [simp]:
  "recv_part (emit ev c) = recv_part c" "recv_part (with_stream i f c) = recv_part c"
  "recv_part (registerStreamAsResetLocally i c) = recv_part c" "recv_part (maybeCloseOnGoingAway c) = recv_part c"
  "recv_part (snd (send_frame w c)) = recv_part c" "recv_part (c\<lparr>m_streams := ss\<rparr>) = recv_part c"
  by (simp_all add: recv_part_def emit_def with_stream_def registerStreamAsResetLocally_def maybeCloseOnGoingAway_def
      closeSession_def send_frame_def Let_def split: prod.split)

lemma recv_setState [recv]: "setState i t c = Some d \<Longrightarrow> recv_part d = recv_part c"
  by (auto simp: setState_def bind_eq_Some_conv Let_def)

lemma recv_transitionState [recv]: "transitionState i t c = Some d \<Longrightarrow> recv_part d = recv_part c"
  by (auto simp: transitionState_def bind_eq_Some_conv dest: recv_setState)

lemma recv_sendRST [recv]: "sendRST_STREAM i n c = Some r \<Longrightarrow> recv_part (snd r) = recv_part c"
  by (auto simp: sendRST_STREAM_def bind_eq_Some_conv Let_def split: if_splits dest!: recv_transitionState)

lemma recv_streamError [recv]: "streamError i n m c = Some d \<Longrightarrow> recv_part d = recv_part c"
  by (auto simp: streamError_def bind_eq_Some_conv dest: recv_sendRST)

lemma recv_delete [recv]: "delete_stream i c = Some d \<Longrightarrow> recv_part d = recv_part c"
  by (auto simp: delete_stream_def bind_eq_Some_conv split: if_splits dest!: recv_sendRST)

lemma recv_sendWU [recv]: "stream_sendWINDOW_UPDATE i n c = Some d \<Longrightarrow> recv_part d = recv_part c"
  by (auto simp: stream_sendWINDOW_UPDATE_def bind_eq_Some_conv sendWINDOW_UPDATE_def split: if_splits)

lemma recv_handleDATA [recv]: "stream_handleDATA i f c = Some d \<Longrightarrow> recv_part d = recv_part c"
  by (auto simp: stream_handleDATA_def bind_eq_Some_conv Let_def split: if_splits dest!: recv)

text \<open>The credit of the peer: the receive window less the window updates that are still queued.\<close>

fun queued_grant :: "queued_call \<Rightarrow> int" where
  "queued_grant (Queued_sendWINDOW_UPDATE i n) = (if i = connectionStreamID then int n else 0)"
| "queued_grant _ = 0"

definition peer_credit :: "'url h2_conn \<Rightarrow> int" where
  "peer_credit c = sessionReceiveWindowSize c - sum_list (map queued_grant (c_queue c))"

definition closed_for_data :: "nat \<Rightarrow> 'url h2_conn \<Rightarrow> bool" where
  "closed_for_data i c \<longleftrightarrow> \<not> streamWasResetLocally i c
     \<and> (\<exists>s. getStream i c = Some s \<and> (m_state s = HalfClosedRemote \<or> m_state s = Closed))"

lemma connectionError_aborts:
  assumes "connectionError n m c = Some d" shows "m_connectionAborted d"
proof (cases "m_connectionAborted c")
  case False
  define x where "x = c\<lparr>m_connectionAborted := True, m_goingAway := True, m_lastStreamToProcess := min (m_lastIncomingStreamID c) (m_lastStreamToProcess c)\<rparr>"
  define y where "y = snd (sendGOAWAYFrame n (m_lastStreamToProcess x) x)"
  have "reaches x y" unfolding y_def by (intro steps)
  then have "leads (\<lambda>c. c) x (map_option closeSession (each_stream (finish_if_active n m) (map fst (m_streams y)) y))"
    by (rule leads_map_conn [OF each_stream_leads]) (intro steps; assumption)+
  moreover have "map_option closeSession (each_stream (finish_if_active n m) (map fst (m_streams y)) y) = Some d"
    using assms False by (simp add: connectionError_def Let_def x_def y_def)
  ultimately have "later x d" using later.over_reaches by (auto simp: leads_def)
  then show ?thesis by (simp add: later_def x_def)
qed (use assms in \<open>auto simp: connectionError_def\<close>)

lemma u32_small: "0 \<le> x \<Longrightarrow> x < 2 ^ 32 \<Longrightarrow> int (u32 x) = x"
  by (simp add: u32_def)

lemma half_pos: "0 \<le> x \<Longrightarrow> half x = x div 2"
  by (simp add: half_def)

lemma handleDATA_accounting:
  assumes "windows_ok c" "payloadSize (inboundFrame c) < 2 ^ 24" "handleDATA c = Some d"
    and "i = fr_streamID (inboundFrame c)" "n = int (payloadSize (inboundFrame c))"
  shows "if i = 0 \<or> isInvalidStream i c then m_connectionAborted d
    else if closed_for_data i c then peer_credit d = peer_credit c
    else if sessionReceiveWindowSize c < n then m_connectionAborted d
    else peer_credit d = peer_credit c - n \<and> maxSessionReceiveWindowSize c div 2 \<le> sessionReceiveWindowSize d"
proof -
  define f where "f = inboundFrame c"
  note d = assms(3) [unfolded handleDATA_def Let_def, folded f_def]
  have i: "i = fr_streamID f" and n: "n = int (payloadSize f)" using assms(4,5) by (simp_all add: f_def)
  have ns: "i32 (int (payloadSize f)) = n" "0 \<le> n" "i32 n = n" using assms(2) i32_small [of n] by (simp_all add: f_def n)
  show ?thesis
  proof (cases "i = 0 \<or> isInvalidStream i c")
    case True
    then have "\<exists>m k. connectionError k m c = Some d" using d by (auto simp: i connectionStreamID_def split: if_splits)
    then show ?thesis using True connectionError_aborts by auto
  next
    case ok: False
    have cl: "(\<not> streamWasResetLocally i c \<and> (case getStream i c of None \<Rightarrow> False | Some s \<Rightarrow> m_state s = HalfClosedRemote \<or> m_state s = Closed))
        \<longleftrightarrow> closed_for_data i c" by (auto simp: closed_for_data_def split: option.splits)
    note d' = d [folded i, unfolded cl]
    show ?thesis
    proof (cases "closed_for_data i c")
      case True
      then have "streamError i STREAM_CLOSED ''Data on closed stream'' c = Some d"
        using d' ok by (simp add: connectionStreamID_def)
      from recv_streamError [OF this] show ?thesis using ok True by (simp add: recv_part_def peer_credit_def)
    next
      case opn: False
      show ?thesis
      proof (cases "sessionReceiveWindowSize c < n")
        case True
        then have "connectionError FLOW_CONTROL_ERROR ''Flow control error'' c = Some d"
          using d' ok opn ns by (simp add: connectionStreamID_def)
        then show ?thesis using True ok opn connectionError_aborts by auto
      next
        case False
        define x where "x = c\<lparr>sessionReceiveWindowSize := i32 (sessionReceiveWindowSize c - int (payloadSize f))\<rparr>"
        have x: "sessionReceiveWindowSize x = sessionReceiveWindowSize c - n" "c_queue x = c_queue c" "maxSessionReceiveWindowSize x = maxSessionReceiveWindowSize c"
          using False assms(1) ns i32_small [of "sessionReceiveWindowSize c - n"] by (simp_all add: x_def n windows_ok_def window_size_def)
        have d2: "do {
            y \<leftarrow> (if \<not> streamWasResetLocally i c then stream_handleDATA i f x else Some x);
            z \<leftarrow> (if testFlag (fr_flags f) END_STREAM
                then (if \<not> (\<not> streamWasResetLocally i c \<and> streamIsIgnored i y) then Some (emit (receivedEND_STREAM i) y)
                      else do { c \<leftarrow> setState i Closed y; delete_stream i c })
                else Some y);
            Some (if sessionReceiveWindowSize z < half (maxSessionReceiveWindowSize z)
                 then (enqueue (Queued_sendWINDOW_UPDATE connectionStreamID
                                  (u32 (maxSessionReceiveWindowSize z - sessionReceiveWindowSize z))) z)
                      \<lparr>sessionReceiveWindowSize := maxSessionReceiveWindowSize z\<rparr>
                 else z) } = Some d"
        proof -
          have c: "\<not> i = connectionStreamID" "\<not> isInvalidStream i c" "\<not> i32 (int (payloadSize f)) > sessionReceiveWindowSize c"
            using ok False ns by (simp_all add: connectionStreamID_def)
          show ?thesis using d' unfolding if_not_P [OF c(1)] if_not_P [OF c(2)] if_not_P [OF opn] if_not_P [OF c(3)] x_def .
        qed
        obtain y z where y: "(if \<not> streamWasResetLocally i c then stream_handleDATA i f x else Some x) = Some y"
          and z: "(if testFlag (fr_flags f) END_STREAM
                then (if \<not> (\<not> streamWasResetLocally i c \<and> streamIsIgnored i y) then Some (emit (receivedEND_STREAM i) y)
                      else do { c \<leftarrow> setState i Closed y; delete_stream i c })
                else Some y) = Some z"
          and dz: "d = (if sessionReceiveWindowSize z < half (maxSessionReceiveWindowSize z)
                 then (enqueue (Queued_sendWINDOW_UPDATE connectionStreamID
                                  (u32 (maxSessionReceiveWindowSize z - sessionReceiveWindowSize z))) z)
                      \<lparr>sessionReceiveWindowSize := maxSessionReceiveWindowSize z\<rparr>
                 else z)"
          using d2 unfolding bind_eq_Some_conv Let_def by blast
        have "recv_part y = recv_part x" using y by (auto split: if_splits dest: recv_handleDATA)
        moreover have "recv_part z = recv_part y" using z by (auto simp: bind_eq_Some_conv split: if_splits dest!: recv_setState recv_delete)
        ultimately have p: "sessionReceiveWindowSize z = sessionReceiveWindowSize c - n" "c_queue z = c_queue c" "maxSessionReceiveWindowSize z = maxSessionReceiveWindowSize c"
          using x by (simp_all add: recv_part_def)
        have m: "0 \<le> maxSessionReceiveWindowSize c" "maxSessionReceiveWindowSize c < 2 ^ 31" using assms(1) by (simp_all add: windows_ok_def window_size_def)
        have u: "int (u32 (maxSessionReceiveWindowSize c - (sessionReceiveWindowSize c - n))) = maxSessionReceiveWindowSize c - (sessionReceiveWindowSize c - n)"
          if "sessionReceiveWindowSize c - n < maxSessionReceiveWindowSize c div 2"
          using that m False by (intro u32_small) auto
        show ?thesis using ok opn False m u
          by (auto simp: dz p half_pos peer_credit_def enqueue_def)
      qed
    qed
  qed
qed


text \<open>C17. The receive window of the connection is kept in step with the peer. A DATA frame of \<open>n\<close> octets (padding included)
  that exceeds it, or is on stream 0 or an unknown stream, aborts the connection; one that is accepted lowers the
  credit of the peer, the window less the updates still queued, by exactly \<open>n\<close>, and leaves at least half of the
  maximal window open. A frame on a stream that is closed for data is answered by a stream error and not
  counted at all.\<close>

theorem received_data_accounted:
  assumes "windows_ok c" "payloadSize (inboundFrame c) < 2 ^ 24" "handleDATA c = Some d"
    and "i = fr_streamID (inboundFrame c)" "n = int (payloadSize (inboundFrame c))"
  shows "if i = 0 \<or> isInvalidStream i c then m_connectionAborted d
    else if closed_for_data i c then peer_credit d = peer_credit c
    else if sessionReceiveWindowSize c < n then m_connectionAborted d
    else peer_credit d = peer_credit c - n \<and> maxSessionReceiveWindowSize c div 2 \<le> sessionReceiveWindowSize d"
  by (rule handleDATA_accounting [OF assms])

definition data_client :: "nat h2_conn" where
  "data_client = client0\<lparr>m_resetStreamIDs := [1], inboundFrame := fw_append [7, 8, 9] (fw_start DATA EMPTY 1)\<rparr>"

lemma data_client_fields:
  "payloadSize (inboundFrame data_client) = 3" "fr_streamID (inboundFrame data_client) = 1" "fr_flags (inboundFrame data_client) = EMPTY"
  using DATA_frame [OF _ _ refl, of 1 "[7, 8, 9]"] by (simp_all add: data_client_def)

theorem received_data_accounted_witness:
  "\<exists>d. handleDATA data_client = Some d \<and> peer_credit d = peer_credit data_client - 3"
proof -
  have w: "windows_ok data_client" "sessionReceiveWindowSize data_client = 65535" "maxSessionReceiveWindowSize data_client = 65535"
    "getStream 1 data_client = None" "m_resetStreamIDs data_client = [1]"
    by (simp_all add: data_client_def windows_ok_def window_size_def getStream_def createDirectConnection_def setH2Configuration_def
        QHttp2Connection_def QHttp2Configuration_def i32_def)
  have r: "streamWasResetLocally 1 data_client" "\<not> isInvalidStream 1 data_client" "\<not> closed_for_data 1 data_client"
    by (simp_all add: streamWasResetLocally_def isInvalidStream_def closed_for_data_def w)
  obtain d where d: "handleDATA data_client = Some d"
    using r w data_client_fields
    by (simp add: handleDATA_def Let_def connectionStreamID_def i32_def testFlag_def EMPTY_def END_STREAM_def)
  from received_data_accounted [OF w(1) _ d refl refl] r w data_client_fields d show ?thesis by simp
qed

lemma fragment_of_data: "data_of f = Some x \<Longrightarrow> fragment_of f = Some x"
  by (auto simp: data_of_def fragment_of_def split: option.splits if_splits)

text \<open>A DATA frame on a stream that may receive data, within the stream's window and with padding that fits, is delivered:
  the application gets exactly its data, which is also kept if a download buffer is used; the window shrinks by
  the whole payload, or is filled up again by a WINDOW_UPDATE frame once less than half of it is left; and END_STREAM
  closes the remote side.\<close>

theorem stream_data_delivered:
  assumes "streams_ok {} c" "getStream i c = Some s" "m_state s = Open \<or> m_state s = HalfClosedLocal" "\<not> streamIsIgnored i c"
    and "framed f" "pad_ok f" "int (payloadSize f) \<le> m_recvWindow s" "fin = testFlag (fr_flags f) END_STREAM"
  shows "\<exists>x d t. data_of f = Some x \<and> stream_handleDATA i f c = Some d \<and> getStream i d = Some t
    \<and> (x \<noteq> [] \<or> fin \<longrightarrow> dataReceived i x fin \<in> set (drop (length (c_events c)) (c_events d)))
    \<and> m_downloadBuffer t = m_downloadBuffer s @ (if useDownloadBuffer s \<and> x \<noteq> [] then [x] else [])
    \<and> m_state t = (if \<not> fin then m_state s else if m_state s = Open then HalfClosedRemote else Closed)
    \<and> (let left = m_recvWindow s - int (payloadSize f); most = streamInitialReceiveWindowSize c
       in if \<not> fin \<and> left < most div 2
          then m_recvWindow t = most \<and> (dev_results (c_socket c) = [] \<longrightarrow>
            dev_out (c_socket d) = dev_out (c_socket c) @ fr_buffer (fw_append32 (nat (most - left)) (fw_start WINDOW_UPDATE EMPTY i)))
          else m_recvWindow t = left \<and> c_socket d = c_socket c)"
proof -
  define n where "n = int (payloadSize f)"
  define s1 where "s1 = s\<lparr>m_recvWindow := m_recvWindow s - n\<rparr>"
  define c1 where "c1 = with_stream i (m_recvWindow_update (\<lambda>w. w - n)) c"
  have n: "i32 (int (payloadSize f)) = n" "0 \<le> n" using framedD(3) [OF assms(5)] i32_small [of n] by (simp_all add: n_def)
  have g1: "getStream i c1 = Some s1" using assms(2) by (simp add: c1_def s1_def)
  obtain x where x: "data_of f = Some x" "length x = dataSize f"
    using data_of_layout [OF assms(5,6)] dataSize_exact [OF assms(5,6)] framedD(4) [OF assms(5)] by (simp add: fr_payload_def)
  have ign: "\<not> streamIsIgnored i c1" using assms(4) by (simp add: streamIsIgnored_def c1_def with_stream_def)
  define st where "st = (if \<not> fin then m_state s else if m_state s = Open then HalfClosedRemote else Closed)"
  obtain c2 where c2: "(if fin then transitionState i CloseRemote c1 else Some c1) = Some c2" "getStream i c2 = Some (s1\<lparr>m_state := st\<rparr>)"
    "c_socket c2 = c_socket c1" "streamInitialReceiveWindowSize c2 = streamInitialReceiveWindowSize c" "\<exists>es. c_events c2 = c_events c1 @ es"
  proof (cases fin)
    case True
    have t: "next_state (m_state s1) CloseRemote = Some st" using assms(3) True by (auto simp: s1_def st_def)
    from transitionState_spec [OF g1 t] obtain d where "transitionState i CloseRemote c1 = Some d" "getStream i d = Some (s1\<lparr>m_state := st\<rparr>)" "c_socket d = c_socket c1"
      "sessionSendWindowSize d = sessionSendWindowSize c1" "\<exists>es. c_events d = c_events c1 @ es" .
    moreover from this(1) have "streamInitialReceiveWindowSize d = streamInitialReceiveWindowSize c"
      by (auto simp: transitionState_def setState_def bind_eq_Some_conv Let_def maybeCloseOnGoingAway_def closeSession_def emit_def c1_def with_stream_def split: if_splits)
    ultimately show ?thesis using that True by auto
  next
    case False
    then show ?thesis using that [of c1] g1 by (simp add: st_def s1_def c1_def)
  qed
  define keep where "keep \<longleftrightarrow> useDownloadBuffer s \<and> x \<noteq> []"
  define s3 where "s3 = s1\<lparr>m_state := st, m_downloadBuffer := m_downloadBuffer s @ (if keep then [x] else [])\<rparr>"
  define c3 where "c3 = emit (dataReceived i x fin) (if keep then with_stream i (m_downloadBuffer_update (\<lambda>b. b @ [x])) c2 else c2)"
  define c4 where "c4 = (if x \<noteq> [] \<or> fin then c3 else c1)"
  have g4: "getStream i c4 = Some s3" using c2(2) g1 by (auto simp: c4_def c3_def s3_def s1_def keep_def st_def)
  have c4: "c_socket c4 = c_socket c" "streamInitialReceiveWindowSize c4 = streamInitialReceiveWindowSize c"
    using c2(3,4) by (auto simp: c4_def c3_def c1_def emit_def)
  have ev: "x \<noteq> [] \<or> fin \<longrightarrow> dataReceived i x fin \<in> set (drop (length (c_events c)) (c_events c4))"
    using c2(5) by (auto simp: c4_def c3_def c1_def)
  have mid: "(if (dataSize f > 0 \<or> fin) \<and> \<not> streamIsIgnored i c1
       then do { fragment \<leftarrow> fragment_of f; c \<leftarrow> (if fin then transitionState i CloseRemote c1 else Some c1);
                 let c = (if useDownloadBuffer s \<and> fragment \<noteq> [] then with_stream i (m_downloadBuffer_update (\<lambda>b. b @ [fragment])) c else c);
                 Some (emit (dataReceived i fragment fin) c) }
       else Some c1) = Some c4"
    using ign fragment_of_data [OF x(1)] c2(1) x(2) unfolding c4_def c3_def keep_def by (auto simp: Let_def)
  define most where "most = streamInitialReceiveWindowSize c"
  have so: "0 \<le> m_recvWindow s" "m_recvWindow s \<le> most" "window_size most"
    using streams_ok_getStream [OF assms(1,2)] assms(1) by (simp_all add: stream_ok_def most_def streams_ok_def windows_ok_def)
  define left where "left = m_recvWindow s - n"
  have left: "m_recvWindow s3 = left" "0 \<le> left" "left \<le> most" using so assms(7) n by (simp_all add: s3_def s1_def left_def n_def)
  define d where "d = (if \<not> fin \<and> left < most div 2 then snd (sendWINDOW_UPDATE i (u32 (most - left)) (with_stream i (m_recvWindow_update (\<lambda>w. w + (most - left))) c4)) else c4)"
  have u: "i32 (int (u32 (most - left))) = most - left" "u32 (most - left) = nat (most - left)" if "left < most div 2"
    using that left so u32_small [of "most - left"] i32_small [of "most - left"] by (simp_all add: window_size_def)
  have tail: "(if \<not> fin \<and> m_recvWindow s3 < half (streamInitialReceiveWindowSize c4)
       then stream_sendWINDOW_UPDATE i (u32 (streamInitialReceiveWindowSize c4 - m_recvWindow s3)) c4 else Some c4) = Some d"
  proof -
    have "fits_i32 most" using so(3) by (simp add: fits_i32_def window_size_def)
    then show ?thesis using u left so by (simp add: c4 left half_pos window_size_def most_def [symmetric] d_def stream_sendWINDOW_UPDATE_def g4)
  qed
  have le: "\<not> n > m_recvWindow s" using assms(7) by (simp add: n_def)
  have r: "stream_handleDATA i f c = Some d"
    by (simp only: stream_handleDATA_def assms(2) Option.bind.bind_lunit n(1) if_not_P [OF le] Let_def c1_def [symmetric]
        assms(8) [symmetric] mid [unfolded Let_def] g4 tail)
  define t where "t = s3\<lparr>m_recvWindow := if \<not> fin \<and> left < most div 2 then most else left\<rparr>"
  have t: "getStream i d = Some t" using g4 left(1) by (simp add: d_def sendWINDOW_UPDATE_def t_def)
  have tf: "m_downloadBuffer t = m_downloadBuffer s @ (if useDownloadBuffer s \<and> x \<noteq> [] then [x] else [])"
    "m_state t = (if \<not> fin then m_state s else if m_state s = Open then HalfClosedRemote else Closed)"
    by (simp_all add: t_def s3_def keep_def st_def)
  have "c_socket d = c_socket c" if "\<not> (\<not> fin \<and> left < most div 2)" using that c4(1) by (auto simp: d_def)
  moreover have "dev_out (c_socket d) = dev_out (c_socket c) @ fr_buffer (fw_append32 (nat (most - left)) (fw_start WINDOW_UPDATE EMPTY i))"
    if "\<not> fin \<and> left < most div 2" "dev_results (c_socket c) = []"
    using that u c4(1) by (simp add: d_def sendWINDOW_UPDATE_def send_frame_def write_frame_ok)
  ultimately have w: "if \<not> fin \<and> left < most div 2
          then m_recvWindow t = most \<and> (dev_results (c_socket c) = [] \<longrightarrow>
            dev_out (c_socket d) = dev_out (c_socket c) @ fr_buffer (fw_append32 (nat (most - left)) (fw_start WINDOW_UPDATE EMPTY i)))
          else m_recvWindow t = left \<and> c_socket d = c_socket c" by (simp add: t_def)
  have e: "c_events d = c_events c4" by (simp add: d_def sendWINDOW_UPDATE_def send_frame_def split: prod.split)
  show ?thesis unfolding Let_def
    by (intro exI conjI) (rule x(1), rule r, rule t, use ev e in simp, rule tf(1), rule tf(2), use w in \<open>simp add: left_def n_def most_def\<close>)
qed

theorem stream_data_delivered_witness:
  "\<exists>d. stream_handleDATA 1 (fw_append [7, 8, 9] (fw_start DATA END_STREAM 1)) open_client = Some d
     \<and> dataReceived 1 [7, 8, 9] True \<in> set (c_events d)"
proof -
  define f where "f = fw_append [7, 8, 9] (fw_start DATA END_STREAM 1)"
  have f: "framed f" "fr_payload f = [7, 8, 9]" "fr_type f = DATA" "fr_flags f = END_STREAM"
    using append_fields [of "fw_start DATA END_STREAM 1" "[7, 8, 9]"] start_fields(2-4) [of DATA END_STREAM 1] start_fields(6) [of DATA END_STREAM 1]
    by (simp_all add: f_def)
  have p: "payloadSize f = 3" using f(1,2) framedD(4) by fastforce
  have o: "pad_ok f" "overhead f = 0" "padding f = 0" using p
    by (simp_all add: pad_ok_def overhead_def padding_def fr_priority_def f testFlag_def END_STREAM_def PADDED_def PRIORITY_FLAG_def)
  obtain s where s: "getStream 1 open_client = Some s" "m_state s = Open" "m_recvWindow s = 65535"
    by (simp add: open_client_def getStream_def)
  have c: "streams_ok {} open_client" "\<not> streamIsIgnored 1 open_client" "c_events open_client = []"
    using open_client_ok(1) [of "{}"] by (simp_all add: connection_ok_def streamIsIgnored_def open_client_ok)
      (simp add: open_client_def createDirectConnection_def setH2Configuration_def QHttp2Connection_def)
  have "data_of f = Some [7, 8, 9]" using data_of_layout [OF f(1) o(1)] by (simp add: o p f)
  then have "\<exists>d. stream_handleDATA 1 f open_client = Some d \<and> dataReceived 1 [7, 8, 9] True \<in> set (c_events d)"
    using stream_data_delivered [OF c(1) s(1) _ c(2) f(1) o(1) _ refl] s p c(3) by (auto simp: f(4) testFlag_def END_STREAM_def)
  then show ?thesis by (simp only: f_def)
qed

end
