(* ===== verification/Http2Settings.thy ===== *)
theory Http2Settings
  imports Http2Receiving
begin

text \<open>
  SETTINGS frames, \<open>QHttp2Connection::handleSETTINGS\<close> and \<open>acceptSetting\<close>: the payload as a list of
  settings accepted in order, and the frame of a configuration as its peer understands it.
\<close>


subsection \<open>SETTINGS frames\<close>

text \<open>The payload of a SETTINGS frame as a list of settings, and what accepting them one by one does.\<close>

fun settings_bytes :: "(nat \<times> nat) list \<Rightarrow> bytes" where
  "settings_bytes [] = []"
| "settings_bytes ((k, v) # es) = be16 k @ be32 v @ settings_bytes es"

fun accept_all :: "(nat \<times> nat) list \<Rightarrow> 'url h2_conn \<Rightarrow> (bool \<times> 'url h2_conn) option" where
  "accept_all [] c = Some (True, c)"
| "accept_all ((k, v) # es) c = do { r \<leftarrow> acceptSetting k v c; if \<not> fst r then Some r else accept_all es (snd r) }"

lemma settings_length [simp]: "length (settings_bytes es) = 6 * length es"
  by (induction es rule: settings_bytes.induct) simp_all

lemma read_bytes_at: "fr_buffer f = pre @ bs @ post \<Longrightarrow> read_bytes f (length pre) (length bs) = Some bs"
  by (simp add: read_bytes_def)

lemma settings_loop_list:
  fixes c :: "'url h2_conn"
  assumes "fr_buffer f = pre @ settings_bytes es @ post" "\<forall>(k, v)\<in>set es. k < 2 ^ 16 \<and> v < 2 ^ 32" "n = length pre + 6 * length es"
  shows "settings_loop f (length pre) n c = accept_all es c"
  using assms
proof (induction es arbitrary: pre c)
  case Nil
  then show ?case by (subst settings_loop.simps) simp
next
  case (Cons e es)
  obtain k v where e: "e = (k, v)" by fastforce
  have l: "length (be16 k) = 2" "length (be32 v) = 4" by simp_all
  have "read_bytes f (length pre) 2 = Some (be16 k)"
    using read_bytes_at [of f pre "be16 k" "be32 v @ settings_bytes es @ post"] Cons.prems(1) by (simp add: e)
  moreover have "read_bytes f (length pre + 2) 4 = Some (be32 v)"
    using read_bytes_at [of f "pre @ be16 k" "be32 v" "settings_bytes es @ post"] Cons.prems(1) by (simp add: e)
  moreover have "settings_loop f (length pre + 6) n d = accept_all es d" for d :: "'url h2_conn"
    using Cons.IH [of "pre @ be16 k @ be32 v" d] Cons.prems by (simp add: e add.assoc)
  moreover have "from_be (be16 k) = k" "from_be (be32 v) = v" using Cons.prems(2) from_be_be16 from_be_be32 by (simp_all add: e)
  moreover have "length pre \<noteq> n" using Cons.prems(3) by simp
  ultimately show ?case by (subst settings_loop.simps) (simp add: e cong: if_cong)
qed

lemma settings_fields:
  assumes "f = fw_append (settings_bytes es) (fw_start SETTINGS EMPTY 0)" "6 * length es \<le> maxPayloadSize"
  shows "framed f" "fr_type f = SETTINGS" "fr_flags f = EMPTY" "fr_streamID f = 0" "fr_payload f = settings_bytes es"
    "payloadSize f = 6 * length es" "dataSize f = 6 * length es" "es \<noteq> [] \<Longrightarrow> dataBegin f = Some 9" "length (fr_buffer f) = 9 + 6 * length es"
proof -
  have a: "9 \<le> length (fr_buffer (fw_start SETTINGS EMPTY 0))" "length (fr_buffer (fw_start SETTINGS EMPTY 0)) + length (settings_bytes es) \<le> 9 + maxPayloadSize"
    using assms(2) start_fields(6) [of SETTINGS EMPTY 0] by simp_all
  show f: "framed f" "fr_type f = SETTINGS" "fr_flags f = EMPTY" "fr_streamID f = 0" "fr_payload f = settings_bytes es"
    using append_fields [OF a] start_fields(2-4) [of SETTINGS EMPTY 0] start_fields(5) [of 0 SETTINGS EMPTY]
    by (simp_all add: assms(1))
  show p: "payloadSize f = 6 * length es" using framedD(4) [OF f(1)] f(5) by simp
  then show l: "length (fr_buffer f) = 9 + 6 * length es" using framedD(2) [OF f(1)] by simp
  have o: "pad_ok f" "overhead f = 0" "padding f = 0"
    by (simp_all add: pad_ok_def overhead_def padding_def fr_priority_def f(2,3) testFlag_def EMPTY_def PADDED_def PRIORITY_FLAG_def)
  show "dataSize f = 6 * length es" using dataSize_exact [OF f(1) o(1)] o p by simp
  show "dataBegin f = Some 9" if "es \<noteq> []"
    using that l o(2) by (cases es) (simp_all add: dataBegin_def frameHeaderSize_def overhead_def fr_priority_def f(2,3) testFlag_def EMPTY_def PADDED_def)
qed

text \<open>Handling a SETTINGS frame that is not an acknowledgement is accepting its settings in order.\<close>

lemma handleSETTINGS_list:
  assumes "inboundFrame c = fw_append (settings_bytes es) (fw_start SETTINGS EMPTY 0)" "6 * length es \<le> maxPayloadSize"
    and "\<forall>(k, v)\<in>set es. k < 2 ^ 16 \<and> v < 2 ^ 32"
  shows "handleSETTINGS c = map_option (\<lambda>(ok, d). if ok then emit settingsFrameReceived (snd (sendSETTINGS_ACK d)) else d) (accept_all es c)"
proof -
  define f where "f = inboundFrame c"
  note F = settings_fields [OF assms(1,2), folded f_def]
  have b: "fr_buffer f = take 9 (fr_buffer f) @ settings_bytes es @ []" "length (take 9 (fr_buffer f)) = 9"
    using F(5,9) by (simp_all add: fr_payload_def frameHeaderSize_def flip: F(5))
  have l: "settings_loop f 9 (9 + 6 * length es) c = accept_all es c" using settings_loop_list [OF b(1) assms(3) refl, of c] b(2) by simp
  show ?thesis
  proof (cases "es = []")
    case True
    then show ?thesis using F by (simp add: handleSETTINGS_def Let_def f_def [symmetric] connectionStreamID_def testFlag_def EMPTY_def ACK_def)
  next
    case False
    then show ?thesis using F(3,4,7,8) l
      by (cases "accept_all es c") (auto simp: handleSETTINGS_def Let_def f_def [symmetric] connectionStreamID_def testFlag_def EMPTY_def ACK_def)
  qed
qed

text \<open>The settings a configuration announces.\<close>

definition settings_of :: "h2_config \<Rightarrow> (nat \<times> nat) list" where
  "settings_of cfg = (ENABLE_PUSH_ID, of_bool (pushEnabled cfg))
     # (if streamWindowSize cfg \<noteq> defaultSessionWindowSize then [(INITIAL_WINDOW_SIZE_ID, streamWindowSize cfg)] else [])
     @ (if cfg_maxFrameSize cfg \<noteq> minPayloadLimit then [(MAX_FRAME_SIZE_ID, cfg_maxFrameSize cfg)] else [])"

lemma fw_append_append:
  assumes "9 \<le> length (fr_buffer f)" shows "fw_append b (fw_append a f) = fw_append (a @ b) f"
proof -
  obtain a0 a1 a2 t fl i0 i1 i2 i3 rest where b: "fr_buffer f = a0 # a1 # a2 # t # fl # i0 # i1 # i2 # i3 # rest"
    using header_split [OF assms] .
  show ?thesis by (simp add: fw_append_def updatePayloadSize_def setPayloadSize_def b)
qed

lemma settings_bytes_append: "settings_bytes (xs @ ys) = settings_bytes xs @ settings_bytes ys"
  by (induction xs rule: settings_bytes.induct) simp_all

lemma configuration_frame:
  "setOutboundFrame (configurationToSettingsFrame cfg) = fw_append (settings_bytes (settings_of cfg)) (fw_start SETTINGS EMPTY 0)"
proof -
  have s: "9 \<le> length (fr_buffer (fw_start SETTINGS EMPTY 0))" using start_fields(6) [of SETTINGS EMPTY 0] by simp
  have "configurationToSettingsFrame cfg = fw_append (settings_bytes (settings_of cfg)) (fw_start SETTINGS EMPTY 0)"
    by (simp add: configurationToSettingsFrame_def Let_def fw_append16_def fw_append32_def fw_append_append [OF s] settings_of_def
        settings_bytes_append connectionStreamID_def)
  moreover have "6 * length (settings_of cfg) \<le> maxPayloadSize" by (simp add: settings_of_def)
  ultimately show ?thesis using update_framed [OF settings_fields(1) [OF refl]] by (simp add: setOutboundFrame_def)
qed

lemma sendGOAWAY_streams [simp]: "m_streams (snd (sendGOAWAYFrame n l c)) = m_streams c"
  by (simp add: sendGOAWAYFrame_def send_frame_def split: prod.split)

lemma connectionError_no_streams: "m_streams c = [] \<Longrightarrow> \<exists>d. connectionError n m c = Some d"
  by (simp add: connectionError_def Let_def)

text \<open>C18. The first SETTINGS frame of a configured endpoint is understood by its peer: the limits it announces become the
  peer's limits for sending, the frame is acknowledged and reported to the application, and nothing else is written. A client, however,
  aborts the connection when the announcing server has server push enabled.\<close>

theorem settings_roundtrip:
  fixes c :: "'url h2_conn"
  assumes "config_ok cfg" "\<not> m_connectionAborted c" "m_streams c = []"
    and "streamInitialSendWindowSize c = int defaultSessionWindowSize" "c_maxFrameSize c = minPayloadLimit"
    and "inboundFrame c = setOutboundFrame (configurationToSettingsFrame cfg)" "dev_results (c_socket c) = []"
  shows "\<exists>d. handleSETTINGS c = Some d \<and>
    (if m_connectionType c = Client \<and> pushEnabled cfg then m_connectionAborted d
     else \<not> m_connectionAborted d \<and> streamInitialSendWindowSize d = int (streamWindowSize cfg) \<and> c_maxFrameSize d = cfg_maxFrameSize cfg
       \<and> (m_connectionType c = Server \<longrightarrow> pushPromiseEnabled d = pushEnabled cfg)
       \<and> c_events d = c_events c @ [settingsFrameReceived]
       \<and> dev_out (c_socket d) = dev_out (c_socket c) @ fr_buffer (fw_start SETTINGS ACK 0))"
proof -
  have l: "6 * length (settings_of cfg) \<le> maxPayloadSize" by (simp add: settings_of_def)
  have v: "\<forall>(k, v)\<in>set (settings_of cfg). k < 2 ^ 16 \<and> v < 2 ^ 32"
    using assms(1) by (auto simp: settings_of_def setting_ids config_ok_def)
  note h = handleSETTINGS_list [OF assms(6) [unfolded configuration_frame] l v]
  show ?thesis
  proof (cases "m_connectionType c = Client \<and> pushEnabled cfg")
    case True
    obtain d where d: "connectionError PROTOCOL_ERROR ''SETTINGS server sent ENABLE_PUSH=1'' c = Some d"
      using connectionError_no_streams [OF assms(3)] by blast
    then have "accept_all (settings_of cfg) c = Some (False, d)"
      using True by (simp add: settings_of_def acceptSetting_def setting_ids refuse_setting_def)
    then show ?thesis using True h connectionError_aborts [OF d] by simp
  next
    case False
    define d where "d = c\<lparr>pushPromiseEnabled := (if m_connectionType c = Server then pushEnabled cfg else pushPromiseEnabled c),
      streamInitialSendWindowSize := int (streamWindowSize cfg), c_maxFrameSize := cfg_maxFrameSize cfg\<rparr>"
    have "accept_all (settings_of cfg) c = Some (True, d)"
      using False assms(1,3,4,5)
      by (cases "m_connectionType c") (auto simp: settings_of_def acceptSetting_def setting_ids config_ok_def d_def Let_def)
    moreover have "c_events d = c_events c" "c_socket d = c_socket c" "\<not> m_connectionAborted d" using assms(2) by (simp_all add: d_def)
    ultimately show ?thesis using False h assms(7)
      by (simp add: d_def sendSETTINGS_ACK_def send_frame_def write_frame_ok emit_def connectionStreamID_def)
  qed
qed

definition settings_server :: "nat h2_conn" where
  "settings_server = (createDirectServerConnection plain_socket 7 QHttp2Configuration)
     \<lparr>inboundFrame := setOutboundFrame (configurationToSettingsFrame (QHttp2Configuration\<lparr>streamWindowSize := 100000\<rparr>))\<rparr>"

theorem settings_roundtrip_witness:
  "\<exists>d. handleSETTINGS settings_server = Some d \<and> streamInitialSendWindowSize d = 100000 \<and> c_events d = [settingsFrameReceived]"
proof -
  have s: "\<not> m_connectionAborted settings_server" "m_streams settings_server = []" "streamInitialSendWindowSize settings_server = int defaultSessionWindowSize"
    "c_maxFrameSize settings_server = minPayloadLimit" "dev_results (c_socket settings_server) = []" "m_connectionType settings_server = Server"
    "c_events settings_server = []"
    by (simp_all add: settings_server_def createDirectServerConnection_def setH2Configuration_def QHttp2Connection_def)
  have "config_ok (QHttp2Configuration\<lparr>streamWindowSize := 100000\<rparr>)" by (simp add: config_ok_def QHttp2Configuration_def)
  from settings_roundtrip [OF this s(1-4) _ s(5)] s(6,7) show ?thesis by (auto simp: settings_server_def)
qed

end
