(* ===== verification/Http2Transport.thy ===== *)
theory Http2Transport
  imports Http2Settings HpackProperties
begin

text \<open>
  A request from end to end: \<open>QHttp2Stream::sendHEADERS\<close> on the client, the frames on the wire, the read loop and
  the header handlers of the server, and the tables of encoder and decoder on both sides.
\<close>

unbundle bit_operations_syntax


subsection \<open>Sending a request\<close>

text \<open>Encoding appends a block to what the stream holds: not empty, and below 512 megabytes.\<close>

lemma encoded_block:
  assumes "coding.encodes_all c res s e fs" "coding.can_encode c s e" "synced (enc_table e) (dec_table d)"
    "header_bytes fs < 2 ^ 27" "fs \<noteq> []"
  shows "\<exists>s' e' b. res = Some (True, s', e') \<and> os_buffer s' = os_buffer s @ b \<and> b \<noteq> [] \<and> length b < 2 ^ 29
    \<and> ready s' e' \<and> (\<exists>is' d'. decodeHeaderFields (BitIStream b) d = Some (True, is', d') \<and> dec_header d' = fs \<and> synced (enc_table e') (dec_table d'))"
proof -
  obtain s' e' where r: "res = Some (True, s', e')" "ready s' e'" "understood s s' e' fs d"
    using block_understood [OF assms(1-4)] by blast
  obtain rs where rs: "os_bits s' = os_bits s @ seq_bits c rs" "seq_ok (writable c) (enc_table e) rs fs" "coding.can_encode c s' e'"
    using assms(1) r(1) unfolding coding.encodes_all_def by auto
  have b: "bits_of (os_buffer s) = os_bits s" "bits_of (os_buffer s') = os_bits s'"
    using assms(2) rs(3) os_wf_cases(1) by (auto simp: coding.can_encode_def)
  let ?n = "length (os_buffer s)"
  have "bits_of (take ?n (os_buffer s')) = take (8 * ?n) (bits_of (os_buffer s'))" by (simp add: take_bits_of)
  also have "\<dots> = bits_of (os_buffer s)" using rs(1) length_bits_of [of "os_buffer s"] by (simp add: b)
  finally have "take ?n (os_buffer s') = os_buffer s" by (simp add: bits_of_inject)
  then have p: "os_buffer s' = os_buffer s @ drop ?n (os_buffer s')" by (metis append_take_drop_id)
  have "8 * length (drop ?n (os_buffer s')) = length (seq_bits c rs)"
    using arg_cong [OF rs(1), of length] length_bits_of [of "os_buffer s"] length_bits_of [of "os_buffer s'"] by (simp add: b)
  moreover have "length (seq_bits c rs) \<le> 32 * header_bytes fs" by (rule seq_bits_size [OF rs(2)])
  moreover have "seq_bits c rs \<noteq> []"
  proof -
    obtain x xs where "rs = x # xs" using rs(2) assms(5) by (cases rs; cases fs) auto
    then show ?thesis by (cases x) simp_all
  qed
  ultimately have l: "drop ?n (os_buffer s') \<noteq> []" "length (drop ?n (os_buffer s')) < 2 ^ 29"
    using assms(4) by auto
  show ?thesis
    using r p l unfolding understood_def
    by (intro exI [of _ s'] exI [of _ e'] exI [of _ "drop ?n (os_buffer s')"]) (auto split: option.splits prod.splits bool.splits)
qed

lemma encodeRequest_block:
  assumes "ready s e" "synced (enc_table e) (dec_table d)" "encodable (compressStrings e) h" "valid_request h"
  shows "\<exists>s' e' b. encodeRequest h s e = Some (True, s', e') \<and> os_buffer s' = os_buffer s @ b \<and> b \<noteq> [] \<and> length b < 2 ^ 29
    \<and> (\<exists>is' d'. decodeHeaderFields (BitIStream b) d = Some (True, is', d')
        \<and> dec_header d' = pseudo_first is_request_pseudo_header h \<and> synced (enc_table e') (dec_table d'))"
proof -
  let ?p = "pseudo_first is_request_pseudo_header h"
  have ce: "coding.can_encode (compressStrings e) s e" using assms(1) by (simp add: ready_can_encode)
  have "header_bytes ?p < 2 ^ 27" using assms(3) by (simp add: encodable_def header_bytes_pseudo_first)
  moreover have "?p \<noteq> []" using assms(4) by (cases h) (auto simp: valid_request_def pseudo_first_def)
  ultimately show ?thesis
    using encoded_block [OF coding.encodeRequest_accepts [OF ce encodable_fields [OF assms(3)] assms(4)] ce assms(2)] by blast
qed

definition may_send_headers :: "h2_stream \<Rightarrow> bool" where
  "may_send_headers s \<longleftrightarrow> m_state s = Idle"

definition request_flags :: "bool \<Rightarrow> frame_flags" where
  "request_flags fin = (if fin then (PRIORITY_FLAG OR END_HEADERS) OR END_STREAM else PRIORITY_FLAG OR END_HEADERS)"

lemma BitOStream_ready: "tbl_inv (enc_table e) \<Longrightarrow> useIndex (enc_table e) \<Longrightarrow> ready (BitOStream b) e"
  by (simp add: ready_def) (simp add: BitOStream_def)

lemma no_size_updates: "pendingTableSizeUpdates c = (None, None) \<Longrightarrow> pending_size_updates s c = (s, c)"
  by (simp add: pending_size_updates_def)

lemma sendHEADERS_request:
  assumes s: "getStream i c = Some s" "m_state s = Idle" and c: "m_connectionType c = Client" "pendingTableSizeUpdates c = (None, None)"
    "dev_results (c_socket c) = []" "0 < c_maxFrameSize c" and i: "i < 2 ^ 31"
    and h: "valid_request h" "encodable (compressStrings (c_encoder c)) h" "header_size h = Some hs" "hs \<le> m_maxHeaderListSize c"
    and e: "synced (enc_table (c_encoder c)) (dec_table d)"
  shows "\<exists>c' fs b. sendHEADERS i h fin prio c = Some (True, c')
    \<and> c_socket c' = (c_socket c)\<lparr>dev_out := dev_out (c_socket c) @ concat (map fr_buffer fs)\<rparr>
    \<and> header_frames HEADERS (request_flags fin) i (min (c_maxFrameSize c) maxPayloadSize) fs
    \<and> concat (map fr_payload fs) = be32 0 @ [prio] @ b \<and> b \<noteq> []
    \<and> (\<exists>is' d'. decodeHeaderFields (BitIStream b) d = Some (True, is', d')
        \<and> dec_header d' = pseudo_first is_request_pseudo_header h \<and> synced (enc_table (c_encoder c')) (dec_table d'))
    \<and> (\<exists>t. getStream i c' = Some t \<and> m_state t = (if fin then HalfClosedLocal else Open))"
proof -
  define w1 where "w1 = (if fin then addFlag END_STREAM (fw_start HEADERS (PRIORITY_FLAG OR END_HEADERS) i) else fw_start HEADERS (PRIORITY_FLAG OR END_HEADERS) i)"
  define w where "w = fw_append8 prio (fw_append32 0 w1)"
  note st = start_fields(2-4) [of HEADERS "PRIORITY_FLAG OR END_HEADERS" i] start_fields(5) [OF i, of HEADERS "PRIORITY_FLAG OR END_HEADERS"]
    start_fields(6) [of HEADERS "PRIORITY_FLAG OR END_HEADERS" i]
  have "9 \<le> length (fr_buffer (fw_start HEADERS (PRIORITY_FLAG OR END_HEADERS) i))" using st(5) by simp
  note sf = setFlags_fields [OF this, folded addFlag_def]
  have w1: "length (fr_buffer w1) = 9" "fr_type w1 = HEADERS" "fr_flags w1 = request_flags fin" "fr_streamID w1 = i" "fr_payload w1 = []"
    using st sf by (simp_all add: w1_def request_flags_def addFlag_def)
  have wa: "w = fw_append (be32 0 @ [prio]) w1" using w1(1) by (simp add: w_def fw_append8_def fw_append32_def fw_append_append)
  have nine: "9 \<le> length (fr_buffer w1)" "length (fr_buffer w1) + length (be32 0 @ [prio]) \<le> 9 + maxPayloadSize" using w1(1) by simp_all
  note ap = append_fields [OF nine, folded wa]
  have w: "framed w" "fr_type w = HEADERS" "fr_flags w = request_flags fin" "fr_streamID w = i" "fr_payload w = be32 0 @ [prio]"
    using ap w1 by simp_all
  have lw: "length (fr_buffer w) = 14" using framedD(2,4) [OF w(1)] w(5) by simp
  have r: "ready (BitOStream (fr_buffer w)) (c_encoder c)" using e by (intro BitOStream_ready) (simp_all add: synced_def)
  have ob: "os_buffer (BitOStream (fr_buffer w)) = fr_buffer w" by (simp add: BitOStream_def)
  from encodeRequest_block [OF r e h(2,1)] obtain s' e' b is' d' where
    enc: "encodeRequest h (BitOStream (fr_buffer w)) (c_encoder c) = Some (True, s', e')" "os_buffer s' = fr_buffer w @ b" "b \<noteq> []" "length b < 2 ^ 29"
    and dec: "decodeHeaderFields (BitIStream b) d = Some (True, is', d')" "dec_header d' = pseudo_first is_request_pseudo_header h"
      "synced (enc_table e') (dec_table d')" unfolding ob by blast
  define f where "f = \<lparr>fr_buffer = fr_buffer w @ b\<rparr>"
  have nw: "9 \<le> length (fr_buffer w)" using lw by simp
  obtain a0 a1 a2 ty fl i0 i1 i2 i3 rest where hs: "fr_buffer w = a0 # a1 # a2 # ty # fl # i0 # i1 # i2 # i3 # rest"
    using header_split [OF nw] .
  have f: "fr_type f = HEADERS" "fr_flags f = request_flags fin" "fr_streamID f = i" "fr_payload f = be32 0 @ [prio] @ b"
    using w(2-5) by (simp_all add: f_def fr_type_def fr_flags_def fr_streamID_def fr_payload_def frameHeaderSize_def hs)
  have lf: "9 \<le> length (fr_buffer f)" "length (fr_buffer f) < 2 ^ 32" using lw enc(4) by (simp_all add: f_def)
  obtain c1 where c1: "transitionState i TOpen c = Some c1" "getStream i c1 = Some (s\<lparr>m_state := Open\<rparr>)" "c_socket c1 = c_socket c"
    "m_connectionType c1 = m_connectionType c" "pendingTableSizeUpdates c1 = pendingTableSizeUpdates c" "c_encoder c1 = c_encoder c" "c_maxFrameSize c1 = c_maxFrameSize c"
    using s by (simp add: transitionState_def setState_def Let_def) (simp add: emit_def with_stream_def)
  define c2 where "c2 = c1\<lparr>c_encoder := e', frameWriter := f\<rparr>"
  have dr: "dev_results (c_socket c2) = []" using c(3) c1 by (simp add: c2_def)
  from writeHEADERS_frames [OF dr c(4) lf] obtain fs f' where
    wr: "writeHEADERS (c_maxFrameSize c) f (c_socket c2) = Some (True, f', (c_socket c2)\<lparr>dev_out := dev_out (c_socket c2) @ concat (map fr_buffer fs)\<rparr>)"
    and fr: "header_frames HEADERS (request_flags fin) i (min (c_maxFrameSize c) maxPayloadSize) fs" "concat (map fr_payload fs) = be32 0 @ [prio] @ b"
    using f by auto
  define c3 where "c3 = c2\<lparr>frameWriter := f', c_socket := (c_socket c2)\<lparr>dev_out := dev_out (c_socket c2) @ concat (map fr_buffer fs)\<rparr>\<rparr>"
  have g3: "getStream i c3 = Some (s\<lparr>m_state := Open\<rparr>)" using c1(2) by (simp add: c3_def c2_def getStream_def)
  have c3: "c_socket c3 = (c_socket c)\<lparr>dev_out := dev_out (c_socket c) @ concat (map fr_buffer fs)\<rparr>" "c_encoder c3 = e'"
    using c1(3) by (simp_all add: c3_def c2_def)
  obtain c4 where c4: "(if fin then transitionState i CloseLocal c3 else Some c3) = Some c4" "getStream i c4 = Some (s\<lparr>m_state := if fin then HalfClosedLocal else Open\<rparr>)"
    "c_socket c4 = c_socket c3" "c_encoder c4 = c_encoder c3"
    using g3 by (cases fin) (simp_all add: transitionState_def setState_def Let_def, simp add: emit_def with_stream_def)
  have "sendHEADERS i h fin prio c = Some (True, c4)"
    using h(3,4) c(1,2) c1 enc(1,2) wr c4(1) unfolding c3_def c2_def
    by (simp add: sendHEADERS_def w1_def [symmetric] w_def [symmetric] no_size_updates f_def [symmetric] cong: if_cong)
  then show ?thesis using fr enc(3) dec c3 c4 by (intro exI [of _ c4] exI [of _ fs] exI [of _ b]) auto
qed


subsection \<open>Receiving a header block\<close>

text \<open>The connection when a frame has been taken off the socket, \<open>rest\<close> being what is left.\<close>

definition took :: "h2_frame \<Rightarrow> bytes \<Rightarrow> 'url h2_conn \<Rightarrow> 'url h2_conn" where
  "took f rest p = p\<lparr>c_socket := (c_socket p)\<lparr>dev_in := rest\<rparr>, frameReader := \<lparr>rd_offset = 0, rd_frame = \<lparr>fr_buffer = []\<rparr>\<rparr>, inboundFrame := f\<rparr>"

definition good_frame :: "h2_frame \<Rightarrow> bool" where
  "good_frame f \<longleftrightarrow> framed f \<and> validateHeader f = goodFrame \<and> validatePayload f = goodFrame"

lemma read_loop_frame:
  assumes "\<not> m_connectionAborted p" "rd_offset (frameReader p) = 0" "dev_in (c_socket p) = fr_buffer f @ rest" "good_frame f"
    and "continuationExpected p \<Longrightarrow> fr_type f = CONTINUATION"
  shows "read_loop e p = Option.bind (handle_frame e (took f rest p)) (read_loop e)"
proof -
  have rf: "read_frame (frameReader p) (c_socket p) = (goodFrame, \<lparr>rd_offset = 0, rd_frame = f\<rparr>, (c_socket p)\<lparr>dev_in := rest\<rparr>)"
    using read_frame_written [OF _ _ assms(2,3)] assms(4) by (simp add: good_frame_def)
  have t: "p\<lparr>frameReader := \<lparr>rd_offset = 0, rd_frame = f\<rparr>, c_socket := (c_socket p)\<lparr>dev_in := rest\<rparr>\<rparr>\<lparr>inboundFrame := f, frameReader := \<lparr>rd_offset = 0, rd_frame = \<lparr>fr_buffer = []\<rparr>\<rparr>\<rparr> = took f rest p"
    by (simp add: took_def)
  have c: "\<not> (continuationExpected (took f rest p) \<and> fr_type (inboundFrame (took f rest p)) \<noteq> CONTINUATION)"
    using assms(5) by (auto simp: took_def)
  have rr: "read_round e p = map_option (Pair True) (handle_frame e (took f rest p))"
    unfolding read_round_def rf Let_def prod.case frame_status.case h2_frame.simps frame_reader.simps t if_not_P [OF c] ..
  show ?thesis using assms(1) by (subst read_loop.simps) (simp add: rr; cases "handle_frame e (took f rest p)"; simp)
qed

lemma read_loop_done:
  assumes "rd_offset (frameReader p) = 0" "dev_in (c_socket p) = []"
  shows "\<exists>r. read_loop e p = Some (p\<lparr>frameReader := r\<rparr>) \<and> rd_offset r = 0"
proof (cases "m_connectionAborted p")
  case True
  then show ?thesis using assms by (subst read_loop.simps) (auto intro!: exI [of _ "frameReader p"])
next
  case False
  obtain r where "read_frame (frameReader p) (c_socket p) = (incompleteFrame, r, c_socket p)" "rd_offset r = 0"
    using assms by (simp add: read_frame_def readHeader_def dev_read_def Let_def frameHeaderSize_def)
  then show ?thesis using False by (subst read_loop.simps) (auto simp: read_round_def)
qed

definition block_state :: "h2_frame list \<Rightarrow> 'url h2_conn \<Rightarrow> 'url h2_conn" where
  "block_state fs p = p\<lparr>c_socket := (c_socket p)\<lparr>dev_in := []\<rparr>, frameReader := \<lparr>rd_offset = 0, rd_frame = \<lparr>fr_buffer = []\<rparr>\<rparr>,
     inboundFrame := \<lparr>fr_buffer = []\<rparr>, continuedFrames := fs, continuationExpected := False\<rparr>"

lemma CONTINUATION_good: "framed f \<Longrightarrow> fr_type f = CONTINUATION \<Longrightarrow> good_frame f"
  using framedD(3) by (fastforce simp: good_frame_def validateHeader_def validatePayload_def framed_def Let_def)

lemma read_continuations:
  assumes "header_frames CONTINUATION EMPTY i limit fs" "continuedFrames p = g # gs" "fr_streamID g = i" "continuationExpected p"
    and "\<not> m_connectionAborted p" "rd_offset (frameReader p) = 0" "dev_in (c_socket p) = concat (map fr_buffer fs)"
  shows "read_loop e p = Option.bind (handleContinuedHEADERS e (block_state (continuedFrames p @ fs) p)) (read_loop e)"
  using assms
proof (induction fs arbitrary: p gs)
  case (Cons f fs)
  have f: "framed f" "fr_type f = CONTINUATION" "fr_streamID f = i" "testFlag (fr_flags f) END_HEADERS \<longleftrightarrow> fs = []" using Cons.prems(1) by simp_all
  let ?p = "took f (concat (map fr_buffer fs)) p"
  have l: "read_loop e p = Option.bind (handle_frame e ?p) (read_loop e)"
    using Cons.prems f by (intro read_loop_frame CONTINUATION_good) simp_all
  show ?case
  proof (cases "fs = []")
    case True
    have k: "(keep_frame ?p)\<lparr>continuationExpected := False\<rparr> = block_state (continuedFrames p @ [f]) p"
      using True by (simp add: keep_frame_def took_def block_state_def)
    have "handle_frame e ?p = handleContinuedHEADERS e (block_state (continuedFrames p @ [f]) p)"
      unfolding k [symmetric] using Cons.prems(2-4) f True
      by (simp add: handle_frame_def handleCONTINUATION_def Let_def took_def)
    then show ?thesis using l True by simp
  next
    case False
    have h: "handle_frame e ?p = Some (keep_frame ?p)"
      using Cons.prems(2-4) f False by (simp add: handle_frame_def took_def handleCONTINUATION_def Let_def keep_frame_def)
    have "read_loop e (keep_frame ?p) = Option.bind (handleContinuedHEADERS e (block_state (continuedFrames (keep_frame ?p) @ fs) (keep_frame ?p))) (read_loop e)"
      using Cons.prems False by (intro Cons.IH [of _ "gs @ [f]"]) (simp_all add: keep_frame_def took_def)
    moreover have "block_state (continuedFrames (keep_frame ?p) @ fs) (keep_frame ?p) = block_state (continuedFrames p @ f # fs) p"
      by (simp add: block_state_def keep_frame_def took_def)
    ultimately show ?thesis using l h by simp
  qed
qed simp


lemma same_flag:
  assumes "but_END_HEADERS fl = but_END_HEADERS gl" "X AND NOT END_HEADERS = X" "X \<noteq> 0"
  shows "testFlag fl X = testFlag gl X"
proof -
  have "fl AND X = but_END_HEADERS fl AND X" "gl AND X = but_END_HEADERS gl AND X"
    unfolding but_END_HEADERS_def using assms(2) by (metis and.assoc and.commute)+
  then show ?thesis using assms(1,3) by (simp add: testFlag_def)
qed

lemma flags_but_END_HEADERS:
  assumes "but_END_HEADERS fl = but_END_HEADERS gl"
  shows "testFlag fl END_STREAM = testFlag gl END_STREAM" "testFlag fl PADDED = testFlag gl PADDED"
    "testFlag fl PRIORITY_FLAG = testFlag gl PRIORITY_FLAG"
  using same_flag [OF assms, of END_STREAM] same_flag [OF assms, of PADDED] same_flag [OF assms, of PRIORITY_FLAG]
  by (simp_all add: END_STREAM_def PADDED_def PRIORITY_FLAG_def END_HEADERS_def)

lemma request_flags_tests:
  "testFlag (request_flags fin) END_STREAM = fin" "\<not> testFlag (request_flags fin) PADDED" "testFlag (request_flags fin) PRIORITY_FLAG"
  by (cases fin; simp add: request_flags_def testFlag_def END_STREAM_def PADDED_def PRIORITY_FLAG_def END_HEADERS_def)+

lemma hpack_chunk_layout:
  assumes "framed f" "\<not> testFlag (fr_flags f) PADDED" "fr_type f = HEADERS \<or> fr_type f = CONTINUATION" "overhead f \<le> payloadSize f"
  shows "hpack_chunk f = Some (drop (overhead f) (fr_payload f))"
proof -
  have p: "padding f = 0" using assms(2,3) by (auto simp: padding_def)
  have o: "pad_ok f" using assms by (simp add: pad_ok_def p)
  have "hpack_block_of f = Some (take (payloadSize f - overhead f) (drop (overhead f) (fr_payload f)))"
    using hpack_block_of_layout [OF assms(1) o] assms(3) by (auto simp: p)
  then have "hpack_block_of f = Some (drop (overhead f) (fr_payload f))"
    using framedD(4) [OF assms(1)] by simp
  then show ?thesis
    by (cases "hpackBlockBegin f") (auto simp: hpack_chunk_def hpack_block_of_def read_bytes_def split: if_splits)
qed

lemma assemble_continuations:
  assumes "header_frames CONTINUATION EMPTY i limit fs"
  shows "assemble_hpack_block fs = Some (concat (map fr_payload fs))"
  using assms
proof (induction fs)
  case (Cons f fs)
  have "\<not> testFlag (fr_flags f) PADDED" using Cons.prems flags_but_END_HEADERS(2) [of "fr_flags f" EMPTY] by (simp add: testFlag_def EMPTY_def PADDED_def)
  moreover have "overhead f = 0" using calculation Cons.prems by (simp add: overhead_def fr_priority_def)
  ultimately have "hpack_chunk f = Some (fr_payload f)" using hpack_chunk_layout [of f] Cons.prems by simp
  moreover have "assemble_hpack_block fs = Some (concat (map fr_payload fs))" using Cons by (cases fs) auto
  ultimately show ?case by simp
qed simp

text \<open>The first frame of a request, its priority fields and the block behind them.\<close>

lemma request_frames:
  assumes "header_frames HEADERS (request_flags fin) i limit (f # fs)" "5 \<le> limit" "concat (map fr_payload (f # fs)) = be32 0 @ [prio] @ b"
  shows "good_frame f" "testFlag (fr_flags f) END_STREAM = fin" "testFlag (fr_flags f) PRIORITY_FLAG" "priority_fields f = Some (Some (0, unat prio))"
    "assemble_hpack_block (f # fs) = Some b"
proof -
  have f: "framed f" "fr_type f = HEADERS" "but_END_HEADERS (fr_flags f) = but_END_HEADERS (request_flags fin)" using assms(1) by simp_all
  note fl = flags_but_END_HEADERS [OF f(3)] request_flags_tests [of fin]
  show "testFlag (fr_flags f) END_STREAM = fin" "testFlag (fr_flags f) PRIORITY_FLAG" using fl by simp_all
  have c: "fr_payload f @ concat (map fr_payload fs) = be32 0 @ [prio] @ b" using assms(3) by simp
  have "5 \<le> payloadSize f"
  proof (cases "fs = []")
    case True
    then have "length (fr_payload f) = 5 + length b" using c by simp
    then show ?thesis using framedD(4) [OF f(1)] by simp
  qed (use assms(1,2) in simp)
  then have p: "5 \<le> length (fr_payload f)" "length (fr_buffer f) = 9 + payloadSize f" "5 \<le> payloadSize f"
    using framedD(2,4) [OF f(1)] by simp_all
  have t: "take 5 (fr_payload f) = be32 0 @ [prio]"
  proof -
    have "take 5 (fr_payload f) = take 5 (fr_payload f @ concat (map fr_payload fs))" using p(1) by simp
    also have "\<dots> = be32 0 @ [prio]" by (simp only: c) simp
    finally show ?thesis .
  qed
  show "good_frame f" using f p(3) fl framedD(3) [OF f(1)]
    by (simp add: good_frame_def validateHeader_def validatePayload_def Let_def)
  have o: "fr_priority f" "overhead f = 5" using f(2) fl p(2,3) by (simp_all add: fr_priority_def overhead_def frameHeaderSize_def)
  obtain x where x: "fr_payload f = be32 0 @ [prio] @ x" using t by (metis append_assoc append_take_drop_id)
  have bf: "fr_buffer f = take 9 (fr_buffer f) @ be32 0 @ [prio] @ x" "length (take 9 (fr_buffer f)) = 9"
    using x p(2) append_take_drop_id [of 9 "fr_buffer f"] by (simp_all add: fr_payload_def frameHeaderSize_def)
  have "read_bytes f 9 4 = Some (be32 0)" "read_bytes f 13 1 = Some [prio]"
    using read_bytes_at [of f "take 9 (fr_buffer f)" "be32 0" "[prio] @ x"] read_bytes_at [of f "take 9 (fr_buffer f) @ be32 0" "[prio]" x] bf
    by simp_all
  then show "priority_fields f = Some (Some (0, unat prio))" using o(1) f(2) fl from_be_be32 [of 0]
    by (simp add: priority_fields_def frameHeaderSize_def)
  have h: "hpack_chunk f = Some (drop 5 (fr_payload f))" using hpack_chunk_layout [OF f(1)] f(2) fl o(2) p(3) by simp
  have "assemble_hpack_block fs = Some (concat (map fr_payload fs))"
    using assemble_continuations [of i limit fs] assms(1) by (cases fs) auto
  moreover have "drop 5 (fr_payload f) @ concat (map fr_payload fs) = b"
    using arg_cong [OF c, of "drop 5"] p(1) by simp
  ultimately show "assemble_hpack_block (f # fs) = Some b" using h by auto
qed

subsection \<open>The peer\<close>

text \<open>A server that is ready for a new request on stream \<open>i\<close>.\<close>

definition expects :: "nat \<Rightarrow> 'url h2_conn \<Rightarrow> bool" where
  "expects i p \<longleftrightarrow> m_connectionType p = Server \<and> \<not> m_connectionAborted p \<and> m_prefaceSent p \<and> \<not> m_waitingForClientPreface p
     \<and> rd_offset (frameReader p) = 0 \<and> \<not> continuationExpected p \<and> odd i \<and> m_lastIncomingStreamID p < i \<and> \<not> has_entry i p
     \<and> \<not> streamWasResetLocally i p \<and> numActiveRemoteStreams p < m_maxConcurrentStreams p \<and> i \<le> m_lastStreamToProcess p"

definition opened :: "nat \<Rightarrow> 'url h2_conn \<Rightarrow> 'url h2_conn" where
  "opened i p = emit (newIncomingStream i) (p\<lparr>m_streams := m_streams p @ [(i, Some (fresh_stream i True p))], m_lastIncomingStreamID := i\<rparr>)"

lemma handleHEADERS_new:
  assumes "expects i p" "fr_streamID f = i" "inboundFrame p = f" "testFlag (fr_flags f) PRIORITY_FLAG" "priority_fields f = Some x"
  shows "handleHEADERS e p = start_block e (opened i p)"
proof -
  have i: "i \<noteq> 0" "i mod 2 = 1" using assms(1) by (auto simp: expects_def odd_iff_mod_2_eq_one)
  let ?o = "opened i p"
  have o: "inboundFrame ?o = f" "getStream i ?o = Some (fresh_stream i True p)" "streamIsIgnored i ?o = streamIsIgnored i p" "\<not> streamIsIgnored i p"
    using assms(1,3) getStream_append [of i p "p\<lparr>m_streams := m_streams p @ [(i, Some (fresh_stream i True p))], m_lastIncomingStreamID := i\<rparr>"]
    by (simp_all add: opened_def emit_def streamIsIgnored_def expects_def getStream_def)
  have pr: "handlePRIORITY ?o = Some ?o"
    using i o assms(2,5) by (simp add: handlePRIORITY_def Let_def isInvalidStream_def wasResetbyPeer_def connectionStreamID_def)
  have cr: "createStreamInternal_impl i True p = (True, p\<lparr>m_streams := m_streams p @ [(i, Some (fresh_stream i True p))]\<rparr>)"
    using assms(1) by (simp add: createStreamInternal_impl_def expects_def fresh_stream_def)
  have ig: "\<not> streamIsIgnored i (p\<lparr>m_streams := m_streams p @ [(i, Some (fresh_stream i True p))], m_lastIncomingStreamID := i\<rparr>)"
    using o(4) by (simp add: streamIsIgnored_def)
  show ?thesis
    using assms(1,2,3,4) i cr ig pr unfolding handleHEADERS_def Let_def expects_def opened_def
    by (simp add: connectionStreamID_def)
qed


lemma active_took: "numActiveRemoteStreams (took f rest p) = numActiveRemoteStreams p"
  by (simp add: numActiveRemoteStreams_def numActiveStreamsImpl_def took_def)

lemma expects_took: "expects i p \<Longrightarrow> expects i (took f rest p)"
  by (simp add: expects_def active_took) (simp add: took_def has_entry_def streamWasResetLocally_def)

lemma fresh_stream_took: "fresh_stream i b (took f rest p) = fresh_stream i b p"
  by (simp add: fresh_stream_def took_def)

lemma request_block_read:
  assumes p: "expects i p" and fr: "header_frames HEADERS (request_flags fin) i limit (f # fs)" "5 \<le> limit"
    "concat (map fr_payload (f # fs)) = be32 0 @ [prio] @ b"
    and inp: "dev_in (c_socket p) = concat (map fr_buffer (f # fs))"
  shows "read_loop e p = Option.bind (handleContinuedHEADERS e (block_state (f # fs) (opened i p))) (read_loop e)"
proof -
  note rf = request_frames [OF fr]
  have f: "fr_type f = HEADERS" "fr_streamID f = i" "testFlag (fr_flags f) END_HEADERS \<longleftrightarrow> fs = []" using fr(1) by simp_all
  let ?rest = "concat (map fr_buffer fs)"
  let ?p = "took f ?rest p"
  have l: "read_loop e p = Option.bind (handle_frame e ?p) (read_loop e)"
    using p inp rf(1) by (intro read_loop_frame) (simp_all add: expects_def)
  have "handle_frame e ?p = handleHEADERS e ?p" using f(1) by (simp add: handle_frame_def took_def)
  moreover have "handleHEADERS e ?p = start_block e (opened i ?p)"
    using p f(2) rf(3,4) by (intro handleHEADERS_new [of i _ f]) (simp_all add: expects_took, simp_all add: took_def)
  ultimately have h: "handle_frame e ?p = start_block e (opened i ?p)" by simp
  define X where "X = keep_frame ((opened i ?p)\<lparr>continuedFrames := []\<rparr>)"
  have X: "continuedFrames X = [f]" "m_connectionAborted X = False" "rd_offset (frameReader X) = 0" "dev_in (c_socket X) = ?rest"
    "block_state fs' (X\<lparr>continuationExpected := u\<rparr>) = block_state fs' (opened i p)" for fs' u
    using p by (simp_all add: X_def keep_frame_def opened_def took_def emit_def block_state_def expects_def fresh_stream_def)
  have io: "inboundFrame (opened i ?p) = f" by (simp add: opened_def took_def emit_def)
  show ?thesis
  proof (cases "fs = []")
    case True
    have XB: "X = block_state [f] (opened i p)"
      using p True by (simp add: X_def keep_frame_def opened_def took_def emit_def block_state_def expects_def fresh_stream_def)
    have "start_block e (opened i ?p) = handleContinuedHEADERS e X"
      using True f(3) io by (simp add: start_block_def Let_def X_def)
    then show ?thesis using l h True XB by simp
  next
    case False
    have sb: "start_block e (opened i ?p) = Some (X\<lparr>continuationExpected := True\<rparr>)"
      using False f(3) io by (simp add: start_block_def Let_def X_def)
    have "read_loop e (X\<lparr>continuationExpected := True\<rparr>)
      = Option.bind (handleContinuedHEADERS e (block_state (continuedFrames (X\<lparr>continuationExpected := True\<rparr>) @ fs) (X\<lparr>continuationExpected := True\<rparr>))) (read_loop e)"
      using fr(1) False f(2) X by (intro read_continuations [where i = i and limit = limit and g = f and gs = "[]"]) simp_all
    then show ?thesis using l h sb X(1,5) by simp
  qed
qed

lemma request_delivered:
  assumes p: "expects i p" and f: "fr_type f = HEADERS" "fr_streamID f = i" "testFlag (fr_flags f) END_STREAM = fin"
    and b: "assemble_hpack_block (f # fs) = Some b" "b \<noteq> []"
    and d: "decodeHeaderFields (BitIStream b) (c_decoder p) = Some (True, is', d')" "dec_header d' \<noteq> []"
  shows "\<exists>R t. handleContinuedHEADERS e (block_state (f # fs) (opened i p)) = Some R
    \<and> c_events R = c_events p @ [newIncomingStream i, stateChanged i Open] @ (if fin then [stateChanged i HalfClosedRemote] else [])
        @ [headersUpdated i, headersReceived i (dec_header d') fin]
    \<and> c_decoder R = d' \<and> getStream i R = Some t \<and> m_state t = (if fin then HalfClosedRemote else Open) \<and> m_headers t = dec_header d'
    \<and> rd_offset (frameReader R) = 0 \<and> dev_in (c_socket R) = []"
proof -
  define Q where "Q = block_state (f # fs) (opened i p)"
  have g0: "getStream i (opened i p) = Some (fresh_stream i True p)"
    using p getStream_append [of i p "p\<lparr>m_streams := m_streams p @ [(i, Some (fresh_stream i True p))], m_lastIncomingStreamID := i\<rparr>"]
    by (simp add: opened_def emit_def expects_def getStream_def)
  have Q: "continuedFrames Q = f # fs" "getStream i Q = Some (fresh_stream i True p)" "c_decoder Q = c_decoder p"
    "m_resetStreamIDs Q = m_resetStreamIDs p" "m_connectionType Q = m_connectionType p" "m_lastStreamToProcess Q = m_lastStreamToProcess p"
    "c_events Q = c_events p @ [newIncomingStream i]" "rd_offset (frameReader Q) = 0" "dev_in (c_socket Q) = []"
    using g0 by (simp_all add: Q_def block_state_def getStream_def) (simp_all add: opened_def emit_def)
  have he: "has_entry i Q" using Q(2) by (cases "map_of (m_streams Q) i") (simp_all add: has_entry_def getStream_def)
  have nr: "\<not> streamWasResetLocally i Q" using p Q(4) by (simp add: streamWasResetLocally_def expects_def)
  define Q1 where "Q1 = Q\<lparr>c_decoder := d'\<rparr>"
  have Q1: "getStream i Q1 = Some (fresh_stream i True p)" "has_entry i Q1" "\<not> streamWasResetLocally i Q1" "\<not> streamIsIgnored i Q1"
    "c_events Q1 = c_events Q" "c_decoder Q1 = d'" "rd_offset (frameReader Q1) = 0" "dev_in (c_socket Q1) = []"
    using Q he nr p by (simp_all add: Q1_def getStream_def has_entry_def streamWasResetLocally_def streamIsIgnored_def expects_def)
  have h: "handleContinuedHEADERS e Q = decode_header_block e f Q"
    using Q f nr he by (simp add: handleContinuedHEADERS_def)
  have "decode_header_block e f Q = handle_header_list e f Q1"
    using b d(1) Q(1,3) by (simp add: decode_header_block_def Q1_def)
  also have "\<dots> = stream_handleHEADERS i (fr_flags f) (dec_header d') Q1"
    using Q1 f by (simp add: handle_header_list_def Let_def)
  finally have s: "handleContinuedHEADERS e Q = stream_handleHEADERS i (fr_flags f) (dec_header d') Q1" using h by simp
  define Q2 where "Q2 = emit (stateChanged i Open) (with_stream i (m_state_update (\<lambda>_. Open)) Q1)"
  have t1: "transitionState i TOpen Q1 = Some Q2" using Q1(1) by (simp add: transitionState_def setState_def Q2_def)
  define Q3 where "Q3 = (if fin then emit (stateChanged i HalfClosedRemote) (with_stream i (m_state_update (\<lambda>_. HalfClosedRemote)) Q2) else Q2)"
  have g2: "getStream i Q2 = Some ((fresh_stream i True p)\<lparr>m_state := Open\<rparr>)" using Q1(1) by (simp add: Q2_def)
  have t2: "(if fin then transitionState i CloseRemote Q2 else Some Q2) = Some Q3"
    using g2 by (simp add: transitionState_def setState_def Q3_def)
  define R where "R = emit (headersReceived i (dec_header d') fin) (emit (headersUpdated i) (with_stream i (m_headers_update (\<lambda>h. h @ dec_header d')) Q3))"
  have "stream_handleHEADERS i (fr_flags f) (dec_header d') Q1 = Some R"
    using Q1(1) t1 t2 d(2) f(3) by (simp add: stream_handleHEADERS_def R_def)
  moreover have "getStream i R = Some ((fresh_stream i True p)\<lparr>m_state := if fin then HalfClosedRemote else Open, m_headers := dec_header d'\<rparr>)"
    using g2 by (simp add: R_def Q3_def fresh_stream_def QHttp2Stream_def)
  moreover have "c_events R = c_events Q1 @ [stateChanged i Open] @ (if fin then [stateChanged i HalfClosedRemote] else []) @ [headersUpdated i, headersReceived i (dec_header d') fin]"
    by (simp add: R_def Q3_def Q2_def)
  moreover have "c_decoder R = c_decoder Q1" "frameReader R = frameReader Q1" "c_socket R = c_socket Q1"
    by (simp_all add: R_def Q3_def Q2_def emit_def with_stream_def)
  ultimately show ?thesis using s Q1 Q(7) unfolding Q_def [symmetric] by auto
qed

text \<open>C4. A request gets across. A client sends the headers of a valid request on a fresh stream; what that writes is all that a server,
  whose decoder is in step with the client's encoder, has to read, in however many frames it was cut.
  The server then opens the stream, and its application is handed exactly these headers, pseudo headers first, and the end of the
  stream if that was sent; the states on both sides fit together, and decoder and encoder are in step again.\<close>

theorem request_transport:
  assumes s: "getStream i c = Some s" "m_state s = Idle" and c: "m_connectionType c = Client" "pendingTableSizeUpdates c = (None, None)"
    "dev_results (c_socket c) = []" "5 \<le> c_maxFrameSize c" and i: "i < 2 ^ 31"
    and h: "valid_request h" "encodable (compressStrings (c_encoder c)) h" "header_size h = Some hs" "hs \<le> m_maxHeaderListSize c"
    and step: "synced (enc_table (c_encoder c)) (dec_table (c_decoder p))" and p: "expects i p"
    and wire: "\<And>c'. sendHEADERS i h fin prio c = Some (True, c') \<Longrightarrow> dev_out (c_socket c') = dev_out (c_socket c) @ dev_in (c_socket p)"
  shows "\<exists>c' p' t u. sendHEADERS i h fin prio c = Some (True, c') \<and> handleReadyRead e p = Some p'
    \<and> c_events p' = c_events p @ [newIncomingStream i, stateChanged i Open] @ (if fin then [stateChanged i HalfClosedRemote] else [])
        @ [headersUpdated i, headersReceived i (pseudo_first is_request_pseudo_header h) fin]
    \<and> synced (enc_table (c_encoder c')) (dec_table (c_decoder p'))
    \<and> getStream i c' = Some t \<and> m_state t = (if fin then HalfClosedLocal else Open)
    \<and> getStream i p' = Some u \<and> m_state u = (if fin then HalfClosedRemote else Open)
    \<and> m_headers u = pseudo_first is_request_pseudo_header h"
proof -
  have m: "0 < c_maxFrameSize c" using c(4) by simp
  obtain c' fs b is' d' t where c': "sendHEADERS i h fin prio c = Some (True, c')"
    "c_socket c' = (c_socket c)\<lparr>dev_out := dev_out (c_socket c) @ concat (map fr_buffer fs)\<rparr>"
    and fs: "header_frames HEADERS (request_flags fin) i (min (c_maxFrameSize c) maxPayloadSize) fs" "concat (map fr_payload fs) = be32 0 @ [prio] @ b" "b \<noteq> []"
    and d': "decodeHeaderFields (BitIStream b) (c_decoder p) = Some (True, is', d')" "dec_header d' = pseudo_first is_request_pseudo_header h"
      "synced (enc_table (c_encoder c')) (dec_table d')"
    and t: "getStream i c' = Some t" "m_state t = (if fin then HalfClosedLocal else Open)"
    using sendHEADERS_request [OF s c(1-3) m i h step] by blast
  obtain f gs where f: "fs = f # gs" using fs(1) by (cases fs) simp_all
  have inp: "dev_in (c_socket p) = concat (map fr_buffer (f # gs))" using wire [OF c'(1)] c'(2) f by simp
  have lim: "5 \<le> min (c_maxFrameSize c) maxPayloadSize" using c(4) by simp
  note rf = request_frames [OF fs(1) [unfolded f] lim fs(2) [unfolded f]]
  have ne: "dec_header d' \<noteq> []" using h(1) d'(2) by (cases h) (auto simp: valid_request_def pseudo_first_def)
  have ft: "fr_type f = HEADERS" "fr_streamID f = i" using fs(1) f by simp_all
  obtain R u where R: "handleContinuedHEADERS e (block_state (f # gs) (opened i p)) = Some R"
    "c_events R = c_events p @ [newIncomingStream i, stateChanged i Open] @ (if fin then [stateChanged i HalfClosedRemote] else [])
        @ [headersUpdated i, headersReceived i (dec_header d') fin]"
    "c_decoder R = d'" "getStream i R = Some u" "m_state u = (if fin then HalfClosedRemote else Open)" "m_headers u = dec_header d'"
    "rd_offset (frameReader R) = 0" "dev_in (c_socket R) = []"
    using request_delivered [OF p ft rf(2) rf(5) fs(3) d'(1) ne] by blast
  obtain r where r: "read_loop e R = Some (R\<lparr>frameReader := r\<rparr>)" using read_loop_done [OF R(7,8)] by blast
  have "read_loop e p = Some (R\<lparr>frameReader := r\<rparr>)"
    using request_block_read [OF p fs(1) [unfolded f] lim fs(2) [unfolded f] inp] R(1) r by simp
  then have hr: "handleReadyRead e p = Some (R\<lparr>frameReader := r\<rparr>)"
    using p by (simp add: handleReadyRead_def serverCheckClientPreface_def expects_def)
  show ?thesis
    by (rule exI [of _ c'], rule exI [of _ "R\<lparr>frameReader := r\<rparr>"], rule exI [of _ t], rule exI [of _ u])
      (use c'(1) hr R t d' in \<open>simp add: getStream_def\<close>)
qed

definition idle_client :: "nat h2_conn" where
  "idle_client = client0\<lparr>m_streams := [(1, Some (QHttp2Stream 1 True))], m_nextStreamID := 3, m_prefaceSent := True\<rparr>"

definition waiting_server :: "nat h2_conn" where
  "waiting_server = (createDirectServerConnection plain_socket 7 QHttp2Configuration)\<lparr>m_prefaceSent := True, m_waitingForClientPreface := False,
     c_socket := plain_socket\<lparr>dev_in := dev_out (c_socket (snd (the (sendHEADERS 1 sample_request True 0 idle_client))))\<rparr>\<rparr>"

theorem request_transport_witness:
  "\<exists>p'. handleReadyRead undefined waiting_server = Some p'
     \<and> headersReceived 1 (pseudo_first is_request_pseudo_header sample_request) True \<in> set (c_events p')"
proof -
  have c: "getStream 1 idle_client = Some (QHttp2Stream 1 True)" "m_connectionType idle_client = Client" "pendingTableSizeUpdates idle_client = (None, None)"
    "dev_results (c_socket idle_client) = []" "c_maxFrameSize idle_client = 16384" "m_maxHeaderListSize idle_client = 2 ^ 32 - 1"
    "c_encoder idle_client = setCompressStrings True (Encoder 4096 True)" "dev_out (c_socket idle_client) = []"
    by (simp_all add: idle_client_def createDirectConnection_def setH2Configuration_def QHttp2Connection_def getStream_def QHttp2Configuration_def DefaultSize_def)
  have p: "expects 1 waiting_server" "c_decoder waiting_server = Decoder 4096"
    by (simp_all add: waiting_server_def expects_def createDirectServerConnection_def setH2Configuration_def QHttp2Connection_def FrameReader_def
        connectionStreamID_def has_entry_def streamWasResetLocally_def numActiveRemoteStreams_def numActiveStreamsImpl_def
        QHttp2Configuration_def maxConcurrentStreams_def DefaultSize_def)
  have e: "synced (enc_table (c_encoder idle_client)) (dec_table (c_decoder waiting_server))" "compressStrings (c_encoder idle_client)"
    using fresh_ends(2) [of True] by (simp_all add: c(7) p(2) setCompressStrings_def Encoder_def)
  obtain hs where hs: "header_size sample_request = Some hs" "hs \<le> m_maxHeaderListSize idle_client"
    by (simp add: c(6) sample_request_def header_size_def entry_size_def chars_def)
  have w: "dev_out (c_socket c') = dev_out (c_socket idle_client) @ dev_in (c_socket waiting_server)"
    if "sendHEADERS 1 sample_request True 0 idle_client = Some (True, c')" for c'
    using that c(8) by (simp add: waiting_server_def)
  show ?thesis
    using request_transport [where fin = True and prio = 0 and e = undefined, OF c(1) _ c(2-4) _ _ sample_request(1) _ hs e(1) p(1) w] e(2) sample_request(2) c(5)
    by (auto simp: QHttp2Stream_def)
qed

end
