(* ===== verification/ByteArrays.thy ===== *)
theory ByteArrays
  imports Prelude
begin

text \<open>
  Byte arrays and the numbers in them, \<open>src/corelib/text/qbytearray.cpp\<close> with the parsing routines of
  \<open>qlocale.cpp\<close> and \<open>qlocale_tools.cpp\<close>: lower case, trimming, searching, comparison without case, and the
  conversions \<open>toInt\<close>, \<open>toLongLong\<close> and \<open>toULongLong\<close> with their range checks. An array is the list of its
  octets; the \<open>ok\<close> flag is an option. The lemmas read printed digits back and take lines apart.
\<close>

unbundle bit_operations_syntax

subsection \<open>Characters\<close>

text \<open>A plain \<open>char\<close> is signed; a comparison that a negative value decides is written out.\<close>

definition asciiLower :: "byte \<Rightarrow> byte" where
  "asciiLower c = (if 0x41 \<le> c \<and> c \<le> 0x5A then c OR 0x20 else c)"

definition toLower :: "bytes \<Rightarrow> bytes" where
  "toLower s = map asciiLower s"

definition ascii_isspace :: "byte \<Rightarrow> bool" where
  "ascii_isspace c \<longleftrightarrow> c \<in> {9, 10, 11, 12, 13, 32}"

text \<open>\<open>trimmed\<close> cuts at the end first, then at the start.\<close>

definition trimmed :: "bytes \<Rightarrow> bytes" where
  "trimmed s = dropWhile ascii_isspace (rev (dropWhile ascii_isspace (rev s)))"

text \<open>A property of bytes holds when it holds of the 256 of them.\<close>

lemma all_bytes: "list_all (\<lambda>n. P (word_of_nat n :: byte)) [0..<256] \<Longrightarrow> P c"
proof -
  assume "list_all (\<lambda>n. P (word_of_nat n :: byte)) [0..<256]"
  moreover have "unat c \<in> set [0..<256]" using unsigned_less [of c] by simp
  ultimately have "P (word_of_nat (unat c))" unfolding list_all_iff by blast
  then show "P c" by simp
qed

lemma asciiLower_idem [simp]: "asciiLower (asciiLower c) = asciiLower c"
  by (rule all_bytes [of "\<lambda>c. asciiLower (asciiLower c) = asciiLower c"]) code_simp

lemma toLower_idem [simp]: "toLower (toLower s) = toLower s"
  by (simp add: toLower_def)

subsection \<open>Searching\<close>

definition startsWith :: "bytes \<Rightarrow> bytes \<Rightarrow> bool" where
  "startsWith s bv \<longleftrightarrow> take (length bv) s = bv"

definition endsWith :: "bytes \<Rightarrow> bytes \<Rightarrow> bool" where
  "endsWith s bv \<longleftrightarrow> length bv \<le> length s \<and> drop (length s - length bv) s = bv"

text \<open>The position of the first \<open>c\<close>; \<open>None\<close> is the index -1.\<close>

fun indexOfChar :: "byte \<Rightarrow> bytes \<Rightarrow> nat option" where
  "indexOfChar c [] = None"
| "indexOfChar c (x # xs) = (if x = c then Some 0 else map_option Suc (indexOfChar c xs))"

fun contains_bytes :: "bytes \<Rightarrow> bytes \<Rightarrow> bool" where
  "contains_bytes needle [] \<longleftrightarrow> needle = []"
| "contains_bytes needle (x # xs) \<longleftrightarrow> startsWith (x # xs) needle \<or> contains_bytes needle xs"

definition equals_ignoring_case :: "bytes \<Rightarrow> bytes \<Rightarrow> bool" where
  "equals_ignoring_case s t \<longleftrightarrow> toLower s = toLower t"

text \<open>\<open>QByteArrayList::join\<close>.\<close>

fun join_bytes :: "bytes \<Rightarrow> bytes list \<Rightarrow> bytes" where
  "join_bytes sep [] = []"
| "join_bytes sep [x] = x"
| "join_bytes sep (x # y # ys) = x @ sep @ join_bytes sep (y # ys)"

subsection \<open>Integers from text\<close>

definition isAsciiDigit :: "byte \<Rightarrow> bool" where
  "isAsciiDigit c \<longleftrightarrow> 0x30 \<le> c \<and> c \<le> 0x39"

definition isDigitForBase :: "byte \<Rightarrow> nat \<Rightarrow> bool" where
  "isDigitForBase d base =
     (if d < 0x30 \<or> d \<ge> 0x80 then False
      else if unat d - 0x30 < min base 10 then True
      else if base > 10 then (let d = unat (d OR 0x20) in d \<ge> 0x61 \<and> d < 0x61 + base - 10)
      else False)"

definition digit_value :: "byte \<Rightarrow> nat" where
  "digit_value d = (if d \<le> 0x39 then unat d - 0x30 else unat (d OR 0x20) - 0x61 + 10)"

text \<open>\<open>std::from_chars\<close> reads the longest prefix of digits; no digit or a value above \<open>limit\<close> is an error.\<close>

definition from_chars :: "nat \<Rightarrow> nat \<Rightarrow> bytes \<Rightarrow> (nat \<times> nat) option" where
  "from_chars limit base s =
     (let ds = takeWhile (\<lambda>c. isDigitForBase c base) s;
          v = foldl (\<lambda>v d. v * base + digit_value d) 0 ds
      in if ds = [] \<or> v > limit then None else Some (v, length ds))"

text \<open>The number of characters of the prefix and the base.\<close>

definition scanPrefix :: "bytes \<Rightarrow> nat \<Rightarrow> nat \<times> nat" where
  "scanPrefix s base =
     (case s of
        c # rest \<Rightarrow>
          if \<not> isAsciiDigit c then (0, base)
          else if c = 0x30
          then (case rest of
                  x # _ \<Rightarrow>
                    if x = 0x62 \<or> x = 0x42
                    then (let base = (if base = 0 then 2 else base) in (if base = 2 then 2 else 0, base))
                    else if x = 0x78 \<or> x = 0x58
                    then (let base = (if base = 0 then 16 else base) in (if base = 16 then 2 else 0, base))
                    else (0, if base = 0 then 8 else base)
                | [] \<Rightarrow> (0, if base = 0 then 8 else base))
          else (0, if base = 0 then 10 else base)
      | [] \<Rightarrow> (0, base))"

definition qstrntoull :: "bytes \<Rightarrow> nat \<Rightarrow> (nat \<times> nat) option" where
  "qstrntoull s base =
     (let p = length (takeWhile ascii_isspace s); t = drop p s
      in if t = [] \<or> hd t = 0x2D then None
         else let p = (if hd t = 0x2B then p + 1 else p);
                  (n, base) = scanPrefix (drop p s) base;
                  p = p + n
              in if base = 0 \<or> p \<ge> length s then None
                 else map_option (\<lambda>(v, used). (v, p + used)) (from_chars (2 ^ 64 - 1) base (drop p s)))"

definition qstrntoll :: "bytes \<Rightarrow> nat \<Rightarrow> (int \<times> nat) option" where
  "qstrntoll s base =
     (let p = length (takeWhile ascii_isspace s); t = drop p s;
          negate = (t \<noteq> [] \<and> hd t = 0x2D);
          p = (if negate \<or> t \<noteq> [] \<and> hd t = 0x2B then p + 1 else p);
          (n, base) = scanPrefix (drop p s) base;
          p = p + n
      in if base = 0 \<or> p \<ge> length s \<or> \<not> isDigitForBase (s ! p) base then None
         else case from_chars (2 ^ 63 - 1) base (drop p s) of
                Some (v, used) \<Rightarrow> Some (if negate then - int v else int v, p + used)
              | None \<Rightarrow>
                  if negate
                  then (case from_chars (2 ^ 64 - 1) base (drop p s) of
                          Some (v, used) \<Rightarrow> if v = 2 ^ 63 then Some (- (2 ^ 63), p + used) else None
                        | None \<Rightarrow> None)
                  else None)"

definition checkParsed :: "bytes \<Rightarrow> nat \<Rightarrow> bool" where
  "checkParsed num used =
     (if used = 0 then False
      else let rest = drop used num;
               rest = (if rest \<noteq> [] \<and> hd rest \<noteq> 0 then dropWhile ascii_isspace rest else rest)
           in rest = [] \<or> hd rest = 0)"

definition toSignedInteger :: "bytes \<Rightarrow> nat \<Rightarrow> int option" where
  "toSignedInteger num base =
     (if num = [] then None
      else case qstrntoll num base of
             Some (v, used) \<Rightarrow> if checkParsed num used then Some v else None
           | None \<Rightarrow> None)"

definition toUnsignedInteger :: "bytes \<Rightarrow> nat \<Rightarrow> nat option" where
  "toUnsignedInteger num base =
     (if num = [] then None
      else case qstrntoull num base of
             Some (v, used) \<Rightarrow> if checkParsed num used then Some v else None
           | None \<Rightarrow> None)"

text \<open>\<open>toInt\<close>: the value has to fit the narrower type.\<close>

definition toInt :: "bytes \<Rightarrow> nat \<Rightarrow> int option" where
  "toInt num base =
     (case toSignedInteger num base of
        Some v \<Rightarrow> if - (2 ^ 31) \<le> v \<and> v < 2 ^ 31 then Some v else None
      | None \<Rightarrow> None)"

named_theorems parsing \<open>definitions that read integers from text, unfolded on concrete text\<close>

lemmas [parsing] = toInt_def toSignedInteger_def toUnsignedInteger_def checkParsed_def qstrntoll_def qstrntoull_def
  scanPrefix_def from_chars_def digit_value_def isDigitForBase_def isAsciiDigit_def ascii_isspace_def Let_def chars_def

subsection \<open>Numbers in digits\<close>

text \<open>Text made of digits, with white space around it, is read as the number the digits stand for.\<close>

definition digits_ok :: "nat \<Rightarrow> bytes \<Rightarrow> bool" where
  "digits_ok base ds \<longleftrightarrow> ds \<noteq> [] \<and> list_all (\<lambda>d. isDigitForBase d base) ds"

definition digits_value :: "nat \<Rightarrow> bytes \<Rightarrow> nat" where
  "digits_value base ds = foldl (\<lambda>v d. v * base + digit_value d) 0 ds"

definition spaces :: "bytes \<Rightarrow> bool" where
  "spaces s \<longleftrightarrow> list_all ascii_isspace s"

lemma digit_not: "base \<le> 16 \<Longrightarrow> isDigitForBase d base \<Longrightarrow> d \<noteq> 0x78 \<and> d \<noteq> 0x58 \<and> d \<noteq> 0x2B \<and> d \<noteq> 0x2D \<and> \<not> ascii_isspace d"
  by (auto simp: isDigitForBase_def ascii_isspace_def Let_def split: if_splits)

lemma space_not: "ascii_isspace c \<Longrightarrow> \<not> isDigitForBase c base \<and> \<not> isAsciiDigit c \<and> c \<noteq> 0 \<and> c \<noteq> 0x78 \<and> c \<noteq> 0x58 \<and> c \<noteq> 0x62 \<and> c \<noteq> 0x42"
  by (auto simp: ascii_isspace_def isDigitForBase_def isAsciiDigit_def Let_def)

lemma takeWhile_spaces: "spaces s \<Longrightarrow> takeWhile ascii_isspace (s @ t) = s @ takeWhile ascii_isspace t"
  and dropWhile_spaces: "spaces s \<Longrightarrow> dropWhile ascii_isspace (s @ t) = dropWhile ascii_isspace t"
  by (induction s) (simp_all add: spaces_def)

lemma from_digits:
  assumes "digits_ok base ds" "digits_value base ds \<le> limit" "spaces s"
  shows "from_chars limit base (ds @ s) = Some (digits_value base ds, length ds)"
proof -
  have "takeWhile (\<lambda>c. isDigitForBase c base) (ds @ s) = ds @ takeWhile (\<lambda>c. isDigitForBase c base) s"
    using assms(1) by (simp add: digits_ok_def list_all_iff takeWhile_append2)
  moreover have "takeWhile (\<lambda>c. isDigitForBase c base) s = []"
    using assms(3) by (cases s) (simp_all add: spaces_def space_not)
  ultimately show ?thesis using assms(1,2) by (simp add: from_chars_def digits_ok_def digits_value_def)
qed

lemma scan_digits:
  assumes "digits_ok base ds" "base = 10 \<or> base = 16" "spaces s"
  shows "scanPrefix (ds @ s) base = (0, base)"
proof -
  obtain d r where d: "ds = d # r" using assms(1) by (cases ds) (auto simp: digits_ok_def)
  show ?thesis
  proof (cases "r @ s")
    case Nil
    then show ?thesis using assms(2) by (auto simp: d scanPrefix_def)
  next
    case (Cons x t)
    then have "isDigitForBase x base \<or> ascii_isspace x"
      using assms(1,3) by (cases r) (auto simp: d digits_ok_def spaces_def)
    then have "x \<noteq> 0x78" "x \<noteq> 0x58" using assms(2) digit_not [of base x] space_not [of x base] by auto
    then show ?thesis using assms(2) by (auto simp: d Cons scanPrefix_def)
  qed
qed

lemma checked_digits: "0 < n \<Longrightarrow> drop n num = s \<Longrightarrow> spaces s \<Longrightarrow> checkParsed num n"
  using dropWhile_spaces [of s "[]"] by (auto simp: checkParsed_def)

lemma leading:
  assumes "digits_ok base ds" "base = 10 \<or> base = 16" "spaces s"
  shows "length (takeWhile ascii_isspace (s @ ds @ t)) = length s" "hd (ds @ t) \<noteq> 0x2D" "hd (ds @ t) \<noteq> 0x2B"
    "ds @ t \<noteq> []" "isDigitForBase ((ds @ t) ! 0) base"
proof -
  obtain d r where d: "ds = d # r" using assms(1) by (cases ds) (auto simp: digits_ok_def)
  then have "isDigitForBase d base" using assms(1) by (simp add: digits_ok_def)
  moreover from this have "d \<noteq> 0x78 \<and> d \<noteq> 0x58 \<and> d \<noteq> 0x2B \<and> d \<noteq> 0x2D \<and> \<not> ascii_isspace d"
    using assms(2) by (intro digit_not [of base]) auto
  ultimately show "length (takeWhile ascii_isspace (s @ ds @ t)) = length s" "hd (ds @ t) \<noteq> 0x2D" "hd (ds @ t) \<noteq> 0x2B"
    "ds @ t \<noteq> []" "isDigitForBase ((ds @ t) ! 0) base"
    using takeWhile_spaces [OF assms(3), of "ds @ t"] d by simp_all
qed

theorem toSignedInteger_digits:
  assumes "digits_ok base ds" "base = 10 \<or> base = 16" "digits_value base ds < 2 ^ 63" "spaces s" "spaces t"
  shows "toSignedInteger (s @ ds @ t) base = Some (int (digits_value base ds))"
proof -
  note l = leading [OF assms(1,2,4), of t]
  have q: "qstrntoll (s @ ds @ t) base = Some (int (digits_value base ds), length s + length ds)"
    using l assms(2) from_digits [OF assms(1) _ assms(5), of "2 ^ 63 - 1"] assms(3)
      scan_digits [OF assms(1,2,5)] by (auto simp: qstrntoll_def Let_def nth_append)
  have "checkParsed (s @ ds @ t) (length s + length ds)"
    using l(4) assms(1) checked_digits [OF _ _ assms(5), of "length s + length ds"] by (simp add: digits_ok_def)
  then show ?thesis using q l(4) by (simp add: toSignedInteger_def)
qed

theorem toUnsignedInteger_digits:
  assumes "digits_ok base ds" "base = 10 \<or> base = 16" "digits_value base ds < 2 ^ 64" "spaces s" "spaces t"
  shows "toUnsignedInteger (s @ ds @ t) base = Some (digits_value base ds)"
proof -
  note l = leading [OF assms(1,2,4), of t]
  have q: "qstrntoull (s @ ds @ t) base = Some (digits_value base ds, length s + length ds)"
    using l assms(2) from_digits [OF assms(1) _ assms(5), of "2 ^ 64 - 1"] assms(3)
      scan_digits [OF assms(1,2,5)] by (auto simp: qstrntoull_def Let_def nth_append)
  have "checkParsed (s @ ds @ t) (length s + length ds)"
    using l(4) assms(1) checked_digits [OF _ _ assms(5), of "length s + length ds"] by (simp add: digits_ok_def)
  then show ?thesis using q l(4) by (simp add: toUnsignedInteger_def)
qed

subsection \<open>Lines and white space\<close>

abbreviation crlf :: bytes where "crlf \<equiv> [13, 10]"

lemma indexOfChar_bound: "indexOfChar c xs = Some i \<Longrightarrow> i < length xs"
  by (induction xs arbitrary: i) (auto split: if_splits)

lemma indexOfChar_append:
  "indexOfChar c (xs @ ys) = (if c \<in> set xs then indexOfChar c xs else map_option (\<lambda>k. length xs + k) (indexOfChar c ys))"
proof (induction xs)
  case Nil
  then show ?case by (cases "indexOfChar c ys") simp_all
qed (auto simp: option.map_comp comp_def)

lemma indexOfChar_None [simp]: "c \<notin> set xs \<Longrightarrow> indexOfChar c xs = None"
  by (induction xs) auto

lemma trimmed_around:
  assumes "spaces a" "spaces b" "ds \<noteq> []" "\<not> ascii_isspace (hd ds)" "\<not> ascii_isspace (last ds)"
  shows "trimmed (a @ ds @ b) = ds"
proof -
  have r: "spaces (rev b)" using assms(2) by (simp add: spaces_def list_all_iff)
  have "dropWhile ascii_isspace (rev ds @ rev a) = rev ds @ rev a"
    using assms(3,5) by (cases "rev ds") (auto simp: hd_rev [symmetric])
  then have "dropWhile ascii_isspace (rev (a @ ds @ b)) = rev ds @ rev a"
    using dropWhile_spaces [OF r, of "rev ds @ rev a"] by simp
  moreover have "dropWhile ascii_isspace ds = ds" using assms(3,4) by (cases ds) simp_all
  ultimately show ?thesis using dropWhile_spaces [OF assms(1), of ds] by (simp add: trimmed_def)
qed

lemma index_skip: "c \<notin> set xs \<Longrightarrow> indexOfChar c (xs @ c # ys) = Some (length xs)"
  by (induction xs) auto

lemma dropWhile_hd: "dropWhile P xs = [] \<or> \<not> P (hd (dropWhile P xs))"
  using hd_dropWhile by blast

lemma dropWhile_full: "length xs \<le> length (dropWhile P xs) \<Longrightarrow> xs = [] \<or> \<not> P (hd xs)"
  using length_dropWhile_le [of P "tl xs"] by (cases xs) auto

lemma trimmed_iff: "trimmed s = s \<longleftrightarrow> s = [] \<or> \<not> ascii_isspace (hd s) \<and> \<not> ascii_isspace (last s)"
proof
  assume t: "trimmed s = s"
  define u where "u = rev (dropWhile ascii_isspace (rev s))"
  have s: "dropWhile ascii_isspace u = s" using t by (simp add: trimmed_def u_def)
  have u: "length u = length (dropWhile ascii_isspace (rev s))" by (simp add: u_def)
  have "length s \<le> length u" using length_dropWhile_le [of ascii_isspace u] by (simp add: s)
  then have "s = [] \<or> \<not> ascii_isspace (last s)"
    using dropWhile_full [of "rev s" ascii_isspace] by (simp add: u hd_rev)
  then show "s = [] \<or> \<not> ascii_isspace (hd s) \<and> \<not> ascii_isspace (last s)"
    using dropWhile_hd [of ascii_isspace u] by (auto simp: s)
next
  assume "s = [] \<or> \<not> ascii_isspace (hd s) \<and> \<not> ascii_isspace (last s)"
  then have "dropWhile ascii_isspace (rev s) = rev s" "dropWhile ascii_isspace s = s"
    by (auto simp: dropWhile_eq_self_iff hd_rev)
  then show "trimmed s = s" by (simp add: trimmed_def)
qed

lemma trimmed_idem [simp]: "trimmed (trimmed s) = trimmed s"
proof -
  define u where "u = rev (dropWhile ascii_isspace (rev s))"
  have t: "trimmed s = dropWhile ascii_isspace u" by (simp add: trimmed_def u_def)
  have u: "u = [] \<or> \<not> ascii_isspace (last u)"
    using dropWhile_hd [of ascii_isspace "rev s"] by (auto simp: u_def hd_rev last_rev)
  have "dropWhile ascii_isspace u = [] \<or> last (dropWhile ascii_isspace u) = last u"
    using takeWhile_dropWhile_id [of ascii_isspace u] by (metis last_appendR)
  then show ?thesis
    using u dropWhile_hd [of ascii_isspace u] by (auto simp: trimmed_iff t)
qed

lemma trimmed_set: "c \<in> set (trimmed s) \<Longrightarrow> c \<in> set s"
  unfolding trimmed_def by (metis set_dropWhileD set_rev)

end
