(* ===== verification/HttpHeaderNames.thy ===== *)
theory HttpHeaderNames
  imports ByteArrays StdSet "HOL-Library.List_Lexorder"
begin

text \<open>
  The names of header fields, \<open>src/network/access/qhttpheaders.cpp\<close>: the well-known names in the order of
  the enumeration, the sorted index that is searched by bisection, and \<open>HeaderName\<close>, which is either a
  position in the enumeration or the lower-case name. Two names are the same header exactly if they
  are equal without regard to case.
\<close>

unbundle bit_operations_syntax

subsection \<open>Well-known names\<close>

text \<open>The names in the order of the enumeration \<open>WellKnownHeader\<close>, which is modelled by the position in this list.\<close>

definition header_name_strings :: "string list" where
  "header_name_strings = [
    ''a-im'', ''accept'', ''accept-additions'', ''accept-ch'', ''accept-datetime'', ''accept-encoding'',
    ''accept-features'', ''accept-language'', ''accept-patch'', ''accept-post'', ''accept-ranges'',
    ''accept-signature'', ''access-control-allow-credentials'', ''access-control-allow-headers'',
    ''access-control-allow-methods'', ''access-control-allow-origin'', ''access-control-expose-headers'',
    ''access-control-max-age'', ''access-control-request-headers'', ''access-control-request-method'', ''age'',
    ''allow'', ''alpn'', ''alt-svc'', ''alt-used'', ''alternates'', ''apply-to-redirect-ref'',
    ''authentication-control'', ''authentication-info'', ''authorization'', ''cache-control'',
    ''cache-status'', ''cal-managed-id'', ''caldav-timezones'', ''capsule-protocol'', ''cdn-cache-control'',
    ''cdn-loop'', ''cert-not-after'', ''cert-not-before'', ''clear-site-data'', ''client-cert'',
    ''client-cert-chain'', ''close'', ''connection'', ''content-digest'', ''content-disposition'',
    ''content-encoding'', ''content-id'', ''content-language'', ''content-length'', ''content-location'',
    ''content-range'', ''content-security-policy'', ''content-security-policy-report-only'', ''content-type'',
    ''cookie'', ''cross-origin-embedder-policy'', ''cross-origin-embedder-policy-report-only'',
    ''cross-origin-opener-policy'', ''cross-origin-opener-policy-report-only'',
    ''cross-origin-resource-policy'', ''dasl'', ''date'', ''dav'', ''delta-base'', ''depth'', ''destination'',
    ''differential-id'', ''dpop'', ''dpop-nonce'', ''early-data'', ''etag'', ''expect'', ''expect-ct'',
    ''expires'', ''forwarded'', ''from'', ''hobareg'', ''host'', ''if'', ''if-match'', ''if-modified-since'',
    ''if-none-match'', ''if-range'', ''if-schedule-tag-match'', ''if-unmodified-since'', ''im'',
    ''include-referred-token-binding-id'', ''keep-alive'', ''label'', ''last-event-id'', ''last-modified'',
    ''link'', ''location'', ''lock-token'', ''max-forwards'', ''memento-datetime'', ''meter'',
    ''mime-version'', ''negotiate'', ''nel'', ''odata-entityid'', ''odata-isolation'', ''odata-maxversion'',
    ''odata-version'', ''optional-www-authenticate'', ''ordering-type'', ''origin'', ''origin-agent-cluster'',
    ''oscore'', ''oslc-core-version'', ''overwrite'', ''ping-from'', ''ping-to'', ''position'', ''prefer'',
    ''preference-applied'', ''priority'', ''proxy-authenticate'', ''proxy-authentication-info'',
    ''proxy-authorization'', ''proxy-status'', ''public-key-pins'', ''public-key-pins-report-only'', ''range'',
    ''redirect-ref'', ''referer'', ''refresh'', ''replay-nonce'', ''repr-digest'', ''retry-after'',
    ''schedule-reply'', ''schedule-tag'', ''sec-purpose'', ''sec-token-binding'', ''sec-websocket-accept'',
    ''sec-websocket-extensions'', ''sec-websocket-key'', ''sec-websocket-protocol'', ''sec-websocket-version'',
    ''server'', ''server-timing'', ''set-cookie'', ''signature'', ''signature-input'', ''slug'',
    ''soapaction'', ''status-uri'', ''strict-transport-security'', ''sunset'', ''surrogate-capability'',
    ''surrogate-control'', ''tcn'', ''te'', ''timeout'', ''topic'', ''traceparent'', ''tracestate'',
    ''trailer'', ''transfer-encoding'', ''ttl'', ''upgrade'', ''urgency'', ''user-agent'', ''variant-vary'',
    ''vary'', ''via'', ''want-content-digest'', ''want-repr-digest'', ''www-authenticate'',
    ''x-content-type-options'', ''x-frame-options'', ''accept-charset'', ''c-pep-info'', ''pragma'',
    ''protocol-info'', ''protocol-query'']"

definition headerNames :: "bytes list" where
  "headerNames = map chars header_name_strings"

definition orderedHeaderNameIndexes :: "nat list" where
  "orderedHeaderNameIndexes = [
    0, 1, 2, 3, 172, 4, 5, 6, 7, 8, 9, 10, 11, 12, 13, 14, 15, 16, 17, 18, 19, 20, 21, 22, 23, 24, 25, 26, 27,
    28, 29, 173, 30, 31, 32, 33, 34, 35, 36, 37, 38, 39, 40, 41, 42, 43, 44, 45, 46, 47, 48, 49, 50, 51, 52,
    53, 54, 55, 56, 57, 58, 59, 60, 61, 62, 63, 64, 65, 66, 67, 68, 69, 70, 71, 72, 73, 74, 75, 76, 77, 78, 79,
    80, 81, 82, 83, 84, 85, 86, 87, 88, 89, 90, 91, 92, 93, 94, 95, 96, 97, 98, 99, 100, 101, 102, 103, 104,
    105, 106, 107, 108, 109, 110, 111, 112, 113, 114, 174, 115, 116, 117, 175, 176, 118, 119, 120, 121, 122,
    123, 124, 125, 126, 127, 128, 129, 130, 131, 132, 133, 134, 135, 136, 137, 138, 139, 140, 141, 142, 143,
    144, 145, 146, 147, 148, 149, 150, 151, 152, 153, 154, 155, 156, 157, 158, 159, 160, 161, 162, 163, 164,
    165, 166, 167, 168, 169, 170, 171]"

datatype header_name = WellKnown nat | Named bytes

definition toWellKnownHeader :: "bytes \<Rightarrow> nat option" where
  "toWellKnownHeader name =
     (let names = map (\<lambda>i. headerNames ! i) orderedHeaderNameIndexes;
          n = lower_bound (<) name names
      in if n < length names \<and> names ! n = name then Some (orderedHeaderNameIndexes ! n) else None)"

definition HeaderName :: "bytes \<Rightarrow> header_name" where
  "HeaderName name =
     (let nname = toLower name
      in case toWellKnownHeader nname of Some h \<Rightarrow> WellKnown h | None \<Rightarrow> Named nname)"

fun asView :: "header_name \<Rightarrow> bytes" where
  "asView (WellKnown h) = headerNames ! h"
| "asView (Named n) = n"

definition wellKnownHeaderName :: "nat \<Rightarrow> bytes" where
  "wellKnownHeaderName h = headerNames ! h"

subsection \<open>The search in the table of names\<close>

definition ordered_names :: "bytes list" where
  "ordered_names = map (\<lambda>i. headerNames ! i) orderedHeaderNameIndexes"

interpretation names: ranked_set "(<)" "\<lambda>n :: bytes. n"
  by unfold_locales simp

lemma length_header_names [simp]: "length headerNames = 177" "length orderedHeaderNameIndexes = 177" "length ordered_names = 177"
  by (simp_all add: headerNames_def header_name_strings_def orderedHeaderNameIndexes_def ordered_names_def)

lemma ordered_bound: "i \<in> set orderedHeaderNameIndexes \<Longrightarrow> i < 177"
proof -
  have "list_all (\<lambda>i. i < 177) orderedHeaderNameIndexes" by (simp add: orderedHeaderNameIndexes_def)
  then show "i \<in> set orderedHeaderNameIndexes \<Longrightarrow> i < 177" by (simp add: list_all_iff)
qed

lemma ordered_strings: "map (\<lambda>i. header_name_strings ! i) orderedHeaderNameIndexes = [
    ''a-im'', ''accept'', ''accept-additions'', ''accept-ch'', ''accept-charset'', ''accept-datetime'',
    ''accept-encoding'', ''accept-features'', ''accept-language'', ''accept-patch'', ''accept-post'',
    ''accept-ranges'', ''accept-signature'', ''access-control-allow-credentials'',
    ''access-control-allow-headers'', ''access-control-allow-methods'', ''access-control-allow-origin'',
    ''access-control-expose-headers'', ''access-control-max-age'', ''access-control-request-headers'',
    ''access-control-request-method'', ''age'', ''allow'', ''alpn'', ''alt-svc'', ''alt-used'', ''alternates'',
    ''apply-to-redirect-ref'', ''authentication-control'', ''authentication-info'', ''authorization'',
    ''c-pep-info'', ''cache-control'', ''cache-status'', ''cal-managed-id'', ''caldav-timezones'',
    ''capsule-protocol'', ''cdn-cache-control'', ''cdn-loop'', ''cert-not-after'', ''cert-not-before'',
    ''clear-site-data'', ''client-cert'', ''client-cert-chain'', ''close'', ''connection'', ''content-digest'',
    ''content-disposition'', ''content-encoding'', ''content-id'', ''content-language'', ''content-length'',
    ''content-location'', ''content-range'', ''content-security-policy'',
    ''content-security-policy-report-only'', ''content-type'', ''cookie'', ''cross-origin-embedder-policy'',
    ''cross-origin-embedder-policy-report-only'', ''cross-origin-opener-policy'',
    ''cross-origin-opener-policy-report-only'', ''cross-origin-resource-policy'', ''dasl'', ''date'', ''dav'',
    ''delta-base'', ''depth'', ''destination'', ''differential-id'', ''dpop'', ''dpop-nonce'', ''early-data'',
    ''etag'', ''expect'', ''expect-ct'', ''expires'', ''forwarded'', ''from'', ''hobareg'', ''host'', ''if'',
    ''if-match'', ''if-modified-since'', ''if-none-match'', ''if-range'', ''if-schedule-tag-match'',
    ''if-unmodified-since'', ''im'', ''include-referred-token-binding-id'', ''keep-alive'', ''label'',
    ''last-event-id'', ''last-modified'', ''link'', ''location'', ''lock-token'', ''max-forwards'',
    ''memento-datetime'', ''meter'', ''mime-version'', ''negotiate'', ''nel'', ''odata-entityid'',
    ''odata-isolation'', ''odata-maxversion'', ''odata-version'', ''optional-www-authenticate'',
    ''ordering-type'', ''origin'', ''origin-agent-cluster'', ''oscore'', ''oslc-core-version'', ''overwrite'',
    ''ping-from'', ''ping-to'', ''position'', ''pragma'', ''prefer'', ''preference-applied'', ''priority'',
    ''protocol-info'', ''protocol-query'', ''proxy-authenticate'', ''proxy-authentication-info'',
    ''proxy-authorization'', ''proxy-status'', ''public-key-pins'', ''public-key-pins-report-only'', ''range'',
    ''redirect-ref'', ''referer'', ''refresh'', ''replay-nonce'', ''repr-digest'', ''retry-after'',
    ''schedule-reply'', ''schedule-tag'', ''sec-purpose'', ''sec-token-binding'', ''sec-websocket-accept'',
    ''sec-websocket-extensions'', ''sec-websocket-key'', ''sec-websocket-protocol'', ''sec-websocket-version'',
    ''server'', ''server-timing'', ''set-cookie'', ''signature'', ''signature-input'', ''slug'',
    ''soapaction'', ''status-uri'', ''strict-transport-security'', ''sunset'', ''surrogate-capability'',
    ''surrogate-control'', ''tcn'', ''te'', ''timeout'', ''topic'', ''traceparent'', ''tracestate'',
    ''trailer'', ''transfer-encoding'', ''ttl'', ''upgrade'', ''urgency'', ''user-agent'', ''variant-vary'',
    ''vary'', ''via'', ''want-content-digest'', ''want-repr-digest'', ''www-authenticate'',
    ''x-content-type-options'', ''x-frame-options'']"
  by code_simp

lemma header_names_nth:
  "ordered_names = map chars (map (\<lambda>i. header_name_strings ! i) orderedHeaderNameIndexes)"
proof -
  have "length header_name_strings = 177" using length_header_names(1) by (simp add: headerNames_def)
  then show ?thesis by (simp add: ordered_names_def headerNames_def ordered_bound)
qed

text \<open>The static assertion of the source.\<close>

lemma ordered_names_sorted: "sorted_wrt (<) ordered_names"
  unfolding header_names_nth ordered_strings
  by (simp add: chars_def sorted_wrt2 [OF names.transp_lt] sorted_wrt1 del: sorted_wrt.simps(2))

lemma distinct_ordered: "distinct ordered_names"
  using ordered_names_sorted by (simp add: strict_sorted_iff)

lemma ordered_indexes: "set orderedHeaderNameIndexes = {..<177}"
proof (rule card_subset_eq)
  have "distinct orderedHeaderNameIndexes" using distinct_ordered by (simp add: ordered_names_def distinct_map)
  then show "card (set orderedHeaderNameIndexes) = card {..<177 :: nat}" by (simp add: distinct_card)
qed (auto simp: ordered_bound)

theorem toWellKnownHeader_iff: "toWellKnownHeader name = Some i \<longleftrightarrow> i < 177 \<and> headerNames ! i = name"
proof
  assume "toWellKnownHeader name = Some i"
  then have "lower_bound (<) name ordered_names < 177" "ordered_names ! lower_bound (<) name ordered_names = name"
    "i = orderedHeaderNameIndexes ! lower_bound (<) name ordered_names"
    by (auto simp: toWellKnownHeader_def Let_def ordered_names_def split: if_splits)
  then show "i < 177 \<and> headerNames ! i = name"
    using ordered_bound nth_mem [of _ orderedHeaderNameIndexes] by (auto simp: ordered_names_def)
next
  assume i: "i < 177 \<and> headerNames ! i = name"
  then obtain k where k: "k < 177" "orderedHeaderNameIndexes ! k = i"
    using ordered_indexes by (metis in_set_conv_nth length_header_names(2) lessThan_iff)
  then have nk: "ordered_names ! k = name" using i by (simp add: ordered_names_def)
  define j where "j = lower_bound (<) name ordered_names"
  have "j < length ordered_names \<and> ordered_names ! j = name"
    unfolding j_def using k nk by (intro names.lower_bound_found names.strict_sorted ordered_names_sorted) auto
  then have "j = k" "ordered_names ! j = name" using distinct_ordered k nk by (auto simp: nth_eq_iff_index_eq)
  then show "toWellKnownHeader name = Some i"
    using k by (simp add: toWellKnownHeader_def Let_def ordered_names_def [symmetric] j_def [symmetric])
qed

subsection \<open>Names are compared without case\<close>

lemma header_names_lower: "i < 177 \<Longrightarrow> toLower (headerNames ! i) = headerNames ! i"
proof -
  have "list_all (\<lambda>n. toLower n = n) headerNames"
    by (simp add: headerNames_def header_name_strings_def toLower_def asciiLower_def chars_def)
  then show "i < 177 \<Longrightarrow> toLower (headerNames ! i) = headerNames ! i" by (simp add: list_all_length)
qed


end
