(* ===== verification/HttpHeaders.thy ===== *)
theory HttpHeaders
  imports HttpHeaderNames
begin

text \<open>
  \<open>QHttpHeaders\<close> of \<open>src/network/access/qhttpheaders.cpp\<close>: the checks of names and values, the sequence of
  fields and its operations. A null data pointer is \<open>None\<close>, as in a default-constructed object. The
  operations refine a list of pairs of a lower-case name and a trimmed value (\<open>headers_refine_pairs\<close>).
\<close>

unbundle bit_operations_syntax

subsection \<open>Valid names and values\<close>

definition isValidHttpHeaderNameChar :: "byte \<Rightarrow> bool" where
  "isValidHttpHeaderNameChar c \<longleftrightarrow>
     0x41 \<le> c \<and> c \<le> 0x5A \<or> 0x61 \<le> c \<and> c \<le> 0x7A \<or> 0x30 \<le> c \<and> c \<le> 0x39 \<or> 0x23 \<le> c \<and> c \<le> 0x27
     \<or> 0x5E \<le> c \<and> c \<le> 0x60 \<or> c \<in> {0x7C, 0x7E, 0x21, 0x2A, 0x2B, 0x2D, 0x2E}"

definition isValidHttpHeaderNameField :: "bytes \<Rightarrow> bool" where
  "isValidHttpHeaderNameField name \<longleftrightarrow> name \<noteq> [] \<and> list_all isValidHttpHeaderNameChar name"

definition isValidHttpHeaderValueChar :: "byte \<Rightarrow> bool" where
  "isValidHttpHeaderValueChar c \<longleftrightarrow> c \<ge> 0x80 \<or> 0x20 \<le> c \<and> c \<le> 0x7E \<or> c = 0x09"

definition isValidHttpHeaderValueField :: "bytes \<Rightarrow> bool" where
  "isValidHttpHeaderValueField val \<longleftrightarrow> list_all isValidHttpHeaderValueChar val"

definition normalizedValue :: "bytes \<Rightarrow> bytes" where
  "normalizedValue val = trimmed val"

subsection \<open>The container\<close>

text \<open>A null private pointer is \<open>None\<close>.\<close>

record http_header =
  h_name :: header_name
  h_value :: bytes

type_synonym http_headers = "http_header list option"

definition QHttpHeaders :: http_headers where "QHttpHeaders = None"

definition header_list :: "http_headers \<Rightarrow> http_header list" where
  "header_list d = (case d of None \<Rightarrow> [] | Some hs \<Rightarrow> hs)"

definition headers_size :: "http_headers \<Rightarrow> nat" where
  "headers_size d = (case d of None \<Rightarrow> 0 | Some hs \<Rightarrow> length hs)"

definition headers_isEmpty :: "http_headers \<Rightarrow> bool" where
  "headers_isEmpty d \<longleftrightarrow> headers_size d = 0"

text \<open>The overloads differ in the type of the name only: a well-known one is not validated. An index
  out of range is undefined.\<close>

definition append_name :: "header_name \<Rightarrow> bytes \<Rightarrow> http_headers \<Rightarrow> bool \<times> http_headers" where
  "append_name name val d =
     (if \<not> isValidHttpHeaderValueField val then (False, d)
      else (True, Some (header_list d @ [\<lparr>h_name = name, h_value = normalizedValue val\<rparr>])))"

definition headers_append :: "bytes \<Rightarrow> bytes \<Rightarrow> http_headers \<Rightarrow> bool \<times> http_headers" where
  "headers_append name val d =
     (if \<not> isValidHttpHeaderNameField name then (False, d) else append_name (HeaderName name) val d)"

definition insert_name :: "nat \<Rightarrow> header_name \<Rightarrow> bytes \<Rightarrow> http_headers \<Rightarrow> (bool \<times> http_headers) option" where
  "insert_name i name val d =
     (if \<not> isValidHttpHeaderValueField val then Some (False, d)
      else if i > length (header_list d) then None
      else Some (True, Some (take i (header_list d) @ \<lparr>h_name = name, h_value = normalizedValue val\<rparr> # drop i (header_list d))))"

definition headers_insert :: "nat \<Rightarrow> bytes \<Rightarrow> bytes \<Rightarrow> http_headers \<Rightarrow> (bool \<times> http_headers) option" where
  "headers_insert i name val d =
     (if \<not> isValidHttpHeaderNameField name then Some (False, d) else insert_name i (HeaderName name) val d)"

definition replace_name :: "nat \<Rightarrow> header_name \<Rightarrow> bytes \<Rightarrow> http_headers \<Rightarrow> (bool \<times> http_headers) option" where
  "replace_name i name newValue d =
     (if \<not> isValidHttpHeaderValueField newValue then Some (False, d)
      else if i \<ge> length (header_list d) then None
      else Some (True, Some ((header_list d)[i := \<lparr>h_name = name, h_value = normalizedValue newValue\<rparr>])))"

definition headers_replace :: "nat \<Rightarrow> bytes \<Rightarrow> bytes \<Rightarrow> http_headers \<Rightarrow> (bool \<times> http_headers) option" where
  "headers_replace i name newValue d =
     (if \<not> isValidHttpHeaderNameField name then Some (False, d) else replace_name i (HeaderName name) newValue d)"

fun private_replaceOrAppend :: "header_name \<Rightarrow> bytes \<Rightarrow> http_header list \<Rightarrow> http_header list" where
  "private_replaceOrAppend name val [] = [\<lparr>h_name = name, h_value = val\<rparr>]"
| "private_replaceOrAppend name val (h # hs) =
     (if h_name h = name then h\<lparr>h_value := val\<rparr> # filter (\<lambda>h. h_name h \<noteq> name) hs
      else h # private_replaceOrAppend name val hs)"

definition replaceOrAppend_name :: "header_name \<Rightarrow> bytes \<Rightarrow> http_headers \<Rightarrow> bool \<times> http_headers" where
  "replaceOrAppend_name name newValue d =
     (if headers_isEmpty d then append_name name newValue d
      else if \<not> isValidHttpHeaderValueField newValue then (False, d)
      else (True, Some (private_replaceOrAppend name (normalizedValue newValue) (header_list d))))"

definition headers_replaceOrAppend :: "bytes \<Rightarrow> bytes \<Rightarrow> http_headers \<Rightarrow> bool \<times> http_headers" where
  "headers_replaceOrAppend name newValue d =
     (if headers_isEmpty d then headers_append name newValue d
      else if \<not> isValidHttpHeaderNameField name then (False, d)
      else replaceOrAppend_name (HeaderName name) newValue d)"

definition contains_name :: "header_name \<Rightarrow> http_headers \<Rightarrow> bool" where
  "contains_name name d \<longleftrightarrow> \<not> headers_isEmpty d \<and> list_ex (\<lambda>h. h_name h = name) (header_list d)"

definition headers_contains :: "bytes \<Rightarrow> http_headers \<Rightarrow> bool" where
  "headers_contains name d = contains_name (HeaderName name) d"

definition removeAll_name :: "header_name \<Rightarrow> http_headers \<Rightarrow> http_headers" where
  "removeAll_name name d =
     (if headers_isEmpty d then d else Some (filter (\<lambda>h. h_name h \<noteq> name) (header_list d)))"

definition headers_removeAll :: "bytes \<Rightarrow> http_headers \<Rightarrow> http_headers" where
  "headers_removeAll name d = removeAll_name (HeaderName name) d"

definition headers_removeAt :: "nat \<Rightarrow> http_headers \<Rightarrow> http_headers option" where
  "headers_removeAt i d =
     (if i \<ge> length (header_list d) then None
      else Some (Some (take i (header_list d) @ drop (Suc i) (header_list d))))"

fun findValue :: "header_name \<Rightarrow> http_header list \<Rightarrow> bytes option" where
  "findValue name [] = None"
| "findValue name (h # hs) = (if h_name h = name then Some (h_value h) else findValue name hs)"

definition value_of_name :: "header_name \<Rightarrow> bytes \<Rightarrow> http_headers \<Rightarrow> bytes" where
  "value_of_name name defaultValue d =
     (if headers_isEmpty d then defaultValue
      else case findValue name (header_list d) of Some v \<Rightarrow> v | None \<Rightarrow> defaultValue)"

definition headers_value :: "bytes \<Rightarrow> bytes \<Rightarrow> http_headers \<Rightarrow> bytes" where
  "headers_value name defaultValue d = value_of_name (HeaderName name) defaultValue d"

definition values_of_name :: "header_name \<Rightarrow> http_headers \<Rightarrow> bytes list" where
  "values_of_name name d =
     (if headers_isEmpty d then [] else map h_value (filter (\<lambda>h. h_name h = name) (header_list d)))"

definition headers_values :: "bytes \<Rightarrow> http_headers \<Rightarrow> bytes list" where
  "headers_values name d = values_of_name (HeaderName name) d"

definition valueAt :: "nat \<Rightarrow> http_headers \<Rightarrow> bytes option" where
  "valueAt i d = (if i < length (header_list d) then Some (h_value (header_list d ! i)) else None)"

definition nameAt :: "nat \<Rightarrow> http_headers \<Rightarrow> bytes option" where
  "nameAt i d = (if i < length (header_list d) then Some (asView (h_name (header_list d ! i))) else None)"

definition headers_combinedValue :: "bytes \<Rightarrow> http_headers \<Rightarrow> bytes" where
  "headers_combinedValue name d = join_bytes (chars '', '') (headers_values name d)"

definition headers_clear :: "http_headers \<Rightarrow> http_headers" where
  "headers_clear d = (if headers_isEmpty d then d else Some [])"

definition toListOfPairs :: "http_headers \<Rightarrow> (bytes \<times> bytes) list" where
  "toListOfPairs d = map (\<lambda>h. (asView (h_name h), h_value h)) (header_list d)"

definition fromListOfPairs :: "(bytes \<times> bytes) list \<Rightarrow> http_headers" where
  "fromListOfPairs headers = fold (\<lambda>(n, v) d. snd (headers_append n v d)) headers (Some [])"

subsection \<open>Integer values\<close>

text \<open>These look into the private object without a test for the null pointer: \<open>None\<close> is undefined
  behaviour, \<open>Some None\<close> the answer \<open>nullopt\<close>. \<open>intValues\<close> compares the stored name with the
  name it is given, which is not brought to lower case.\<close>

definition intValue :: "bytes \<Rightarrow> http_headers \<Rightarrow> int option option" where
  "intValue name d =
     (case d of
        None \<Rightarrow> None
      | Some hs \<Rightarrow>
          Some (case findValue (HeaderName name) hs of None \<Rightarrow> None | Some v \<Rightarrow> toSignedInteger v 10))"

definition intValues :: "bytes \<Rightarrow> http_headers \<Rightarrow> int list option option" where
  "intValues name d =
     (case d of
        None \<Rightarrow> None
      | Some hs \<Rightarrow>
          let results = List.map_filter (\<lambda>h. if asView (h_name h) = name then toSignedInteger (h_value h) 10 else None) hs
          in Some (if results = [] then None else Some results))"

definition intValueAt :: "nat \<Rightarrow> http_headers \<Rightarrow> int option option" where
  "intValueAt i d =
     (case valueAt i d of
        None \<Rightarrow> None
      | Some v \<Rightarrow> Some (if v = [] then None else toSignedInteger v 10))"

text \<open>A name is stored as well-known when it can be, otherwise in lower case.\<close>

fun name_ok :: "header_name \<Rightarrow> bool" where
  "name_ok (WellKnown h) \<longleftrightarrow> h < 177"
| "name_ok (Named n) \<longleftrightarrow> toLower n = n \<and> toWellKnownHeader n = None"

lemma HeaderName_ok [simp]: "name_ok (HeaderName n)" "asView (HeaderName n) = toLower n"
proof (atomize (full), cases "toWellKnownHeader (toLower n)")
  case (Some h)
  then show "name_ok (HeaderName n) \<and> asView (HeaderName n) = toLower n"
    using toWellKnownHeader_iff [THEN iffD1, OF Some] by (simp add: HeaderName_def)
qed (simp add: HeaderName_def)

lemma asView_ok: "name_ok x \<Longrightarrow> HeaderName (asView x) = x \<and> toLower (asView x) = asView x"
proof (cases x)
  case (WellKnown h)
  assume "name_ok x"
  then have h: "h < 177" by (simp add: WellKnown)
  then have "toWellKnownHeader (headerNames ! h) = Some h" by (simp add: toWellKnownHeader_iff)
  then show ?thesis using h by (simp add: WellKnown HeaderName_def header_names_lower)
qed (simp add: HeaderName_def)

lemma same_name: "name_ok x \<Longrightarrow> x = HeaderName n \<longleftrightarrow> asView x = toLower n"
  using asView_ok [of x] by (metis HeaderName_ok(2) HeaderName_def toLower_idem)

text \<open>What the container holds: names in order with values that are valid and without white space around them.\<close>

definition headers_ok :: "http_headers \<Rightarrow> bool" where
  "headers_ok d \<longleftrightarrow> list_all (\<lambda>h. name_ok (h_name h) \<and> isValidHttpHeaderValueField (h_value h)
     \<and> trimmed (h_value h) = h_value h) (header_list d)"

lemma header_list_simps [simp]: "header_list None = []" "header_list (Some hs) = hs"
  by (simp_all add: header_list_def)

lemma isEmpty_list [simp]: "headers_isEmpty d \<longleftrightarrow> header_list d = []"
  by (simp add: headers_isEmpty_def headers_size_def header_list_def split: option.split)

text \<open>The container is the list of its pairs: each operation is the operation on that list that
  compares names in lower case.\<close>

named_theorems pairs \<open>operations of the container on the list of pairs\<close>

abbreviation is_named :: "bytes \<Rightarrow> bytes \<times> bytes \<Rightarrow> bool" where
  "is_named n p \<equiv> fst p = toLower n"

lemma headers_ok_names: "headers_ok d \<Longrightarrow> h \<in> set (header_list d) \<Longrightarrow> h_name h = HeaderName n \<longleftrightarrow> asView (h_name h) = toLower n"
  by (simp add: headers_ok_def list_all_iff same_name)

lemma filter_pairs:
  "headers_ok d \<Longrightarrow> map (\<lambda>h. (asView (h_name h), h_value h)) (filter (\<lambda>h. h_name h = HeaderName n) (header_list d))
     = filter (is_named n) (toListOfPairs d)"
  "headers_ok d \<Longrightarrow> map (\<lambda>h. (asView (h_name h), h_value h)) (filter (\<lambda>h. h_name h \<noteq> HeaderName n) (header_list d))
     = filter (\<lambda>p. \<not> is_named n p) (toListOfPairs d)"
  unfolding toListOfPairs_def filter_map
  by (auto simp: headers_ok_names intro!: arg_cong [of _ _ "map _"] filter_cong)

lemma append_pairs [pairs]:
  "headers_append n v d = (if isValidHttpHeaderNameField n \<and> isValidHttpHeaderValueField v
     then (True, snd (headers_append n v d)) else (False, d))"
  "isValidHttpHeaderNameField n \<Longrightarrow> isValidHttpHeaderValueField v \<Longrightarrow>
     toListOfPairs (snd (headers_append n v d)) = toListOfPairs d @ [(toLower n, trimmed v)]"
  by (simp_all add: headers_append_def append_name_def toListOfPairs_def normalizedValue_def)

lemma removeAll_pairs [pairs]:
  "headers_ok d \<Longrightarrow> toListOfPairs (headers_removeAll n d) = filter (\<lambda>p. \<not> is_named n p) (toListOfPairs d)"
  using filter_pairs(2) [of d n] by (auto simp: headers_removeAll_def removeAll_name_def toListOfPairs_def)

lemma values_pairs [pairs]:
  "headers_ok d \<Longrightarrow> headers_values n d = map snd (filter (is_named n) (toListOfPairs d))"
  using filter_pairs(1) [of d n, symmetric] by (simp add: headers_values_def values_of_name_def comp_def)

lemma contains_pairs [pairs]:
  "headers_ok d \<Longrightarrow> headers_contains n d \<longleftrightarrow> toLower n \<in> fst ` set (toListOfPairs d)"
  by (force simp: headers_contains_def contains_name_def list_ex_iff toListOfPairs_def headers_ok_names)

lemma findValue_filter:
  "findValue n hs = (case filter (\<lambda>h. h_name h = n) hs of [] \<Rightarrow> None | h # _ \<Rightarrow> Some (h_value h))"
  by (induction hs) simp_all

lemma value_pairs [pairs]:
  "headers_ok d \<Longrightarrow> headers_value n v d = (case headers_values n d of [] \<Rightarrow> v | x # _ \<Rightarrow> x)"
  by (auto simp: headers_value_def value_of_name_def headers_values_def values_of_name_def findValue_filter split: list.split)

lemma replace_eq:
  "private_replaceOrAppend n v hs
     = takeWhile (\<lambda>h. h_name h \<noteq> n) hs @ \<lparr>h_name = n, h_value = v\<rparr>
       # filter (\<lambda>h. h_name h \<noteq> n) (dropWhile (\<lambda>h. h_name h \<noteq> n) hs)"
  by (induction hs) (auto intro: http_header.equality)

lemma replaceOrAppend_pairs [pairs]:
  assumes "headers_ok d"
  shows "headers_replaceOrAppend n v d = (if isValidHttpHeaderNameField n \<and> isValidHttpHeaderValueField v
     then (True, snd (headers_replaceOrAppend n v d)) else (False, d))"
    and "isValidHttpHeaderNameField n \<Longrightarrow> isValidHttpHeaderValueField v \<Longrightarrow>
     toListOfPairs (snd (headers_replaceOrAppend n v d)) =
       takeWhile (\<lambda>p. \<not> is_named n p) (toListOfPairs d) @ (toLower n, trimmed v)
         # filter (\<lambda>p. \<not> is_named n p) (dropWhile (\<lambda>p. \<not> is_named n p) (toListOfPairs d))"
proof -
  let ?f = "\<lambda>h. (asView (h_name h), h_value h)" and ?P = "\<lambda>h. h_name h \<noteq> HeaderName n" and ?Q = "\<lambda>h. asView (h_name h) \<noteq> toLower n"
  have n: "?P h \<longleftrightarrow> ?Q h" if "h \<in> set (header_list d)" for h using that headers_ok_names [OF assms] by blast
  have "takeWhile ?P (header_list d) = takeWhile ?Q (header_list d)" "dropWhile ?P (header_list d) = dropWhile ?Q (header_list d)"
    using n by (auto intro!: takeWhile_cong dropWhile_cong)
  moreover have "filter ?P (dropWhile ?Q (header_list d)) = filter ?Q (dropWhile ?Q (header_list d))"
    using n by (intro filter_cong) (auto dest: set_dropWhileD)
  ultimately have m: "map ?f (private_replaceOrAppend (HeaderName n) w (header_list d)) =
      takeWhile (\<lambda>p. \<not> is_named n p) (toListOfPairs d) @ (toLower n, w)
        # filter (\<lambda>p. \<not> is_named n p) (dropWhile (\<lambda>p. \<not> is_named n p) (toListOfPairs d))" for w
    by (simp add: replace_eq toListOfPairs_def takeWhile_map dropWhile_map filter_map comp_def)
  show "headers_replaceOrAppend n v d = (if isValidHttpHeaderNameField n \<and> isValidHttpHeaderValueField v
     then (True, snd (headers_replaceOrAppend n v d)) else (False, d))"
    using append_pairs(1) [of n v d] by (auto simp: headers_replaceOrAppend_def replaceOrAppend_name_def)
  assume v: "isValidHttpHeaderNameField n" "isValidHttpHeaderValueField v"
  show "toListOfPairs (snd (headers_replaceOrAppend n v d)) =
       takeWhile (\<lambda>p. \<not> is_named n p) (toListOfPairs d) @ (toLower n, trimmed v)
         # filter (\<lambda>p. \<not> is_named n p) (dropWhile (\<lambda>p. \<not> is_named n p) (toListOfPairs d))"
  proof (cases "header_list d = []")
    case True
    then show ?thesis using append_pairs(2) [OF v, of d] by (simp add: headers_replaceOrAppend_def toListOfPairs_def)
  next
    case False
    then show ?thesis using v m [of "trimmed v"]
      by (simp add: headers_replaceOrAppend_def replaceOrAppend_name_def normalizedValue_def) (simp add: toListOfPairs_def)
  qed
qed

subsection \<open>The invariant\<close>

named_theorems keeps_headers \<open>operations that keep the invariant of the container\<close>

lemma headers_ok_set: "headers_ok d \<longleftrightarrow> (\<forall>h\<in>set (header_list d). name_ok (h_name h) \<and> isValidHttpHeaderValueField (h_value h)
     \<and> trimmed (h_value h) = h_value h)"
  by (simp add: headers_ok_def list_all_iff)

lemma new_header_ok: "isValidHttpHeaderValueField v \<Longrightarrow> isValidHttpHeaderValueField (trimmed v)"
  by (auto simp: isValidHttpHeaderValueField_def list_all_iff dest: trimmed_set)

lemma headers_keep [keeps_headers]:
  assumes "headers_ok d"
  shows "headers_ok (snd (headers_append n v d))" "headers_ok (headers_removeAll n d)" "headers_ok (headers_clear d)"
    "headers_removeAt i d = Some d' \<Longrightarrow> headers_ok d'"
    "headers_insert i n v d = Some (b, d') \<Longrightarrow> headers_ok d'" "headers_replace i n v d = Some (b, d') \<Longrightarrow> headers_ok d'"
    "headers_ok (snd (headers_replaceOrAppend n v d))"
proof -
  note h = assms [unfolded headers_ok_set, THEN bspec] and ok = headers_ok_set
  show a: "headers_ok (snd (headers_append n v d))"
    using assms new_header_ok [of v] by (auto simp: ok headers_append_def append_name_def normalizedValue_def)
  show "headers_ok (headers_removeAll n d)" "headers_ok (headers_clear d)"
    using assms by (auto simp: ok headers_removeAll_def removeAll_name_def headers_clear_def)
  show "headers_removeAt i d = Some d' \<Longrightarrow> headers_ok d'"
    using h by (auto simp: ok headers_removeAt_def split: if_splits) (meson in_set_takeD in_set_dropD)+
  show "headers_insert i n v d = Some (b, d') \<Longrightarrow> headers_ok d'"
    using h new_header_ok [of v]
    by (auto simp: ok headers_insert_def insert_name_def normalizedValue_def split: if_splits) (meson in_set_takeD in_set_dropD)+
  show "headers_replace i n v d = Some (b, d') \<Longrightarrow> headers_ok d'"
    using assms new_header_ok [of v]
    by (auto simp: ok headers_replace_def replace_name_def normalizedValue_def split: if_splits dest!: subsetD [OF set_update_subset_insert])
  show "headers_ok (snd (headers_replaceOrAppend n v d))"
    using a assms new_header_ok [of v]
    by (auto simp: ok headers_replaceOrAppend_def replaceOrAppend_name_def normalizedValue_def replace_eq dest: set_takeWhileD set_dropWhileD)
qed

subsection \<open>Properties\<close>

text \<open>Header names are compared without case: the binary search over the table of well-known names
  finds a name exactly when it is in the table, and two names are stored as the same key exactly
  when they agree in lower case.\<close>

theorem header_names_ignore_case:
  "(HeaderName n = HeaderName m \<longleftrightarrow> toLower n = toLower m) \<and> asView (HeaderName n) = toLower n
    \<and> (HeaderName n = WellKnown h \<longleftrightarrow> h < length headerNames \<and> headerNames ! h = toLower n)"
proof (intro conjI)
  show "HeaderName n = HeaderName m \<longleftrightarrow> toLower n = toLower m" by (metis HeaderName_def HeaderName_ok(2))
  show "HeaderName n = WellKnown h \<longleftrightarrow> h < length headerNames \<and> headerNames ! h = toLower n"
    using toWellKnownHeader_iff [of "toLower n" h] by (auto simp: HeaderName_def Let_def split: option.split)
qed simp

text \<open>C19. The container behaves as the list of its pairs of lower-case name and value: looking up, appending,
  removing and replacing are the operations on that list that ignore the case of the name, an
  invalid name or value changes nothing, and replacing leaves exactly one value where the first one was.\<close>

theorem headers_refine_pairs:
  assumes "headers_ok d" "ps = toListOfPairs d" "ok \<longleftrightarrow> isValidHttpHeaderNameField n \<and> isValidHttpHeaderValueField v"
  shows "headers_values n d = map snd (filter (is_named n) ps)
    \<and> (headers_contains n d \<longleftrightarrow> toLower n \<in> fst ` set ps)
    \<and> headers_value n v d = (case headers_values n d of [] \<Rightarrow> v | x # _ \<Rightarrow> x)
    \<and> toListOfPairs (headers_removeAll n d) = filter (\<lambda>p. \<not> is_named n p) ps
    \<and> (\<exists>d'. headers_append n v d = (ok, d') \<and> headers_ok d'
        \<and> toListOfPairs d' = (if ok then ps @ [(toLower n, trimmed v)] else ps))
    \<and> (\<exists>d'. headers_replaceOrAppend n v d = (ok, d') \<and> headers_ok d'
        \<and> toListOfPairs d' = (if ok then takeWhile (\<lambda>p. \<not> is_named n p) ps @ (toLower n, trimmed v)
             # filter (\<lambda>p. \<not> is_named n p) (dropWhile (\<lambda>p. \<not> is_named n p) ps) else ps))"
proof (intro conjI)
  show "headers_values n d = map snd (filter (is_named n) ps)" using assms by (simp add: values_pairs)
  show "headers_contains n d \<longleftrightarrow> toLower n \<in> fst ` set ps" using assms by (simp add: contains_pairs)
  show "headers_value n v d = (case headers_values n d of [] \<Rightarrow> v | x # _ \<Rightarrow> x)" using assms(1) by (rule value_pairs)
  show "toListOfPairs (headers_removeAll n d) = filter (\<lambda>p. \<not> is_named n p) ps" using assms by (simp add: removeAll_pairs)
  show "\<exists>d'. headers_append n v d = (ok, d') \<and> headers_ok d'
        \<and> toListOfPairs d' = (if ok then ps @ [(toLower n, trimmed v)] else ps)"
    using append_pairs [of n v d] assms headers_keep(1) [OF assms(1), of n v] by auto
  show "\<exists>d'. headers_replaceOrAppend n v d = (ok, d') \<and> headers_ok d'
        \<and> toListOfPairs d' = (if ok then takeWhile (\<lambda>p. \<not> is_named n p) ps @ (toLower n, trimmed v)
             # filter (\<lambda>p. \<not> is_named n p) (dropWhile (\<lambda>p. \<not> is_named n p) ps) else ps)"
    using replaceOrAppend_pairs [OF assms(1), of n v] assms headers_keep(7) [OF assms(1), of n v] by auto
qed

theorem headers_refine_pairs_witness:
  "headers_values (chars ''ETAG'') (fromListOfPairs [(chars ''ETag'', chars '' a '')]) = [chars ''a'']"
proof -
  have v: "isValidHttpHeaderNameField (chars ''ETag'')" "isValidHttpHeaderValueField (chars '' a '')"
    by (simp_all add: isValidHttpHeaderNameField_def isValidHttpHeaderNameChar_def isValidHttpHeaderValueField_def
        isValidHttpHeaderValueChar_def chars_def)
  have d: "fromListOfPairs [(chars ''ETag'', chars '' a '')] = snd (headers_append (chars ''ETag'') (chars '' a '') (Some []))"
    by (simp add: fromListOfPairs_def)
  define e where "e = snd (headers_append (chars ''ETag'') (chars '' a '') (Some []))"
  have "headers_ok (Some [])" by (simp add: headers_ok_def)
  then have e: "headers_ok e" "toListOfPairs e = [(toLower (chars ''ETag''), trimmed (chars '' a ''))]"
    using headers_refine_pairs [OF _ refl refl, of "Some []" "chars ''ETag''" "chars '' a ''"] v by (auto simp: toListOfPairs_def e_def)
  have "headers_values (chars ''ETAG'') e = map snd (filter (is_named (chars ''ETAG'')) (toListOfPairs e))"
    by (rule headers_refine_pairs [OF e(1) refl refl, THEN conjunct1])
  also have "\<dots> = [chars ''a'']"
    by (simp add: e(2) toLower_def asciiLower_def trimmed_def ascii_isspace_def chars_def)
  finally show ?thesis by (simp add: d e_def)
qed

text \<open>\<open>intValue\<close> and \<open>intValues\<close> on headers that were never filled read through a null pointer, and for a
  name that is not in lower case \<open>intValues\<close> finds nothing although \<open>intValue\<close> finds the value.\<close>

theorem int_values_pitfalls:
  assumes "isValidHttpHeaderNameField n" "isValidHttpHeaderValueField v" "toSignedInteger (trimmed v) 10 = Some k"
    and "toLower n \<noteq> n" "d = snd (headers_append n v (Some []))"
  shows "intValue n QHttpHeaders = None \<and> intValues n QHttpHeaders = None
    \<and> intValue n d = Some (Some k) \<and> intValues n d = Some None \<and> intValues (toLower n) d = Some (Some [k])"
  using assms by (simp add: intValue_def intValues_def QHttpHeaders_def headers_append_def append_name_def normalizedValue_def
      List.map_filter_def)

theorem int_values_pitfalls_witness:
  "intValues (chars ''Age'') (snd (headers_append (chars ''Age'') (chars ''12'') (Some []))) = Some None"
proof -
  have t: "trimmed (chars ''12'') = chars ''12''" by (simp add: trimmed_def ascii_isspace_def chars_def)
  have k: "toSignedInteger (chars ''12'') 10 = Some 12"
    by (simp add: toSignedInteger_def checkParsed_def qstrntoll_def scanPrefix_def from_chars_def digit_value_def isDigitForBase_def
        isAsciiDigit_def ascii_isspace_def Let_def chars_def)
  show ?thesis
    by (rule int_values_pitfalls [OF _ _ _ _ refl, of "chars ''Age''" "chars ''12''" 12, THEN conjunct2, THEN conjunct2, THEN conjunct2, THEN conjunct1])
      (simp_all add: t k, simp_all add: chars_def isValidHttpHeaderNameField_def isValidHttpHeaderNameChar_def
        isValidHttpHeaderValueField_def isValidHttpHeaderValueChar_def toLower_def asciiLower_def)
qed

end
