(* ===== verification/ByteDataBuffer.thy ===== *)
theory ByteDataBuffer
  imports ByteArrays
begin

text \<open>
  \<open>QByteDataBuffer\<close> of \<open>src/network/access/qbytedatabuffer_p.h\<close>, which holds the body of a
  reply: a list of byte arrays read from the front, with the position in the first one and the number
  of octets left. It refines the sequence of the octets that have not been read.
\<close>

subsection \<open>Operations\<close>

record byte_data_buffer =
  bdb_buffers :: "bytes list"
  bufferCompleteSize :: int
  firstPos :: int

definition QByteDataBuffer :: byte_data_buffer where
  "QByteDataBuffer = \<lparr>bdb_buffers = [], bufferCompleteSize = 0, firstPos = 0\<rparr>"

definition popFront :: "bytes \<Rightarrow> int \<Rightarrow> bytes" where
  "popFront ba n = drop (nat n) ba"

definition byteAmount :: "byte_data_buffer \<Rightarrow> int" where
  "byteAmount b = bufferCompleteSize b"

definition bufferCount :: "byte_data_buffer \<Rightarrow> nat" where
  "bufferCount b = length (bdb_buffers b)"

definition bdb_isEmpty :: "byte_data_buffer \<Rightarrow> bool" where
  "bdb_isEmpty b \<longleftrightarrow> byteAmount b = 0"

definition squeezeFirst :: "byte_data_buffer \<Rightarrow> byte_data_buffer" where
  "squeezeFirst b =
     (case bdb_buffers b of
        [] \<Rightarrow> b
      | x # xs \<Rightarrow> if firstPos b > 0 then b\<lparr>bdb_buffers := popFront x (firstPos b) # xs, firstPos := 0\<rparr> else b)"

definition bdb_append :: "bytes \<Rightarrow> byte_data_buffer \<Rightarrow> byte_data_buffer" where
  "bdb_append bd b =
     (if bd = [] then b
      else b\<lparr>bufferCompleteSize := bufferCompleteSize b + int (length bd), bdb_buffers := bdb_buffers b @ [bd]\<rparr>)"

text \<open>Appending another buffer copies its arrays and cuts what it has read of its first one. A buffer that is not
  empty but has no array is undefined.\<close>

definition bdb_append_all :: "byte_data_buffer \<Rightarrow> byte_data_buffer \<Rightarrow> byte_data_buffer option" where
  "bdb_append_all other b =
     (if bdb_isEmpty other then Some b
      else let held = bufferCompleteSize b + byteAmount other
           in if firstPos other > 0
              then (case bdb_buffers other of
                      [] \<Rightarrow> None
                    | x # xs \<Rightarrow> Some (b\<lparr>bdb_buffers := bdb_buffers b @ popFront x (firstPos other) # xs, bufferCompleteSize := held\<rparr>))
              else Some (b\<lparr>bdb_buffers := bdb_buffers b @ bdb_buffers other, bufferCompleteSize := held\<rparr>))"

definition bdb_prepend :: "bytes \<Rightarrow> byte_data_buffer \<Rightarrow> byte_data_buffer" where
  "bdb_prepend bd b =
     (if bd = [] then b
      else let b = squeezeFirst b
           in b\<lparr>bufferCompleteSize := bufferCompleteSize b + int (length bd), bdb_buffers := bd # bdb_buffers b\<rparr>)"

definition bdb_read_first :: "byte_data_buffer \<Rightarrow> (bytes \<times> byte_data_buffer) option" where
  "bdb_read_first b =
     (let b = squeezeFirst b
      in case bdb_buffers b of
           [] \<Rightarrow> None
         | x # xs \<Rightarrow> Some (x, b\<lparr>bufferCompleteSize := bufferCompleteSize b - int (length x), bdb_buffers := xs\<rparr>))"

text \<open>The loop of \<open>read(char*, qint64)\<close>: the octets copied so far, the amount that is left, and the fields of the buffer.\<close>

fun bdb_read_loop :: "bytes \<Rightarrow> int \<Rightarrow> int \<Rightarrow> int \<Rightarrow> bytes list \<Rightarrow> (bytes \<times> int \<times> int \<times> bytes list) option" where
  "bdb_read_loop dst amount pos held [] = (if amount > 0 then None else Some (dst, pos, held, []))"
| "bdb_read_loop dst amount pos held (x # xs) =
     (if amount > 0
      then let firstSize = int (length x) - pos
           in if amount \<ge> firstSize
              then bdb_read_loop (dst @ drop (nat pos) x) (amount - firstSize) 0 (held - firstSize) xs
              else Some (dst @ take (nat amount) (drop (nat pos) x), pos + amount, held - amount, x # xs)
      else Some (dst, pos, held, x # xs))"

definition bdb_read :: "int \<Rightarrow> byte_data_buffer \<Rightarrow> (bytes \<times> byte_data_buffer) option" where
  "bdb_read amount b =
     (case bdb_read_loop [] (min amount (byteAmount b)) (firstPos b) (bufferCompleteSize b) (bdb_buffers b) of
        None \<Rightarrow> None
      | Some (dst, pos, held, bs) \<Rightarrow> Some (dst, \<lparr>bdb_buffers = bs, bufferCompleteSize = held, firstPos = pos\<rparr>))"

definition bdb_readAll :: "byte_data_buffer \<Rightarrow> (bytes \<times> byte_data_buffer) option" where
  "bdb_readAll b = bdb_read (byteAmount b) b"

definition bdb_getChar :: "byte_data_buffer \<Rightarrow> (byte \<times> byte_data_buffer) option" where
  "bdb_getChar b = (case bdb_read 1 b of Some (c # _, b) \<Rightarrow> Some (c, b) | _ \<Rightarrow> None)"

definition bdb_readPointer :: "byte_data_buffer \<Rightarrow> bytes option" where
  "bdb_readPointer b =
     (if bdb_isEmpty b then Some []
      else case bdb_buffers b of [] \<Rightarrow> None | x # _ \<Rightarrow> Some (drop (nat (firstPos b)) x))"

text \<open>The loop of \<open>advanceReadPointer\<close>, in which \<open>firstPos\<close> keeps the value it had before the loop.\<close>

fun bdb_advance_loop :: "int \<Rightarrow> int \<Rightarrow> int \<Rightarrow> bytes list \<Rightarrow> (int \<times> int \<times> bytes list) option" where
  "bdb_advance_loop newPos pos held [] = None"
| "bdb_advance_loop newPos pos held (x # xs) =
     (let size = int (length x)
      in if newPos \<ge> size
         then let held = held - (size - pos)
              in if held = 0 then Some (0, held, xs)
                 else if xs = [] then None
                 else bdb_advance_loop (newPos - size) pos held xs
         else Some (newPos, held, x # xs))"

definition bdb_advanceReadPointer :: "int \<Rightarrow> byte_data_buffer \<Rightarrow> byte_data_buffer option" where
  "bdb_advanceReadPointer distance b =
     (let newPos = firstPos b + distance
      in if bdb_isEmpty b then Some (b\<lparr>firstPos := 0\<rparr>)
         else case bdb_buffers b of
                [] \<Rightarrow> None
              | x # _ \<Rightarrow>
                  if newPos \<ge> int (length x)
                  then (case bdb_advance_loop newPos (firstPos b) (bufferCompleteSize b) (bdb_buffers b) of
                          None \<Rightarrow> None
                        | Some (newPos, held, bs) \<Rightarrow>
                            Some \<lparr>bdb_buffers = bs, bufferCompleteSize = held - newPos, firstPos = newPos\<rparr>)
                  else Some (b\<lparr>bufferCompleteSize := bufferCompleteSize b - (newPos - firstPos b), firstPos := newPos\<rparr>))"

definition bdb_clear :: "byte_data_buffer \<Rightarrow> byte_data_buffer" where
  "bdb_clear b = b\<lparr>bdb_buffers := [], bufferCompleteSize := 0, firstPos := 0\<rparr>"

definition bdb_sizeNextBlock :: "byte_data_buffer \<Rightarrow> int" where
  "bdb_sizeNextBlock b = (case bdb_buffers b of [] \<Rightarrow> 0 | x # _ \<Rightarrow> int (length x) - firstPos b)"

text \<open>The access to an element: the array that the reference refers to, and the buffer that it may write to.\<close>

definition bdb_at :: "nat \<Rightarrow> byte_data_buffer \<Rightarrow> (bytes \<times> byte_data_buffer) option" where
  "bdb_at i b =
     (let b = (if i = 0 then squeezeFirst b else b)
      in if i < length (bdb_buffers b) then Some (bdb_buffers b ! i, b) else None)"

definition bdb_last :: "byte_data_buffer \<Rightarrow> bytes option" where
  "bdb_last b = (if bdb_buffers b = [] then None else Some (last (bdb_buffers b)))"

definition bdb_canReadLine :: "byte_data_buffer \<Rightarrow> bool" where
  "bdb_canReadLine b =
     (case bdb_buffers b of
        [] \<Rightarrow> False
      | x # xs \<Rightarrow> indexOfChar 10 (drop (nat (firstPos b)) x) \<noteq> None \<or> list_ex (\<lambda>x. indexOfChar 10 x \<noteq> None) xs)"

subsection \<open>The octets of a buffer\<close>

definition bdb_data :: "byte_data_buffer \<Rightarrow> bytes" where
  "bdb_data b = drop (nat (firstPos b)) (concat (bdb_buffers b))"

text \<open>The buffer that holds the arrays \<open>bs\<close> of which \<open>p\<close> octets have been read: no array is empty, the position
  lies in the first one, and the size counts what is left.\<close>

definition bdb_of :: "bytes list \<Rightarrow> nat \<Rightarrow> byte_data_buffer" where
  "bdb_of bs p = \<lparr>bdb_buffers = bs, bufferCompleteSize = int (length (concat bs)) - int p, firstPos = int p\<rparr>"

fun pos_ok :: "bytes list \<Rightarrow> nat \<Rightarrow> bool" where
  "pos_ok [] p \<longleftrightarrow> p = 0"
| "pos_ok (x # xs) p \<longleftrightarrow> p < length x \<and> list_all (\<lambda>x. x \<noteq> []) xs"

definition bdb_ok :: "byte_data_buffer \<Rightarrow> bool" where
  "bdb_ok b \<longleftrightarrow> b = bdb_of (bdb_buffers b) (nat (firstPos b)) \<and> pos_ok (bdb_buffers b) (nat (firstPos b))"

lemma bdb_of_ok [simp]: "bdb_ok (bdb_of bs p) \<longleftrightarrow> pos_ok bs p" "bdb_data (bdb_of bs p) = drop p (concat bs)"
  by (simp_all add: bdb_ok_def bdb_data_def) (simp_all add: bdb_of_def)

lemma bdb_obtain: "bdb_ok b \<Longrightarrow> \<exists>bs p. b = bdb_of bs p \<and> pos_ok bs p"
  unfolding bdb_ok_def by blast

lemma pos_ok_length: "pos_ok bs p \<Longrightarrow> p \<le> length (concat bs)"
  by (cases bs) auto

lemma pos_ok_zero: "pos_ok bs p \<Longrightarrow> pos_ok cs 0 \<longleftrightarrow> list_all (\<lambda>x. x \<noteq> []) cs"
  by (cases cs) auto

lemma bdb_new [simp]: "bdb_ok QByteDataBuffer" "bdb_data QByteDataBuffer = []"
proof -
  have "QByteDataBuffer = bdb_of [] 0" by (simp add: QByteDataBuffer_def bdb_of_def)
  then show "bdb_ok QByteDataBuffer" "bdb_data QByteDataBuffer = []" using bdb_of_ok [of "[]" 0] by (metis pos_ok.simps(1), simp)
qed

lemma bdb_length: "bdb_ok b \<Longrightarrow> byteAmount b = int (length (bdb_data b))"
  by (drule bdb_obtain) (auto simp: byteAmount_def bdb_of_def bdb_data_def dest: pos_ok_length)

lemma bdb_empty: "bdb_ok b \<Longrightarrow> bdb_isEmpty b \<longleftrightarrow> bdb_buffers b = []"
proof -
  assume "bdb_ok b"
  then obtain bs p where b: "b = bdb_of bs p" "pos_ok bs p" using bdb_obtain by blast
  then show ?thesis by (cases bs) (auto simp: bdb_isEmpty_def byteAmount_def bdb_of_def)
qed

lemma squeeze_of: "pos_ok bs p \<Longrightarrow> \<exists>cs. squeezeFirst (bdb_of bs p) = bdb_of cs 0 \<and> pos_ok cs 0 \<and> concat cs = drop p (concat bs)"
proof (cases bs)
  case (Cons x xs)
  assume "pos_ok bs p"
  then have "squeezeFirst (bdb_of bs p) = bdb_of (drop p x # xs) 0" by (simp add: Cons squeezeFirst_def popFront_def bdb_of_def)
  then show ?thesis using \<open>pos_ok bs p\<close> by (intro exI [of _ "drop p x # xs"]) (simp add: Cons)
qed (simp add: squeezeFirst_def bdb_of_def)

lemma bdb_append_ok:
  assumes "bdb_ok b" shows "bdb_ok (bdb_append bd b) \<and> bdb_data (bdb_append bd b) = bdb_data b @ bd"
proof -
  obtain bs p where b: "b = bdb_of bs p" "pos_ok bs p" using bdb_obtain assms by blast
  show ?thesis
  proof (cases "bd = []")
    case False
    then have "bdb_append bd b = bdb_of (bs @ [bd]) p" by (simp add: b bdb_append_def) (simp add: bdb_of_def)
    moreover have "pos_ok (bs @ [bd]) p" using b False by (cases bs) simp_all
    ultimately show ?thesis using b pos_ok_length [OF b(2)] by simp
  qed (simp add: bdb_append_def assms)
qed

lemma bdb_prepend_ok:
  assumes "bdb_ok b" shows "bdb_ok (bdb_prepend bd b) \<and> bdb_data (bdb_prepend bd b) = bd @ bdb_data b"
proof -
  obtain bs p where b: "b = bdb_of bs p" "pos_ok bs p" using bdb_obtain assms by blast
  obtain cs where c: "squeezeFirst b = bdb_of cs 0" "pos_ok cs 0" "concat cs = drop p (concat bs)" using squeeze_of b by blast
  show ?thesis
  proof (cases "bd = []")
    case False
    then have "bdb_prepend bd b = bdb_of (bd # cs) 0" by (simp add: c(1) bdb_prepend_def) (simp add: bdb_of_def)
    then show ?thesis using b(1) c False pos_ok_zero [OF c(2)] by simp
  qed (simp add: bdb_prepend_def assms)
qed

lemma bdb_append_all_ok:
  assumes "bdb_ok b" "bdb_ok a"
  shows "\<exists>c. bdb_append_all a b = Some c \<and> bdb_ok c \<and> bdb_data c = bdb_data b @ bdb_data a"
proof -
  obtain bs p where b: "b = bdb_of bs p" "pos_ok bs p" using bdb_obtain assms by blast
  obtain as q where a: "a = bdb_of as q" "pos_ok as q" using bdb_obtain assms by blast
  show ?thesis
  proof (cases as)
    case Nil
    then show ?thesis using assms a bdb_empty [OF assms(2)] by (simp add: bdb_append_all_def bdb_of_def) (simp add: bdb_data_def)
  next
    case (Cons x xs)
    then have q: "q < length x" "list_all (\<lambda>x. x \<noteq> []) xs" using a by simp_all
    let ?c = "bdb_of (bs @ drop q x # xs) p"
    have "\<not> bdb_isEmpty a" using bdb_empty [OF assms(2)] a Cons by (simp add: bdb_of_def)
    then have "bdb_append_all a b = Some ?c"
      using a b Cons q by (auto simp: bdb_append_all_def bdb_of_def byteAmount_def popFront_def Let_def)
    moreover have "pos_ok (bs @ drop q x # xs) p" using b(2) q by (cases bs) auto
    ultimately show ?thesis using a b Cons q pos_ok_length [OF b(2)] by simp
  qed
qed

lemma read_loop_of:
  assumes "pos_ok bs p" "n \<le> length (concat bs) - p"
  shows "\<exists>q cs. bdb_read_loop dst (int n) (int p) (int (length (concat bs)) - int p) bs
      = Some (dst @ take n (drop p (concat bs)), int q, int (length (concat cs)) - int q, cs)
    \<and> pos_ok cs q \<and> drop q (concat cs) = drop n (drop p (concat bs))"
  using assms
proof (induction bs arbitrary: dst n p)
  case (Cons x xs)
  have p: "p < length x" "list_all (\<lambda>x. x \<noteq> []) xs" using Cons.prems(1) by simp_all
  show ?case
  proof (cases "n = 0")
    case True
    then show ?thesis using Cons.prems(1) by (intro exI [of _ p] exI [of _ "x # xs"]) simp
  next
    case n: False
    show ?thesis
    proof (cases "length x - p \<le> n")
      case True
      define m where "m = n - (length x - p)"
      have m: "n = length x - p + m" "m \<le> length (concat xs)" using True Cons.prems(2) p by (simp_all add: m_def)
      obtain q cs where q: "bdb_read_loop (dst @ drop p x) (int m) (int 0) (int (length (concat xs)) - int 0) xs
          = Some ((dst @ drop p x) @ take m (drop 0 (concat xs)), int q, int (length (concat cs)) - int q, cs)"
        "pos_ok cs q" "drop q (concat cs) = drop m (drop 0 (concat xs))"
        using Cons.IH [of 0 m "dst @ drop p x"] pos_ok_zero p m(2) by (metis diff_zero pos_ok.simps(1))
      have "bdb_read_loop dst (int n) (int p) (int (length (concat (x # xs))) - int p) (x # xs)
          = bdb_read_loop (dst @ drop p x) (int m) (int 0) (int (length (concat xs)) - int 0) xs"
        using p by (simp add: m(1) of_nat_diff)
      then show ?thesis using q p by (intro exI [of _ q] exI [of _ cs]) (simp add: m(1))
    next
      case False
      then have "bdb_read_loop dst (int n) (int p) (int (length (concat (x # xs))) - int p) (x # xs)
          = Some (dst @ take n (drop p x), int (p + n), int (length (concat (x # xs))) - int (p + n), x # xs)"
        using n p linorder_not_le [THEN iffD1, OF False] by (auto simp: Let_def)
      then show ?thesis using False p by (intro exI [of _ "p + n"] exI [of _ "x # xs"]) (simp add: add.commute)
    qed
  qed
qed simp

lemma bdb_read_ok:
  assumes "bdb_ok b" "0 \<le> n"
  shows "\<exists>c. bdb_read n b = Some (take (nat n) (bdb_data b), c) \<and> bdb_ok c \<and> bdb_data c = drop (nat n) (bdb_data b)"
proof -
  obtain bs p where b: "b = bdb_of bs p" "pos_ok bs p" using bdb_obtain assms by blast
  define m where "m = min (nat n) (length (concat bs) - p)"
  have m: "min n (byteAmount b) = int m" "m \<le> length (concat bs) - p"
    using assms(2) bdb_length [OF assms(1)] by (auto simp: b m_def)
  obtain q cs where q: "bdb_read_loop [] (int m) (int p) (int (length (concat bs)) - int p) bs
      = Some ([] @ take m (drop p (concat bs)), int q, int (length (concat cs)) - int q, cs)"
    "pos_ok cs q" "drop q (concat cs) = drop m (drop p (concat bs))" using read_loop_of [OF b(2) m(2)] by blast
  have "bdb_read n b = Some (take m (bdb_data b), bdb_of cs q)"
    using q(1) m(1) by (simp add: bdb_read_def b) (simp add: bdb_of_def)
  moreover have "take m (bdb_data b) = take (nat n) (bdb_data b)" "drop m (bdb_data b) = drop (nat n) (bdb_data b)"
    by (auto simp: b m_def min_def)
  ultimately show ?thesis using q(2,3) b by simp
qed


subsection \<open>Advancing the read pointer\<close>

lemma nonempty_arrays: "list_all (\<lambda>x. x \<noteq> []) xs \<Longrightarrow> (\<forall>x\<in>set xs. x = []) \<longleftrightarrow> xs = []"
  by (cases xs) auto

lemma nonempty_concat: "list_all (\<lambda>x. x \<noteq> []) xs \<Longrightarrow> length (concat xs) = 0 \<longleftrightarrow> xs = []"
  using nonempty_arrays [of xs] by simp

lemma advance_past:
  assumes "list_all (\<lambda>x. x \<noteq> []) xs" "length x \<le> m" "held = int (length (concat xs)) + (int (length x) - pos) + e" "0 \<le> e"
  shows "bdb_advance_loop (int m) pos held (x # xs) =
    (if xs = [] then (if e = 0 then Some (0, 0, []) else None)
     else bdb_advance_loop (int (m - length x)) pos (int (length (concat xs)) + e) xs)"
proof -
  define L where "L = length (concat xs)"
  have L: "L = 0 \<longleftrightarrow> xs = []" unfolding L_def by (rule nonempty_concat [OF assms(1)])
  have h: "held - (int (length x) - pos) = int L + e" using assms(3) by (simp add: L_def)
  have "int L + e = 0 \<longleftrightarrow> xs = [] \<and> e = 0" using L assms(4) by linarith
  moreover have "int (length x) \<le> int m" "int m - int (length x) = int (m - length x)" using assms(2) by simp_all
  ultimately show ?thesis unfolding bdb_advance_loop.simps(2) Let_def h L_def [symmetric]
    using L by (cases "xs = []") (simp_all del: of_nat_diff)
qed

lemma advance_within: "m < length x \<Longrightarrow> bdb_advance_loop (int m) pos held (x # xs) = Some (int m, held, x # xs)"
  by (simp add: Let_def)

declare bdb_advance_loop.simps(2) [simp del]

lemma advance_loop_fresh:
  assumes "bs \<noteq> []" "list_all (\<lambda>x. x \<noteq> []) bs" "n \<le> length (concat bs)"
  shows "\<exists>q cs. bdb_advance_loop (int n) 0 (int (length (concat bs))) bs = Some (int q, int (length (concat cs)), cs)
    \<and> pos_ok cs q \<and> drop q (concat cs) = drop n (concat bs)"
  using assms
proof (induction bs arbitrary: n)
  case (Cons x xs)
  have xs: "list_all (\<lambda>x. x \<noteq> []) xs" using Cons.prems(2) by simp
  show ?case
  proof (cases "length x \<le> n")
    case True
    note step = advance_past [OF xs True, of "int (length (concat (x # xs)))" 0 0]
    show ?thesis
    proof (cases "xs = []")
      case e: True
      moreover from this have "n = length x" using True Cons.prems(3) by simp
      ultimately show ?thesis using step by (intro exI [of _ 0] exI [of _ "[]"]) simp
    next
      case e: False
      have "n - length x \<le> length (concat xs)" using Cons.prems(3) by simp
      from Cons.IH [OF e xs this] show ?thesis using step e True by (simp del: of_nat_diff)
    qed
  next
    case False
    then show ?thesis using xs by (intro exI [of _ n] exI [of _ "x # xs"]) (simp add: advance_within)
  qed
qed simp

lemma advance_loop_stale:
  assumes "bs \<noteq> []" "list_all (\<lambda>x. x \<noteq> []) bs" "m \<le> length (concat bs)" "0 < p" "0 \<le> e"
  shows "if m = length (concat bs) then bdb_advance_loop (int m) (int p) (int (length (concat bs)) + e) bs = None
    else \<exists>q cs e'. bdb_advance_loop (int m) (int p) (int (length (concat bs)) + e) bs = Some (int q, int (length (concat cs)) + e', cs)
      \<and> pos_ok cs q \<and> drop q (concat cs) = drop m (concat bs) \<and> e \<le> e' \<and> (length (hd bs) \<le> m \<longrightarrow> e < e')"
  using assms
proof (induction bs arbitrary: m e)
  case (Cons x xs)
  have xs: "list_all (\<lambda>x. x \<noteq> []) xs" using Cons.prems(2) by simp
  show ?case
  proof (cases "length x \<le> m")
    case True
    have step: "bdb_advance_loop (int m) (int p) (int (length (concat (x # xs))) + e) (x # xs)
        = (if xs = [] then None else bdb_advance_loop (int (m - length x)) (int p) (int (length (concat xs)) + (e + int p)) xs)"
      using advance_past [OF xs True, of "int (length (concat (x # xs))) + e" "int p" "e + int p"] Cons.prems(4,5) by auto
    have m: "m - length x = length (concat xs) \<longleftrightarrow> m = length (concat (x # xs))" "drop m (concat (x # xs)) = drop (m - length x) (concat xs)"
      using True by auto
    show ?thesis
    proof (cases "xs = []")
      case e: True
      then have "m = length (concat (x # xs))" using True Cons.prems(3) by simp
      then show ?thesis using step e by simp
    next
      case e: False
      have "m - length x \<le> length (concat xs)" "0 \<le> e + int p" using Cons.prems(3,5) by simp_all
      from Cons.IH [OF e xs this(1) Cons.prems(4) this(2)] show ?thesis
        unfolding step m(2) using e m(1) Cons.prems(4) by (cases "m - length x = length (concat xs)") auto
    qed
  next
    case False
    then have "m \<noteq> length (concat (x # xs))" by auto
    then show ?thesis using False xs Cons.prems(5)
      by (subst if_not_P) (auto intro!: exI [of _ m] exI [of _ "x # xs"] exI [of _ e] simp: advance_within)
  qed
qed simp

text \<open>The second array is passed although some of the first one had been read.\<close>

definition advances_stale :: "int \<Rightarrow> byte_data_buffer \<Rightarrow> bool" where
  "advances_stale n b \<longleftrightarrow> firstPos b > 0 \<and> 2 \<le> bufferCount b \<and> int (length (concat (take 2 (bdb_buffers b)))) \<le> firstPos b + n"

lemma advance_of:
  "bdb_advanceReadPointer (int n) (bdb_of (x # xs) p) =
     (if p + n < length x then Some (bdb_of (x # xs) (p + n))
      else map_option (\<lambda>(q, held, cs). \<lparr>bdb_buffers = cs, bufferCompleteSize = held - q, firstPos = q\<rparr>)
             (bdb_advance_loop (int (p + n)) (int p) (int (length (concat (x # xs))) - int p) (x # xs)))"
  if "p < length x"
  using that by (auto simp: bdb_advanceReadPointer_def bdb_of_def bdb_isEmpty_def byteAmount_def Let_def split: option.split)

lemma advance_first:
  assumes "list_all (\<lambda>x. x \<noteq> []) xs" "length x \<le> m"
  shows "bdb_advance_loop (int m) (int p) (int (length (concat (x # xs))) - int p) (x # xs) =
    (if xs = [] then Some (0, 0, []) else bdb_advance_loop (int (m - length x)) (int p) (int (length (concat xs))) xs)"
  using advance_past [OF assms, of "int (length (concat (x # xs))) - int p" "int p" 0] by simp

lemma advance_ok:
  assumes b: "pos_ok bs p" "n \<le> length (concat bs) - p" and s: "\<not> advances_stale (int n) (bdb_of bs p)"
  shows "\<exists>q cs. bdb_advanceReadPointer (int n) (bdb_of bs p) = Some (bdb_of cs q) \<and> pos_ok cs q \<and> drop q (concat cs) = drop (p + n) (concat bs)"
proof (cases bs)
  case Nil
  then show ?thesis using b by (intro exI [of _ 0] exI [of _ "[]"]) (simp add: bdb_advanceReadPointer_def bdb_of_def bdb_isEmpty_def byteAmount_def)
next
  case (Cons x xs)
  have p: "p < length x" "list_all (\<lambda>x. x \<noteq> []) xs" using b Cons by simp_all
  show ?thesis
  proof (cases "p + n < length x")
    case True
    then show ?thesis using p by (intro exI [of _ "p + n"] exI [of _ "x # xs"]) (simp add: Cons advance_of)
  next
    case False
    then have n: "length x \<le> p + n" by simp
    note step = advance_of [OF p(1), of n xs] advance_first [OF p(2) n, of p]
    consider "xs = []" | "xs \<noteq> []" "p = 0" | y ys where "xs = y # ys" "p + n - length x < length y"
      using s n by (cases xs) (force simp: advances_stale_def bdb_of_def Cons bufferCount_def)+
    then show ?thesis
    proof cases
      case 1
      then show ?thesis using step n b(2) by (intro exI [of _ 0] exI [of _ "[]"]) (simp add: Cons bdb_of_def)
    next
      case 2
      have "p + n - length x \<le> length (concat xs)" using b(2) p(1) by (auto simp: Cons)
      then obtain q cs where "bdb_advance_loop (int (p + n - length x)) 0 (int (length (concat xs))) xs = Some (int q, int (length (concat cs)), cs)"
        "pos_ok cs q" "drop q (concat cs) = drop (p + n - length x) (concat xs)"
        using advance_loop_fresh [OF 2(1) p(2), of "p + n - length x"] by blast
      then show ?thesis using step n 2 by (intro exI [of _ q] exI [of _ cs]) (simp add: Cons bdb_of_def)
    next
      case 3
      then have y: "y \<noteq> []" "list_all (\<lambda>x. x \<noteq> []) ys" using p(2) by simp_all
      show ?thesis using step n 3 y advance_within [OF 3(2), of "int p" "int (length (concat (y # ys)))" ys]
        by (intro exI [of _ "p + n - length x"] exI [of _ "y # ys"]) (simp add: Cons bdb_of_def)
    qed
  qed
qed

lemma advance_stale:
  assumes b: "pos_ok bs p" "n \<le> length (concat bs) - p" and s: "advances_stale (int n) (bdb_of bs p)"
  shows "if n = length (concat bs) - p then bdb_advanceReadPointer (int n) (bdb_of bs p) = None
    else \<exists>c. bdb_advanceReadPointer (int n) (bdb_of bs p) = Some c \<and> bdb_data c = drop (p + n) (concat bs) \<and> int (length (bdb_data c)) < byteAmount c"
proof -
  obtain x y ys where bs: "bs = x # y # ys" using s by (auto simp: advances_stale_def bdb_of_def bufferCount_def numeral_2_eq_2 Suc_le_length_iff)
  have p: "0 < p" "p < length x" "list_all (\<lambda>x. x \<noteq> []) (y # ys)" and n: "length x + length y \<le> p + n"
    using b s by (auto simp: bs advances_stale_def bdb_of_def)
  define m where "m = p + n - length x"
  have m: "length y \<le> m" "m \<le> length (concat (y # ys))" "m = length (concat (y # ys)) \<longleftrightarrow> n = length (concat bs) - p"
    "drop m (concat (y # ys)) = drop (p + n) (concat bs)"
    using n b(2) p(2) by (auto simp: m_def bs)
  have step: "bdb_advanceReadPointer (int n) (bdb_of bs p)
      = map_option (\<lambda>(q, held, cs). \<lparr>bdb_buffers = cs, bufferCompleteSize = held - q, firstPos = q\<rparr>)
          (bdb_advance_loop (int m) (int p) (int (length (concat (y # ys))) + 0) (y # ys))"
    using advance_of [OF p(2), of n "y # ys"] advance_first [OF p(3), of x "p + n" p] n by (simp add: bs m_def)
  have l: "if m = length (concat (y # ys)) then bdb_advance_loop (int m) (int p) (int (length (concat (y # ys))) + 0) (y # ys) = None
    else \<exists>q cs e'. bdb_advance_loop (int m) (int p) (int (length (concat (y # ys))) + 0) (y # ys) = Some (int q, int (length (concat cs)) + e', cs)
      \<and> pos_ok cs q \<and> drop q (concat cs) = drop m (concat (y # ys)) \<and> 0 \<le> e' \<and> (length (hd (y # ys)) \<le> m \<longrightarrow> 0 < e')"
    using p m(2) by (intro advance_loop_stale) auto
  show ?thesis
  proof (cases "m = length (concat (y # ys))")
    case True
    then show ?thesis using l step m(3) by simp
  next
    case False
    then obtain q cs e' where q: "bdb_advance_loop (int m) (int p) (int (length (concat (y # ys))) + 0) (y # ys) = Some (int q, int (length (concat cs)) + e', cs)"
      "pos_ok cs q" "drop q (concat cs) = drop (p + n) (concat bs)" "0 < e'"
      using l m(1,4) by auto
    have "q \<le> length (concat cs)" using q(2) by (rule pos_ok_length)
    then show ?thesis using False q step m(3)
      by (intro if_not_P [THEN iffD2] exI conjI) (auto simp: bdb_data_def byteAmount_def)
  qed
qed

subsection \<open>Properties\<close>

lemma bdb_read_first_ok:
  assumes "bdb_ok b" "bdb_data b \<noteq> []"
  shows "\<exists>x c. bdb_read_first b = Some (x, c) \<and> x \<noteq> [] \<and> bdb_ok c \<and> x @ bdb_data c = bdb_data b"
proof -
  obtain bs p where b: "b = bdb_of bs p" "pos_ok bs p" using bdb_obtain assms by blast
  obtain cs where c: "squeezeFirst b = bdb_of cs 0" "pos_ok cs 0" "concat cs = drop p (concat bs)" using squeeze_of b by blast
  obtain y ys where y: "cs = y # ys" using assms(2) c(3) b(1) by (cases cs) simp_all
  have "bdb_read_first b = Some (y, bdb_of ys 0)" by (simp add: bdb_read_first_def c(1) Let_def y) (simp add: bdb_of_def y)
  moreover have "pos_ok ys 0" "y \<noteq> []" using c(2) pos_ok_zero [OF c(2), of ys] by (auto simp: y)
  ultimately show ?thesis using b(1) c(3) y by simp
qed

lemma bdb_readAll_ok:
  assumes "bdb_ok b" shows "\<exists>c. bdb_readAll b = Some (bdb_data b, c) \<and> bdb_ok c \<and> bdb_data c = []"
  using bdb_read_ok [OF assms, of "byteAmount b"] bdb_length [OF assms] by (simp add: bdb_readAll_def)

lemma bdb_getChar_ok:
  assumes "bdb_ok b" "bdb_data b = x # xs" shows "\<exists>c. bdb_getChar b = Some (x, c) \<and> bdb_ok c \<and> bdb_data c = xs"
  using bdb_read_ok [OF assms(1), of 1] assms(2) by (auto simp: bdb_getChar_def)

lemma bdb_readPointer_ok:
  assumes "bdb_ok b"
  shows "\<exists>y z. bdb_readPointer b = Some y \<and> bdb_data b = y @ z \<and> (y = [] \<longrightarrow> z = []) \<and> bdb_sizeNextBlock b = int (length y)"
proof -
  obtain bs p where b: "b = bdb_of bs p" "pos_ok bs p" using bdb_obtain assms by blast
  show ?thesis
  proof (cases bs)
    case Nil
    then show ?thesis using b bdb_empty [OF assms] by (simp add: bdb_readPointer_def bdb_sizeNextBlock_def) (simp add: bdb_of_def)
  next
    case (Cons x xs)
    then have "bdb_readPointer b = Some (drop p x)" "bdb_sizeNextBlock b = int (length (drop p x))" "p < length x"
      using b bdb_empty [OF assms] by (simp_all add: bdb_readPointer_def bdb_sizeNextBlock_def) (simp_all add: bdb_of_def)
    then show ?thesis using b(1) Cons by (intro exI [of _ "drop p x"] exI [of _ "concat xs"]) simp
  qed
qed

lemma indexOfChar_mem: "indexOfChar c xs = None \<longleftrightarrow> c \<notin> set xs"
  by (induction xs) auto

lemma bdb_canReadLine_ok:
  assumes "bdb_ok b" shows "bdb_canReadLine b \<longleftrightarrow> 10 \<in> set (bdb_data b)"
proof -
  obtain bs p where b: "b = bdb_of bs p" "pos_ok bs p" using bdb_obtain assms by blast
  then show ?thesis
    by (cases bs) (auto simp: bdb_canReadLine_def bdb_of_def bdb_data_def indexOfChar_mem list_ex_iff)
qed

lemma stale_beyond_first: "bdb_ok b \<Longrightarrow> advances_stale n b \<Longrightarrow> bdb_sizeNextBlock b < n"
  by (drule bdb_obtain)
    (auto simp: advances_stale_def bdb_of_def bdb_sizeNextBlock_def bufferCount_def numeral_2_eq_2 Suc_le_length_iff
      simp flip: length_greater_0_conv)

text \<open>\<open>advanceReadPointer\<close> drops octets from the front, except when a part of the first array had been read
  and the second array is passed as well: then the amount that is left is counted too high, and
  advancing over all that is left takes the front of an empty list.\<close>

theorem advance_read_pointer:
  assumes "bdb_ok b" "0 \<le> n" "n \<le> byteAmount b"
  shows "if \<not> advances_stale n b
    then \<exists>c. bdb_advanceReadPointer n b = Some c \<and> bdb_ok c \<and> bdb_data c = drop (nat n) (bdb_data b)
    else if n = byteAmount b then bdb_advanceReadPointer n b = None
    else \<exists>c. bdb_advanceReadPointer n b = Some c \<and> bdb_data c = drop (nat n) (bdb_data b) \<and> int (length (bdb_data c)) < byteAmount c"
proof -
  obtain bs p where b: "b = bdb_of bs p" "pos_ok bs p" using bdb_obtain assms by blast
  define m where "m = nat n"
  have n: "n = int m" "m \<le> length (concat bs) - p" "n = byteAmount b \<longleftrightarrow> m = length (concat bs) - p"
    using assms(2,3) bdb_length [OF assms(1)] by (auto simp: m_def b)
  have d: "drop m (drop p (concat bs)) = drop (p + m) (concat bs)" by (simp add: add.commute)
  show ?thesis
  proof (cases "advances_stale n b")
    case True
    then show ?thesis using advance_stale [OF b(2) n(2)] n b d by (auto split: if_splits)
  next
    case False
    then obtain q cs where "bdb_advanceReadPointer n b = Some (bdb_of cs q)" "pos_ok cs q" "drop q (concat cs) = drop (p + m) (concat bs)"
      using advance_ok [OF b(2) n(2)] n(1) b(1) by blast
    then show ?thesis using False n(1) b(1) d by auto
  qed
qed

theorem advance_read_pointer_witness:
  "bdb_advanceReadPointer 3 \<lparr>bdb_buffers = [[1, 2], [3, 4]], bufferCompleteSize = 3, firstPos = 1\<rparr> = None"
  using advance_read_pointer [of "\<lparr>bdb_buffers = [[1, 2], [3, 4]], bufferCompleteSize = 3, firstPos = 1\<rparr>" 3]
  by (simp add: bdb_ok_def bdb_of_def byteAmount_def advances_stale_def bufferCount_def)

text \<open>C26. A \<open>QByteDataBuffer\<close> behaves as the list of the octets it holds, whatever arrays it is divided into:
  the pending amount, appending and prepending arrays or another buffer, reading an amount, everything, one octet or the
  first array, looking for a line feed and the view of the first array are the operations on that list; the view is a
  front part of the list, empty only with the list. Advancing the read pointer drops octets from the
  front of the list, always so within the view. The exception is a step that passes the second array although a part of the first
  one had been read: the amount left is then counted too high, and if nothing is left the result is undefined.\<close>

theorem byte_data_buffer_refines:
  assumes "bdb_ok b" "bdb_ok a" "0 \<le> n"
  shows "byteAmount b = int (length (bdb_data b)) \<and> (bdb_isEmpty b \<longleftrightarrow> bdb_data b = [])
    \<and> bdb_ok (bdb_append x b) \<and> bdb_data (bdb_append x b) = bdb_data b @ x
    \<and> bdb_ok (bdb_prepend x b) \<and> bdb_data (bdb_prepend x b) = x @ bdb_data b
    \<and> (\<exists>c. bdb_append_all a b = Some c \<and> bdb_ok c \<and> bdb_data c = bdb_data b @ bdb_data a)
    \<and> (\<exists>c. bdb_read n b = Some (take (nat n) (bdb_data b), c) \<and> bdb_ok c \<and> bdb_data c = drop (nat n) (bdb_data b))
    \<and> (\<exists>c. bdb_readAll b = Some (bdb_data b, c) \<and> bdb_ok c \<and> bdb_data c = [])
    \<and> (\<forall>x xs. bdb_data b = x # xs \<longrightarrow> (\<exists>c. bdb_getChar b = Some (x, c) \<and> bdb_ok c \<and> bdb_data c = xs))
    \<and> (bdb_data b \<noteq> [] \<longrightarrow> (\<exists>y c. bdb_read_first b = Some (y, c) \<and> y \<noteq> [] \<and> bdb_ok c \<and> y @ bdb_data c = bdb_data b))
    \<and> (bdb_canReadLine b \<longleftrightarrow> 10 \<in> set (bdb_data b))
    \<and> (\<exists>y z. bdb_readPointer b = Some y \<and> bdb_data b = y @ z \<and> (y = [] \<longrightarrow> z = []) \<and> bdb_sizeNextBlock b = int (length y))
    \<and> (advances_stale n b \<longrightarrow> bdb_sizeNextBlock b < n)
    \<and> (n \<le> byteAmount b \<longrightarrow>
        (if \<not> advances_stale n b
         then \<exists>c. bdb_advanceReadPointer n b = Some c \<and> bdb_ok c \<and> bdb_data c = drop (nat n) (bdb_data b)
         else if n = byteAmount b then bdb_advanceReadPointer n b = None
         else \<exists>c. bdb_advanceReadPointer n b = Some c \<and> bdb_data c = drop (nat n) (bdb_data b) \<and> int (length (bdb_data c)) < byteAmount c))"
proof (intro conjI impI allI)
  show "bdb_isEmpty b \<longleftrightarrow> bdb_data b = []"
    using bdb_length [OF assms(1)] by (simp add: bdb_isEmpty_def)
  show "if \<not> advances_stale n b
      then \<exists>c. bdb_advanceReadPointer n b = Some c \<and> bdb_ok c \<and> bdb_data c = drop (nat n) (bdb_data b)
      else if n = byteAmount b then bdb_advanceReadPointer n b = None
      else \<exists>c. bdb_advanceReadPointer n b = Some c \<and> bdb_data c = drop (nat n) (bdb_data b) \<and> int (length (bdb_data c)) < byteAmount c"
    if "n \<le> byteAmount b" using advance_read_pointer [OF assms(1,3) that] .
  show "\<exists>y c. bdb_read_first b = Some (y, c) \<and> y \<noteq> [] \<and> bdb_ok c \<and> y @ bdb_data c = bdb_data b" if "bdb_data b \<noteq> []"
    using bdb_read_first_ok [OF assms(1) that] .
qed (simp_all only: bdb_length [OF assms(1)] bdb_append_ok [OF assms(1)] bdb_prepend_ok [OF assms(1)] bdb_append_all_ok [OF assms(1,2)]
    bdb_read_ok [OF assms(1,3)] bdb_readAll_ok [OF assms(1)] bdb_getChar_ok [OF assms(1)]
    bdb_canReadLine_ok [OF assms(1)] bdb_readPointer_ok [OF assms(1)] stale_beyond_first [OF assms(1)])

theorem byte_data_buffer_refines_witness:
  "\<exists>c. bdb_read 3 (bdb_append [3, 4] (bdb_append [1, 2] QByteDataBuffer)) = Some ([1, 2, 3], c) \<and> bdb_data c = [4]"
proof -
  have a: "bdb_ok (bdb_append [1, 2] QByteDataBuffer)" "bdb_data (bdb_append [1, 2] QByteDataBuffer) = [1, 2]"
    using byte_data_buffer_refines [OF bdb_new(1) bdb_new(1), of 0 "[1, 2]"] by simp_all
  then have "bdb_ok (bdb_append [3, 4] (bdb_append [1, 2] QByteDataBuffer))"
    "bdb_data (bdb_append [3, 4] (bdb_append [1, 2] QByteDataBuffer)) = [1, 2, 3, 4]"
    using byte_data_buffer_refines [OF a(1) bdb_new(1), of 0 "[3, 4]"] by simp_all
  then show ?thesis
    using byte_data_buffer_refines [OF _ bdb_new(1), of "bdb_append [3, 4] (bdb_append [1, 2] QByteDataBuffer)" 3 "[]"] by auto
qed

end
