(* ===== verification/HttpParser.thy ===== *)
theory HttpParser
  imports HttpHeaders ByteDataBuffer
begin

text \<open>
  \<open>QHttpHeaderParser\<close> of \<open>src/network/access/qhttpheaderparser.cpp\<close>: the status line, the header block with
  its limits and folded values, and access to the fields.
\<close>

unbundle bit_operations_syntax

subsection \<open>The header parser\<close>

definition MAX_HEADER_FIELD_SIZE :: int where "MAX_HEADER_FIELD_SIZE = 100 * 1024"
definition MAX_HEADER_FIELDS :: nat where "MAX_HEADER_FIELDS = 100"
definition MAX_TOTAL_HEADER_SIZE :: int where "MAX_TOTAL_HEADER_SIZE = 256 * 1024"

record http_parser =
  parser_fields :: http_headers
  reasonPhrase :: bytes
  statusCode :: int
  majorVersion :: int
  minorVersion :: int
  maxFieldSize :: int
  maxTotalSize :: int
  maxFieldCount :: nat

definition QHttpHeaderParser :: http_parser where
  "QHttpHeaderParser = \<lparr>parser_fields = QHttpHeaders, reasonPhrase = [], statusCode = 100, majorVersion = 0, minorVersion = 0,
     maxFieldSize = MAX_HEADER_FIELD_SIZE, maxTotalSize = MAX_TOTAL_HEADER_SIZE, maxFieldCount = MAX_HEADER_FIELDS\<rparr>"

definition parser_clear :: "http_parser \<Rightarrow> http_parser" where
  "parser_clear p = p\<lparr>statusCode := 100, majorVersion := 0, minorVersion := 0, reasonPhrase := [],
     parser_fields := headers_clear (parser_fields p)\<rparr>"

definition fieldNameCheck :: "bytes \<Rightarrow> bool" where
  "fieldNameCheck name \<longleftrightarrow> name \<noteq> [] \<and> list_all (\<lambda>c. 0x61 \<le> c \<and> c \<le> 0x7A \<or> 0x41 \<le> c \<and> c \<le> 0x5A \<or> 0x30 \<le> c \<and> c \<le> 0x39
     \<or> c \<in> set (chars ''!#$%&'' @ [0x27] @ chars ''*+-.^_`|~'')) name"

definition hSpaceStart :: "bytes \<Rightarrow> bool" where
  "hSpaceStart h \<longleftrightarrow> startsWith h [32] \<or> startsWith h [9]"

text \<open>Empty lines at the end: one line end is left.\<close>

function chop_empty_lines :: "bytes \<Rightarrow> bytes" where
  "chop_empty_lines header =
     (if endsWith header [10, 13, 10] then chop_empty_lines (take (length header - 2) header)
      else if endsWith header [10, 10] then chop_empty_lines (take (length header - 1) header)
      else header)"
  by pat_completeness auto
termination by (relation "measure length") (auto simp: endsWith_def)

declare chop_empty_lines.simps [simp del]

text \<open>The lines of one value. \<open>None\<close> is a line without an end, which the source excludes with an
  assertion; otherwise the value with the text after it, or \<open>Inl\<close> when the value is too long.\<close>

function field_value :: "bytes \<Rightarrow> bytes \<Rightarrow> int \<Rightarrow> (unit + bytes \<times> bytes) option" where
  "field_value header val valueSpace =
     (case indexOfChar 10 header of
        None \<Rightarrow> None
      | Some endLine \<Rightarrow>
          let line = take endLine header;
              valueSpace = valueSpace - (int (length line) - (if endsWith line [13] then 1 else 0))
          in if valueSpace < 0 then Some (Inl ())
             else let line = trimmed line;
                      val = (if line = [] then val else if val \<noteq> [] then val @ [32] @ line else line);
                      header = drop (Suc endLine) header
                  in if hSpaceStart header then field_value header val valueSpace else Some (Inr (val, header)))"
  by pat_completeness auto

termination field_value by (relation "measure (\<lambda>(header, _). length header)") (auto dest: indexOfChar_bound)

declare field_value.simps [simp del]

lemma field_value_shorter: "field_value header val valueSpace = Some (Inr (v, rest)) \<Longrightarrow> length rest < length header"
proof (induction "length header" arbitrary: header val valueSpace rule: less_induct)
  case less
  obtain e where e: "indexOfChar 10 header = Some e"
    using less.prems by (subst (asm) field_value.simps) (auto split: option.splits)
  have d: "length (drop (Suc e) header) < length header" using indexOfChar_bound [OF e] by simp
  from less.prems e show ?case
    by (subst (asm) field_value.simps) (use d in \<open>auto simp: Let_def split: if_splits dest!: less.hyps [OF d]\<close>)
qed

text \<open>The loop over the fields: \<open>Inl b\<close> returns \<open>b\<close> at once, \<open>Inr\<close> are the fields that were read.\<close>

function parse_fields :: "http_parser \<Rightarrow> bytes \<Rightarrow> http_headers \<Rightarrow> (bool + http_headers) option" where
  "parse_fields p header result =
     (if header = [] then Some (Inr result)
      else case indexOfChar 0x3A header of
             None \<Rightarrow> Some (Inl (headers_isEmpty result \<and> (header = [10] \<or> header = [13, 10])))
           | Some colon \<Rightarrow>
               if headers_size result \<ge> maxFieldCount p then Some (Inl False)
               else let name = take colon header
                    in if \<not> fieldNameCheck name then Some (Inl False)
                       else (case field_value (drop (Suc colon) header) [] (maxFieldSize p - int (length name) - 1) of
                              None \<Rightarrow> None
                            | Some (Inl _) \<Rightarrow> Some (Inl False)
                            | Some (Inr (val, rest)) \<Rightarrow> parse_fields p rest (snd (headers_append name val result))))"
  by pat_completeness auto
termination
  by (relation "measure (\<lambda>(p, header, r). length header)") (auto dest!: field_value_shorter)

declare parse_fields.simps [simp del]

definition parseHeaders :: "bytes \<Rightarrow> http_parser \<Rightarrow> (bool \<times> http_parser) option" where
  "parseHeaders header p =
     (if hSpaceStart header \<or> header \<noteq> [] \<and> \<not> endsWith header [10] then Some (False, p)
      else let header = chop_empty_lines header
           in if int (length header) - (if endsWith header [13, 10] then 2 else 1) > maxTotalSize p then Some (False, p)
              else case parse_fields p header QHttpHeaders of
                     None \<Rightarrow> None
                   | Some (Inl b) \<Rightarrow> Some (b, p)
                   | Some (Inr result) \<Rightarrow> Some (True, p\<lparr>parser_fields := result\<rparr>))"

text \<open>A \<open>char\<close> as the signed number it is.\<close>

definition schar :: "byte \<Rightarrow> int" where "schar c = sint c"

definition parseStatus :: "bytes \<Rightarrow> http_parser \<Rightarrow> bool \<times> http_parser" where
  "parseStatus status p =
     (if length status < 11 \<or> \<not> startsWith status (chars ''HTTP/'') \<or> status ! 6 \<noteq> 0x2E \<or> status ! 8 \<noteq> 32 then (False, p)
      else let major = schar (status ! 5) - 0x30;
               minor = schar (status ! 7) - 0x30;
               j = map_option (\<lambda>k. k + 9) (indexOfChar 32 (drop 9 status));
               code = (case j of Some j \<Rightarrow> take (j - 9) (drop 9 status) | None \<Rightarrow> drop 9 status);
               parsed = toInt code 10;
               reason = (case j of Some j \<Rightarrow> drop (Suc j) status | None \<Rightarrow> [])
           in (parsed \<noteq> None \<and> 0 \<le> major \<and> major \<le> 9 \<and> 0 \<le> minor \<and> minor \<le> 9,
               p\<lparr>majorVersion := major, minorVersion := minor,
                 statusCode := (case parsed of Some n \<Rightarrow> n | None \<Rightarrow> 0), reasonPhrase := reason\<rparr>))"

definition firstHeaderField :: "bytes \<Rightarrow> http_parser \<Rightarrow> bytes" where
  "firstHeaderField name p = headers_value name [] (parser_fields p)"

definition combinedHeaderValue :: "bytes \<Rightarrow> bytes \<Rightarrow> http_parser \<Rightarrow> bytes" where
  "combinedHeaderValue name defaultValue p =
     (let allValues = headers_values name (parser_fields p)
      in if allValues = [] then defaultValue else join_bytes (chars '', '') allValues)"

definition removeHeaderField :: "bytes \<Rightarrow> http_parser \<Rightarrow> http_parser" where
  "removeHeaderField name p = p\<lparr>parser_fields := headers_removeAll name (parser_fields p)\<rparr>"

definition appendHeaderField :: "bytes \<Rightarrow> bytes \<Rightarrow> http_parser \<Rightarrow> http_parser" where
  "appendHeaderField name val p = p\<lparr>parser_fields := snd (headers_append name val (parser_fields p))\<rparr>"

definition setHeaderField :: "bytes \<Rightarrow> bytes \<Rightarrow> http_parser \<Rightarrow> http_parser" where
  "setHeaderField name val p = appendHeaderField name val (removeHeaderField name p)"

definition prependHeaderField :: "bytes \<Rightarrow> bytes \<Rightarrow> http_parser \<Rightarrow> http_parser" where
  "prependHeaderField name val p =
     p\<lparr>parser_fields := (case headers_insert 0 name val (parser_fields p) of Some (_, d) \<Rightarrow> d | None \<Rightarrow> parser_fields p)\<rparr>"

end
