(* ===== verification/HttpReply.thy ===== *)
theory HttpReply
  imports HttpParser Http2Frames
begin

text \<open>
  Receiving an HTTP/1 reply: \<open>QHttpNetworkReplyPrivate\<close> of \<open>src/network/access/qhttpnetworkreply.cpp\<close> (status
  line, header block, the body by length, to the end of the connection or in chunks) and the loop of
  \<open>QHttpProtocolHandler::_q_receiveReply\<close> in \<open>qhttpprotocolhandler.cpp\<close>. The socket is the device of the
  frames; reads that may block the loop for ever are excluded by \<open>option\<close>, where \<open>None\<close> also stands for
  undefined behaviour.
\<close>

unbundle bit_operations_syntax

subsection \<open>The socket\<close>

text \<open>\<open>QIODevice::read\<close> of a socket: the number of octets read, 0 when none has arrived, -1 when none is
  left of a connection that is closed, and for a negative size.\<close>

definition sock_read :: "int \<Rightarrow> io_device \<Rightarrow> int \<times> bytes \<times> io_device" where
  "sock_read n dev =
     (if n < 0 then (-1, [], dev)
      else if n = 0 then (0, [], dev)
      else if dev_in dev = [] then (if dev_open dev then 0 else -1, [], dev)
      else (min n (int (length (dev_in dev))), dev_read (nat n) dev))"

definition sock_peek :: "nat \<Rightarrow> io_device \<Rightarrow> bytes" where
  "sock_peek n dev = take n (dev_in dev)"

definition bytesAvailable :: "io_device \<Rightarrow> nat" where
  "bytesAvailable dev = length (dev_in dev)"

subsection \<open>The reply\<close>

datatype reply_state = NothingDoneState | ReadingStatusState | ReadingHeaderState | ReadingDataState | AllDoneState | Aborted

text \<open>Of the request the reply asks whether it is a HEAD request and whether redirects are followed.\<close>

record http_reply =
  r_state :: reply_state
  parser :: http_parser
  is_head :: bool
  isFollowRedirects :: bool
  bodyLength :: int
  contentRead :: int
  totalProgress :: int
  fragment :: bytes
  chunkedTransferEncoding :: bool
  connectionCloseEnabled :: bool
  forceConnectionCloseEnabled :: bool
  lastChunkRead :: bool
  currentChunkSize :: int
  currentChunkRead :: int
  readBufferMaxSize :: int
  removedContentLength :: int
  autoDecompress :: bool
  downstreamLimited :: bool
  responseData :: byte_data_buffer

definition QHttpNetworkReply :: "bool \<Rightarrow> bool \<Rightarrow> http_reply" where
  "QHttpNetworkReply head follow =
     \<lparr>r_state = NothingDoneState, parser = QHttpHeaderParser, is_head = head, isFollowRedirects = follow,
      bodyLength = 0, contentRead = 0, totalProgress = 0, fragment = [], chunkedTransferEncoding = False,
      connectionCloseEnabled = True, forceConnectionCloseEnabled = False, lastChunkRead = False, currentChunkSize = 0,
      currentChunkRead = 0, readBufferMaxSize = 0, removedContentLength = -1, autoDecompress = False,
      downstreamLimited = False, responseData = QByteDataBuffer\<rparr>"

definition clearHttpLayerInformation :: "http_reply \<Rightarrow> http_reply" where
  "clearHttpLayerInformation r =
     r\<lparr>r_state := NothingDoneState, bodyLength := 0, contentRead := 0, totalProgress := 0, currentChunkSize := 0,
       currentChunkRead := 0, lastChunkRead := False, connectionCloseEnabled := True, parser := parser_clear (parser r)\<rparr>"

definition reply_clear :: "http_reply \<Rightarrow> http_reply" where
  "reply_clear r = clearHttpLayerInformation (r\<lparr>autoDecompress := False\<rparr>)"

definition headerField :: "bytes \<Rightarrow> http_reply \<Rightarrow> bytes" where
  "headerField name r = combinedHeaderValue name [] (parser r)"

text \<open>The value is read as a \<open>quint64\<close> and stored in a \<open>qint64\<close>.\<close>

definition contentLength :: "http_reply \<Rightarrow> int" where
  "contentLength r =
     (case toUnsignedInteger (firstHeaderField (chars ''content-length'') (parser r)) 10 of
        Some n \<Rightarrow> if n \<ge> 2 ^ 63 then int n - 2 ^ 64 else int n
      | None \<Rightarrow> -1)"

text \<open>The encodings that are compiled in besides gzip and deflate are a parameter.\<close>

definition isCompressed :: "bytes list \<Rightarrow> http_reply \<Rightarrow> bool" where
  "isCompressed extra r \<longleftrightarrow>
     list_ex (\<lambda>e. equals_ignoring_case (headerField (chars ''content-encoding'') r) e) (extra @ [chars ''gzip'', chars ''deflate''])"

definition removeAutoDecompressHeader :: "http_reply \<Rightarrow> http_reply" where
  "removeAutoDecompressHeader r =
     (case toSignedInteger (firstHeaderField (chars ''content-length'') (parser r)) 10 of
        Some n \<Rightarrow> r\<lparr>removedContentLength := n, parser := removeHeaderField (chars ''content-length'') (parser r)\<rparr>
      | None \<Rightarrow> r)"

definition isHttpRedirect :: "int \<Rightarrow> bool" where
  "isHttpRedirect status \<longleftrightarrow> status \<in> {301, 302, 303, 305, 307, 308}"

definition isRedirecting :: "http_reply \<Rightarrow> bool" where
  "isRedirecting r \<longleftrightarrow> isHttpRedirect (statusCode (parser r)) \<and> isFollowRedirects r"

definition shouldEmitSignals :: "http_reply \<Rightarrow> bool" where
  "shouldEmitSignals r \<longleftrightarrow> statusCode (parser r) \<noteq> 401 \<and> statusCode (parser r) \<noteq> 407"

definition expectContent :: "http_reply \<Rightarrow> bool" where
  "expectContent r =
     (let status = statusCode (parser r)
      in if status \<ge> 100 \<and> status < 200 \<or> status = 204 \<or> status = 304 then False
         else if is_head r then False
         else if contentLength r = 0 then False
         else if contentLength r = -1 \<and> bodyLength r = 0 then False
         else True)"

definition isConnectionCloseEnabled :: "http_reply \<Rightarrow> bool" where
  "isConnectionCloseEnabled r \<longleftrightarrow> connectionCloseEnabled r \<or> forceConnectionCloseEnabled r"

definition supportsUserProvidedDownloadBuffer :: "http_reply \<Rightarrow> bool" where
  "supportsUserProvidedDownloadBuffer r \<longleftrightarrow>
     \<not> chunkedTransferEncoding r \<and> \<not> autoDecompress r \<and> bodyLength r > 0 \<and> statusCode (parser r) = 200"

subsection \<open>The status line and the header block\<close>

function readStatus_loop :: "int \<Rightarrow> http_reply \<Rightarrow> io_device \<Rightarrow> int \<times> http_reply \<times> io_device" where
  "readStatus_loop bytes r dev =
     (case dev_in dev of
        [] \<Rightarrow> (if dev_open dev then bytes else -1, r, dev)
      | c # _ \<Rightarrow>
          let dev = snd (dev_read 1 dev)
          in if fragment r = [] \<and> c \<in> {11, 10, 13, 32, 31} then readStatus_loop bytes r dev
             else let bytes = bytes + 1
                  in if c = 10
                     then let frag = (if endsWith (fragment r) [13] then butlast (fragment r) else fragment r);
                              (ok, p) = parseStatus frag (parser r);
                              r = r\<lparr>parser := p, r_state := ReadingHeaderState, fragment := []\<rparr>
                          in (if ok then bytes else -1, r, dev)
                     else let r = r\<lparr>fragment := fragment r @ [c]\<rparr>
                          in if length (fragment r) = 5 \<and> \<not> startsWith (fragment r) (chars ''HTTP/'')
                             then (-1, r\<lparr>fragment := []\<rparr>, dev)
                             else readStatus_loop bytes r dev)"
  by pat_completeness auto
termination by (relation "measure (\<lambda>(_, _, dev). length (dev_in dev))") (auto simp: dev_read_def)

declare readStatus_loop.simps [simp del]

definition readStatus :: "http_reply \<Rightarrow> io_device \<Rightarrow> int \<times> http_reply \<times> io_device" where
  "readStatus r dev = readStatus_loop 0 r dev"

text \<open>The end of the header block: two line ends, or a line end alone.\<close>

definition ends_headers :: "bytes \<Rightarrow> bool" where
  "ends_headers frag \<longleftrightarrow> endsWith frag [10, 13, 10] \<or> endsWith frag [10, 10] \<or> frag = [13, 10] \<or> frag = [10]"

function readHeader_loop :: "int \<Rightarrow> http_reply \<Rightarrow> io_device \<Rightarrow> (int \<times> bool \<times> http_reply \<times> io_device)" where
  "readHeader_loop bytes r dev =
     (case dev_in dev of
        [] \<Rightarrow> (if dev_open dev then bytes else -1, False, r, dev)
      | c # _ \<Rightarrow>
          let dev = snd (dev_read 1 dev);
              r = r\<lparr>fragment := fragment r @ [c]\<rparr>;
              bytes = bytes + 1
          in if c = 10 \<and> ends_headers (fragment r) then (bytes, True, r, dev)
             else readHeader_loop bytes r dev)"
  by pat_completeness auto
termination by (relation "measure (\<lambda>(_, _, dev). length (dev_in dev))") (auto simp: dev_read_def)

declare readHeader_loop.simps [simp del]

text \<open>The result of \<open>parseHeaders\<close> is not looked at.\<close>

definition headers_received :: "http_reply \<Rightarrow> http_reply option" where
  "headers_received r =
     (case parseHeaders (fragment r) (parser r) of
        None \<Rightarrow> None
      | Some (_, p) \<Rightarrow>
          let r = r\<lparr>parser := p, r_state := ReadingDataState, fragment := []\<rparr>;
              r = r\<lparr>bodyLength := contentLength r,
                    chunkedTransferEncoding := contains_bytes (chars ''chunked'') (toLower (headerField (chars ''transfer-encoding'') r))\<rparr>;
              connection = headerField (chars ''connection'') r;
              proxy = toLower (headerField (chars ''proxy-connection'') r)
          in Some (r\<lparr>connectionCloseEnabled :=
                       contains_bytes (chars ''close'') (toLower connection) \<or> contains_bytes (chars ''close'') proxy
                       \<or> majorVersion p = 1 \<and> minorVersion p = 0 \<and> connection = [] \<and> \<not> contains_bytes (chars ''keep-alive'') proxy\<rparr>))"

definition readReplyHeader :: "http_reply \<Rightarrow> io_device \<Rightarrow> (int \<times> http_reply \<times> io_device) option" where
  "readReplyHeader r dev =
     (let (bytes, allHeaders, r, dev) = readHeader_loop 0 r dev
      in if allHeaders then map_option (\<lambda>r. (bytes, r, dev)) (headers_received r) else Some (bytes, r, dev))"

subsection \<open>The body\<close>

definition readBodyVeryFast :: "http_reply \<Rightarrow> io_device \<Rightarrow> int \<times> bytes \<times> http_reply \<times> io_device" where
  "readBodyVeryFast r dev =
     (let (haveRead, bs, dev) = sock_read (bodyLength r - contentRead r) dev
      in if haveRead = -1 then (-1, [], r, dev)
         else let r = r\<lparr>contentRead := contentRead r + haveRead\<rparr>
              in (haveRead, bs, if contentRead r = bodyLength r then r\<lparr>r_state := AllDoneState\<rparr> else r, dev))"

definition readBodyFast :: "http_reply \<Rightarrow> io_device \<Rightarrow> int \<times> http_reply \<times> io_device" where
  "readBodyFast r dev =
     (let toBeRead = min (int (bytesAvailable dev)) (bodyLength r - contentRead r);
          toBeRead = (if readBufferMaxSize r \<noteq> 0 then min toBeRead (readBufferMaxSize r) else toBeRead)
      in if toBeRead = 0 then (0, r, dev)
         else let (haveRead, bs, dev) = sock_read toBeRead dev
              in if haveRead = -1 then (0, r, dev)
                 else let r = r\<lparr>responseData := bdb_append bs (responseData r)\<rparr>;
                          r = (if contentRead r + haveRead = bodyLength r then r\<lparr>r_state := AllDoneState\<rparr> else r)
                      in (haveRead, r\<lparr>contentRead := contentRead r + haveRead\<rparr>, dev))"

text \<open>The loop of \<open>readReplyBodyRaw\<close>: the octets read so far and those still wanted.\<close>

function raw_loop :: "int \<Rightarrow> int \<Rightarrow> int \<Rightarrow> byte_data_buffer \<Rightarrow> io_device \<Rightarrow> int \<times> byte_data_buffer \<times> io_device" where
  "raw_loop toBeRead bytes wanted out dev =
     (if toBeRead \<le> 0 \<or> dev_in dev = [] then (bytes, out, dev)
      else let (haveRead, bs, dev) = sock_read toBeRead dev;
               wanted = wanted - haveRead
           in raw_loop (min (128 * 1024) (min wanted (int (bytesAvailable dev)))) (bytes + haveRead) wanted (bdb_append bs out) dev)"
  by pat_completeness auto
termination
  by (relation "measure (\<lambda>(_, _, _, _, dev). length (dev_in dev))") (auto simp: sock_read_def dev_read_def split: if_splits)

declare raw_loop.simps [simp del]

definition readReplyBodyRaw :: "int \<Rightarrow> http_reply \<Rightarrow> io_device \<Rightarrow> int \<times> http_reply \<times> io_device" where
  "readReplyBodyRaw wanted r dev =
     (let toBeRead = min (128 * 1024) (min wanted (int (bytesAvailable dev)));
          toBeRead = (if readBufferMaxSize r \<noteq> 0 then i32 (min toBeRead (readBufferMaxSize r)) else toBeRead);
          (bytes, out, dev) = raw_loop toBeRead 0 wanted (responseData r) dev
      in (bytes, r\<lparr>responseData := out\<rparr>, dev))"

lemma raw_loop_shorter: "length (dev_in (snd (snd (raw_loop toBeRead bytes wanted out dev)))) \<le> length (dev_in dev)"
proof (induction toBeRead bytes wanted out dev rule: raw_loop.induct)
  case (1 toBeRead bytes wanted out dev)
  show ?case
  proof (cases "toBeRead \<le> 0 \<or> dev_in dev = []")
    case True
    then show ?thesis by (simp add: raw_loop.simps)
  next
    case False
    obtain h bs d where s: "sock_read toBeRead dev = (h, bs, d)" by (metis prod_cases3)
    then have "length (dev_in d) \<le> length (dev_in dev)" by (auto simp: sock_read_def dev_read_def split: if_splits)
    then show ?thesis using 1 [OF False refl s [symmetric] refl refl] False s by (subst raw_loop.simps) (simp add: Let_def)
  qed
qed

subsection \<open>Chunks\<close>

text \<open>The loop of \<open>getChunkSize\<close>: the octets read so far, the size when its line is complete (-1 otherwise), and the fragment.
  \<open>toLong\<close> is that of a platform whose \<open>long\<close> has 64 bits.\<close>

function chunk_size_loop :: "int \<Rightarrow> int \<Rightarrow> bytes \<Rightarrow> io_device \<Rightarrow> int \<times> int \<times> bytes \<times> io_device" where
  "chunk_size_loop available bytes frag dev =
     (if available \<le> bytes \<or> dev_in dev = [] then (bytes, -1, frag, dev)
      else let crlf = sock_peek 2 dev
           in if frag \<noteq> [] \<and> crlf = [13, 10] \<or> length frag > 1 \<and> endsWith frag [13] \<and> hd crlf = 10
              then let n = (if hd crlf = 13 then 2 else 1);
                       line = (case indexOfChar 0x3B frag of Some k \<Rightarrow> take k frag | None \<Rightarrow> frag);
                       size = (case toSignedInteger (trimmed line) 16 of Some v \<Rightarrow> v | None \<Rightarrow> 0)
                   in (bytes + int n, size, [], snd (dev_read n dev))
              else chunk_size_loop available (bytes + 1) (frag @ [hd crlf]) (snd (dev_read 1 dev)))"
  by pat_completeness auto
termination by (relation "measure (\<lambda>(_, _, _, dev). length (dev_in dev))") (auto simp: dev_read_def)

declare chunk_size_loop.simps [simp del]

definition getChunkSize :: "http_reply \<Rightarrow> io_device \<Rightarrow> int \<times> int \<times> http_reply \<times> io_device" where
  "getChunkSize r dev =
     (let (bytes, size, frag, dev) = chunk_size_loop (i32 (int (bytesAvailable dev))) 0 (fragment r) dev
      in (bytes, size, r\<lparr>fragment := frag\<rparr>, dev))"

lemma chunk_size_loop_shorter:
  "chunk_size_loop available bytes frag dev = (b, s, f, dev') \<Longrightarrow> length (dev_in dev') \<le> length (dev_in dev)
     \<and> (s = -1 \<or> length (dev_in dev') < length (dev_in dev))"
proof (induction available bytes frag dev rule: chunk_size_loop.induct)
  case (1 available bytes frag dev)
  show ?case
  proof (cases "available \<le> bytes \<or> dev_in dev = []")
    case True
    then show ?thesis using 1(2) by (simp add: chunk_size_loop.simps)
  next
    case False
    then obtain c cs where d: "dev_in dev = c # cs" by (cases "dev_in dev") auto
    show ?thesis using 1(2) 1(1) [OF False refl] False
      by (subst (asm) chunk_size_loop.simps) (auto simp: Let_def dev_read_def d split: if_splits)
  qed
qed

text \<open>The start of a chunk: the line end after the chunk before it, when that chunk ended in this call, and
  the line of its size. The first result says whether the loop goes on.\<close>

definition begin_chunk :: "int \<Rightarrow> http_reply \<Rightarrow> io_device \<Rightarrow> bool \<times> int \<times> http_reply \<times> io_device" where
  "begin_chunk bytes r dev =
     (if \<not> lastChunkRead r \<and> currentChunkRead r \<ge> currentChunkSize r
      then let r = r\<lparr>currentChunkSize := 0, currentChunkRead := 0\<rparr>;
               (haveRead, _, dev) = (if bytes \<noteq> 0 then sock_read 2 dev else (0, [], dev))
           in if bytes \<noteq> 0 \<and> haveRead \<noteq> 2 then (False, bytes, r, dev)
              else let bytes = bytes + haveRead;
                       (n, size, r, dev) = getChunkSize r dev
                   in (size \<noteq> -1, bytes + n, r\<lparr>currentChunkSize := size\<rparr>, dev)
      else (True, bytes, r, dev))"

text \<open>After the last chunk: the line end that closes the body; anything else closes the connection.\<close>

definition end_chunks :: "int \<Rightarrow> http_reply \<Rightarrow> io_device \<Rightarrow> int \<times> http_reply \<times> io_device" where
  "end_chunks bytes r dev =
     (let r = r\<lparr>lastChunkRead := True\<rparr>;
          (haveRead, crlf, dev) = sock_read 2 dev;
          bytes = (if haveRead > 0 then bytes + haveRead else bytes)
      in if crlf = [13, 10] \<or> crlf = [10] then (bytes, r\<lparr>r_state := AllDoneState\<rparr>, dev)
         else if crlf = [13] then (bytes, r, dev)
         else if haveRead > 0 then (bytes, r\<lparr>forceConnectionCloseEnabled := True, r_state := AllDoneState\<rparr>, dev)
         else (bytes, r, dev))"

lemma begin_chunk_shorter:
  assumes "begin_chunk bytes r dev = (go, b, r', dev')"
  shows "length (dev_in dev') \<le> length (dev_in dev)"
    "go \<Longrightarrow> length (dev_in dev') = length (dev_in dev) \<Longrightarrow> r' = r \<and> b = bytes \<and> (lastChunkRead r \<or> currentChunkRead r < currentChunkSize r)"
  using assms
  by (auto simp: begin_chunk_def getChunkSize_def sock_read_def dev_read_def Let_def split: if_splits prod.splits
      dest!: chunk_size_loop_shorter)

lemma readReplyBodyRaw_shorter: "readReplyBodyRaw n r dev = (b, r', dev') \<Longrightarrow> length (dev_in dev') \<le> length (dev_in dev)"
  using raw_loop_shorter by (auto simp: readReplyBodyRaw_def Let_def split: prod.splits) (metis snd_conv)

text \<open>The loop of \<open>readReplyBodyChunked\<close> with the octets read so far.\<close>

partial_function (option) chunked_loop :: "int \<Rightarrow> http_reply \<Rightarrow> io_device \<Rightarrow> (int \<times> http_reply \<times> io_device) option" where
  "chunked_loop bytes r dev =
     (if bytesAvailable dev = 0 then Some (bytes, r, dev)
      else if readBufferMaxSize r \<noteq> 0 \<and> bytes > readBufferMaxSize r then Some (bytes, r, dev)
      else let (go, bytes, r, dev) = begin_chunk bytes r dev
           in if \<not> go then Some (bytes, r, dev)
              else if currentChunkSize r = 0 \<or> lastChunkRead r then Some (end_chunks bytes r dev)
              else let (haveRead, r, dev) = readReplyBodyRaw (currentChunkSize r - currentChunkRead r) r dev
                   in chunked_loop (bytes + haveRead) (r\<lparr>currentChunkRead := currentChunkRead r + haveRead\<rparr>) dev)"

definition readReplyBodyChunked :: "http_reply \<Rightarrow> io_device \<Rightarrow> (int \<times> http_reply \<times> io_device) option" where
  "readReplyBodyChunked r dev = chunked_loop 0 r dev"

definition readBody :: "http_reply \<Rightarrow> io_device \<Rightarrow> (int \<times> http_reply \<times> io_device) option" where
  "readBody r dev =
     do { (bytes, r, dev) \<leftarrow>
            (if chunkedTransferEncoding r then readReplyBodyChunked r dev
             else if bodyLength r > 0
             then (let (bytes, r, dev) = readReplyBodyRaw (bodyLength r - contentRead r) r dev
                   in Some (bytes, if contentRead r + bytes = bodyLength r then r\<lparr>r_state := AllDoneState\<rparr> else r, dev))
             else Some (readReplyBodyRaw (int (bytesAvailable dev)) r dev));
          Some (bytes, r\<lparr>contentRead := contentRead r + bytes\<rparr>, dev) }"

subsection \<open>The read loop of the protocol handler\<close>

text \<open>What the handler tells the reply and the channel. After \<open>allDone\<close>, \<open>unexpectedEOF\<close> and \<open>replyError\<close> the channel
  has taken the reply over, and the loop ends. The buffer the user may provide is the list of the
  octets written to it.\<close>

datatype reply_event = headerChanged | readyRead | dataReadProgress int int | allDone | unexpectedEOF | replyError

record receiving =
  reply :: http_reply
  socket :: io_device
  download_buffer :: "bytes option"
  reply_events :: "reply_event list"

definition notify :: "reply_event list \<Rightarrow> receiving \<Rightarrow> receiving" where
  "notify es s = s\<lparr>reply_events := reply_events s @ es\<rparr>"

definition progressed :: "int \<Rightarrow> http_reply \<Rightarrow> http_reply" where
  "progressed n r = r\<lparr>totalProgress := totalProgress r + n\<rparr>"

definition progress_of :: "http_reply \<Rightarrow> reply_event" where
  "progress_of r = dataReadProgress (totalProgress r) (bodyLength r)"

text \<open>Each step returns the octets it has read, whether the channel has taken over, and the state.\<close>

definition receive_status :: "receiving \<Rightarrow> int \<times> bool \<times> receiving" where
  "receive_status s =
     (let (n, r, dev) = readStatus ((reply s)\<lparr>r_state := ReadingStatusState\<rparr>) (socket s);
          s = s\<lparr>reply := r, socket := dev\<rparr>
      in if n = -1 then (0, True, notify [unexpectedEOF] s) else (n, False, s))"

definition receive_headers :: "bytes list \<Rightarrow> receiving \<Rightarrow> (int \<times> bool \<times> receiving) option" where
  "receive_headers encodings s =
     do { (n, r, dev) \<leftarrow> readReplyHeader (reply s) (socket s);
          let s = s\<lparr>reply := r, socket := dev\<rparr>;
          if n = -1 then Some (0, True, notify [unexpectedEOF] s)
          else if r_state r \<noteq> ReadingDataState then Some (n, False, s)
          else let r = (if isCompressed encodings r \<and> autoDecompress r then removeAutoDecompressHeader r else r\<lparr>autoDecompress := False\<rparr>);
                   status = statusCode (parser r)
               in if status = 100 \<or> 102 \<le> status \<and> status \<le> 199
                  then Some (n, False, s\<lparr>reply := (clearHttpLayerInformation r)\<lparr>r_state := ReadingStatusState\<rparr>\<rparr>)
                  else let s = (if shouldEmitSignals r then notify [headerChanged] (s\<lparr>reply := r\<rparr>) else s\<lparr>reply := r\<rparr>)
                       in if \<not> expectContent r
                          then Some (n, True, notify [allDone] (s\<lparr>reply := r\<lparr>r_state := AllDoneState\<rparr>\<rparr>))
                          else Some (n, False, s) }"

definition receive_body :: "receiving \<Rightarrow> (int \<times> bool \<times> receiving) option" where
  "receive_body s =
     (let r = reply s
      in case download_buffer s of
           Some buf \<Rightarrow>
             (let (haveRead, bs, r, dev) = readBodyVeryFast r (socket s);
                  s = s\<lparr>reply := r, socket := dev\<rparr>
              in if haveRead > 0
                 then let r = progressed haveRead r
                      in Some (haveRead, False, notify [progress_of r]
                           (s\<lparr>reply := r, download_buffer := Some (take (nat (totalProgress (reply s))) buf @ bs)\<rparr>))
                 else if haveRead = 0 then Some (0, False, s)
                 else Some (0, True, notify [replyError] s))
         | None \<Rightarrow>
             if \<not> chunkedTransferEncoding r \<and> bodyLength r > 0
             then (let (haveRead, r, dev) = readBodyFast r (socket s);
                       r = progressed haveRead r;
                       s = s\<lparr>reply := r, socket := dev\<rparr>
                   in Some (haveRead, False, if shouldEmitSignals r then notify [readyRead, progress_of r] s else s))
             else do { (haveRead, r, dev) \<leftarrow> readBody r (socket s);
                       let s = s\<lparr>reply := r, socket := dev\<rparr>;
                       if haveRead > 0
                       then (let r = progressed haveRead r; s = s\<lparr>reply := r\<rparr>
                             in Some (haveRead, False, if shouldEmitSignals r then notify [readyRead, progress_of r] s else s))
                       else Some (0, False, s) })"

text \<open>One round of the loop; a body that has been read to its end falls through to \<open>allDone\<close>.\<close>

definition receive_round :: "bytes list \<Rightarrow> receiving \<Rightarrow> (int \<times> bool \<times> receiving) option" where
  "receive_round encodings s =
     (case r_state (reply s) of
        NothingDoneState \<Rightarrow> Some (receive_status s)
      | ReadingStatusState \<Rightarrow> Some (receive_status s)
      | ReadingHeaderState \<Rightarrow> receive_headers encodings s
      | ReadingDataState \<Rightarrow>
          if dev_open (socket s) \<and> downstreamLimited (reply s) \<and> \<not> bdb_isEmpty (responseData (reply s)) \<and> shouldEmitSignals (reply s)
          then Some (0, True, s)
          else do { (n, over, s) \<leftarrow> receive_body s;
                    Some (if over \<or> r_state (reply s) = ReadingDataState then (n, over, s) else (n, True, notify [allDone] s)) }
      | AllDoneState \<Rightarrow> Some (0, True, notify [allDone] s)
      | Aborted \<Rightarrow> Some (0, False, s))"

partial_function (option) receive_loop :: "bytes list \<Rightarrow> receiving \<Rightarrow> receiving option" where
  "receive_loop encodings s =
     do { (n, over, s) \<leftarrow> receive_round encodings s;
          if over \<or> n = 0 then Some s else receive_loop encodings s }"

text \<open>\<open>_q_receiveReply\<close>: a connection that is closed with nothing left to read ends the body of a reply.\<close>

definition receiveReply :: "bytes list \<Rightarrow> receiving \<Rightarrow> receiving option" where
  "receiveReply encodings s =
     (if \<not> dev_open (socket s) \<and> bytesAvailable (socket s) = 0
      then (if r_state (reply s) = ReadingDataState
            then Some (notify [allDone] (s\<lparr>reply := (reply s)\<lparr>r_state := AllDoneState\<rparr>\<rparr>))
            else Some (notify [unexpectedEOF] s))
      else receive_loop encodings s)"

end
