(* ===== verification/HttpParserProps.thy ===== *)
theory HttpParserProps
  imports HttpReply
begin

text \<open>
  Properties of the header parser: the fields of a block that was parsed are well-formed and within the
  limits, and a block printed from valid fields is read back as these fields.
\<close>

unbundle bit_operations_syntax

subsection \<open>Names\<close>

text \<open>The parser accepts the names the container accepts.\<close>

lemma fieldNameCheck_valid: "fieldNameCheck name = isValidHttpHeaderNameField name"
proof -
  have other: "set (chars ''!#$%&'' @ [0x27] @ chars ''*+-.^_`|~'')
      = {0x21, 0x23, 0x24, 0x25, 0x26, 0x27, 0x2A, 0x2B, 0x2D, 0x2E, 0x5E, 0x5F, 0x60, 0x7C, 0x7E :: byte}"
    by (simp add: chars_def)
  have r: "0x23 \<le> c \<and> c \<le> 0x27 \<longleftrightarrow> c \<in> {0x23, 0x24, 0x25, 0x26, 0x27}" "0x5E \<le> c \<and> c \<le> 0x60 \<longleftrightarrow> c \<in> {0x5E, 0x5F, 0x60}"
    for c :: byte by (auto simp: word_le_nat_alt word_unat_eq_iff)
  show ?thesis
    unfolding fieldNameCheck_def isValidHttpHeaderNameField_def isValidHttpHeaderNameChar_def other r
    by (intro arg_cong2 [of _ _ _ _ "(\<and>)"] refl list.pred_cong) blast
qed

subsection \<open>Text that ends with a line end\<close>

definition lines :: "bytes \<Rightarrow> bool" where
  "lines h \<longleftrightarrow> h = [] \<or> last h = 10"

lemma lines_iff: "lines h \<longleftrightarrow> h = [] \<or> endsWith h [10]"
  by (cases h rule: rev_cases) (auto simp: lines_def endsWith_def)

lemma lines_index: "lines h \<Longrightarrow> h \<noteq> [] \<Longrightarrow> \<exists>e. indexOfChar 10 h = Some e \<and> lines (drop (Suc e) h)"
proof (induction h)
  case (Cons c h)
  show ?case
  proof (cases "c = 10")
    case True
    then show ?thesis using Cons.prems by (auto simp: lines_def split: if_splits)
  next
    case False
    then have "h \<noteq> []" "lines h" using Cons.prems by (auto simp: lines_def split: if_splits)
    then show ?thesis using Cons.IH False by auto
  qed
qed simp

lemma lines_drop_colon: "lines h \<Longrightarrow> indexOfChar 0x3A h = Some k \<Longrightarrow> lines (drop (Suc k) h) \<and> drop (Suc k) h \<noteq> []"
proof (induction h arbitrary: k)
  case (Cons c h)
  then show ?case by (cases h) (auto simp: lines_def split: if_splits)
qed simp

lemma lines_chop: "lines h \<Longrightarrow> lines (chop_empty_lines h)"
proof (induction h rule: chop_empty_lines.induct)
  case (1 h)
  have t: "endsWith h (10 # xs) \<Longrightarrow> lines (take (length h - length xs) h)" for xs
  proof -
    assume "endsWith h (10 # xs)"
    then have "h = take (length h - Suc (length xs)) h @ 10 # xs" by (metis append_take_drop_id endsWith_def length_Cons)
    then obtain a where "h = a @ 10 # xs" by blast
    then show ?thesis by (simp add: lines_def)
  qed
  from t [of "[13, 10]"] t [of "[10]"] 1 show ?case by (subst chop_empty_lines.simps) (auto simp: numeral_2_eq_2)
qed

subsection \<open>The parser is defined on every block\<close>

lemma field_value_defined:
  assumes "lines h" "h \<noteq> []"
  shows "\<exists>x. field_value h val sp = Some x \<and> (\<forall>v rest. x = Inr (v, rest) \<longrightarrow> lines rest)"
  using assms
proof (induction "length h" arbitrary: h val sp rule: less_induct)
  case less
  obtain e where e: "indexOfChar 10 h = Some e" "lines (drop (Suc e) h)" using lines_index less.prems by blast
  have l: "length (drop (Suc e) h) < length h" using indexOfChar_bound [OF e(1)] by simp
  have ne: "hSpaceStart (drop (Suc e) h) \<Longrightarrow> drop (Suc e) h \<noteq> []" by (auto simp: hSpaceStart_def startsWith_def)
  from e show ?case
    by (subst field_value.simps) (use less.hyps [OF l e(2) ne] in \<open>auto simp: Let_def\<close>)
qed

lemma parse_fields_defined:
  assumes "lines h" "headers_ok result" "headers_size result \<le> maxFieldCount p"
  shows "\<exists>x. parse_fields p h result = Some x \<and> (\<forall>d. x = Inr d \<longrightarrow> headers_ok d \<and> headers_size d \<le> maxFieldCount p)"
  using assms
proof (induction "length h" arbitrary: h result rule: less_induct)
  case less
  show ?case
  proof (cases "h = [] \<or> indexOfChar 0x3A h = None \<or> headers_size result \<ge> maxFieldCount p")
    case True
    then show ?thesis using less.prems by (subst parse_fields.simps) (auto split: option.split)
  next
    case False
    then obtain k where k: "h \<noteq> []" "indexOfChar 0x3A h = Some k" "headers_size result < maxFieldCount p" by auto
    define sp where "sp = maxFieldSize p - int (length (take k h)) - 1"
    obtain x where x: "field_value (drop (Suc k) h) [] sp = Some x" "\<forall>v rest. x = Inr (v, rest) \<longrightarrow> lines rest"
      using field_value_defined lines_drop_colon [OF less.prems(1) k(2)] by blast
    show ?thesis
    proof (cases x)
      case (Inl u)
      then show ?thesis using k x(1) by (subst parse_fields.simps) (auto simp: sp_def Let_def)
    next
      case (Inr vr)
      obtain v rest where vr: "vr = (v, rest)" by (cases vr)
      have l: "length rest < length h" using field_value_shorter [of "drop (Suc k) h"] x(1) Inr vr by fastforce
      have "headers_size (snd (headers_append (take k h) v result)) \<le> Suc (headers_size result)"
        by (auto simp: headers_append_def append_name_def headers_size_def header_list_def split: option.split)
      then have s: "headers_size (snd (headers_append (take k h) v result)) \<le> maxFieldCount p" using k(3) by simp
      have "lines rest" using x(2) Inr vr by blast
      from less.hyps [OF l this headers_keep(1) [OF less.prems(2)] s] show ?thesis
        using k x(1) Inr vr by (subst parse_fields.simps) (auto simp: sp_def Let_def)
    qed
  qed
qed

subsection \<open>The limits\<close>

lemma index_split: "indexOfChar c xs = Some i \<Longrightarrow> xs = take i xs @ c # drop (Suc i) xs"
  by (induction xs arbitrary: i) (auto split: if_splits)

lemma trimmed_length: "length (trimmed s) \<le> length s"
proof -
  have "length (trimmed s) \<le> length (dropWhile ascii_isspace (rev s))"
    unfolding trimmed_def using length_dropWhile_le [of ascii_isspace "rev (dropWhile ascii_isspace (rev s))"] by simp
  also have "\<dots> \<le> length s" using length_dropWhile_le [of ascii_isspace "rev s"] by simp
  finally show ?thesis .
qed

lemma trimmed_cr_length: "length (trimmed s) + of_bool (endsWith s [13]) \<le> length s"
proof (cases "endsWith s [13]")
  case True
  then have "s = take (length s - 1) s @ [13]" by (metis append_take_drop_id endsWith_def length_Cons list.size(3) One_nat_def)
  then obtain t where t: "s = t @ [13]" by blast
  have "trimmed s = trimmed t" by (simp add: t trimmed_def ascii_isspace_def)
  then show ?thesis using True trimmed_length [of t] by (simp add: t)
qed (simp add: trimmed_length)

lemma trimmed_blank:
  assumes "hSpaceStart s" "trimmed s \<noteq> []" shows "length (trimmed s) + 1 + of_bool (endsWith s [13]) \<le> length s"
proof -
  obtain c t where s: "s = c # t" "ascii_isspace c"
    using assms(1) by (cases s) (auto simp: hSpaceStart_def startsWith_def ascii_isspace_def)
  have d: "trimmed s = (if list_all ascii_isspace t then [] else trimmed t)"
    using s(2) by (auto simp: s(1) trimmed_def dropWhile_append list_all_iff)
  then have "t \<noteq> []" using assms(2) by auto
  then have "endsWith s [13] = endsWith t [13]" by (cases t rule: rev_cases) (simp_all add: s endsWith_def)
  then show ?thesis using trimmed_cr_length [of t] d assms(2) by (auto simp: s split: if_splits)
qed

text \<open>A value is no longer than the space for it, the blanks between its lines included: each stands for the blank
  the next line starts with. With its line ends it is no longer than the text it was read from.\<close>

lemma field_value_fits:
  assumes "field_value h val sp = Some (Inr (v, rest))" "val = [] \<or> hSpaceStart h"
  shows "int (length v) \<le> int (length val) + sp \<and>
    length v + length rest + (if rest = [] \<and> endsWith h [13, 10] then 2 else 1) \<le> length val + length h"
  using assms
proof (induction "length h" arbitrary: h val sp rule: less_induct)
  case less
  obtain e where e: "indexOfChar 10 h = Some e" using less.prems(1) by (subst (asm) field_value.simps) (auto split: option.splits)
  define line where "line = take e h"
  define h' where "h' = drop (Suc e) h"
  define sp' where "sp' = sp - (int (length line) - (if endsWith line [13] then 1 else 0))"
  define t where "t = trimmed line"
  define w where "w = (if t = [] then val else if val \<noteq> [] then val @ [32] @ t else t)"
  have h: "h = line @ 10 # h'" using index_split [OF e] by (simp add: line_def h'_def)
  have "field_value h val sp = (if sp' < 0 then Some (Inl ())
      else if hSpaceStart h' then field_value h' w sp' else Some (Inr (w, h')))"
    by (subst field_value.simps) (simp only: e option.case Let_def w_def t_def sp'_def line_def h'_def)
  then have r: "\<not> sp' < 0" "(if hSpaceStart h' then field_value h' w sp' else Some (Inr (w, h'))) = Some (Inr (v, rest))"
    using less.prems(1) by (auto split: if_splits)
  have blank: "val \<noteq> [] \<Longrightarrow> t \<noteq> [] \<Longrightarrow> hSpaceStart line"
    using less.prems(2) by (cases line) (auto simp: h hSpaceStart_def startsWith_def t_def)
  have w: "length w + of_bool (endsWith line [13]) \<le> length val + length line"
    using trimmed_cr_length [of line] trimmed_blank [of line] blank by (auto simp: w_def t_def [symmetric])
  show ?case
  proof (cases "hSpaceStart h'")
    case True
    then have v: "field_value h' w sp' = Some (Inr (v, rest))" using r by simp
    have l: "length h' < length h" by (simp add: h)
    obtain b u where u: "h' = b # u" "b \<noteq> 10" using True by (cases h') (auto simp: hSpaceStart_def startsWith_def)
    have cr: "endsWith h [13, 10] \<Longrightarrow> endsWith h' [13, 10]"
      using u(2) by (cases u rule: rev_cases; cases "butlast u" rule: rev_cases) (auto simp: h u(1) endsWith_def)
    have "length v + length rest + (if rest = [] \<and> endsWith h' [13, 10] then 2 else 1) \<le> length w + length h'"
      "int (length v) \<le> int (length w) + sp'" using less.hyps [OF l v] True by simp_all
    then show ?thesis using w cr by (auto simp: h sp'_def split: if_splits)
  next
    case False
    then have v: "v = w" "rest = h'" using r by simp_all
    have "h' = [] \<Longrightarrow> endsWith h [13, 10] \<Longrightarrow> endsWith line [13]"
      by (cases line rule: rev_cases) (auto simp: h endsWith_def)
    then show ?thesis using w r(1) by (auto simp: h v sp'_def split: if_splits)
  qed
qed

definition field_size :: "bytes \<times> bytes \<Rightarrow> int" where
  "field_size f = int (length (fst f)) + 1 + int (length (snd f))"

definition within_limits :: "http_parser \<Rightarrow> http_headers \<Rightarrow> bool" where
  "within_limits p d \<longleftrightarrow> headers_size d \<le> maxFieldCount p \<and> (\<forall>f\<in>set (toListOfPairs d). field_size f \<le> maxFieldSize p)
     \<and> (toListOfPairs d \<noteq> [] \<longrightarrow> sum_list (map field_size (toListOfPairs d)) \<le> maxTotalSize p)"

text \<open>The text of a block without its last line end.\<close>

definition block_size :: "bytes \<Rightarrow> int" where
  "block_size header = int (length header) - (if endsWith header [13, 10] then 2 else 1)"

lemma parse_fields_fits:
  assumes "parse_fields p h result = Some (Inr d)" "lines h"
  shows "\<exists>fs. toListOfPairs d = toListOfPairs result @ fs \<and> (\<forall>f\<in>set fs. field_size f \<le> maxFieldSize p)
    \<and> (h = [] \<longrightarrow> fs = []) \<and> (h \<noteq> [] \<longrightarrow> sum_list (map field_size fs) \<le> block_size h)"
  using assms
proof (induction "length h" arbitrary: h result rule: less_induct)
  case less
  show ?case
  proof (cases "h = []")
    case True
    then show ?thesis using less.prems(1) by (subst (asm) parse_fields.simps) simp
  next
    case False
    then obtain k where k: "indexOfChar 0x3A h = Some k"
      using less.prems(1) by (subst (asm) parse_fields.simps) (auto split: option.splits)
    define n where "n = take k h"
    define h' where "h' = drop (Suc k) h"
    have h: "h = n @ 0x3A # h'" using index_split [OF k] by (simp add: n_def h'_def)
    obtain v rest where v: "field_value h' [] (maxFieldSize p - int (length n) - 1) = Some (Inr (v, rest))"
      and pr: "parse_fields p rest (snd (headers_append n v result)) = Some (Inr d)"
      using less.prems(1) False k unfolding n_def h'_def
      by (subst (asm) parse_fields.simps) (auto simp: Let_def split: if_splits option.splits sum.splits)
    have h': "lines h'" "h' \<noteq> []" using lines_drop_colon [OF less.prems(2) k] by (simp_all add: h'_def)
    have rest: "lines rest" using field_value_defined [OF h', of "[]" "maxFieldSize p - int (length n) - 1"] v by auto
    have l: "length rest < length h" using field_value_shorter [OF v] by (simp add: h)
    have cr: "endsWith h [13, 10] \<Longrightarrow> endsWith h' [13, 10]"
      using h'(2) by (cases h' rule: rev_cases; cases "butlast h'" rule: rev_cases) (auto simp: h endsWith_def)
    note fit = field_value_fits [OF v]
    define gs where "gs = drop (length (toListOfPairs result)) (toListOfPairs (snd (headers_append n v result)))"
    have gs: "toListOfPairs (snd (headers_append n v result)) = toListOfPairs result @ gs"
      "\<forall>g\<in>set gs. field_size g \<le> maxFieldSize p" "sum_list (map field_size gs) \<le> int (length n) + 1 + int (length v)"
      using append_pairs(1) [of n v result] append_pairs(2) [of n v result] fit trimmed_length [of v]
      by (auto simp: gs_def field_size_def toLower_def split: if_splits)
    obtain fs where fs: "toListOfPairs d = toListOfPairs (snd (headers_append n v result)) @ fs" "\<forall>f\<in>set fs. field_size f \<le> maxFieldSize p"
      "rest = [] \<longrightarrow> fs = []" "rest \<noteq> [] \<longrightarrow> sum_list (map field_size fs) \<le> block_size rest"
      using less.hyps [OF l pr rest] by blast
    have "sum_list (map field_size (gs @ fs)) \<le> block_size h"
      using gs(3) fs(3,4) fit cr by (cases "rest = []") (auto simp: block_size_def h split: if_splits)
    then show ?thesis using False gs(1,2) fs(1,2) by (intro exI [of _ "gs @ fs"]) auto
  qed
qed

text \<open>C25. Parsing a header block of any octets ends with an answer, and the fields it leaves are well formed and within
  the limits: every name is valid and stored in lower case or as a well-known one, every value is trimmed and free of
  control characters, there are no more fields than the limit allows, the name and the value of a field with
  the colon between them do not exceed the limit of a field, also when the value was folded, and all fields together do not exceed
  the limit of the block. A block that is refused leaves the parser as it was.
  (Before, the parser holds fields of that kind; a new one holds none.)\<close>

theorem parse_headers_typed:
  assumes "headers_ok (parser_fields p)" "within_limits p (parser_fields p)"
  shows "\<exists>ok p'. parseHeaders header p = Some (ok, p') \<and> headers_ok (parser_fields p') \<and> within_limits p (parser_fields p')
    \<and> p' = p\<lparr>parser_fields := parser_fields p'\<rparr> \<and> (\<not> ok \<longrightarrow> p' = p)"
proof (cases "hSpaceStart header \<or> header \<noteq> [] \<and> \<not> endsWith header [10]
    \<or> block_size (chop_empty_lines header) > maxTotalSize p")
  case True
  then show ?thesis using assms by (auto simp: parseHeaders_def block_size_def Let_def)
next
  case False
  let ?h = "chop_empty_lines header"
  have l: "lines ?h" using False by (intro lines_chop) (auto simp: lines_iff)
  have e: "headers_ok QHttpHeaders" "headers_size QHttpHeaders \<le> maxFieldCount p" "toListOfPairs QHttpHeaders = []"
    by (simp_all add: QHttpHeaders_def headers_ok_def headers_size_def toListOfPairs_def header_list_def)
  obtain x where x: "parse_fields p ?h QHttpHeaders = Some x" "\<forall>d. x = Inr d \<longrightarrow> headers_ok d \<and> headers_size d \<le> maxFieldCount p"
    using parse_fields_defined [OF l e(1,2)] by blast
  have "within_limits p d" if "x = Inr d" for d
    using parse_fields_fits [of p ?h QHttpHeaders d] x that l False by (force simp: within_limits_def e(3))
  then show ?thesis using False assms x by (cases x) (auto simp: parseHeaders_def block_size_def Let_def)
qed

theorem parse_headers_typed_witness:
  "\<exists>ok p'. parseHeaders (chars ''A: b'' @ [10]) QHttpHeaderParser = Some (ok, p') \<and> within_limits QHttpHeaderParser (parser_fields p')"
  using parse_headers_typed [of QHttpHeaderParser "chars ''A: b'' @ [10]"]
  by (auto simp: QHttpHeaderParser_def QHttpHeaders_def headers_ok_def headers_size_def within_limits_def toListOfPairs_def header_list_def)

subsection \<open>Printing and parsing\<close>

definition print_field :: "bytes \<times> bytes \<Rightarrow> bytes" where
  "print_field f = fst f @ [0x3A, 32] @ snd f @ crlf"

definition header_block :: "(bytes \<times> bytes) list \<Rightarrow> bytes" where
  "header_block fs = concat (map print_field fs) @ crlf"

definition field_printable :: "int \<Rightarrow> bytes \<times> bytes \<Rightarrow> bool" where
  "field_printable limit f \<longleftrightarrow> isValidHttpHeaderNameField (fst f) \<and> isValidHttpHeaderValueField (snd f) \<and> trimmed (snd f) = snd f
     \<and> int (length (fst f) + length (snd f)) + 2 \<le> limit"

lemma name_chars:
  assumes "isValidHttpHeaderNameField n"
  shows "n \<noteq> []" "0x3A \<notin> set n" "hd n \<noteq> 32" "hd n \<noteq> 9" "10 \<notin> set n"
proof -
  have c: "\<not> isValidHttpHeaderNameChar 0x3A" "\<not> isValidHttpHeaderNameChar 32" "\<not> isValidHttpHeaderNameChar 9" "\<not> isValidHttpHeaderNameChar 10"
    by (simp_all add: isValidHttpHeaderNameChar_def)
  show "n \<noteq> []" using assms by (simp add: isValidHttpHeaderNameField_def)
  then show "0x3A \<notin> set n" "hd n \<noteq> 32" "hd n \<noteq> 9" "10 \<notin> set n"
    using assms c unfolding isValidHttpHeaderNameField_def list_all_iff by (metis, metis hd_in_set, metis hd_in_set, metis)
qed

lemma value_chars: "isValidHttpHeaderValueField v \<Longrightarrow> 10 \<notin> set v \<and> 13 \<notin> set v"
  by (auto simp: isValidHttpHeaderValueField_def list_all_iff isValidHttpHeaderValueChar_def)

lemma trimmed_line: "trimmed v = v \<Longrightarrow> trimmed (32 # v @ [13]) = v"
proof (cases "v = []")
  case False
  assume "trimmed v = v"
  then have "\<not> ascii_isspace (hd v)" "\<not> ascii_isspace (last v)" using False by (auto simp: trimmed_iff)
  then have "trimmed ([32] @ v @ [13]) = v" using False by (intro trimmed_around) (simp_all add: spaces_def ascii_isspace_def)
  then show ?thesis by simp
qed (simp add: trimmed_def ascii_isspace_def)

lemma field_value_line:
  assumes v: "isValidHttpHeaderValueField v" "trimmed v = v" "int (length v) + 1 \<le> sp" and rest: "\<not> hSpaceStart rest"
  shows "field_value (32 # v @ crlf @ rest) [] sp = Some (Inr (v, rest))"
proof -
  have h: "32 # v @ crlf @ rest = (32 # v @ [13]) @ 10 # rest" by simp
  have i: "indexOfChar 10 ((32 # v @ [13]) @ 10 # rest) = Some (length (32 # v @ [13]))"
    using value_chars [OF v(1)] by (intro index_skip) auto
  have e: "endsWith (32 # v @ [13]) [13]" by (simp add: endsWith_def)
  show ?thesis
    unfolding h by (subst field_value.simps) (use i e v(3) rest trimmed_line [OF v(2)] in \<open>auto simp: Let_def\<close>)
qed

lemma parse_fields_block:
  assumes "list_all (field_printable (maxFieldSize p)) fs" "headers_size d + length fs \<le> maxFieldCount p" "headers_ok d"
  shows "\<exists>d'. parse_fields p (concat (map print_field fs)) d = Some (Inr d') \<and> headers_ok d'
    \<and> toListOfPairs d' = toListOfPairs d @ map (\<lambda>f. (toLower (fst f), snd f)) fs"
  using assms
proof (induction fs arbitrary: d)
  case Nil
  then show ?case by (simp add: parse_fields.simps)
next
  case (Cons f fs)
  obtain n v where f: "f = (n, v)" by (cases f)
  have ok: "isValidHttpHeaderNameField n" "isValidHttpHeaderValueField v" "trimmed v = v" "int (length n + length v) + 2 \<le> maxFieldSize p"
    using Cons.prems(1) by (simp_all add: field_printable_def f)
  note n = name_chars [OF ok(1)]
  let ?rest = "concat (map print_field fs)"
  have rest: "\<not> hSpaceStart ?rest"
  proof (cases fs)
    case (Cons g gs)
    then have "isValidHttpHeaderNameField (fst g)" using Cons.prems(1) by (simp add: field_printable_def)
    from name_chars [OF this] show ?thesis by (cases "fst g") (auto simp: Cons print_field_def hSpaceStart_def startsWith_def)
  qed (simp add: hSpaceStart_def startsWith_def)
  have i: "indexOfChar 0x3A (concat (map print_field (f # fs))) = Some (length n)"
    using index_skip [OF n(2), of "32 # v @ crlf @ ?rest"] by (simp add: print_field_def f)
  have vl: "field_value (32 # v @ crlf @ ?rest) [] (maxFieldSize p - int (length n) - 1) = Some (Inr (v, ?rest))"
    using ok by (intro field_value_line rest) auto
  define e where "e = snd (headers_append n v d)"
  have e: "toListOfPairs e = toListOfPairs d @ [(toLower n, v)]" "headers_ok e"
    using append_pairs(2) [OF ok(1,2), of d] ok(3) headers_keep(1) [OF Cons.prems(3)] by (simp_all add: e_def)
  have "headers_size e = length (toListOfPairs e)" "headers_size d = length (toListOfPairs d)"
    by (auto simp: headers_size_def toListOfPairs_def header_list_def split: option.split)
  then have s: "headers_size e + length fs \<le> maxFieldCount p" using e(1) Cons.prems(2) by simp
  have "parse_fields p (concat (map print_field (f # fs))) d = parse_fields p ?rest e"
    using n(1) i vl Cons.prems(2) ok(1)
    by (subst parse_fields.simps) (simp add: print_field_def f fieldNameCheck_valid Let_def e_def)
  then show ?case using Cons.IH [OF _ s e(2)] Cons.prems(1) e(1) f by auto
qed

lemma chop_block:
  assumes "list_all (field_printable limit) fs" "fs \<noteq> []"
  shows "chop_empty_lines (header_block fs) = concat (map print_field fs)"
    "endsWith (concat (map print_field fs)) crlf" "endsWith (header_block fs) [10]" "\<not> hSpaceStart (header_block fs)"
proof -
  obtain gs f where g: "fs = gs @ [f]" using assms(2) by (cases fs rule: rev_cases) auto
  obtain w c where w: "32 # snd f = w @ [c]" by (metis append_butlast_last_id list.distinct(1))
  have "isValidHttpHeaderValueField (snd f)" using assms(1) by (simp add: g field_printable_def)
  then have "10 \<notin> set (w @ [c])" using value_chars [of "snd f"] unfolding w [symmetric] by simp
  then have c: "c \<noteq> 10" by simp
  define X where "X = concat (map print_field gs) @ fst f @ 0x3A # w"
  have "print_field f = fst f @ 0x3A # (32 # snd f) @ crlf" by (simp add: print_field_def)
  then have b: "concat (map print_field fs) = X @ [c, 13, 10]" "header_block fs = X @ [c, 13, 10, 13, 10]"
    unfolding w by (simp_all add: g X_def header_block_def)
  have "chop_empty_lines (X @ [c, 13, 10]) = X @ [c, 13, 10]" using c by (subst chop_empty_lines.simps) (simp add: endsWith_def)
  then show "chop_empty_lines (header_block fs) = concat (map print_field fs)"
    unfolding b by (subst chop_empty_lines.simps) (simp add: endsWith_def)
  show "endsWith (concat (map print_field fs)) crlf" "endsWith (header_block fs) [10]" unfolding b by (simp_all add: endsWith_def)
  obtain f1 fs' where f1: "fs = f1 # fs'" using assms(2) by (cases fs) auto
  then have "isValidHttpHeaderNameField (fst f1)" using assms(1) by (simp add: field_printable_def)
  from name_chars [OF this] show "\<not> hSpaceStart (header_block fs)"
    by (cases "fst f1") (auto simp: f1 header_block_def print_field_def hSpaceStart_def startsWith_def)
qed

lemma parse_header_block:
  assumes "list_all (field_printable (maxFieldSize p)) fs" "length fs \<le> maxFieldCount p" "parser_fields p = QHttpHeaders"
    and "int (length (header_block fs)) \<le> maxTotalSize p + 2" "0 \<le> maxTotalSize p"
  shows "\<exists>d. parseHeaders (header_block fs) p = Some (True, p\<lparr>parser_fields := d\<rparr>) \<and> headers_ok d
    \<and> toListOfPairs d = map (\<lambda>f. (toLower (fst f), snd f)) fs"
proof (cases "fs = []")
  case True
  have "chop_empty_lines crlf = crlf" by (subst chop_empty_lines.simps) (simp add: endsWith_def)
  moreover have "p = p\<lparr>parser_fields := None\<rparr>" using assms(3) by (cases p) (simp add: QHttpHeaders_def)
  ultimately show ?thesis using assms(5) True
    by (intro exI [of _ None]) (simp add: header_block_def parseHeaders_def hSpaceStart_def startsWith_def endsWith_def parse_fields.simps QHttpHeaders_def
        headers_ok_def toListOfPairs_def)
next
  case False
  note b = chop_block [OF assms(1) False]
  obtain d where d: "parse_fields p (concat (map print_field fs)) QHttpHeaders = Some (Inr d)" "headers_ok d"
    "toListOfPairs d = map (\<lambda>f. (toLower (fst f), snd f)) fs"
    using parse_fields_block [OF assms(1), of QHttpHeaders] assms(2)
    by (auto simp: QHttpHeaders_def headers_size_def headers_ok_def toListOfPairs_def)
  have "int (length (concat (map print_field fs))) - 2 \<le> maxTotalSize p" using assms(4) by (simp add: header_block_def)
  then show ?thesis using b d by (intro exI [of _ d]) (simp add: parseHeaders_def)
qed

text \<open>C11. A header block written as \<open>name: value\<close> lines is parsed to the same fields in the same order, with the names
  in lower case, when the names and values are valid and the limits on size and number are kept.\<close>

theorem header_block_roundtrip:
  assumes "list_all (field_printable (maxFieldSize p)) fs" "length fs \<le> maxFieldCount p" "parser_fields p = QHttpHeaders"
    and "int (length (header_block fs)) \<le> maxTotalSize p + 2" "0 \<le> maxTotalSize p"
  shows "\<exists>d. parseHeaders (header_block fs) p = Some (True, p\<lparr>parser_fields := d\<rparr>) \<and> headers_ok d
    \<and> toListOfPairs d = map (\<lambda>f. (toLower (fst f), snd f)) fs"
  using assms by (rule parse_header_block)

theorem header_block_roundtrip_witness:
  "\<exists>d. parseHeaders (header_block [(chars ''Age'', chars ''1 2'')]) QHttpHeaderParser = Some (True, QHttpHeaderParser\<lparr>parser_fields := d\<rparr>)
    \<and> toListOfPairs d = [(chars ''age'', chars ''1 2'')]"
proof -
  have "field_printable (maxFieldSize QHttpHeaderParser) (chars ''Age'', chars ''1 2'')"
    by (simp add: field_printable_def QHttpHeaderParser_def MAX_HEADER_FIELD_SIZE_def isValidHttpHeaderNameField_def isValidHttpHeaderNameChar_def
        isValidHttpHeaderValueField_def isValidHttpHeaderValueChar_def trimmed_iff ascii_isspace_def chars_def)
  then show ?thesis
    using header_block_roundtrip [of QHttpHeaderParser "[(chars ''Age'', chars ''1 2'')]"]
    by (auto simp: QHttpHeaderParser_def MAX_HEADER_FIELDS_def MAX_TOTAL_HEADER_SIZE_def header_block_def print_field_def
        toLower_def asciiLower_def chars_def)
qed

end
