(* ===== verification/HttpChunks.thy ===== *)
theory HttpChunks
  imports HttpReply "HOL-Library.Sublist"
begin

text \<open>
  The chunked transfer coding in a reply: what one size line, one chunk and one call of \<open>receiveReply\<close>
  read, and the two properties about it: a chunked body that arrives in any segments is delivered
  unchanged, and a size line that is not a number ends the body.
\<close>

unbundle bit_operations_syntax

subsection \<open>Size lines\<close>

text \<open>A size line: hexadecimal digits and, after a semicolon, an extension.\<close>

definition chunk_line :: "nat \<Rightarrow> bytes \<Rightarrow> bool" where
  "chunk_line n L \<longleftrightarrow> (\<exists>ds ext. L = ds @ ext \<and> digits_ok 16 ds \<and> digits_value 16 ds = n \<and> n < 2 ^ 63
     \<and> (ext = [] \<or> hd ext = 0x3B) \<and> 10 \<notin> set ext \<and> 13 \<notin> set ext)"

lemma digits_ends:
  assumes "digits_ok 16 ds"
  shows "ds \<noteq> []" "\<not> ascii_isspace (hd ds)" "\<not> ascii_isspace (last ds)" "0x3B \<notin> set ds" "10 \<notin> set ds" "13 \<notin> set ds"
proof -
  have d: "isDigitForBase d 16 \<Longrightarrow> d \<noteq> 0x3B \<and> d \<noteq> 10 \<and> d \<noteq> 13 \<and> \<not> ascii_isspace d" for d
    using digit_not [of 16 d] by (auto simp: isDigitForBase_def Let_def)
  show "ds \<noteq> []" using assms by (simp add: digits_ok_def)
  then show "\<not> ascii_isspace (hd ds)" "\<not> ascii_isspace (last ds)" "0x3B \<notin> set ds" "10 \<notin> set ds" "13 \<notin> set ds"
    using assms d by (auto simp: digits_ok_def list_all_iff)
qed

lemma line_value:
  assumes "chunk_line n L" "spaces pre" "spaces w"
  shows "toSignedInteger (trimmed (case indexOfChar 0x3B (pre @ L @ w) of Some k \<Rightarrow> take k (pre @ L @ w) | None \<Rightarrow> pre @ L @ w)) 16 = Some (int n)"
proof -
  obtain ds ext where L: "L = ds @ ext" "digits_ok 16 ds" "digits_value 16 ds = n" "n < 2 ^ 63" "ext = [] \<or> hd ext = 0x3B"
    using assms(1) unfolding chunk_line_def by blast
  note d = digits_ends [OF L(2)]
  have s: "spaces s \<Longrightarrow> 0x3B \<notin> set s" for s by (auto simp: spaces_def list_all_iff ascii_isspace_def)
  have "trimmed (case indexOfChar 0x3B (pre @ L @ w) of Some k \<Rightarrow> take k (pre @ L @ w) | None \<Rightarrow> pre @ L @ w) = ds"
  proof (cases ext)
    case Nil
    then show ?thesis using L(1) d s [OF assms(2)] s [OF assms(3)] trimmed_around [OF assms(2,3) d(1-3)]
      by (simp add: indexOfChar_append)
  next
    case (Cons e es)
    then show ?thesis using L(1,5) d s [OF assms(2)] trimmed_around [OF assms(2) _ d(1-3), of "[]"]
      by (simp add: indexOfChar_append spaces_def)
  qed
  then show ?thesis using toSignedInteger_digits [OF L(2), of "[]" "[]"] L(3,4) by (simp add: spaces_def)
qed

lemma line_chars:
  assumes "chunk_line n L" shows "L \<noteq> []" "10 \<notin> set L" "13 \<notin> set L"
  using assms digits_ends unfolding chunk_line_def by auto

text \<open>The value \<open>getChunkSize\<close> stores for a line.\<close>

definition size_text :: "bytes \<Rightarrow> int" where
  "size_text frag =
     (case toSignedInteger (trimmed (case indexOfChar 0x3B frag of Some k \<Rightarrow> take k frag | None \<Rightarrow> frag)) 16 of Some v \<Rightarrow> v | None \<Rightarrow> 0)"

lemma size_text_line:
  assumes "chunk_line n L" "pre = [] \<or> pre = crlf \<or> pre = [10]"
  shows "size_text (pre @ L) = int n" "size_text (pre @ L @ [13]) = int n"
proof -
  have p: "spaces pre" "spaces []" "spaces [13]" using assms(2) by (auto simp: spaces_def ascii_isspace_def)
  show "size_text (pre @ L) = int n" using line_value [OF assms(1) p(1,2)] unfolding size_text_def append_Nil2 by simp
  show "size_text (pre @ L @ [13]) = int n" using line_value [OF assms(1) p(1,3)] unfolding size_text_def by simp
qed

lemma chunk_size_line:
  assumes line: "L \<noteq> []" "10 \<notin> set L" "13 \<notin> set L" "size_text (pre @ L) = v" "size_text (pre @ L @ [13]) = v"
    and assms_pre: "pre = [] \<or> pre = crlf \<or> pre = [10]"
    and prems: "f @ dev_in dev @ fut = pre @ L @ crlf @ rest" "length f \<le> length (pre @ L @ [13])"
    "avail = b + int (length (dev_in dev))"
  shows "if length (f @ dev_in dev) < length (pre @ L @ crlf)
    then chunk_size_loop avail b f dev = (avail, -1, f @ dev_in dev, dev\<lparr>dev_in := []\<rparr>)
    else \<exists>s. chunk_size_loop avail b f dev = (avail - int (length s), v, [], dev\<lparr>dev_in := s\<rparr>) \<and> s @ fut = rest"
  using prems
proof (induction "dev_in dev" arbitrary: f b dev)
  case Nil
  then show ?case by (simp add: chunk_size_loop.simps)
next
  case (Cons c s)
  have d: "dev_in dev = c # s" using Cons.hyps(2) by simp
  note L = line(1-3)
  have avail: "\<not> (avail \<le> b \<or> dev_in dev = [])" using Cons.prems(3) d by simp
  have split: "f @ c # s @ fut = pre @ L @ crlf @ rest" using Cons.prems(1) d by simp
  consider (inside) "length f < length (pre @ L)" | (cr) "f = pre @ L" "c = 13" | (lf) "f = pre @ L @ [13]" "c = 10"
  proof -
    assume *: "length f < length (pre @ L) \<Longrightarrow> thesis" "f = pre @ L \<Longrightarrow> c = 13 \<Longrightarrow> thesis" "f = pre @ L @ [13] \<Longrightarrow> c = 10 \<Longrightarrow> thesis"
    consider "length f < length (pre @ L)" | "length f = length (pre @ L)" | "length f = length (pre @ L @ [13])"
      using Cons.prems(2) by fastforce
    then show thesis
    proof cases
      case 2
      then show thesis using *(2) split append_eq_append_conv [of f "pre @ L" "c # s @ fut" "crlf @ rest"] by simp
    next
      case 3
      then show thesis using *(3) split append_eq_append_conv [of f "pre @ L @ [13]" "c # s @ fut" "10 # rest"] by simp
    qed (rule *(1))
  qed
  then show ?case
  proof cases
    case inside
    have "(f @ c # s @ fut) ! length f = (pre @ L) ! length f" using inside by (simp only: split) (metis append.assoc nth_append)
    then have c: "c = (pre @ L) ! length f" by (simp add: nth_append)
    have at: "length f < length pre" if "c = 13 \<or> c = 10"
    proof (rule ccontr)
      assume "\<not> length f < length pre"
      then have "c = L ! (length f - length pre)" "length f - length pre < length L" using c inside by (auto simp: nth_append)
      then show False using that L(2,3) nth_mem by metis
    qed
    have pc: "length f < length pre \<Longrightarrow> c = pre ! length f" using c by (simp add: nth_append)
    have "f = []" if "c = 13"
    proof -
      have "length f < length pre" "pre ! length f = 13" using at pc that by auto
      then show ?thesis using assms_pre by (auto simp: less_Suc_eq)
    qed
    moreover have "length f \<le> 1" if "c = 10"
    proof -
      have "length f < length pre" using at that by auto
      then show ?thesis using assms_pre by auto
    qed
    ultimately have "\<not> (f \<noteq> [] \<and> c # take 1 s = crlf \<or> length f > 1 \<and> endsWith f [13] \<and> c = 10)" by fastforce
    then have step: "chunk_size_loop avail b f dev = chunk_size_loop avail (b + 1) (f @ [c]) (dev\<lparr>dev_in := s\<rparr>)"
      using avail by (subst chunk_size_loop.simps) (auto simp add: Let_def sock_peek_def dev_read_def d)
    have "s = dev_in (dev\<lparr>dev_in := s\<rparr>)" by simp
    note IH = Cons.hyps(1) [OF this, of "f @ [c]" "b + 1"]
    have b: "avail = b + 1 + int (length (dev_in (dev\<lparr>dev_in := s\<rparr>)))" using Cons.prems(3) d by simp
    have "(f @ [c]) @ dev_in (dev\<lparr>dev_in := s\<rparr>) @ fut = pre @ L @ crlf @ rest" "length (f @ [c]) \<le> length (pre @ L @ [13])"
      using split inside by simp_all
    from IH [OF this b] show ?thesis unfolding step d by (simp split: if_splits)
  next
    case cr
    show ?thesis
    proof (cases s)
      case Nil
      have step: "chunk_size_loop avail b f dev = chunk_size_loop avail (b + 1) (f @ [c]) (dev\<lparr>dev_in := []\<rparr>)"
        using avail cr by (subst chunk_size_loop.simps) (auto simp: Let_def sock_peek_def dev_read_def d Nil)
      also have "\<dots> = (avail, -1, f @ [c], dev\<lparr>dev_in := []\<rparr>)" using Cons.prems(3) by (subst chunk_size_loop.simps) (simp add: d Nil)
      finally show ?thesis by (simp add: d Nil cr)
    next
      case (Cons x t)
      have x: "x = 10" "t @ fut = rest" using split cr Cons by simp_all
      have "chunk_size_loop avail b f dev = (b + 2, v, [], dev\<lparr>dev_in := t\<rparr>)"
        using avail cr x line(4) L(1)
        by (subst chunk_size_loop.simps) (auto simp: Let_def sock_peek_def dev_read_def d Cons size_text_def)
      moreover have "\<not> length (f @ dev_in dev) < length (pre @ L @ crlf)" using cr by (simp add: d Cons)
      ultimately show ?thesis using Cons.prems(3) x by (simp only: if_False) (intro exI [of _ t], simp add: d Cons)
    qed
  next
    case lf
    have x: "s @ fut = rest" using split lf by simp
    have "chunk_size_loop avail b f dev = (b + 1, v, [], dev\<lparr>dev_in := s\<rparr>)"
      using avail lf line(5) L(1)
      by (subst chunk_size_loop.simps) (auto simp: Let_def sock_peek_def dev_read_def d endsWith_def size_text_def)
    moreover have "\<not> length (f @ dev_in dev) < length (pre @ L @ crlf)" using lf by (simp add: d)
    ultimately show ?thesis using Cons.prems(3) x by (simp only: if_False) (intro exI [of _ s], simp add: d)
  qed
qed

subsection \<open>Reading the raw body\<close>

lemma raw_loop_reads:
  assumes "toBeRead = min (128 * 1024) (min wanted (int (length (dev_in dev))))" "0 \<le> wanted" "bdb_ok out"
  shows "\<exists>out'. raw_loop toBeRead bytes wanted out dev
      = (bytes + min wanted (int (length (dev_in dev))), out', dev\<lparr>dev_in := drop (nat wanted) (dev_in dev)\<rparr>)
    \<and> bdb_ok out' \<and> bdb_data out' = bdb_data out @ take (nat wanted) (dev_in dev)"
  using assms
proof (induction toBeRead bytes wanted out dev rule: raw_loop.induct)
  case (1 toBeRead bytes wanted out dev)
  show ?case
  proof (cases "toBeRead \<le> 0 \<or> dev_in dev = []")
    case True
    then have "wanted = 0 \<or> dev_in dev = []" using "1.prems"(1,2) by (auto simp: min_def split: if_splits)
    then have "min wanted (int (length (dev_in dev))) = 0" "take (nat wanted) (dev_in dev) = []" "drop (nat wanted) (dev_in dev) = dev_in dev"
      using "1.prems"(2) by auto
    then show ?thesis using True "1.prems"(3) by (auto simp: raw_loop.simps intro!: exI [of _ out])
  next
    case False
    define k where "k = nat toBeRead"
    have k: "toBeRead = int k" "0 < k" "k \<le> length (dev_in dev)" "int k \<le> wanted"
      using False "1.prems"(1) by (auto simp: k_def)
    let ?dev = "dev\<lparr>dev_in := drop k (dev_in dev)\<rparr>" and ?out = "bdb_append (take k (dev_in dev)) out"
    have s: "sock_read toBeRead dev = (int k, take k (dev_in dev), ?dev)"
      using k False by (auto simp: sock_read_def dev_read_def)
    have o: "bdb_ok ?out" "bdb_data ?out = bdb_data out @ take k (dev_in dev)" using bdb_append_ok [OF "1.prems"(3)] by auto
    have ih: "\<exists>out'. raw_loop (min (128 * 1024) (min (wanted - int k) (int (bytesAvailable ?dev)))) (bytes + int k) (wanted - int k) ?out ?dev
      = (bytes + int k + min (wanted - int k) (int (length (dev_in ?dev))), out', ?dev\<lparr>dev_in := drop (nat (wanted - int k)) (dev_in ?dev)\<rparr>)
      \<and> bdb_ok out' \<and> bdb_data out' = bdb_data ?out @ take (nat (wanted - int k)) (dev_in ?dev)"
      using "1.IH" [OF False refl s [symmetric] refl refl] k o by (simp add: bytesAvailable_def)
    have "nat wanted = nat (wanted - int k) + k" using k by simp
    then have "take (nat wanted) (dev_in dev) = take k (dev_in dev) @ take (nat (wanted - int k)) (drop k (dev_in dev))"
      "drop (nat wanted) (dev_in dev) = drop (nat (wanted - int k)) (drop k (dev_in dev))"
      using take_add [of k "nat (wanted - int k)" "dev_in dev"] by (simp_all add: add.commute)
    moreover have "bytes + int k + min (wanted - int k) (int (length (dev_in ?dev))) = bytes + min wanted (int (length (dev_in dev)))"
      using k by (simp add: min_def)
    moreover have "raw_loop toBeRead bytes wanted out dev = raw_loop (min (128 * 1024) (min (wanted - int k) (int (bytesAvailable ?dev))))
        (bytes + int k) (wanted - int k) ?out ?dev"
      using False s by (subst raw_loop.simps) (simp add: Let_def)
    ultimately show ?thesis using ih o(2) by auto
  qed
qed

lemma raw_reads:
  assumes "readBufferMaxSize r = 0" "0 \<le> n" "bdb_ok (responseData r)"
  shows "\<exists>out. readReplyBodyRaw n r dev
      = (min n (int (length (dev_in dev))), r\<lparr>responseData := out\<rparr>, dev\<lparr>dev_in := drop (nat n) (dev_in dev)\<rparr>)
    \<and> bdb_ok out \<and> bdb_data out = bdb_data (responseData r) @ take (nat n) (dev_in dev)"
  using raw_loop_reads [OF _ assms(2,3), of "min (128 * 1024) (min n (int (length (dev_in dev))))" dev 0] assms(1)
  by (auto simp: readReplyBodyRaw_def bytesAvailable_def)

subsection \<open>What the reply is waiting for\<close>

fun stream :: "(bytes \<times> bytes) list \<Rightarrow> bytes \<Rightarrow> bytes" where
  "stream [] last_line = last_line @ crlf @ crlf"
| "stream ((L, x) # cs) last_line = L @ crlf @ x @ crlf @ stream cs last_line"

definition chunks_ok :: "(bytes \<times> bytes) list \<Rightarrow> bytes \<Rightarrow> bool" where
  "chunks_ok cs last_line \<longleftrightarrow> list_all (\<lambda>(L, x). x \<noteq> [] \<and> chunk_line (length x) L) cs \<and> chunk_line 0 last_line"

definition first_line :: "(bytes \<times> bytes) list \<Rightarrow> bytes \<Rightarrow> bytes" where
  "first_line cs last_line = (case cs of [] \<Rightarrow> last_line | (L, x) # _ \<Rightarrow> L)"

abbreviation chunk_data :: "(bytes \<times> bytes) list \<Rightarrow> bytes" where
  "chunk_data cs \<equiv> concat (map snd cs)"

text \<open>The octets still to come and the data still in them: at the line of a chunk's size with a part of it
  in the fragment, in the data of a chunk, or after the last size.\<close>

inductive awaits :: "http_reply \<Rightarrow> bytes \<Rightarrow> bytes \<Rightarrow> bool" where
  at_line: "chunks_ok cs last_line \<Longrightarrow> \<not> lastChunkRead r \<Longrightarrow> currentChunkSize r \<le> currentChunkRead r \<Longrightarrow>
     pre = [] \<or> pre = crlf \<or> pre = [10] \<Longrightarrow> fragment r @ t = pre @ stream cs last_line \<Longrightarrow>
     length (fragment r) \<le> length (pre @ first_line cs last_line @ [13]) \<Longrightarrow> awaits r t (chunk_data cs)"
| at_data: "chunks_ok ((L, x) # cs) last_line \<Longrightarrow> \<not> lastChunkRead r \<Longrightarrow> fragment r = [] \<Longrightarrow>
     currentChunkSize r = int (length x) \<Longrightarrow> currentChunkRead r = int j \<Longrightarrow> j < length x \<Longrightarrow>
     t = drop j x @ crlf @ stream cs last_line \<Longrightarrow> awaits r t (drop j x @ chunk_data cs)"
| at_end: "lastChunkRead r \<Longrightarrow> fragment r = [] \<Longrightarrow> t = crlf \<or> t = [10] \<Longrightarrow> awaits r t []"

text \<open>What a call leaves alone, and what it has done with the octets that had arrived.\<close>

definition reply_kept :: "http_reply \<Rightarrow> http_reply \<Rightarrow> bool" where
  "reply_kept r r' \<longleftrightarrow> readBufferMaxSize r' = 0 \<and> bdb_ok (responseData r') \<and> chunkedTransferEncoding r' = chunkedTransferEncoding r
     \<and> forceConnectionCloseEnabled r' = forceConnectionCloseEnabled r
     \<and> prefix (bdb_data (responseData r)) (bdb_data (responseData r'))"

definition feeds :: "http_reply \<Rightarrow> bytes \<Rightarrow> bytes \<Rightarrow> int \<times> http_reply \<times> io_device \<Rightarrow> bool" where
  "feeds r d fut res \<longleftrightarrow> (case res of (b, r', dev) \<Rightarrow> dev_in dev = [] \<and> reply_kept r r'
     \<and> (\<exists>d'. bdb_data (responseData r') @ d' = bdb_data (responseData r) @ d
         \<and> (if fut = [] then d' = [] \<and> r_state r' = AllDoneState else r_state r' = r_state r \<and> awaits r' fut d')))"

lemma feedsI:
  assumes "dev_in dev = []" "reply_kept r r'" "bdb_data (responseData r') @ d' = bdb_data (responseData r) @ d"
    "fut = [] \<Longrightarrow> d' = [] \<and> r_state r' = AllDoneState" "fut \<noteq> [] \<Longrightarrow> r_state r' = r_state r \<and> awaits r' fut d'"
  shows "feeds r d fut (b, r', dev)"
  using assms by (auto simp: feeds_def)

definition chunk_rest :: "int \<Rightarrow> http_reply \<Rightarrow> io_device \<Rightarrow> (int \<times> http_reply \<times> io_device) option" where
  "chunk_rest bytes r dev =
     (if currentChunkSize r = 0 \<or> lastChunkRead r then Some (end_chunks bytes r dev)
      else let (haveRead, r, dev) = readReplyBodyRaw (currentChunkSize r - currentChunkRead r) r dev
           in chunked_loop (bytes + haveRead) (r\<lparr>currentChunkRead := currentChunkRead r + haveRead\<rparr>) dev)"

lemma chunked_loop_rest:
  "readBufferMaxSize r = 0 \<Longrightarrow> chunked_loop bytes r dev =
     (if dev_in dev = [] then Some (bytes, r, dev)
      else let (go, bytes, r, dev) = begin_chunk bytes r dev in if \<not> go then Some (bytes, r, dev) else chunk_rest bytes r dev)"
  by (subst chunked_loop.simps) (simp add: bytesAvailable_def chunk_rest_def split: prod.split)

lemma rest_end:
  assumes "currentChunkSize r = 0 \<or> lastChunkRead r" "fragment r = []" "dev_in dev @ fut = crlf \<or> dev_in dev @ fut = [10]"
    and "readBufferMaxSize r = 0" "bdb_ok (responseData r)"
  shows "\<exists>res. chunk_rest b r dev = Some res \<and> feeds r [] fut res"
proof -
  have k: "reply_kept r (r\<lparr>lastChunkRead := True\<rparr>)" "reply_kept r (r\<lparr>lastChunkRead := True, r_state := AllDoneState\<rparr>)"
    using assms(4,5) by (simp_all add: reply_kept_def)
  have a: "fut = crlf \<or> fut = [10] \<Longrightarrow> awaits (r\<lparr>lastChunkRead := True\<rparr>) fut []" using assms(2) by (intro at_end) simp_all
  consider "dev_in dev = []" "fut = crlf \<or> fut = [10]" | "dev_in dev = [13]" "fut = [10]" | "dev_in dev = crlf \<or> dev_in dev = [10]" "fut = []"
    using assms(3) by (auto simp: append_eq_Cons_conv)
  then show ?thesis
  proof cases
    case 1
    then have "chunk_rest b r dev = Some (b, r\<lparr>lastChunkRead := True\<rparr>, dev)"
      using assms(1) by (auto simp: chunk_rest_def end_chunks_def sock_read_def)
    then show ?thesis using 1 k a by (auto intro!: feedsI)
  next
    case 2
    then have "chunk_rest b r dev = Some (b + 1, r\<lparr>lastChunkRead := True\<rparr>, dev\<lparr>dev_in := []\<rparr>)"
      using assms(1) by (auto simp: chunk_rest_def end_chunks_def sock_read_def dev_read_def)
    then show ?thesis using 2 k a by (auto intro!: feedsI)
  next
    case 3
    then have "chunk_rest b r dev = Some (b + int (length (dev_in dev)), r\<lparr>lastChunkRead := True, r_state := AllDoneState\<rparr>, dev\<lparr>dev_in := []\<rparr>)"
      using assms(1) by (auto simp: chunk_rest_def end_chunks_def sock_read_def dev_read_def)
    then show ?thesis using 3 k by (auto intro!: feedsI)
  qed
qed

lemma reply_keptD [dest]: "reply_kept r r' \<Longrightarrow> readBufferMaxSize r' = 0 \<and> bdb_ok (responseData r')"
  by (simp add: reply_kept_def)

lemma feeds_trans:
  assumes "feeds r' d' fut res" "reply_kept r r'" "r_state r' = r_state r"
    and "bdb_data (responseData r') @ d' = bdb_data (responseData r) @ d"
  shows "feeds r d fut res"
  using assms by (auto simp: feeds_def reply_kept_def split: prod.splits intro: prefix_order.trans)

lemma idle_feeds:
  assumes "dev_in dev = []" "awaits r fut d" "readBufferMaxSize r = 0" "bdb_ok (responseData r)"
  shows "feeds r d fut (b, r, dev)"
proof -
  have "fut \<noteq> []" using assms(2)
  proof cases
    case (at_line cs last_line pre)
    show ?thesis
    proof
      assume "fut = []"
      then have "fragment r = pre @ stream cs last_line" using at_line(6) by simp
      then show False using at_line(7) by (cases cs) (auto simp: first_line_def)
    qed
  qed auto
  then show ?thesis using assms by (intro feedsI) (auto simp: reply_kept_def)
qed

text \<open>The data of a chunk, when what follows its end is known to be handled.\<close>

lemma rest_data:
  assumes c: "chunks_ok ((L, x) # cs) last_line" and r: "\<not> lastChunkRead r" "fragment r = []" "currentChunkSize r = int (length x)"
      "currentChunkRead r = int j" "j < length x" "readBufferMaxSize r = 0" "bdb_ok (responseData r)"
    and s: "dev_in dev @ fut = drop j x @ crlf @ stream cs last_line" "0 \<le> b"
    and after: "\<And>b r dev. \<not> lastChunkRead r \<Longrightarrow> currentChunkSize r \<le> currentChunkRead r \<Longrightarrow> fragment r = [] \<Longrightarrow> 0 < b \<Longrightarrow>
      readBufferMaxSize r = 0 \<Longrightarrow> bdb_ok (responseData r) \<Longrightarrow> dev_in dev @ fut = crlf @ stream cs last_line \<Longrightarrow>
      length (dev_in dev) < 2 ^ 31 \<Longrightarrow> \<exists>res. chunked_loop b r dev = Some res \<and> feeds r (chunk_data cs) fut res"
    and l: "length (dev_in dev) < 2 ^ 31"
  shows "\<exists>res. chunk_rest b r dev = Some res \<and> feeds r (drop j x @ chunk_data cs) fut res"
proof -
  define k where "k = min (length x - j) (length (dev_in dev))"
  obtain out where o: "readReplyBodyRaw (int (length x) - int j) r dev
      = (int k, r\<lparr>responseData := out\<rparr>, dev\<lparr>dev_in := drop (length x - j) (dev_in dev)\<rparr>)"
    "bdb_ok out" "bdb_data out = bdb_data (responseData r) @ take (length x - j) (dev_in dev)"
  proof -
    have "int (length x) - int j = int (length x - j)" "nat (int (length x) - int j) = length x - j"
      "min (int (length x) - int j) (int (length (dev_in dev))) = int k" using r(5) by (auto simp: k_def)
    then show ?thesis using that raw_reads [OF r(6) _ r(7), of "int (length x) - int j" dev] r(5) by auto
  qed
  let ?r = "r\<lparr>responseData := out, currentChunkRead := int (j + k)\<rparr>" and ?dev = "dev\<lparr>dev_in := drop (length x - j) (dev_in dev)\<rparr>"
  have "x \<noteq> []" using r(5) by auto
  then have step: "chunk_rest b r dev = chunked_loop (b + int k) ?r ?dev" using r(1,3,4) o(1) by (simp add: chunk_rest_def)
  have reply_kept: "reply_kept r ?r" using r(6) o(2,3) by (simp add: reply_kept_def)
  show ?thesis
  proof (cases "length (dev_in dev) < length x - j")
    case True
    then have k: "k = length (dev_in dev)" "drop (length x - j) (dev_in dev) = []" by (simp_all add: k_def)
    have "take k (dev_in dev @ fut) = take k (drop j x @ crlf @ stream cs last_line)"
      "drop k (dev_in dev @ fut) = drop k (drop j x @ crlf @ stream cs last_line)" by (simp_all only: s(1))
    moreover have "k \<le> length (drop j x)" "take (length x - j) (dev_in dev) = dev_in dev" using True k(1) by simp_all
    ultimately have x: "take (length x - j) (dev_in dev) = take k (drop j x)" and f: "fut = drop (j + k) x @ crlf @ stream cs last_line"
      using k(1) by (simp_all add: add.commute)
    have "awaits ?r fut (drop (j + k) x @ chunk_data cs)"
      using c r True k(1) f by (intro at_data) simp_all
    then have fe: "feeds ?r (drop (j + k) x @ chunk_data cs) fut (b + int k, ?r, ?dev)"
      using k(2) r(6) o(2) by (intro idle_feeds) simp_all
    have "take k (drop j x) @ drop (j + k) x = drop j x" by (metis add.commute append_take_drop_id drop_drop)
    then have "bdb_data (responseData ?r) @ drop (j + k) x @ chunk_data cs = bdb_data (responseData r) @ drop j x @ chunk_data cs"
      using o(3) x by simp
    with fe reply_kept have "feeds r (drop j x @ chunk_data cs) fut (b + int k, ?r, ?dev)"
      by (rule_tac feeds_trans) (assumption, assumption, simp)
    moreover have "chunked_loop (b + int k) ?r ?dev = Some (b + int k, ?r, ?dev)"
      using r(6) k(2) by (subst chunked_loop_rest) simp_all
    ultimately show ?thesis unfolding step by blast
  next
    case False
    then have k: "k = length x - j" by (simp add: k_def)
    have "take (length x - j) (dev_in dev @ fut) = take (length x - j) (drop j x @ crlf @ stream cs last_line)" using s(1) by simp
    then have x: "take (length x - j) (dev_in dev) = drop j x" using False by simp
    have "drop (length x - j) (dev_in dev) @ fut = drop (length x - j) (dev_in dev @ fut)" using False by simp
    also have "\<dots> = crlf @ stream cs last_line" by (simp only: s(1)) simp
    finally have f: "dev_in ?dev @ fut = crlf @ stream cs last_line" by simp
    have pos: "0 < b + int k" "currentChunkSize ?r \<le> currentChunkRead ?r" using s(2) r(3,5) k by simp_all
    have "length (dev_in ?dev) < 2 ^ 31" using l by simp
    then obtain res where res: "chunked_loop (b + int k) ?r ?dev = Some res" "feeds ?r (chunk_data cs) fut res"
      using after [OF _ pos(2) _ pos(1) _ _ f] r(1,2,6) o(2) by auto
    have "bdb_data (responseData ?r) @ chunk_data cs = bdb_data (responseData r) @ drop j x @ chunk_data cs" using o(3) x by simp
    with res(2) reply_kept have "feeds r (drop j x @ chunk_data cs) fut res"
      by (rule_tac feeds_trans) (assumption, assumption, simp)
    then show ?thesis unfolding step using res(1) by blast
  qed
qed

text \<open>The size line: the first part of a call, with the part of the line that has arrived before.\<close>

lemma stream_first: "\<exists>rest. stream cs last_line = first_line cs last_line @ crlf @ rest"
  by (cases cs) (auto simp: first_line_def)

lemma get_chunk_size:
  assumes "L \<noteq> []" "10 \<notin> set L" "13 \<notin> set L" "size_text (pre @ L) = v" "size_text (pre @ L @ [13]) = v"
    "pre = [] \<or> pre = crlf \<or> pre = [10]"
    and "fragment r @ dev_in dev @ fut = pre @ L @ crlf @ rest" "length (fragment r) \<le> length (pre @ L @ [13])"
    and "length (dev_in dev) < 2 ^ 31"
  shows "if length (fragment r @ dev_in dev) < length (pre @ L @ crlf)
    then getChunkSize r dev = (int (length (dev_in dev)), -1, r\<lparr>fragment := fragment r @ dev_in dev\<rparr>, dev\<lparr>dev_in := []\<rparr>)
    else \<exists>s. getChunkSize r dev = (int (length (dev_in dev)) - int (length s), v, r\<lparr>fragment := []\<rparr>, dev\<lparr>dev_in := s\<rparr>)
      \<and> s @ fut = rest \<and> length s \<le> length (dev_in dev)"
proof -
  have a: "i32 (int (bytesAvailable dev)) = 0 + int (length (dev_in dev))" using assms(9) by (simp add: i32_small bytesAvailable_def)
  note c = chunk_size_line [OF assms(1-8) a]
  show ?thesis
  proof (cases "length (fragment r @ dev_in dev) < length (pre @ L @ crlf)")
    case False
    then obtain s where s: "chunk_size_loop (i32 (int (bytesAvailable dev))) 0 (fragment r) dev
        = (i32 (int (bytesAvailable dev)) - int (length s), v, [], dev\<lparr>dev_in := s\<rparr>)" "s @ fut = rest" using c by auto
    from chunk_size_loop_shorter [OF s(1)] s a show ?thesis using False by (auto simp: getChunkSize_def)
  qed (use c a in \<open>simp add: getChunkSize_def\<close>)
qed

definition after_size :: "int \<Rightarrow> http_reply \<Rightarrow> io_device \<Rightarrow> (int \<times> http_reply \<times> io_device) option" where
  "after_size b r dev =
     (let (m, size, r, dev) = getChunkSize r dev; r = r\<lparr>currentChunkSize := size\<rparr>
      in if size = -1 then Some (b + m, r, dev) else chunk_rest (b + m) r dev)"

lemma begin_line:
  assumes "readBufferMaxSize r = 0" "dev_in dev \<noteq> []" "\<not> lastChunkRead r" "currentChunkSize r \<le> currentChunkRead r" "0 \<le> b"
  shows "chunked_loop b r dev =
    (let r = r\<lparr>currentChunkSize := 0, currentChunkRead := 0\<rparr>
     in if b = 0 then after_size b r dev
        else case dev_in dev of
               _ # _ # s \<Rightarrow> after_size (b + 2) r (dev\<lparr>dev_in := s\<rparr>)
             | _ \<Rightarrow> Some (b, r, dev\<lparr>dev_in := []\<rparr>))"
proof (cases "b = 0")
  case True
  then show ?thesis using assms
    by (subst chunked_loop_rest) (auto simp: begin_chunk_def after_size_def Let_def split: prod.splits)
next
  case False
  obtain c t where c: "dev_in dev = c # t" using assms(2) by (cases "dev_in dev") auto
  show ?thesis
  proof (cases t)
    case Nil
    then have "sock_read 2 dev = (1, [c], dev\<lparr>dev_in := []\<rparr>)" by (simp add: sock_read_def dev_read_def c)
    then show ?thesis using False assms by (subst chunked_loop_rest) (simp_all add: begin_chunk_def c Nil Let_def)
  next
    case (Cons c' s)
    then have "sock_read 2 dev = (2, [c, c'], dev\<lparr>dev_in := s\<rparr>)" by (simp add: sock_read_def dev_read_def c)
    then show ?thesis using False assms
      by (subst chunked_loop_rest) (auto simp: begin_chunk_def after_size_def c Cons Let_def split: prod.splits)
  qed
qed

lemma after_size_feeds:
  assumes c: "chunks_ok cs last_line" "stream cs last_line = L @ crlf @ rest" "first_line cs last_line = L" "chunk_line n L"
    and pre: "pre = [] \<or> pre = crlf \<or> pre = [10]"
    and r: "\<not> lastChunkRead r" "currentChunkRead r = 0" "readBufferMaxSize r = 0" "bdb_ok (responseData r)"
    and t: "fragment r @ dev_in dev @ fut = pre @ stream cs last_line" "length (fragment r) \<le> length (pre @ L @ [13])"
      "length (dev_in dev) < 2 ^ 31"
    and after: "\<And>b r dev. \<not> lastChunkRead r \<Longrightarrow> currentChunkSize r = int n \<Longrightarrow> currentChunkRead r = 0 \<Longrightarrow> fragment r = [] \<Longrightarrow> 0 \<le> b \<Longrightarrow>
      readBufferMaxSize r = 0 \<Longrightarrow> bdb_ok (responseData r) \<Longrightarrow> dev_in dev @ fut = rest \<Longrightarrow> length (dev_in dev) < 2 ^ 31 \<Longrightarrow>
      \<exists>res. chunk_rest b r dev = Some res \<and> feeds r (chunk_data cs) fut res"
    and b: "0 \<le> b"
  shows "\<exists>res. after_size b r dev = Some res \<and> feeds r (chunk_data cs) fut res"
proof -
  note g = get_chunk_size [OF line_chars [OF c(4)] size_text_line [OF c(4) pre] pre t(1) [unfolded c(2)] t(2,3)]
  show ?thesis
  proof (cases "length (fragment r @ dev_in dev) < length (pre @ L @ crlf)")
    case True
    let ?r = "r\<lparr>fragment := fragment r @ dev_in dev, currentChunkSize := -1\<rparr>"
    have "after_size b r dev = Some (b + int (length (dev_in dev)), ?r, dev\<lparr>dev_in := []\<rparr>)"
      unfolding after_size_def g [unfolded if_P [OF True]] by simp
    moreover have "fragment ?r @ fut = pre @ stream cs last_line" "length (fragment ?r) \<le> length (pre @ first_line cs last_line @ [13])"
      using t(1) True by (simp_all add: c(3))
    then have aw: "awaits ?r fut (chunk_data cs)" using c(1) r(1,2) pre by (intro at_line [of cs last_line _ pre]) simp_all
    have fe: "feeds ?r (chunk_data cs) fut (b + int (length (dev_in dev)), ?r, dev\<lparr>dev_in := []\<rparr>)"
      using r(3,4) by (intro idle_feeds aw) simp_all
    have "reply_kept r ?r" using r(3,4) by (simp add: reply_kept_def)
    with fe have "feeds r (chunk_data cs) fut (b + int (length (dev_in dev)), ?r, dev\<lparr>dev_in := []\<rparr>)"
      by (rule feeds_trans) simp_all
    ultimately show ?thesis by blast
  next
    case False
    then obtain s where s: "getChunkSize r dev = (int (length (dev_in dev)) - int (length s), int n, r\<lparr>fragment := []\<rparr>, dev\<lparr>dev_in := s\<rparr>)"
      "s @ fut = rest" "length s \<le> length (dev_in dev)" using g by auto
    let ?r = "r\<lparr>fragment := [], currentChunkSize := int n\<rparr>" and ?b = "b + (int (length (dev_in dev)) - int (length s))"
    have "0 \<le> ?b" "length (dev_in (dev\<lparr>dev_in := s\<rparr>)) < 2 ^ 31" "dev_in (dev\<lparr>dev_in := s\<rparr>) @ fut = rest" using s(2,3) b t(3) by simp_all
    then obtain res where res: "chunk_rest ?b ?r (dev\<lparr>dev_in := s\<rparr>) = Some res" "feeds ?r (chunk_data cs) fut res"
      using after [of ?r ?b "dev\<lparr>dev_in := s\<rparr>"] r by auto
    have "reply_kept r ?r" using r(3,4) by (simp add: reply_kept_def)
    with res(2) have "feeds r (chunk_data cs) fut res" by (rule feeds_trans) simp_all
    moreover have "after_size b r dev = Some res" unfolding after_size_def s(1) using res(1) by simp
    ultimately show ?thesis by blast
  qed
qed

lemma loop_first:
  assumes c: "chunks_ok cs last_line" "stream cs last_line = L @ crlf @ rest" "first_line cs last_line = L" "chunk_line n L"
    and pre: "pre = [] \<or> pre = crlf \<or> pre = [10]"
    and r: "\<not> lastChunkRead r" "currentChunkSize r \<le> currentChunkRead r" "readBufferMaxSize r = 0" "bdb_ok (responseData r)"
    and t: "fragment r @ dev_in dev @ fut = pre @ stream cs last_line" "length (fragment r) \<le> length (pre @ L @ [13])"
      "length (dev_in dev) < 2 ^ 31"
    and b: "b = 0 \<or> 0 < b \<and> fragment r = [] \<and> pre = crlf"
    and after: "\<And>b r dev. \<not> lastChunkRead r \<Longrightarrow> currentChunkSize r = int n \<Longrightarrow> currentChunkRead r = 0 \<Longrightarrow> fragment r = [] \<Longrightarrow> 0 \<le> b \<Longrightarrow>
      readBufferMaxSize r = 0 \<Longrightarrow> bdb_ok (responseData r) \<Longrightarrow> dev_in dev @ fut = rest \<Longrightarrow> length (dev_in dev) < 2 ^ 31 \<Longrightarrow>
      \<exists>res. chunk_rest b r dev = Some res \<and> feeds r (chunk_data cs) fut res"
  shows "\<exists>res. chunked_loop b r dev = Some res \<and> feeds r (chunk_data cs) fut res"
proof (cases "dev_in dev = []")
  case True
  then have "awaits r fut (chunk_data cs)" using c(1,3) r pre t by (intro at_line [of cs last_line _ pre]) simp_all
  then have "feeds r (chunk_data cs) fut (b, r, dev)" using True r by (intro idle_feeds)
  then show ?thesis using True r(3) by (auto simp: chunked_loop_rest)
next
  case False
  let ?r = "r\<lparr>currentChunkSize := 0, currentChunkRead := 0\<rparr>"
  have b0: "0 \<le> b" using b by auto
  note loop = begin_line [OF r(3) False r(1,2) b0, unfolded Let_def]
  have k: "reply_kept r ?r" "r_state ?r = r_state r" "bdb_data (responseData ?r) = bdb_data (responseData r)" using r by (simp_all add: reply_kept_def)
  have via: "\<exists>res. X = Some res \<and> feeds r (chunk_data cs) fut res" if "\<exists>res. X = Some res \<and> feeds ?r (chunk_data cs) fut res" for X
    using that k feeds_trans [of ?r "chunk_data cs" fut _ r "chunk_data cs"] by auto
  show ?thesis
  proof (cases "b = 0")
    case True
    have "\<exists>res. after_size b ?r dev = Some res \<and> feeds ?r (chunk_data cs) fut res"
      using r t by (intro after_size_feeds [OF c pre _ _ _ _ _ _ _ after b0]) simp_all
    then show ?thesis using loop True via by simp
  next
    case nz: False
    then have p: "fragment r = []" "pre = crlf" using b by auto
    obtain x xs where d: "dev_in dev = x # xs" using False by (cases "dev_in dev") auto
    show ?thesis
    proof (cases xs)
      case Nil
      then have "fut = [10] @ stream cs last_line" using t(1) p d by simp
      then have "awaits ?r fut (chunk_data cs)" using c(1) r p by (intro at_line [of cs last_line _ "[10]"]) simp_all
      then have "feeds ?r (chunk_data cs) fut (b, ?r, dev\<lparr>dev_in := []\<rparr>)" using r by (intro idle_feeds) simp_all
      then show ?thesis using loop nz d Nil via [of "Some (b, ?r, dev\<lparr>dev_in := []\<rparr>)"] by simp
    next
      case (Cons y s)
      then have s: "s @ fut = [] @ stream cs last_line" using t(1) p d by simp
      have "\<exists>res. after_size (b + 2) ?r (dev\<lparr>dev_in := s\<rparr>) = Some res \<and> feeds ?r (chunk_data cs) fut res"
        using r t(3) s p d Cons b0 by (intro after_size_feeds [OF c, where pre = "[]"] after) simp_all
      then show ?thesis using loop nz d Cons via by simp
    qed
  qed
qed

lemma loop_line:
  assumes "chunks_ok cs last_line" "\<not> lastChunkRead r" "currentChunkSize r \<le> currentChunkRead r" "pre = [] \<or> pre = crlf \<or> pre = [10]"
    and "fragment r @ dev_in dev @ fut = pre @ stream cs last_line"
    and "length (fragment r) \<le> length (pre @ first_line cs last_line @ [13])"
    and "b = 0 \<or> 0 < b \<and> fragment r = [] \<and> pre = crlf"
    and "readBufferMaxSize r = 0" "bdb_ok (responseData r)" "length (dev_in dev) < 2 ^ 31"
  shows "\<exists>res. chunked_loop b r dev = Some res \<and> feeds r (chunk_data cs) fut res"
  using assms
proof (induction cs arbitrary: r dev b pre)
  case Nil
  have l: "stream [] last_line = last_line @ crlf @ crlf" "first_line [] last_line = last_line" "chunk_line 0 last_line"
    using Nil.prems(1) by (simp_all add: first_line_def chunks_ok_def)
  have "\<exists>res. chunk_rest b r dev = Some res \<and> feeds r (chunk_data []) fut res"
    if "currentChunkSize r = int 0" "fragment r = []" "readBufferMaxSize r = 0" "bdb_ok (responseData r)" "dev_in dev @ fut = crlf" for b r dev
    using rest_end [of r dev fut b] that by simp
  then show ?case using Nil.prems l by (intro loop_first [OF Nil.prems(1) l, of pre]) simp_all
next
  case (Cons a cs)
  obtain L x where a: "a = (L, x)" by (cases a)
  have c: "chunks_ok cs last_line" "x \<noteq> []" "chunk_line (length x) L" using Cons.prems(1) by (simp_all add: chunks_ok_def a)
  have l: "stream (a # cs) last_line = L @ crlf @ x @ crlf @ stream cs last_line" "first_line (a # cs) last_line = L"
    by (simp_all add: first_line_def a)
  have "\<exists>res. chunk_rest b r dev = Some res \<and> feeds r (chunk_data (a # cs)) fut res"
    if r: "\<not> lastChunkRead r" "currentChunkSize r = int (length x)" "currentChunkRead r = 0" "fragment r = []" "0 \<le> b"
      "readBufferMaxSize r = 0" "bdb_ok (responseData r)" "dev_in dev @ fut = x @ crlf @ stream cs last_line" "length (dev_in dev) < 2 ^ 31"
    for b r dev
  proof -
    have "\<exists>res. chunk_rest b r dev = Some res \<and> feeds r (drop 0 x @ chunk_data cs) fut res"
      using r c(2) Cons.prems(1) by (intro rest_data [of L x cs last_line] Cons.IH [OF c(1), of _ crlf]) (simp_all add: a)
    then show ?thesis by (simp add: a)
  qed
  then show ?case using Cons.prems l by (intro loop_first [OF Cons.prems(1) l c(3), of pre]) simp_all
qed

subsection \<open>Calls and arrivals\<close>

lemma chunked_feeds:
  assumes "awaits r (dev_in dev @ fut) d" "readBufferMaxSize r = 0" "bdb_ok (responseData r)" "length (dev_in dev) < 2 ^ 31"
  shows "\<exists>res. readReplyBodyChunked r dev = Some res \<and> feeds r d fut res"
proof (cases "dev_in dev = []")
  case True
  then have "awaits r fut d" using assms(1) by simp
  from idle_feeds [OF True this assms(2,3)] show ?thesis
    using True assms(2) by (auto simp: readReplyBodyChunked_def chunked_loop_rest)
next
  case False
  from assms(1) show ?thesis
  proof cases
    case (at_line cs last_line pre)
    then show ?thesis unfolding readReplyBodyChunked_def using assms(2-4) by (simp only: at_line(1)) (rule loop_line, auto)
  next
    case (at_data L x cs last_line j)
    have "begin_chunk 0 r dev = (True, 0, r, dev)" using at_data(4,5,6,7) by (simp add: begin_chunk_def)
    then have "readReplyBodyChunked r dev = chunk_rest 0 r dev"
      using False assms(2) by (simp add: readReplyBodyChunked_def chunked_loop_rest)
    moreover have c: "chunks_ok cs last_line" using at_data(2) by (simp add: chunks_ok_def)
    have "\<exists>res. chunk_rest 0 r dev = Some res \<and> feeds r (drop j x @ chunk_data cs) fut res"
      using at_data assms(2-4) by (intro rest_data [OF at_data(2)] loop_line [OF c, of _ crlf]) simp_all
    ultimately show ?thesis using at_data(1) by simp
  next
    case at_end
    have "begin_chunk 0 r dev = (True, 0, r, dev)" using at_end(2) by (simp add: begin_chunk_def)
    then have "readReplyBodyChunked r dev = chunk_rest 0 r dev"
      using False assms(2) by (simp add: readReplyBodyChunked_def chunked_loop_rest)
    moreover have "\<exists>res. chunk_rest 0 r dev = Some res \<and> feeds r [] fut res"
      using at_end assms(2,3) by (intro rest_end) auto
    ultimately show ?thesis using at_end(1) by simp
  qed
qed

lemma awaits_frame: "awaits r t d \<Longrightarrow> awaits (r\<lparr>contentRead := n\<rparr>) t d"
  by (induction rule: awaits.induct) (auto intro: awaits.intros)

text \<open>The body arrives in segments, and \<open>readBody\<close> is called after each.\<close>

fun receive_segments :: "bytes list \<Rightarrow> http_reply \<Rightarrow> io_device \<Rightarrow> (http_reply \<times> io_device) option" where
  "receive_segments [] r dev = Some (r, dev)"
| "receive_segments (seg # segs) r dev =
     do { (_, r, dev) \<leftarrow> readBody r (dev\<lparr>dev_in := dev_in dev @ seg\<rparr>);
          receive_segments segs r dev }"

lemma readBody_chunked:
  assumes "chunkedTransferEncoding r" "readReplyBodyChunked r dev = Some (b, r', dev')"
  shows "readBody r dev = Some (b, r'\<lparr>contentRead := contentRead r' + b\<rparr>, dev')"
  using assms by (simp add: readBody_def)

lemma no_more_octets:
  assumes "concat segs = []" "dev_in dev = []" "chunkedTransferEncoding r" "readBufferMaxSize r = 0"
  shows "\<exists>r'. receive_segments segs r dev = Some (r', dev) \<and> forceConnectionCloseEnabled r' = forceConnectionCloseEnabled r
    \<and> responseData r' = responseData r \<and> r_state r' = r_state r"
  using assms
proof (induction segs arbitrary: r)
  case (Cons seg segs)
  have s: "seg = []" "concat segs = []" using Cons.prems(1) by simp_all
  have "readReplyBodyChunked r dev = Some (0, r, dev)" using Cons.prems by (simp add: readReplyBodyChunked_def chunked_loop_rest)
  then have "readBody r dev = Some (0, r, dev)" using readBody_chunked [OF Cons.prems(3)] by simp
  then show ?case using s Cons.IH [OF s(2) Cons.prems(2-4)] by simp
qed simp

lemma segments_feed:
  assumes "awaits r (concat segs @ fut) d" "readBufferMaxSize r = 0" "bdb_ok (responseData r)" "chunkedTransferEncoding r"
    and "length (concat segs) < 2 ^ 31" "dev_in dev = []"
  shows "\<exists>r' dev' d'. receive_segments segs r dev = Some (r', dev') \<and> dev_in dev' = []
    \<and> forceConnectionCloseEnabled r' = forceConnectionCloseEnabled r
    \<and> prefix (bdb_data (responseData r)) (bdb_data (responseData r'))
    \<and> bdb_data (responseData r') @ d' = bdb_data (responseData r) @ d
    \<and> (if fut = [] \<and> segs \<noteq> [] then d' = [] \<and> r_state r' = AllDoneState else r_state r' = r_state r)"
  using assms
proof (induction segs arbitrary: r dev d)
  case (Cons seg segs)
  define dev1 where "dev1 = dev\<lparr>dev_in := dev_in dev @ seg\<rparr>"
  have d1: "dev_in dev1 = seg" using Cons.prems(6) by (simp add: dev1_def)
  have "awaits r (dev_in dev1 @ concat segs @ fut) d" "length (dev_in dev1) < 2 ^ 31" using Cons.prems(1,5) d1 by simp_all
  from chunked_feeds [OF this(1) Cons.prems(2,3) this(2)] obtain b r1 dev2 where
    c: "readReplyBodyChunked r dev1 = Some (b, r1, dev2)" and "feeds r d (concat segs @ fut) (b, r1, dev2)"
    by (metis prod_cases3)
  then obtain d' where f: "dev_in dev2 = []" "reply_kept r r1" "bdb_data (responseData r1) @ d' = bdb_data (responseData r) @ d"
    "if concat segs @ fut = [] then d' = [] \<and> r_state r1 = AllDoneState else r_state r1 = r_state r \<and> awaits r1 (concat segs @ fut) d'"
    by (auto simp: feeds_def)
  let ?r = "r1\<lparr>contentRead := contentRead r1 + b\<rparr>"
  have step: "receive_segments (seg # segs) r dev = receive_segments segs ?r dev2"
    using readBody_chunked [OF Cons.prems(4) c] by (simp add: dev1_def)
  have k: "readBufferMaxSize ?r = 0" "bdb_ok (responseData ?r)" "chunkedTransferEncoding ?r"
    "forceConnectionCloseEnabled ?r = forceConnectionCloseEnabled r"
    "prefix (bdb_data (responseData r)) (bdb_data (responseData ?r))" using f(2) Cons.prems(4) by (simp_all add: reply_kept_def)
  show ?case
  proof (cases "concat segs @ fut = []")
    case True
    then have "concat segs = []" by simp
    from no_more_octets [OF this f(1) k(3,1)] obtain r' where r': "receive_segments segs ?r dev2 = Some (r', dev2)"
      "forceConnectionCloseEnabled r' = forceConnectionCloseEnabled ?r" "responseData r' = responseData ?r" "r_state r' = r_state ?r" by blast
    show ?thesis unfolding step using r' f True k(4,5) by auto
  next
    case False
    then have a: "awaits ?r (concat segs @ fut) d'" "r_state r1 = r_state r" using f(4) awaits_frame by auto
    have "length (concat segs) < 2 ^ 31" using Cons.prems(5) by simp
    from Cons.IH [OF a(1) k(1-3) this f(1)] obtain r' dev' e where ih: "receive_segments segs ?r dev2 = Some (r', dev')" "dev_in dev' = []"
      "forceConnectionCloseEnabled r' = forceConnectionCloseEnabled ?r"
      "prefix (bdb_data (responseData ?r)) (bdb_data (responseData r'))"
      "bdb_data (responseData r') @ e = bdb_data (responseData ?r) @ d'"
      "if fut = [] \<and> segs \<noteq> [] then e = [] \<and> r_state r' = AllDoneState else r_state r' = r_state ?r" by blast
    show ?thesis unfolding step using ih f(3) a(2) k(4) prefix_order.trans [OF k(5) ih(4)] False by (cases "segs = []") auto
  qed
qed auto

subsection \<open>Properties\<close>

text \<open>C10. A body in chunked transfer coding may arrive in any pieces, cut anywhere inside size lines, data or line
  ends: the calls of \<open>readBody\<close> deliver a prefix of the data while a part of the body is missing, and
  exactly the data of all chunks, with the reply done, when the last octet has arrived.\<close>

theorem chunked_transfer:
  assumes "chunks_ok cs last_line" "concat segs @ rest = stream cs last_line" "segs \<noteq> []" "length (stream cs last_line) < 2 ^ 31"
    and "chunkedTransferEncoding r" "\<not> lastChunkRead r" "currentChunkSize r = 0" "currentChunkRead r = 0" "fragment r = []"
    and "readBufferMaxSize r = 0" "bdb_ok (responseData r)" "dev_in dev = []"
  shows "\<exists>r' dev' d. receive_segments segs r dev = Some (r', dev') \<and> dev_in dev' = []
    \<and> forceConnectionCloseEnabled r' = forceConnectionCloseEnabled r
    \<and> bdb_data (responseData r') = bdb_data (responseData r) @ d
    \<and> (if rest = [] then d = chunk_data cs \<and> r_state r' = AllDoneState else prefix d (chunk_data cs) \<and> r_state r' = r_state r)"
proof -
  have "first_line cs last_line = first_line cs last_line \<and> length (fragment r) \<le> length ([] @ first_line cs last_line @ [13])"
    using assms(9) by simp
  then have "awaits r (concat segs @ rest) (chunk_data cs)" using assms(1,2,6-9) by (intro at_line [of cs last_line _ "[]"]) simp_all
  moreover have "length (concat segs) < 2 ^ 31" using assms(4) unfolding assms(2) [symmetric] by simp
  ultimately obtain r' dev' d' where s: "receive_segments segs r dev = Some (r', dev')" "dev_in dev' = []"
    "forceConnectionCloseEnabled r' = forceConnectionCloseEnabled r" "prefix (bdb_data (responseData r)) (bdb_data (responseData r'))"
    "bdb_data (responseData r') @ d' = bdb_data (responseData r) @ chunk_data cs"
    "if rest = [] \<and> segs \<noteq> [] then d' = [] \<and> r_state r' = AllDoneState else r_state r' = r_state r"
    using segments_feed [of r segs rest "chunk_data cs" dev] assms(5,10-12) by blast
  from s(4) obtain d where d: "bdb_data (responseData r') = bdb_data (responseData r) @ d" by (auto simp: prefix_def)
  then have "d @ d' = chunk_data cs" using s(5) by simp
  then have "prefix d (chunk_data cs)" "d' = [] \<Longrightarrow> d = chunk_data cs" by (metis prefixI, simp)
  then show ?thesis using s d assms(3) by (auto split: if_splits)
qed

theorem chunked_transfer_witness:
  "\<exists>r' dev'. receive_segments [chars ''2'', chars '';x'' @ [13], [10] @ chars ''h'', chars ''i'' @ crlf @ chars ''0'' @ crlf @ [13], [10]]
      ((QHttpNetworkReply False False)\<lparr>r_state := ReadingDataState, chunkedTransferEncoding := True\<rparr>) empty_device = Some (r', dev')
    \<and> bdb_data (responseData r') = chars ''hi'' \<and> r_state r' = AllDoneState"
proof -
  define r where "r = (QHttpNetworkReply False False)\<lparr>r_state := ReadingDataState, chunkedTransferEncoding := True\<rparr>"
  have "digits_ok 16 (chars ''2'')" "digits_value 16 (chars ''2'') = 2" "digits_ok 16 (chars ''0'')" "digits_value 16 (chars ''0'') = 0"
    by (simp_all add: digits_ok_def digits_value_def isDigitForBase_def digit_value_def chars_def)
  then have "chunk_line 2 (chars ''2'' @ chars '';x'')" "chunk_line 0 (chars ''0'' @ [])"
    unfolding chunk_line_def
    by (intro exI [of _ "chars ''2''"] exI [of _ "chars '';x''"] conjI, simp_all add: chars_def)
      (intro exI [of _ "chars ''0''"] exI [of _ "[]"] conjI, simp_all add: chars_def)
  then have "chunks_ok [(chars ''2;x'', chars ''hi'')] (chars ''0'')" by (simp add: chunks_ok_def chars_def eval_nat_numeral)
  note ok = this
  define segs where "segs = [chars ''2'', chars '';x'' @ [13], [10] @ chars ''h'', chars ''i'' @ crlf @ chars ''0'' @ crlf @ [13], [10]]"
  have s: "concat segs @ [] = stream [(chars ''2;x'', chars ''hi'')] (chars ''0'')" "segs \<noteq> []" by (simp_all add: segs_def chars_def)
  have "length (stream [(chars ''2;x'', chars ''hi'')] (chars ''0'')) < 2 ^ 31" by (simp add: chars_def)
  from chunked_transfer [OF ok s this, of r empty_device] obtain r' dev' where
    "receive_segments segs r empty_device = Some (r', dev')" "bdb_data (responseData r') = bdb_data (responseData r) @ chars ''hi''"
    "r_state r' = AllDoneState" by (auto simp: r_def QHttpNetworkReply_def empty_device_def)
  then show ?thesis unfolding r_def segs_def by (auto simp: QHttpNetworkReply_def simp del: receive_segments.simps)
qed

lemma trimmed_cr: "trimmed (s @ [13]) = trimmed s"
  by (simp add: trimmed_def ascii_isspace_def)

text \<open>C34. A size line that is not a hexadecimal number is taken as the size 0: the next two octets are taken as the end of
  the body and the reply is done without an error; when they are a line end, the connection is not even closed.\<close>

theorem bad_chunk_size_ends_body:
  assumes "dev_in dev = L @ crlf @ a # b # rest" "L \<noteq> []" "10 \<notin> set L" "13 \<notin> set L" "0x3B \<notin> set L"
    and "toSignedInteger (trimmed L) 16 = None" "length (dev_in dev) < 2 ^ 31"
    and "chunkedTransferEncoding r" "\<not> lastChunkRead r" "currentChunkSize r \<le> currentChunkRead r" "fragment r = []" "readBufferMaxSize r = 0"
  shows "\<exists>n r'. readBody r dev = Some (n, r', dev\<lparr>dev_in := rest\<rparr>) \<and> r_state r' = AllDoneState
    \<and> responseData r' = responseData r
    \<and> forceConnectionCloseEnabled r' = (forceConnectionCloseEnabled r \<or> [a, b] \<noteq> crlf)"
proof -
  have size: "size_text ([] @ L) = 0" "size_text ([] @ L @ [13]) = 0"
    using assms(5,6) by (simp_all add: size_text_def indexOfChar_append trimmed_cr)
  let ?r = "r\<lparr>currentChunkSize := 0, currentChunkRead := 0\<rparr>"
  have f: "fragment ?r @ dev_in dev @ [] = [] @ L @ crlf @ (a # b # rest)" "length (fragment ?r) \<le> length ([] @ L @ [13])"
    "\<not> length (fragment ?r @ dev_in dev) < length ([] @ L @ crlf)" using assms(1,11) by simp_all
  from get_chunk_size [OF assms(2-4) size _ f(1,2) assms(7)] f(3)
  have g: "getChunkSize ?r dev = (int (length (dev_in dev)) - int (length (a # b # rest)), 0, ?r\<lparr>fragment := []\<rparr>, dev\<lparr>dev_in := a # b # rest\<rparr>)"
    by simp
  have ne: "dev_in dev \<noteq> []" using assms(1) by simp
  have "readReplyBodyChunked r dev = after_size 0 ?r dev"
    using begin_line [OF assms(12) ne assms(9,10), of 0] by (simp add: readReplyBodyChunked_def)
  also have "\<dots> = Some (end_chunks (int (length (dev_in dev)) - int (length (a # b # rest))) (?r\<lparr>fragment := [], currentChunkSize := 0\<rparr>) (dev\<lparr>dev_in := a # b # rest\<rparr>))"
    unfolding after_size_def g by (simp add: chunk_rest_def)
  also have "end_chunks k R (dev\<lparr>dev_in := a # b # rest\<rparr>) = (k + 2, R\<lparr>lastChunkRead := True, r_state := AllDoneState,
      forceConnectionCloseEnabled := forceConnectionCloseEnabled R \<or> [a, b] \<noteq> crlf\<rparr>, dev\<lparr>dev_in := rest\<rparr>)" for k R
    by (auto simp: end_chunks_def sock_read_def dev_read_def Let_def intro: http_reply.equality)
  finally show ?thesis using readBody_chunked [OF assms(8)] by simp
qed

theorem bad_chunk_size_ends_body_witness:
  "\<exists>n r'. readBody ((QHttpNetworkReply False False)\<lparr>r_state := ReadingDataState, chunkedTransferEncoding := True\<rparr>)
      (empty_device\<lparr>dev_in := chars ''x'' @ crlf @ crlf\<rparr>) = Some (n, r', empty_device)
    \<and> r_state r' = AllDoneState \<and> \<not> forceConnectionCloseEnabled r'"
proof -
  have "trimmed (chars ''x'') = chars ''x''" by (simp add: trimmed_def ascii_isspace_def chars_def)
  moreover have "toSignedInteger (chars ''x'') 16 = None"
    by (simp add: toSignedInteger_def qstrntoll_def scanPrefix_def isAsciiDigit_def isDigitForBase_def ascii_isspace_def Let_def chars_def)
  ultimately show ?thesis
    using bad_chunk_size_ends_body [of "empty_device\<lparr>dev_in := chars ''x'' @ crlf @ crlf\<rparr>" "chars ''x''" 13 10 "[]"
        "(QHttpNetworkReply False False)\<lparr>r_state := ReadingDataState, chunkedTransferEncoding := True\<rparr>"]
    by (auto simp: QHttpNetworkReply_def empty_device_def chars_def)
qed

end
