(* ===== verification/HttpResponses.thy ===== *)
theory HttpResponses
  imports HttpParserProps HttpChunks
begin

text \<open>
  A whole HTTP/1 response with a body in chunked transfer coding, from the octets on the socket to the
  application: what reading the status line and the header block does with any part of them, the
  phases a reply is in (\<open>in_status\<close>, \<open>in_headers\<close>, \<open>in_body\<close>) with one lemma for a round of the receive
  loop and one for the loop in each of them, and the property that composes them with the
  header parser and the chunk reader.
\<close>

unbundle bit_operations_syntax

subsection \<open>The status line\<close>

lemma parse_status_line:
  assumes "digits_ok 10 ds" "digits_value 10 ds < 2 ^ 31" "2 \<le> length ds" "m < 10" "k < 10"
    "line = chars ''HTTP/'' @ [of_nat (48 + m), 0x2E, of_nat (48 + k), 32] @ ds @ 32 # reason"
  shows "parseStatus line p = (True, p\<lparr>majorVersion := int m, minorVersion := int k, statusCode := int (digits_value 10 ds), reasonPhrase := reason\<rparr>)"
proof -
  have d: "list_all (\<lambda>d. isDigitForBase d 10) ds" using assms(1) by (simp add: digits_ok_def)
  have no: "32 \<notin> set ds"
  proof
    assume "32 \<in> set ds"
    then have "isDigitForBase 32 10" using d by (simp add: list_all_iff)
    then show False by (simp add: isDigitForBase_def)
  qed
  have i: "indexOfChar 32 (ds @ 32 # reason) = Some (length ds)" by (rule index_skip [OF no])
  have l: "drop 9 line = ds @ 32 # reason" "line ! 5 = of_nat (48 + m)" "line ! 6 = 0x2E" "line ! 7 = of_nat (48 + k)" "line ! 8 = 32"
    "startsWith line (chars ''HTTP/'')" "length line = 10 + length ds + length reason"
    by (simp_all add: assms(6) chars_def startsWith_def)
  have "drop (Suc (length ds + 9)) line = drop (Suc (length ds)) (drop 9 line)" by simp
  then have r: "drop (Suc (length ds + 9)) line = reason" using l by simp
  have "\<not> length line < 11" using l(7) assms(3) by linarith
  have t: "toInt ds 10 = Some (int (digits_value 10 ds))"
    using toSignedInteger_digits [OF assms(1), of "[]" "[]"] assms(2) by (simp add: toInt_def spaces_def)
  have digit: "n < 10 \<Longrightarrow> schar (of_nat (48 + n)) - 0x30 = int n" for n
    by (auto simp: schar_def less_Suc_eq numeral_eq_Suc)
  show ?thesis
    using l r \<open>\<not> length line < 11\<close> i t digit [OF assms(4)] digit [OF assms(5)] assms(4,5) by (simp add: parseStatus_def Let_def)
qed

subsection \<open>Reading the status line and the headers\<close>

lemma readStatus_reads:
  assumes line: "10 \<notin> set line1" "take 5 line1 = chars ''HTTP/''" "last line1 = 13" "5 < length line1"
    and prems: "fragment r @ dev_in dev @ fut = line1 @ 10 # rest" "length (fragment r) \<le> length line1" "dev_open dev"
  shows "if length (fragment r @ dev_in dev) \<le> length line1
    then readStatus_loop b r dev = (b + int (length (dev_in dev)), r\<lparr>fragment := fragment r @ dev_in dev\<rparr>, dev\<lparr>dev_in := []\<rparr>)
    else \<exists>s. readStatus_loop b r dev = (if fst (parseStatus (butlast line1) (parser r)) then b + int (length (dev_in dev)) - int (length s) else -1,
         r\<lparr>parser := snd (parseStatus (butlast line1) (parser r)), r_state := ReadingHeaderState, fragment := []\<rparr>, dev\<lparr>dev_in := s\<rparr>)
      \<and> s @ fut = rest \<and> length s < length (dev_in dev)"
  using prems
proof (induction "dev_in dev" arbitrary: r b dev)
  case Nil
  then show ?case by (simp add: readStatus_loop.simps)
next
  case (Cons c s)
  have d: "dev_in dev = c # s" using Cons.hyps(2) by simp
  have split: "fragment r @ c # s @ fut = line1 @ 10 # rest" using Cons.prems(1) d by simp
  have H: "line1 ! 0 = 0x48" using line(2,4) by (cases line1) (simp_all add: chars_def)
  show ?case
  proof (cases "length (fragment r) < length line1")
    case True
    have "(fragment r @ c # s @ fut) ! length (fragment r) = line1 ! length (fragment r)" using True by (simp only: split) (simp add: nth_append)
    then have c: "c = line1 ! length (fragment r)" by (simp add: nth_append)
    then have "c \<noteq> 10" using line(1) True nth_mem by metis
    moreover have "\<not> (fragment r = [] \<and> c \<in> {11, 10, 13, 32, 31})" using c H by auto
    moreover have f: "fragment r @ [c] = take (Suc (length (fragment r))) line1"
    proof -
      have "take (Suc (length (fragment r))) (fragment r @ c # s @ fut) = take (Suc (length (fragment r))) line1"
        using True by (simp only: split) simp
      then show ?thesis by simp
    qed
    then have "length (fragment r @ [c]) = 5 \<Longrightarrow> startsWith (fragment r @ [c]) (chars ''HTTP/'')"
      using line(2) by (simp add: startsWith_def chars_def eval_nat_numeral)
    ultimately have step: "readStatus_loop b r dev = readStatus_loop (b + 1) (r\<lparr>fragment := fragment r @ [c]\<rparr>) (dev\<lparr>dev_in := s\<rparr>)"
      using d by (subst readStatus_loop.simps) (auto simp: dev_read_def Let_def)
    have "s = dev_in (dev\<lparr>dev_in := s\<rparr>)" by simp
    note IH = Cons.hyps(1) [OF this, of "r\<lparr>fragment := fragment r @ [c]\<rparr>" "b + 1"]
    have "fragment (r\<lparr>fragment := fragment r @ [c]\<rparr>) @ dev_in (dev\<lparr>dev_in := s\<rparr>) @ fut = line1 @ 10 # rest"
      "length (fragment (r\<lparr>fragment := fragment r @ [c]\<rparr>)) \<le> length line1" "dev_open (dev\<lparr>dev_in := s\<rparr>)"
      using split True Cons.prems(3) by simp_all
    from IH [OF this] show ?thesis unfolding step d
      by (cases "length (fragment r) + Suc (length s) \<le> length line1") (auto split: if_splits)
  next
    case False
    then have l: "length (fragment r) = length line1" using Cons.prems(2) by simp
    then have fr: "fragment r = line1" "c = 10" "s @ fut = rest" using split append_eq_append_conv [of "fragment r" line1 "c # s @ fut"] by auto
    have e: "endsWith line1 [13]" using line(3,4) by (cases line1 rule: rev_cases) (auto simp: endsWith_def)
    have "line1 \<noteq> []" using line(4) by auto
    then have "readStatus_loop b r dev = (if fst (parseStatus (butlast line1) (parser r)) then b + 1 else -1,
        r\<lparr>parser := snd (parseStatus (butlast line1) (parser r)), r_state := ReadingHeaderState, fragment := []\<rparr>, dev\<lparr>dev_in := s\<rparr>)"
      using d fr e by (subst readStatus_loop.simps) (simp add: dev_read_def Let_def split: prod.split)
    then show ?thesis using d fr by (auto intro!: exI [of _ s])
  qed
qed

lemma readHeader_reads:
  assumes block: "\<And>k. k < length blk \<Longrightarrow> \<not> ends_headers (take k blk)" "ends_headers blk"
    and prems: "fragment r @ dev_in dev @ fut = blk @ rest" "length (fragment r) < length blk" "dev_open dev"
  shows "if length (fragment r @ dev_in dev) < length blk
    then readHeader_loop b r dev = (b + int (length (dev_in dev)), False, r\<lparr>fragment := fragment r @ dev_in dev\<rparr>, dev\<lparr>dev_in := []\<rparr>)
    else \<exists>s. readHeader_loop b r dev = (b + int (length (dev_in dev)) - int (length s), True, r\<lparr>fragment := blk\<rparr>, dev\<lparr>dev_in := s\<rparr>)
      \<and> s @ fut = rest \<and> length s < length (dev_in dev)"
  using prems
proof (induction "dev_in dev" arbitrary: r b dev)
  case Nil
  then show ?case by (simp add: readHeader_loop.simps)
next
  case (Cons c s)
  have d: "dev_in dev = c # s" using Cons.hyps(2) by simp
  have split: "fragment r @ c # s @ fut = blk @ rest" using Cons.prems(1) d by simp
  have "take (Suc (length (fragment r))) (fragment r @ c # s @ fut) = take (Suc (length (fragment r))) blk"
    using Cons.prems(2) by (simp only: split) simp
  then have f: "fragment r @ [c] = take (Suc (length (fragment r))) blk" by simp
  show ?case
  proof (cases "Suc (length (fragment r)) < length blk")
    case True
    then have "\<not> ends_headers (fragment r @ [c])" unfolding f by (rule block(1))
    then have step: "readHeader_loop b r dev = readHeader_loop (b + 1) (r\<lparr>fragment := fragment r @ [c]\<rparr>) (dev\<lparr>dev_in := s\<rparr>)"
      using d by (subst readHeader_loop.simps) (auto simp: dev_read_def Let_def)
    have "s = dev_in (dev\<lparr>dev_in := s\<rparr>)" by simp
    note IH = Cons.hyps(1) [OF this, of "r\<lparr>fragment := fragment r @ [c]\<rparr>" "b + 1"]
    have "fragment (r\<lparr>fragment := fragment r @ [c]\<rparr>) @ dev_in (dev\<lparr>dev_in := s\<rparr>) @ fut = blk @ rest"
      "length (fragment (r\<lparr>fragment := fragment r @ [c]\<rparr>)) < length blk" "dev_open (dev\<lparr>dev_in := s\<rparr>)"
      using split True Cons.prems(3) by simp_all
    from IH [OF this] show ?thesis unfolding step d
      by (cases "length (fragment r) + Suc (length s) < length blk") (auto split: if_splits)
  next
    case False
    then have l: "length blk = Suc (length (fragment r))" using Cons.prems(2) by simp
    then have b: "fragment r @ [c] = blk" using f by simp
    then have "s @ fut = rest" using split by (metis append_Cons append_Nil append_assoc same_append_eq)
    moreover have "c = 10" using block(2) b by (auto simp: ends_headers_def endsWith_def)
    then have "readHeader_loop b r dev = (b + 1, True, r\<lparr>fragment := blk\<rparr>, dev\<lparr>dev_in := s\<rparr>)"
      using d b block(2) by (subst readHeader_loop.simps) (simp add: dev_read_def Let_def)
    ultimately show ?thesis using d l by (auto intro!: exI [of _ s])
  qed
qed

subsection \<open>What reading the body leaves alone\<close>

definition same_head :: "http_reply \<times> io_device \<Rightarrow> http_reply \<times> io_device \<Rightarrow> bool" where
  "same_head a b \<longleftrightarrow> parser (fst b) = parser (fst a) \<and> downstreamLimited (fst b) = downstreamLimited (fst a)
     \<and> dev_open (snd b) = dev_open (snd a)"

named_theorems heads \<open>operations on the body that leave the head of the reply alone\<close>

lemma same_head_refl [simp]: "same_head a a"
  by (simp add: same_head_def)

lemma same_head_trans: "same_head a b \<Longrightarrow> same_head b c \<Longrightarrow> same_head a c"
  by (simp add: same_head_def)

lemma dev_read_open [simp]: "dev_open (snd (dev_read n dev)) = dev_open dev"
  by (simp add: dev_read_def)

lemma sock_read_open: "sock_read n dev = (h, bs, dev') \<Longrightarrow> dev_open dev' = dev_open dev"
  by (auto simp: sock_read_def dev_read_def split: if_splits)

lemma raw_loop_open: "dev_open (snd (snd (raw_loop toBeRead bytes wanted out dev))) = dev_open dev"
proof (induction toBeRead bytes wanted out dev rule: raw_loop.induct)
  case (1 toBeRead bytes wanted out dev)
  show ?case
  proof (cases "toBeRead \<le> 0 \<or> dev_in dev = []")
    case True
    then show ?thesis by (simp add: raw_loop.simps)
  next
    case False
    obtain h bs d where s: "sock_read toBeRead dev = (h, bs, d)" by (metis prod_cases3)
    then show ?thesis using 1 [OF False refl s [symmetric] refl refl] False sock_read_open [OF s]
      by (subst raw_loop.simps) (simp add: Let_def)
  qed
qed

lemma chunk_size_loop_open: "dev_open (snd (snd (snd (chunk_size_loop available bytes frag dev)))) = dev_open dev"
proof (induction available bytes frag dev rule: chunk_size_loop.induct)
  case (1 available bytes frag dev)
  show ?case
    by (subst chunk_size_loop.simps) (use 1 in \<open>auto simp: Let_def\<close>)
qed

lemma readReplyBodyRaw_head [heads]: "readReplyBodyRaw n r dev = (b, r', dev') \<Longrightarrow> same_head (r, dev) (r', dev')"
  using raw_loop_open by (auto simp: same_head_def readReplyBodyRaw_def Let_def split: prod.splits) (metis snd_conv)+

lemma begin_chunk_head [heads]: "begin_chunk bytes r dev = (go, b, r', dev') \<Longrightarrow> same_head (r, dev) (r', dev')"
  using chunk_size_loop_open
  by (auto simp: same_head_def begin_chunk_def getChunkSize_def Let_def split: if_splits prod.splits dest!: sock_read_open) (metis snd_conv)+

lemma end_chunks_head [heads]: "end_chunks bytes r dev = (b, r', dev') \<Longrightarrow> same_head (r, dev) (r', dev')"
  by (auto simp: same_head_def end_chunks_def Let_def split: if_splits prod.splits dest!: sock_read_open)

lemma chunked_loop_head: "chunked_loop bytes r dev = Some res \<Longrightarrow> same_head (r, dev) (snd res)"
proof (induction rule: chunked_loop.raw_induct [rotated, consumes 1, case_names step])
  case (step loop bytes r dev res)
  obtain go b r1 dev1 where b: "begin_chunk bytes r dev = (go, b, r1, dev1)" by (metis prod_cases4)
  obtain h r2 dev2 where w: "readReplyBodyRaw (currentChunkSize r1 - currentChunkRead r1) r1 dev1 = (h, r2, dev2)" by (metis prod_cases3)
  obtain e r3 dev3 where e: "end_chunks b r1 dev1 = (e, r3, dev3)" by (metis prod_cases3)
  have "same_head (r, dev) (r3, dev3)" "same_head (r, dev) (r2\<lparr>currentChunkRead := n\<rparr>, dev2)" for n
    using begin_chunk_head [OF b] readReplyBodyRaw_head [OF w] end_chunks_head [OF e] by (simp_all add: same_head_def)
  moreover have "res = (bytes, r, dev) \<or> res = (b, r1, dev1) \<or> res = (e, r3, dev3)
      \<or> loop (b + h) (r2\<lparr>currentChunkRead := currentChunkRead r2 + h\<rparr>) dev2 = Some res"
    using step(2) by (simp add: b w e split: if_splits)
  moreover have "loop (b + h) x y = Some res \<Longrightarrow> same_head (x, y) (snd res)" for x y by (rule step(1))
  moreover note begin_chunk_head [OF b]
  ultimately show ?case by (elim disjE) (simp, simp, simp, blast intro: same_head_trans)
qed

lemma readReplyBodyChunked_head [heads]: "readReplyBodyChunked r dev = Some (b, r', dev') \<Longrightarrow> same_head (r, dev) (r', dev')"
  using chunked_loop_head by (fastforce simp: readReplyBodyChunked_def)

lemma awaits_progress: "awaits r t d \<Longrightarrow> awaits (r\<lparr>totalProgress := n\<rparr>) t d"
  by (induction rule: awaits.induct) (auto intro: awaits.intros)

subsection \<open>The phases of a response\<close>

text \<open>A reply is in the status line, in the header block or in the body; in each phase the octets that have
  been kept, those in the socket and those still to come are what is left of the response.\<close>

definition quiet :: "reply_event list \<Rightarrow> bool" where
  "quiet es \<longleftrightarrow> allDone \<notin> set es \<and> unexpectedEOF \<notin> set es \<and> replyError \<notin> set es"

definition idle_buffers :: "receiving \<Rightarrow> bool" where
  "idle_buffers s \<longleftrightarrow> readBufferMaxSize (reply s) = 0 \<and> bdb_ok (responseData (reply s)) \<and> \<not> downstreamLimited (reply s)
     \<and> download_buffer s = None \<and> dev_open (socket s) \<and> quiet (reply_events s) \<and> length (dev_in (socket s)) < 2 ^ 31"

definition no_body_yet :: "http_reply \<Rightarrow> bool" where
  "no_body_yet r \<longleftrightarrow> \<not> lastChunkRead r \<and> currentChunkSize r = 0 \<and> currentChunkRead r = 0 \<and> bdb_data (responseData r) = []
     \<and> \<not> autoDecompress r \<and> \<not> is_head r"

definition in_body :: "http_parser \<Rightarrow> bytes \<Rightarrow> bytes \<Rightarrow> receiving \<Rightarrow> bool" where
  "in_body p data fut s \<longleftrightarrow> idle_buffers s \<and> r_state (reply s) = ReadingDataState \<and> parser (reply s) = p
     \<and> chunkedTransferEncoding (reply s)
     \<and> (\<exists>d. bdb_data (responseData (reply s)) @ d = data \<and> awaits (reply s) (dev_in (socket s) @ fut) d)"

definition in_headers :: "http_parser \<Rightarrow> bytes \<Rightarrow> bytes \<Rightarrow> bytes \<Rightarrow> receiving \<Rightarrow> bool" where
  "in_headers p blk body fut s \<longleftrightarrow> idle_buffers s \<and> no_body_yet (reply s) \<and> r_state (reply s) = ReadingHeaderState
     \<and> parser (reply s) = p \<and> fragment (reply s) @ dev_in (socket s) @ fut = blk @ body \<and> length (fragment (reply s)) < length blk"

definition in_status :: "bytes \<Rightarrow> bytes \<Rightarrow> bytes \<Rightarrow> receiving \<Rightarrow> bool" where
  "in_status line1 rest fut s \<longleftrightarrow> idle_buffers s \<and> no_body_yet (reply s) \<and> r_state (reply s) \<in> {NothingDoneState, ReadingStatusState}
     \<and> fragment (reply s) @ dev_in (socket s) @ fut = line1 @ 10 # rest \<and> length (fragment (reply s)) \<le> length line1"

definition response_done :: "http_parser \<Rightarrow> bytes \<Rightarrow> receiving \<Rightarrow> bool" where
  "response_done p data s \<longleftrightarrow> r_state (reply s) = AllDoneState \<and> parser (reply s) = p \<and> bdb_data (responseData (reply s)) = data
     \<and> dev_in (socket s) = [] \<and> (\<exists>es. quiet es \<and> reply_events s = es @ [allDone])"

lemma body_round:
  assumes "in_body p data fut s"
  shows "\<exists>n over s'. receive_round encodings s = Some (n, over, s') \<and> dev_in (socket s') = []
    \<and> (if fut = [] then over \<and> response_done p data s' else \<not> over \<and> in_body p data fut s')
    \<and> (dev_in (socket s) = [] \<longrightarrow> n = 0)"
proof -
  note a = assms [unfolded in_body_def idle_buffers_def]
  obtain d where d: "bdb_data (responseData (reply s)) @ d = data" "awaits (reply s) (dev_in (socket s) @ fut) d" using a by blast
  from chunked_feeds [OF d(2)] a obtain b r1 dev1 where
    c: "readReplyBodyChunked (reply s) (socket s) = Some (b, r1, dev1)" and f: "feeds (reply s) d fut (b, r1, dev1)"
    by (metis prod_cases3)
  from f obtain d' where f: "dev_in dev1 = []" "reply_kept (reply s) r1" "bdb_data (responseData r1) @ d' = data"
    "if fut = [] then d' = [] \<and> r_state r1 = AllDoneState else r_state r1 = r_state (reply s) \<and> awaits r1 fut d'"
    using d(1) by (auto simp: feeds_def)
  have h: "parser r1 = p" "\<not> downstreamLimited r1" "dev_open dev1"
    using readReplyBodyChunked_head [OF c] a by (simp_all add: same_head_def)
  have empty: "dev_in (socket s) = [] \<Longrightarrow> b = 0"
    using c a by (simp add: readReplyBodyChunked_def chunked_loop_rest)
  define s1 where "s1 = s\<lparr>reply := (if b > 0 then progressed b else id) (r1\<lparr>contentRead := contentRead r1 + b\<rparr>), socket := dev1,
    reply_events := reply_events s @ (if b > 0 \<and> shouldEmitSignals r1 then
      [readyRead, progress_of (progressed b (r1\<lparr>contentRead := contentRead r1 + b\<rparr>))] else [])\<rparr>"
  have body: "receive_body s = Some (if b > 0 then b else 0, False, s1)"
    using a readBody_chunked [OF _ c] by (simp add: receive_body_def s1_def notify_def progressed_def shouldEmitSignals_def Let_def)
  have s1: "parser (reply s1) = p" "\<not> downstreamLimited (reply s1)" "dev_open (socket s1)" "dev_in (socket s1) = []"
    "bdb_ok (responseData (reply s1))" "readBufferMaxSize (reply s1) = 0" "chunkedTransferEncoding (reply s1)"
    "responseData (reply s1) = responseData r1" "r_state (reply s1) = r_state r1" "download_buffer s1 = None" "quiet (reply_events s1)"
    "awaits r1 fut d' \<Longrightarrow> awaits (reply s1) fut d'"
    using a h f(1,2) by (auto simp: s1_def reply_kept_def progressed_def progress_of_def quiet_def intro: awaits_frame awaits_progress)
  show ?thesis
  proof (cases "fut = []")
    case True
    then have "receive_round encodings s = Some (if b > 0 then b else 0, True, notify [allDone] s1)"
      using a body f(4) s1(9) by (simp add: receive_round_def)
    moreover have "response_done p data (notify [allDone] s1)"
      using True f(3,4) s1 by (auto simp: response_done_def notify_def)
    ultimately show ?thesis using True empty s1(4)
      by (intro exI [of _ "if b > 0 then b else 0"] exI [of _ True] exI [of _ "notify [allDone] s1"]) (simp add: notify_def)
  next
    case False
    then have "receive_round encodings s = Some (if b > 0 then b else 0, False, s1)"
      using a body f(4) s1(9) by (simp add: receive_round_def)
    moreover have "in_body p data fut s1" using False f(3,4) s1 a by (auto simp: in_body_def idle_buffers_def)
    ultimately show ?thesis using False empty s1(4)
      by (intro exI [of _ "if b > 0 then b else 0"] exI [of _ False] exI [of _ s1]) simp
  qed
qed

lemma body_loop:
  assumes "in_body p data fut s"
  shows "\<exists>s'. receive_loop encodings s = Some s' \<and> dev_in (socket s') = []
    \<and> (if fut = [] then response_done p data s' else in_body p data fut s')"
proof -
  obtain n over s1 where r: "receive_round encodings s = Some (n, over, s1)" "dev_in (socket s1) = []"
    "if fut = [] then over \<and> response_done p data s1 else \<not> over \<and> in_body p data fut s1"
    using body_round [OF assms] by blast
  show ?thesis
  proof (cases "over \<or> n = 0")
    case True
    then show ?thesis using r by (subst receive_loop.simps) auto
  next
    case False
    then have f: "fut \<noteq> []" "in_body p data fut s1" using r(3) by (auto split: if_splits)
    obtain s2 where "receive_round encodings s1 = Some (0, False, s2)" "dev_in (socket s2) = []" "in_body p data fut s2"
      using body_round [OF f(2), of encodings] r(2) f(1) by auto
    then have "receive_loop encodings s1 = Some s2" by (subst receive_loop.simps) simp
    then have "receive_loop encodings s = Some s2" using r(1) False by (subst receive_loop.simps) simp
    then show ?thesis using \<open>dev_in (socket s2) = []\<close> \<open>in_body p data fut s2\<close> f(1) by simp
  qed
qed

text \<open>What the header block has to say: a response with a body in chunked transfer coding.\<close>

definition announces_chunks :: "http_parser \<Rightarrow> bytes \<Rightarrow> http_parser \<Rightarrow> bool" where
  "announces_chunks p blk p' \<longleftrightarrow> (\<exists>ok. parseHeaders blk p = Some (ok, p')) \<and> firstHeaderField (chars ''content-length'') p' = []
     \<and> contains_bytes (chars ''chunked'') (toLower (combinedHeaderValue (chars ''transfer-encoding'') [] p'))
     \<and> 200 \<le> statusCode p' \<and> statusCode p' \<noteq> 204 \<and> statusCode p' \<noteq> 304"

lemma header_round:
  assumes "in_headers p blk (stream cs last_line) fut s" "announces_chunks p blk p'" "chunks_ok cs last_line"
    and block: "\<And>k. k < length blk \<Longrightarrow> \<not> ends_headers (take k blk)" "ends_headers blk"
  shows "\<exists>n s'. receive_round encodings s = Some (n, False, s')
    \<and> (if length (fragment (reply s) @ dev_in (socket s)) < length blk
       then in_headers p blk (stream cs last_line) fut s' \<and> dev_in (socket s') = [] \<and> n = int (length (dev_in (socket s)))
       else in_body p' (chunk_data cs) fut s' \<and> n > 0)"
proof -
  note a = assms(1) [unfolded in_headers_def idle_buffers_def no_body_yet_def]
  have split: "fragment (reply s) @ dev_in (socket s) @ fut = blk @ stream cs last_line" "length (fragment (reply s)) < length blk"
    "dev_open (socket s)" using a by simp_all
  note h = readHeader_reads [OF block split, of 0]
  show ?thesis
  proof (cases "length (fragment (reply s) @ dev_in (socket s)) < length blk")
    case True
    let ?r = "(reply s)\<lparr>fragment := fragment (reply s) @ dev_in (socket s)\<rparr>"
    let ?s = "s\<lparr>reply := ?r, socket := (socket s)\<lparr>dev_in := []\<rparr>\<rparr>"
    have "receive_round encodings s = Some (int (length (dev_in (socket s))), False, ?s)"
      using h True a by (simp add: receive_round_def receive_headers_def readReplyHeader_def)
    moreover have "in_headers p blk (stream cs last_line) fut ?s"
      using a True by (simp add: in_headers_def idle_buffers_def no_body_yet_def)
    ultimately show ?thesis using True by (intro exI [of _ "int (length (dev_in (socket s)))"] exI [of _ ?s]) simp
  next
    case False
    then obtain t where t: "readHeader_loop 0 (reply s) (socket s)
        = (int (length (dev_in (socket s))) - int (length t), True, (reply s)\<lparr>fragment := blk\<rparr>, (socket s)\<lparr>dev_in := t\<rparr>)"
      "t @ fut = stream cs last_line" "length t < length (dev_in (socket s))" using h by auto
    obtain ok where ok: "parseHeaders blk p = Some (ok, p')" using assms(2) by (auto simp: announces_chunks_def)
    note n = assms(2) [unfolded announces_chunks_def]
    have len: "contentLength r = -1" if "parser r = p'" for r :: http_reply
      using n that by (simp add: contentLength_def toUnsignedInteger_def)
    obtain r where r: "headers_received ((reply s)\<lparr>fragment := blk\<rparr>) = Some r" "parser r = p'" "r_state r = ReadingDataState" "fragment r = []"
      "bodyLength r = -1" "chunkedTransferEncoding r" "no_body_yet r" "readBufferMaxSize r = 0" "responseData r = responseData (reply s)"
      "\<not> downstreamLimited r"
      using a ok n by (simp add: headers_received_def Let_def len no_body_yet_def headerField_def)
    define s1 where "s1 = (if shouldEmitSignals r then notify [headerChanged] else id)
      (s\<lparr>reply := r\<lparr>autoDecompress := False\<rparr>, socket := (socket s)\<lparr>dev_in := t\<rparr>\<rparr>)"
    have st: "statusCode (parser r) \<noteq> 100" "\<not> (102 \<le> statusCode (parser r) \<and> statusCode (parser r) \<le> 199)" using n r(2) by simp_all
    have "receive_round encodings s = Some (int (length (dev_in (socket s))) - int (length t), False, s1)"
      using a t r st n by (simp add: receive_round_def receive_headers_def readReplyHeader_def s1_def no_body_yet_def len notify_def
        shouldEmitSignals_def expectContent_def Let_def)
    moreover have "awaits (r\<lparr>autoDecompress := False\<rparr>) (t @ fut) (chunk_data cs)"
      using r assms(3) t(2) by (intro at_line [of cs last_line _ "[]"]) (auto simp: no_body_yet_def)
    then have "in_body p' (chunk_data cs) fut s1"
      using a r t(3) by (auto simp: in_body_def idle_buffers_def s1_def notify_def quiet_def)
    ultimately show ?thesis using False t(3) by simp
  qed
qed

lemma loop_again:
  "receive_round encodings s = Some (n, False, s1) \<Longrightarrow> n \<noteq> 0 \<Longrightarrow> receive_loop encodings s = receive_loop encodings s1"
  by (subst receive_loop.simps) simp

lemma loop_idle: "receive_round encodings s = Some (0, False, s1) \<Longrightarrow> receive_loop encodings s = Some s1"
  by (subst receive_loop.simps) simp

definition receives :: "http_parser \<Rightarrow> bytes \<Rightarrow> http_parser \<Rightarrow> bytes \<Rightarrow> bytes \<Rightarrow> bytes \<Rightarrow> bytes \<Rightarrow> receiving \<Rightarrow> bool" where
  "receives p blk p' body data line1 fut s \<longleftrightarrow>
     in_status line1 (blk @ body) fut s \<and> parser (reply s) = QHttpHeaderParser \<or> in_headers p blk body fut s \<or> in_body p' data fut s"

lemma header_loop:
  assumes "in_headers p blk (stream cs last_line) fut s" "announces_chunks p blk p'" "chunks_ok cs last_line"
    and block: "\<And>k. k < length blk \<Longrightarrow> \<not> ends_headers (take k blk)" "ends_headers blk"
  shows "\<exists>s'. receive_loop encodings s = Some s' \<and> dev_in (socket s') = []
    \<and> (if fut = [] then response_done p' (chunk_data cs) s'
       else in_headers p blk (stream cs last_line) fut s' \<or> in_body p' (chunk_data cs) fut s')"
proof (cases "length (fragment (reply s) @ dev_in (socket s)) < length blk")
  case True
  have f: "fut \<noteq> []"
  proof
    assume "fut = []"
    then have "length (fragment (reply s) @ dev_in (socket s)) = length (blk @ stream cs last_line)"
      using assms(1) by (simp add: in_headers_def)
    then show False using True by simp
  qed
  obtain s1 where s1: "receive_round encodings s = Some (int (length (dev_in (socket s))), False, s1)"
    "in_headers p blk (stream cs last_line) fut s1" "dev_in (socket s1) = []"
    using header_round [OF assms(1-3) block, of encodings] True by auto
  have "length (fragment (reply s1) @ dev_in (socket s1)) < length blk" using s1(2,3) by (simp add: in_headers_def)
  then obtain s2 where s2: "receive_round encodings s1 = Some (0, False, s2)"
    "in_headers p blk (stream cs last_line) fut s2" "dev_in (socket s2) = []"
    using header_round [OF s1(2) assms(2,3) block, of encodings] s1(3) by auto
  show ?thesis
  proof (cases "dev_in (socket s) = []")
    case True
    then show ?thesis using s1 f loop_idle [of encodings s s1] by auto
  next
    case False
    then have "receive_loop encodings s = Some s2" using loop_again [OF s1(1)] loop_idle [OF s2(1)] by simp
    then show ?thesis using s2 f by auto
  qed
next
  case False
  then obtain n s1 where s1: "receive_round encodings s = Some (n, False, s1)" "in_body p' (chunk_data cs) fut s1" "n > 0"
    using header_round [OF assms(1-3) block, of encodings] by auto
  have "receive_loop encodings s = receive_loop encodings s1" using loop_again [OF s1(1)] s1(3) by simp
  then show ?thesis using body_loop [OF s1(2), of encodings] by auto
qed

lemma status_round:
  assumes "in_status line1 rest fut s" "parseStatus (butlast line1) (parser (reply s)) = (True, p)"
    and line: "10 \<notin> set line1" "take 5 line1 = chars ''HTTP/''" "last line1 = 13" "5 < length line1"
    and rest: "rest = blk @ body" "blk \<noteq> []"
  shows "\<exists>n s'. receive_round encodings s = Some (n, False, s')
    \<and> (if length (fragment (reply s) @ dev_in (socket s)) \<le> length line1
       then in_status line1 rest fut s' \<and> parser (reply s') = parser (reply s) \<and> dev_in (socket s') = []
         \<and> n = int (length (dev_in (socket s)))
       else in_headers p blk body fut s' \<and> n > 0)"
proof -
  note a = assms(1) [unfolded in_status_def idle_buffers_def no_body_yet_def]
  let ?r = "(reply s)\<lparr>r_state := ReadingStatusState\<rparr>"
  have split: "fragment ?r @ dev_in (socket s) @ fut = line1 @ 10 # rest" "length (fragment ?r) \<le> length line1" "dev_open (socket s)"
    using a by simp_all
  have round: "receive_round encodings s = Some (receive_status s)" using a by (auto simp: receive_round_def)
  note h = readStatus_reads [OF line split, of 0]
  show ?thesis
  proof (cases "length (fragment (reply s) @ dev_in (socket s)) \<le> length line1")
    case True
    let ?s = "s\<lparr>reply := ?r\<lparr>fragment := fragment (reply s) @ dev_in (socket s)\<rparr>, socket := (socket s)\<lparr>dev_in := []\<rparr>\<rparr>"
    have "receive_round encodings s = Some (int (length (dev_in (socket s))), False, ?s)"
      using h True by (simp add: round receive_status_def readStatus_def)
    moreover have "in_status line1 rest fut ?s"
      using a True by (simp add: in_status_def idle_buffers_def no_body_yet_def)
    ultimately show ?thesis using True by (intro exI [of _ "int (length (dev_in (socket s)))"] exI [of _ ?s]) simp
  next
    case False
    then obtain t where t: "readStatus_loop 0 ?r (socket s) = (int (length (dev_in (socket s))) - int (length t),
        ?r\<lparr>parser := p, r_state := ReadingHeaderState, fragment := []\<rparr>, (socket s)\<lparr>dev_in := t\<rparr>)"
      "t @ fut = rest" "length t < length (dev_in (socket s))" using h assms(2) by auto
    let ?s = "s\<lparr>reply := ?r\<lparr>parser := p, r_state := ReadingHeaderState, fragment := []\<rparr>, socket := (socket s)\<lparr>dev_in := t\<rparr>\<rparr>"
    have "receive_round encodings s = Some (int (length (dev_in (socket s))) - int (length t), False, ?s)"
      using t(1,3) by (simp add: round receive_status_def readStatus_def)
    moreover have "in_headers p blk body fut ?s"
      using a t rest by (simp add: in_headers_def idle_buffers_def no_body_yet_def)
    ultimately show ?thesis using False t(3)
      by (intro exI [of _ "int (length (dev_in (socket s))) - int (length t)"] exI [of _ ?s]) simp
  qed
qed

lemma status_loop:
  assumes "in_status line1 (blk @ stream cs last_line) fut s" "parseStatus (butlast line1) (parser (reply s)) = (True, p)"
    and line: "10 \<notin> set line1" "take 5 line1 = chars ''HTTP/''" "last line1 = 13" "5 < length line1"
    and headers: "announces_chunks p blk p'" "chunks_ok cs last_line"
    and block: "\<And>k. k < length blk \<Longrightarrow> \<not> ends_headers (take k blk)" "ends_headers blk"
  shows "\<exists>s'. receive_loop encodings s = Some s' \<and> dev_in (socket s') = []
    \<and> (if fut = [] then response_done p' (chunk_data cs) s'
       else in_status line1 (blk @ stream cs last_line) fut s' \<and> parser (reply s') = parser (reply s)
         \<or> in_headers p blk (stream cs last_line) fut s' \<or> in_body p' (chunk_data cs) fut s')"
proof -
  have ne: "blk \<noteq> []" using block(2) by (auto simp: ends_headers_def endsWith_def)
  note round = status_round [OF _ _ line refl ne, of "stream cs last_line" fut _ p encodings]
  show ?thesis
  proof (cases "length (fragment (reply s) @ dev_in (socket s)) \<le> length line1")
    case True
    have f: "fut \<noteq> []"
    proof
      assume "fut = []"
      then have "length (fragment (reply s) @ dev_in (socket s)) = length (line1 @ 10 # blk @ stream cs last_line)"
        using assms(1) by (simp add: in_status_def)
      then show False using True by simp
    qed
    obtain s1 where s1: "receive_round encodings s = Some (int (length (dev_in (socket s))), False, s1)"
      "in_status line1 (blk @ stream cs last_line) fut s1" "parser (reply s1) = parser (reply s)" "dev_in (socket s1) = []"
      using round [OF assms(1,2)] True by auto
    have "length (fragment (reply s1) @ dev_in (socket s1)) \<le> length line1" using s1(2,4) by (simp add: in_status_def)
    then obtain s2 where s2: "receive_round encodings s1 = Some (0, False, s2)"
      "in_status line1 (blk @ stream cs last_line) fut s2" "parser (reply s2) = parser (reply s)" "dev_in (socket s2) = []"
      using round [OF s1(2)] assms(2) s1(3,4) by auto
    show ?thesis
    proof (cases "dev_in (socket s) = []")
      case True
      then show ?thesis using s1 f loop_idle [of encodings s s1] by auto
    next
      case False
      then have "receive_loop encodings s = Some s2" using loop_again [OF s1(1)] loop_idle [OF s2(1)] by simp
      then show ?thesis using s2 f by auto
    qed
  next
    case False
    then obtain n s1 where s1: "receive_round encodings s = Some (n, False, s1)" "in_headers p blk (stream cs last_line) fut s1" "n > 0"
      using round [OF assms(1,2)] by auto
    have "receive_loop encodings s = receive_loop encodings s1" using loop_again [OF s1(1)] s1(3) by simp
    then show ?thesis using header_loop [OF s1(2) headers block, of encodings] by (auto split: if_splits)
  qed
qed

subsection \<open>The end of the header block\<close>

lemma first_line_end:
  assumes "L @ 10 # X = z @ 10 # Y" "(10::byte) \<notin> set L"
  shows "z = L \<and> X = Y \<or> (\<exists>z2. z = L @ 10 # z2 \<and> X = z2 @ 10 # Y)"
  using assms
proof (induction L arbitrary: z)
  case Nil
  then show ?case by (cases z) auto
next
  case (Cons a L)
  then show ?case by (cases z) auto
qed

definition field_line :: "bytes \<times> bytes \<Rightarrow> bytes" where
  "field_line f = fst f @ [0x3A, 32] @ snd f @ [13]"

lemma field_line_print: "print_field f = field_line f @ [10]"
  by (simp add: print_field_def field_line_def)

lemma field_line_chars:
  assumes "field_printable limit f"
  shows "10 \<notin> set (field_line f)" "field_line f \<noteq> []" "hd (field_line f) \<noteq> 13" "hd (field_line f) \<noteq> 10"
proof -
  have n: "isValidHttpHeaderNameField (fst f)" and v: "isValidHttpHeaderValueField (snd f)" using assms by (simp_all add: field_printable_def)
  have "\<not> isValidHttpHeaderNameChar 13" "\<not> isValidHttpHeaderNameChar 10" by (simp_all add: isValidHttpHeaderNameChar_def)
  then have "hd (fst f) \<noteq> 13" "hd (fst f) \<noteq> 10" using n name_chars(1) [OF n] by (auto simp: isValidHttpHeaderNameField_def list_all_iff dest!: hd_in_set)
  then show "hd (field_line f) \<noteq> 13" "hd (field_line f) \<noteq> 10" using name_chars(1) [OF n] by (simp_all add: field_line_def)
  have "\<not> isValidHttpHeaderValueChar 10" by (simp add: isValidHttpHeaderValueChar_def)
  then have "10 \<notin> set (snd f)" using v by (auto simp: isValidHttpHeaderValueField_def list_all_iff)
  then show "10 \<notin> set (field_line f)" using name_chars(5) [OF n] by (simp add: field_line_def)
  show "field_line f \<noteq> []" by (simp add: field_line_def)
qed

lemma block_end:
  assumes "list_all (field_printable limit) fs" "header_block fs = z @ 10 # Y" "Y = 10 # w \<or> Y = 13 # 10 # w"
  shows "w = []"
  using assms(1,2)
proof (induction fs arbitrary: z)
  case Nil
  then show ?case using assms(3) by (auto simp: header_block_def append_eq_Cons_conv Cons_eq_append_conv)
next
  case (Cons f fs)
  have f: "field_printable limit f" "list_all (field_printable limit) fs" using Cons.prems(1) by simp_all
  have "field_line f @ 10 # header_block fs = z @ 10 # Y" using Cons.prems(2) by (simp add: header_block_def field_line_print)
  from first_line_end [OF this field_line_chars(1) [OF f(1)]] show ?case
  proof (elim disjE conjE exE)
    assume Y: "header_block fs = Y"
    show ?case
    proof (cases fs)
      case Nil
      then show ?thesis using Y assms(3) by (auto simp: header_block_def)
    next
      case (Cons g gs)
      then have "hd Y = hd (field_line g)" using Y field_line_chars(2) [of limit g] f(2)
        by (auto simp: header_block_def field_line_print)
      then show ?thesis using field_line_chars(3,4) [of limit g] f(2) Cons assms(3) by auto
    qed
  next
    fix z2
    assume "header_block fs = z2 @ 10 # Y"
    then show ?case using Cons.IH [OF f(2)] by simp
  qed
qed

lemma endsWith_iff: "endsWith s t \<longleftrightarrow> (\<exists>z. s = z @ t)"
  by (auto simp: endsWith_def intro: exI [of _ "take (length s - length t) s"]) (metis append_take_drop_id)

lemma header_block_ends:
  assumes "list_all (field_printable limit) fs" "fs \<noteq> []"
  shows "k < length (header_block fs) \<Longrightarrow> \<not> ends_headers (take k (header_block fs))" "ends_headers (header_block fs)"
proof -
  obtain f gs where fs: "fs = f # gs" using assms(2) by (cases fs) auto
  have f: "field_printable limit f" using assms(1) fs by simp
  have h: "hd (header_block fs) \<noteq> 13" "hd (header_block fs) \<noteq> 10"
    using field_line_chars(2-4) [OF f] by (simp_all add: fs header_block_def field_line_print)
  assume k: "k < length (header_block fs)"
  show "\<not> ends_headers (take k (header_block fs))"
  proof
    assume e: "ends_headers (take k (header_block fs))"
    have t: "header_block fs = take k (header_block fs) @ drop k (header_block fs)" by simp
    have d: "drop k (header_block fs) \<noteq> []" using k by simp
    have "take k (header_block fs) \<noteq> [13, 10]" "take k (header_block fs) \<noteq> [10]"
      using h t by (metis append_Cons list.sel(1))+
    then consider z where "take k (header_block fs) = z @ [10, 13, 10]" | z where "take k (header_block fs) = z @ [10, 10]"
      using e by (auto simp: ends_headers_def endsWith_iff)
    then show False
    proof cases
      case (1 z)
      then have "header_block fs = z @ 10 # 13 # 10 # drop k (header_block fs)" using t by simp
      then show False using block_end [OF assms(1)] d by blast
    next
      case (2 z)
      then have "header_block fs = z @ 10 # 10 # drop k (header_block fs)" using t by simp
      then show False using block_end [OF assms(1)] d by blast
    qed
  qed
next
  obtain f gs where fs: "fs = gs @ [f]" using assms(2) by (cases fs rule: rev_cases) auto
  have "header_block fs = (concat (map print_field gs) @ field_line f) @ [10, 13, 10]"
    by (simp add: fs header_block_def field_line_print)
  then show "ends_headers (header_block fs)" unfolding ends_headers_def endsWith_iff by blast
qed

subsection \<open>A whole response\<close>

text \<open>The octets arrive in segments; the handler runs after each of them.\<close>

fun receive_calls :: "bytes list \<Rightarrow> bytes list \<Rightarrow> receiving \<Rightarrow> receiving option" where
  "receive_calls encodings [] s = Some s"
| "receive_calls encodings (seg # segs) s =
     do { s \<leftarrow> receiveReply encodings (s\<lparr>socket := (socket s)\<lparr>dev_in := dev_in (socket s) @ seg\<rparr>\<rparr>);
          receive_calls encodings segs s }"

definition receive_start :: "bool \<Rightarrow> receiving" where
  "receive_start follow = \<lparr>reply = QHttpNetworkReply False follow, socket = empty_device, download_buffer = None, reply_events = []\<rparr>"

definition status_line :: "nat \<Rightarrow> nat \<Rightarrow> bytes \<Rightarrow> bytes \<Rightarrow> bytes" where
  "status_line major minor ds reason = chars ''HTTP/'' @ [of_nat (48 + major), 0x2E, of_nat (48 + minor), 32] @ ds @ 32 # reason"

lemma status_line_shape:
  assumes "digits_ok 10 ds" "major < 10" "minor < 10" "10 \<notin> set reason" "line1 = status_line major minor ds reason @ [13]"
  shows "10 \<notin> set line1" "take 5 line1 = chars ''HTTP/''" "last line1 = 13" "5 < length line1" "butlast line1 = status_line major minor ds reason"
proof -
  have "10 \<notin> set ds"
  proof
    assume "10 \<in> set ds"
    then have "isDigitForBase 10 10" using assms(1) by (simp add: digits_ok_def list_all_iff)
    then show False by (simp add: isDigitForBase_def)
  qed
  moreover have "(word_of_nat (48 + n) :: byte) \<noteq> 10" if "n < 10" for n :: nat
  proof
    assume eq: "(word_of_nat (48 + n) :: byte) = 10"
    have "(48 + n) mod 256 = unat (10 :: byte)" unfolding eq [symmetric] unat_of_nat_byte ..
    then show False using that by simp
  qed
  ultimately show "10 \<notin> set line1" using assms by (auto simp: status_line_def chars_def)
  show "butlast line1 = status_line major minor ds reason" by (simp only: assms(5) butlast_snoc)
qed (simp_all add: assms(5) status_line_def chars_def)

lemma calls_receive:
  assumes "receives p blk p' (stream cs last_line) (chunk_data cs) line1 (concat segs @ rest) s" "dev_in (socket s) = []"
    and parsed: "parseStatus (butlast line1) QHttpHeaderParser = (True, p)"
    and line: "10 \<notin> set line1" "take 5 line1 = chars ''HTTP/''" "last line1 = 13" "5 < length line1"
    and headers: "announces_chunks p blk p'" "chunks_ok cs last_line"
    and block: "\<And>k. k < length blk \<Longrightarrow> \<not> ends_headers (take k blk)" "ends_headers blk"
    and segs: "[] \<notin> set segs" "length (concat segs) < 2 ^ 31"
  shows "\<exists>s'. receive_calls encodings segs s = Some s'
    \<and> (if rest = [] \<and> segs \<noteq> [] then response_done p' (chunk_data cs) s'
       else receives p blk p' (stream cs last_line) (chunk_data cs) line1 rest s' \<and> dev_in (socket s') = [])"
  using assms(1,2) segs
proof (induction segs arbitrary: s)
  case (Cons seg segs)
  define fut where "fut = concat segs @ rest"
  let ?s = "s\<lparr>socket := (socket s)\<lparr>dev_in := dev_in (socket s) @ seg\<rparr>\<rparr>"
  have "length seg < 2 ^ 31" using Cons.prems(4) by simp
  then have r: "in_status line1 (blk @ stream cs last_line) fut ?s \<and> parser (reply ?s) = QHttpHeaderParser
      \<or> in_headers p blk (stream cs last_line) fut ?s \<or> in_body p' (chunk_data cs) fut ?s"
    using Cons.prems(1,2) by (auto simp: fut_def receives_def in_status_def in_headers_def in_body_def idle_buffers_def)
  have open_dev: "dev_open (socket ?s)" using r by (auto simp: in_status_def in_headers_def in_body_def idle_buffers_def)
  obtain s1 where s1: "receive_loop encodings ?s = Some s1" "dev_in (socket s1) = []"
    "if fut = [] then response_done p' (chunk_data cs) s1
     else receives p blk p' (stream cs last_line) (chunk_data cs) line1 fut s1"
  proof -
    have "\<exists>x. receive_loop encodings ?s = Some x \<and> dev_in (socket x) = []
      \<and> (if fut = [] then response_done p' (chunk_data cs) x
         else receives p blk p' (stream cs last_line) (chunk_data cs) line1 fut x)"
      using r
    proof (elim disjE conjE)
      assume s: "in_status line1 (blk @ stream cs last_line) fut ?s" and q: "parser (reply ?s) = QHttpHeaderParser"
      then have "parseStatus (butlast line1) (parser (reply ?s)) = (True, p)" using parsed by simp
      from status_loop [OF s this line headers block, of encodings] q show ?thesis by (auto simp: receives_def split: if_splits)
    next
      assume "in_headers p blk (stream cs last_line) fut ?s"
      from header_loop [OF this headers block, of encodings] show ?thesis by (auto simp: receives_def split: if_splits)
    next
      assume "in_body p' (chunk_data cs) fut ?s"
      from body_loop [OF this, of encodings] show ?thesis by (auto simp: receives_def split: if_splits)
    qed
    then show thesis using that by blast
  qed
  have step: "receive_calls encodings (seg # segs) s = receive_calls encodings segs s1"
    using s1(1) open_dev by (simp add: receiveReply_def)
  show ?case
  proof (cases "fut = []")
    case True
    then have "segs = []" "rest = []" using Cons.prems(3) by (cases segs, auto simp: fut_def)
    then show ?thesis unfolding step using s1(3) True by simp
  next
    case False
    then have "receives p blk p' (stream cs last_line) (chunk_data cs) line1 fut s1" using s1(3) by simp
    from Cons.IH [OF this [unfolded fut_def] s1(2)] obtain s' where s': "receive_calls encodings segs s1 = Some s'"
      "if rest = [] \<and> segs \<noteq> [] then response_done p' (chunk_data cs) s'
       else receives p blk p' (stream cs last_line) (chunk_data cs) line1 rest s' \<and> dev_in (socket s') = []"
      using Cons.prems(3,4) by auto
    show ?thesis unfolding step using s' False by (auto simp: fut_def split: if_splits)
  qed
qed (use assms(2) in simp)

text \<open>C5. A response in any segments: the status line, the header block and the body in chunked transfer coding reach the
  application exactly when the last octet has arrived, with the code, the reason, the fields in
  order and the data of all chunks, and the channel is told once that the reply is done; before
  that no end and no error is reported.\<close>

theorem http1_response:
  assumes "digits_ok 10 ds" "2 \<le> length ds" "code = digits_value 10 ds" "200 \<le> code" "code < 2 ^ 31" "code \<noteq> 204" "code \<noteq> 304"
    and "major < 10" "minor < 10" "10 \<notin> set reason"
    and "list_all (field_printable MAX_HEADER_FIELD_SIZE) fs" "length fs \<le> MAX_HEADER_FIELDS"
    and "int (length (header_block fs)) \<le> MAX_TOTAL_HEADER_SIZE + 2" "pairs = map (\<lambda>f. (toLower (fst f), snd f)) fs"
    and "chars ''content-length'' \<notin> fst ` set pairs" "map snd (filter (is_named (chars ''transfer-encoding'')) pairs) = [te]"
    and "contains_bytes (chars ''chunked'') (toLower te)" "chunks_ok cs last_line"
    and "concat segs @ rest = status_line major minor ds reason @ crlf @ header_block fs @ stream cs last_line"
    and "[] \<notin> set segs" "length (concat segs) < 2 ^ 31"
  shows "\<exists>s. receive_calls encodings segs (receive_start follow) = Some s \<and> dev_in (socket s) = []
    \<and> (if rest = []
       then r_state (reply s) = AllDoneState \<and> statusCode (parser (reply s)) = int code \<and> reasonPhrase (parser (reply s)) = reason
         \<and> toListOfPairs (parser_fields (parser (reply s))) = pairs \<and> bdb_data (responseData (reply s)) = chunk_data cs
         \<and> (\<exists>es. reply_events s = es @ [allDone] \<and> quiet es)
       else r_state (reply s) \<noteq> AllDoneState \<and> quiet (reply_events s))"
proof -
  define line1 where "line1 = status_line major minor ds reason @ [13]"
  note line = status_line_shape [OF assms(1,8,9,10) line1_def]
  define p where "p = QHttpHeaderParser\<lparr>majorVersion := int major, minorVersion := int minor, statusCode := int code, reasonPhrase := reason\<rparr>"
  have parsed: "parseStatus (butlast line1) QHttpHeaderParser = (True, p)"
    unfolding line(5) p_def assms(3) using assms by (intro parse_status_line) (simp_all add: status_line_def)
  have "parser_fields p = QHttpHeaders" "maxFieldSize p = MAX_HEADER_FIELD_SIZE" "maxFieldCount p = MAX_HEADER_FIELDS"
    "maxTotalSize p = MAX_TOTAL_HEADER_SIZE" "0 \<le> maxTotalSize p" by (simp_all add: p_def QHttpHeaderParser_def MAX_TOTAL_HEADER_SIZE_def)
  then obtain d where d: "parseHeaders (header_block fs) p = Some (True, p\<lparr>parser_fields := d\<rparr>)" "headers_ok d" "toListOfPairs d = pairs"
    using parse_header_block [of p fs] assms(11-14) by auto
  have "filter (is_named (chars ''content-length'')) pairs = []"
    using assms(15) by (simp add: filter_empty_conv toLower_def asciiLower_def chars_def) (metis image_eqI)
  then have vals: "headers_values (chars ''transfer-encoding'') d = [te]" "headers_values (chars ''content-length'') d = []"
    using assms(15,16) d(2,3) by (simp_all add: values_pairs)
  then have "headers_value (chars ''content-length'') [] d = []" using vals value_pairs [OF d(2), of "chars ''content-length''" "[]"] by simp
  with vals d(1) have ann: "announces_chunks p (header_block fs) (p\<lparr>parser_fields := d\<rparr>)"
    using assms(4,6,7,17) by (auto simp: announces_chunks_def firstHeaderField_def combinedHeaderValue_def p_def)
  have "fs \<noteq> []" using assms(14,16) by auto
  note block = header_block_ends [OF assms(11) this]
  have start: "receives p (header_block fs) (p\<lparr>parser_fields := d\<rparr>) (stream cs last_line) (chunk_data cs) line1 (concat segs @ rest) (receive_start follow)"
    "dev_in (socket (receive_start follow)) = []"
    using assms(19) by (simp_all add: receives_def in_status_def idle_buffers_def no_body_yet_def receive_start_def QHttpNetworkReply_def
        empty_device_def line1_def quiet_def)
  have "segs \<noteq> []" if "rest = []" using that assms(19) by (auto simp: status_line_def chars_def)
  with calls_receive [OF start parsed line(1-4) ann assms(18) block assms(20,21), of encodings]
  obtain s where s: "receive_calls encodings segs (receive_start follow) = Some s"
    "if rest = [] then response_done (p\<lparr>parser_fields := d\<rparr>) (chunk_data cs) s
     else receives p (header_block fs) (p\<lparr>parser_fields := d\<rparr>) (stream cs last_line) (chunk_data cs) line1 rest s \<and> dev_in (socket s) = []"
    by (auto split: if_splits)
  show ?thesis
  proof (cases "rest = []")
    case True
    then show ?thesis using s d(3) by (auto simp: response_done_def p_def)
  next
    case False
    then show ?thesis using s by (auto simp: receives_def in_status_def in_headers_def in_body_def idle_buffers_def)
  qed
qed

theorem http1_response_witness:
  "\<exists>s. receive_calls [] [chars ''HTTP/1.1 200 OK'' @ [13], [10] @ chars ''TE: x'' @ crlf @ chars ''Transfer-Encoding: Chunked'' @ crlf,
      crlf @ chars ''2;x'' @ crlf @ chars ''h'', chars ''i'' @ crlf @ chars ''0'' @ crlf @ crlf] (receive_start False) = Some s
    \<and> statusCode (parser (reply s)) = 200 \<and> bdb_data (responseData (reply s)) = chars ''hi''"
proof -
  let ?ds = "chars ''200''" and ?cs = "[(chars ''2;x'', chars ''hi'')]"
  let ?fs = "[(chars ''TE'', chars ''x''), (chars ''Transfer-Encoding'', chars ''Chunked'')]"
  let ?segs = "[chars ''HTTP/1.1 200 OK'' @ [13], [10] @ chars ''TE: x'' @ crlf @ chars ''Transfer-Encoding: Chunked'' @ crlf,
      crlf @ chars ''2;x'' @ crlf @ chars ''h'', chars ''i'' @ crlf @ chars ''0'' @ crlf @ crlf]"
  have ds: "digits_ok 10 ?ds" "digits_value 10 ?ds = 200"
    by (simp_all add: digits_ok_def digits_value_def isDigitForBase_def digit_value_def chars_def)
  have "digits_ok 16 (chars ''2'')" "digits_value 16 (chars ''2'') = 2" "digits_ok 16 (chars ''0'')" "digits_value 16 (chars ''0'') = 0"
    by (simp_all add: digits_ok_def digits_value_def isDigitForBase_def digit_value_def chars_def)
  then have "chunk_line 2 (chars ''2'' @ chars '';x'')" "chunk_line 0 (chars ''0'' @ [])"
    unfolding chunk_line_def
    by (intro exI [of _ "chars ''2''"] exI [of _ "chars '';x''"] conjI, simp_all add: chars_def)
      (intro exI [of _ "chars ''0''"] exI [of _ "[]"] conjI, simp_all add: chars_def)
  then have cs: "chunks_ok ?cs (chars ''0'')" by (simp add: chunks_ok_def chars_def eval_nat_numeral)
  have fs: "list_all (field_printable MAX_HEADER_FIELD_SIZE) ?fs"
    by (simp add: field_printable_def MAX_HEADER_FIELD_SIZE_def isValidHttpHeaderNameField_def isValidHttpHeaderNameChar_def
        isValidHttpHeaderValueField_def isValidHttpHeaderValueChar_def trimmed_iff ascii_isspace_def chars_def)
  have te: "chars ''content-length'' \<notin> fst ` set (map (\<lambda>f. (toLower (fst f), snd f)) ?fs)"
    "map snd (filter (is_named (chars ''transfer-encoding'')) (map (\<lambda>f. (toLower (fst f), snd f)) ?fs)) = [chars ''Chunked'']"
    "contains_bytes (chars ''chunked'') (toLower (chars ''Chunked''))"
    by (simp_all add: toLower_def asciiLower_def startsWith_def chars_def)
  have segs: "concat ?segs @ [] = status_line 1 1 ?ds (chars ''OK'') @ crlf @ header_block ?fs @ stream ?cs (chars ''0'')"
    by (simp add: status_line_def header_block_def print_field_def chars_def)
  have "length ?fs \<le> MAX_HEADER_FIELDS" "int (length (header_block ?fs)) \<le> MAX_TOTAL_HEADER_SIZE + 2" "[] \<notin> set ?segs"
    "length (concat ?segs) < 2 ^ 31" "10 \<notin> set (chars ''OK'')" "2 \<le> length ?ds"
    by (simp_all add: MAX_HEADER_FIELDS_def MAX_TOTAL_HEADER_SIZE_def header_block_def print_field_def chars_def)
  from http1_response [OF ds(1) this(6) ds(2) [symmetric] _ _ _ _ _ _ this(5) fs this(1,2) refl te cs segs this(3,4), of "[]" False]
  show ?thesis by auto
qed

end
