(* ===== verification/HstsHeaders.thy ===== *)
theory HstsHeaders
  imports HttpHeaders
begin

text \<open>The \<open>Strict-Transport-Security\<close> field (\<open>network/access/qhsts.cpp\<close>, \<open>QHstsHeaderParser\<close>): its tokens, its
  directives and the policy they ask for, with the time arithmetic of a UTC \<open>QDateTime\<close> that the expiry uses.\<close>

subsection \<open>Points in time\<close>

text \<open>A UTC \<open>QDateTime\<close> is the number of milliseconds since the epoch; \<open>None\<close> is an invalid one.\<close>

type_synonym datetime = "int option"

definition fits_i64 :: "int \<Rightarrow> bool" where
  "fits_i64 x \<longleftrightarrow> - (2 ^ 63) \<le> x \<and> x < 2 ^ 63"

definition addMSecs :: "int \<Rightarrow> datetime \<Rightarrow> datetime" where
  "addMSecs msecs d = (case d of None \<Rightarrow> None | Some t \<Rightarrow> if fits_i64 (t + msecs) then Some (t + msecs) else None)"

definition addSecs :: "int \<Rightarrow> datetime \<Rightarrow> datetime" where
  "addSecs s d = (if fits_i64 (s * 1000) then addMSecs (s * 1000) d else None)"

subsection \<open>Characters\<close>

definition isCHAR :: "byte \<Rightarrow> bool" where
  "isCHAR c \<longleftrightarrow> c \<le> 127"

definition isCTL :: "byte \<Rightarrow> bool" where
  "isCTL c \<longleftrightarrow> c \<le> 31 \<or> c = 127"

definition isLWS :: "byte \<Rightarrow> bool" where
  "isLWS c \<longleftrightarrow> c = 0x20 \<or> c = 0x09"

definition isTEXT :: "byte \<Rightarrow> bool" where
  "isTEXT c \<longleftrightarrow> \<not> isCTL c \<or> isLWS c"

definition isSeparator :: "byte \<Rightarrow> bool" where
  "isSeparator c \<longleftrightarrow> isLWS c \<or> c \<in> set (chars ''()<>@,;:'' @ [0x5C, 0x22] @ chars ''/[]?={}'')"

definition isTOKEN :: "byte \<Rightarrow> bool" where
  "isTOKEN c \<longleftrightarrow> isCHAR c \<and> \<not> isCTL c \<and> \<not> isSeparator c"

definition unescapeMaxAge :: "bytes \<Rightarrow> bytes" where
  "unescapeMaxAge v = (if length v < 2 \<or> hd v \<noteq> 0x22 then v else butlast (tl v))"

subsection \<open>The parser\<close>

record sts_parser =
  sts_header :: bytes
  sts_token :: bytes
  sts_expiry :: datetime
  tokenPos :: nat
  maxAgeFound :: bool
  maxAge :: int
  subDomainsFound :: bool

definition QHstsHeaderParser :: sts_parser where
  "QHstsHeaderParser = \<lparr>sts_header = [], sts_token = [], sts_expiry = None, tokenPos = 0, maxAgeFound = False, maxAge = 0,
     subDomainsFound = False\<rparr>"

text \<open>Where the quoted string that was opened before \<open>at\<close> ends: at its quotation mark, or beyond the header.\<close>

function quoted_end :: "bytes \<Rightarrow> nat \<Rightarrow> nat option" where
  "quoted_end header at =
     (if at < length header
      then if header ! at = 0x22 then Some at
           else if header ! at = 0x5C
           then if at + 1 < length header \<and> isCHAR (header ! (at + 1)) then quoted_end header (at + 2) else None
           else if \<not> isTEXT (header ! at) then None
           else quoted_end header (at + 1)
      else Some at)"
  by pat_completeness auto
termination by (relation "measure (\<lambda>(header, at). length header - at)") auto

declare quoted_end.simps [simp del]

definition nextToken :: "sts_parser \<Rightarrow> bool \<times> sts_parser" where
  "nextToken p =
     (let header = sts_header p;
          pos = tokenPos p + length (takeWhile isLWS (drop (tokenPos p) header));
          p = p\<lparr>sts_token := [], tokenPos := pos\<rparr>
      in if pos = length header then (True, p)
         else let ch = header ! pos
              in if ch = 0x3B \<or> ch = 0x3D then (True, p\<lparr>sts_token := [ch], tokenPos := pos + 1\<rparr>)
                 else if ch = 0x22
                 then (case quoted_end header (pos + 1) of
                         None \<Rightarrow> (False, p)
                       | Some end_at \<Rightarrow>
                           if length header \<le> end_at then (False, p)
                           else (True, p\<lparr>sts_token := take (end_at - pos + 1) (drop pos header), tokenPos := end_at + 1\<rparr>))
                 else if \<not> isTOKEN ch then (False, p)
                 else let end_at = pos + 1 + length (takeWhile isTOKEN (drop (pos + 1) header))
                      in (True, p\<lparr>sts_token := take (end_at - pos) (drop pos header), tokenPos := end_at\<rparr>))"

definition processDirective :: "bytes \<Rightarrow> bytes \<Rightarrow> sts_parser \<Rightarrow> bool \<times> sts_parser" where
  "processDirective name val p =
     (if equals_ignoring_case name (chars ''max-age'')
      then if maxAgeFound p then (False, p)
           else let unescaped = unescapeMaxAge val
                in if unescaped = [] then (False, p)
                   else (case toSignedInteger unescaped 10 of
                           None \<Rightarrow> (False, p)
                         | Some age \<Rightarrow> if age < 0 then (False, p) else (True, p\<lparr>maxAge := age, maxAgeFound := True\<rparr>))
      else if equals_ignoring_case name (chars ''includesubdomains'')
      then if subDomainsFound p then (False, p) else (True, p\<lparr>subDomainsFound := True\<rparr>)
      else (True, p))"

definition parseDirective :: "sts_parser \<Rightarrow> bool \<times> sts_parser" where
  "parseDirective p =
     (let (ok, p) = nextToken p
      in if \<not> ok then (False, p)
         else if sts_token p = [] then (True, p)
         else if sts_token p = [0x3B] then (True, p)
         else if \<not> isTOKEN (hd (sts_token p)) then (False, p)
         else let directiveName = sts_token p; (ok, p) = nextToken p
              in if \<not> ok then (False, p)
                 else if sts_token p = [0x3B] then processDirective directiveName [] p
                 else if sts_token p = [0x3D]
                 then let (ok, p) = nextToken p
                      in if \<not> ok \<or> sts_token p = [] then (False, p)
                         else let (ok, p) = processDirective directiveName (sts_token p) p
                              in if \<not> ok then (False, p) else nextToken p
                 else if sts_token p \<noteq> [] then (False, p)
                 else let (ok, p) = processDirective directiveName [] p
                      in if \<not> ok then (False, p) else nextToken p)"

subsection \<open>The parser gets on\<close>

lemma quoted_end_le: "quoted_end header pos = Some e \<Longrightarrow> pos \<le> e"
proof (induction header pos rule: quoted_end.induct)
  case (1 header pos)
  show ?case using 1(3) 1(1,2) by (subst (asm) quoted_end.simps) (force split: if_splits)
qed

lemma nextToken_progress:
  assumes "nextToken p = (ok, p')" "tokenPos p \<le> length (sts_header p)"
  shows "sts_header p' = sts_header p" "tokenPos p \<le> tokenPos p'" "tokenPos p' \<le> length (sts_header p)"
    and "ok \<Longrightarrow> tokenPos p < length (sts_header p) \<Longrightarrow> tokenPos p < tokenPos p'"
proof -
  let ?pos = "tokenPos p + length (takeWhile isLWS (drop (tokenPos p) (sts_header p)))"
  have le: "?pos \<le> length (sts_header p)"
    using length_takeWhile_le [of isLWS "drop (tokenPos p) (sts_header p)"] assms(2) by simp
  have tok: "?pos \<noteq> length (sts_header p) \<Longrightarrow>
      ?pos + 1 + length (takeWhile isTOKEN (drop (?pos + 1) (sts_header p))) \<le> length (sts_header p)"
    using le length_takeWhile_le [of isTOKEN "drop (?pos + 1) (sts_header p)"] by simp
  show "sts_header p' = sts_header p" "tokenPos p \<le> tokenPos p'" "tokenPos p' \<le> length (sts_header p)"
    "ok \<Longrightarrow> tokenPos p < length (sts_header p) \<Longrightarrow> tokenPos p < tokenPos p'"
    using assms(1) le tok by (auto simp: nextToken_def Let_def split: if_splits option.splits dest: quoted_end_le)
qed

lemma processDirective_keeps:
  "processDirective name val p = (ok, p') \<Longrightarrow> sts_header p' = sts_header p \<and> tokenPos p' = tokenPos p \<and> sts_token p' = sts_token p"
  by (auto simp: processDirective_def Let_def split: if_splits option.splits)

definition follows :: "sts_parser \<Rightarrow> sts_parser \<Rightarrow> bool" where
  "follows p q \<longleftrightarrow> sts_header q = sts_header p \<and> tokenPos p \<le> tokenPos q \<and> tokenPos q \<le> length (sts_header q)"

lemma follows_next: "follows p q \<Longrightarrow> nextToken q = (ok, r) \<Longrightarrow> follows p r"
  using nextToken_progress(1-3) [of q ok r] by (auto simp: follows_def)

lemma follows_process: "follows p q \<Longrightarrow> processDirective name val q = (ok, r) \<Longrightarrow> follows p r"
  using processDirective_keeps [of name val q ok r] by (auto simp: follows_def)

lemma parseDirective_progress:
  assumes "parseDirective p = (True, p')" "tokenPos p < length (sts_header p)"
  shows "sts_header p' = sts_header p \<and> tokenPos p < tokenPos p' \<and> tokenPos p' \<le> length (sts_header p)"
proof -
  obtain p1 where 1: "nextToken p = (True, p1)"
    using assms(1) by (cases "nextToken p") (auto simp: parseDirective_def split: if_splits)
  note p1 = nextToken_progress [OF 1 less_imp_le [OF assms(2)]]
  have "follows p1 p1" using p1 by (simp add: follows_def)
  then have "follows p1 p'" using assms(1) 1
    by (auto simp: parseDirective_def Let_def split: if_splits prod.splits)
      ((drule (1) follows_next | drule (1) follows_process)+, assumption)+
  then show ?thesis using p1 assms(2) by (auto simp: follows_def)
qed

subsection \<open>Whole fields\<close>

function directives_loop :: "sts_parser \<Rightarrow> bool \<times> sts_parser" where
  "directives_loop p =
     (if tokenPos p < length (sts_header p)
      then (case parseDirective p of
              (False, p') \<Rightarrow> (False, p')
            | (True, p') \<Rightarrow>
                if sts_token p' \<noteq> [] \<and> sts_token p' \<noteq> [0x3B] then (False, p') else directives_loop p')
      else (True, p))"
  by pat_completeness auto
termination
  by (relation "measure (\<lambda>p. length (sts_header p) - tokenPos p)")
    (auto dest!: parseDirective_progress [OF sym])

declare directives_loop.simps [simp del]

definition parseSTSHeader :: "sts_parser \<Rightarrow> bool \<times> sts_parser" where
  "parseSTSHeader p =
     directives_loop (p\<lparr>sts_expiry := None, maxAgeFound := False, subDomainsFound := False, maxAge := 0, tokenPos := 0,
       sts_token := []\<rparr>)"

fun parse_values :: "int \<Rightarrow> bytes list \<Rightarrow> sts_parser \<Rightarrow> bool \<times> sts_parser" where
  "parse_values now [] p = (False, p\<lparr>subDomainsFound := False\<rparr>)"
| "parse_values now (v # vs) p =
     (let (ok, p) = parseSTSHeader (p\<lparr>sts_header := v\<rparr>)
      in if ok \<and> maxAgeFound p then (True, p\<lparr>sts_expiry := addSecs (maxAge p) (Some now)\<rparr>) else parse_values now vs p)"

definition sts_parse :: "int \<Rightarrow> http_headers \<Rightarrow> sts_parser \<Rightarrow> bool \<times> sts_parser" where
  "sts_parse now headers p = parse_values now (headers_values (chars ''strict-transport-security'') headers) p"


subsection \<open>Words of a field\<close>

text \<open>What \<open>nextToken\<close> takes for a token, and the text that is left of a field.\<close>

fun quoted_ok :: "bytes \<Rightarrow> bool" where
  "quoted_ok [] \<longleftrightarrow> True"
| "quoted_ok (c # s) \<longleftrightarrow>
     (if c = 0x5C then (case s of [] \<Rightarrow> False | d # s' \<Rightarrow> isCHAR d \<and> quoted_ok s') else c \<noteq> 0x22 \<and> isTEXT c \<and> quoted_ok s)"

definition token_word :: "bytes \<Rightarrow> bool" where
  "token_word v \<longleftrightarrow> v \<noteq> [] \<and> list_all isTOKEN v"

definition quoted_word :: "bytes \<Rightarrow> bool" where
  "quoted_word v \<longleftrightarrow> 2 \<le> length v \<and> hd v = 0x22 \<and> last v = 0x22 \<and> quoted_ok (butlast (tl v))"

definition lexeme :: "bytes \<Rightarrow> bool" where
  "lexeme v \<longleftrightarrow> v = [0x3B] \<or> v = [0x3D] \<or> token_word v \<or> quoted_word v"

definition rest_of :: "sts_parser \<Rightarrow> bytes" where
  "rest_of p = drop (tokenPos p) (sts_header p)"

definition flags :: "sts_parser \<Rightarrow> bool \<times> int \<times> bool" where
  "flags p = (maxAgeFound p, maxAge p, subDomainsFound p)"

abbreviation blanks :: "bytes \<Rightarrow> bool" where
  "blanks \<equiv> list_all isLWS"

lemma quoted_word_iff: "quoted_word v \<longleftrightarrow> (\<exists>s. v = 0x22 # s @ [0x22] \<and> quoted_ok s)"
proof
  assume "quoted_word v"
  then obtain w where "v = 0x22 # w" "w \<noteq> []" "last w = 0x22" "quoted_ok (butlast w)"
    by (cases v; cases "tl v") (auto simp: quoted_word_def)
  then show "\<exists>s. v = 0x22 # s @ [0x22] \<and> quoted_ok s"
    using append_butlast_last_id [of w] by (intro exI [of _ "butlast w"]) simp
qed (auto simp: quoted_word_def)

lemma token_chars:
  "isTOKEN c \<Longrightarrow> \<not> isLWS c" "\<not> isTOKEN 0x3B" "\<not> isTOKEN 0x3D" "\<not> isTOKEN 0x22" "\<not> isLWS 0x3B" "\<not> isLWS 0x3D" "\<not> isLWS 0x22"
  by (simp_all add: isTOKEN_def isSeparator_def isLWS_def chars_def)

lemma quoted_end_ok:
  assumes "quoted_ok s" "drop pos header = s @ 0x22 # r"
  shows "quoted_end header pos = Some (pos + length s)"
  using assms
proof (induction s arbitrary: pos rule: length_induct)
  case (1 s)
  have ih: "quoted_end header x = Some (x + length t)"
    if "length t < length s" "quoted_ok t" "drop x header = t @ 0x22 # r" for t x
    using 1(1) that by blast
  have pos: "pos < length header" using 1(3) by (metis drop_eq_Nil append_is_Nil_conv list.distinct(1) not_le)
  have nth: "header ! pos = hd (s @ 0x22 # r)" using 1(3) pos hd_drop_conv_nth by metis
  have d: "drop (Suc pos) header = tl (s @ 0x22 # r)" using 1(3) by (metis drop_Suc tl_drop)
  show ?case
  proof (cases s)
    case Nil
    then show ?thesis using pos nth by (simp add: quoted_end.simps [of header pos])
  next
    case (Cons c s1)
    show ?thesis
    proof (cases "c = 0x5C")
      case True
      then obtain e s2 where s2: "s1 = e # s2" "isCHAR e" "quoted_ok s2"
        using 1(2) Cons by (cases s1) auto
      have d2: "drop (pos + 2) header = s2 @ 0x22 # r" and "header ! Suc pos = e" "Suc pos < length header"
        using d Cons s2(1) by (simp_all add: drop_Suc [symmetric] tl_drop)
          (metis drop_Suc list.sel(3) tl_drop, metis hd_drop_conv_nth list.sel(1) drop_eq_Nil list.distinct(1) not_le,
           metis drop_eq_Nil list.distinct(1) not_le)
      then show ?thesis using pos nth Cons True s2 ih [of s2 "pos + 2"] by (simp add: quoted_end.simps [of header pos])
    next
      case False
      then show ?thesis using pos nth Cons 1(2) d ih [of s1 "Suc pos"] by (simp add: quoted_end.simps [of header pos])
    qed
  qed
qed

lemma quoted_end_inv:
  "quoted_end header pos = Some e \<Longrightarrow> e < length header \<Longrightarrow>
     \<exists>s. quoted_ok s \<and> drop pos header = s @ 0x22 # drop (e + 1) header \<and> e = pos + length s"
proof (induction header pos rule: quoted_end.induct)
  case (1 header pos)
  have e: "quoted_end header pos = Some e" by fact
  have pos: "pos < length header" using quoted_end_le [OF e] 1(4) by simp
  note dc = Cons_nth_drop_Suc [OF pos, symmetric]
  show ?case
  proof (cases "header ! pos = 0x22 \<or> header ! pos = 0x5C")
    case False
    then have "isTEXT (header ! pos)" "quoted_end header (pos + 1) = Some e"
      using e pos by (simp_all add: quoted_end.simps [of header pos] split: if_splits)
    with 1(2) [OF pos] False 1(4) obtain s where "quoted_ok s" "drop (Suc pos) header = s @ 0x22 # drop (e + 1) header"
      "e = Suc pos + length s" by auto
    then show ?thesis using False \<open>isTEXT _\<close> dc by (intro exI [of _ "header ! pos # s"]) simp
  next
    case q: True
    show ?thesis
    proof (cases "header ! pos = 0x22")
      case True
      then have "e = pos" using e pos by (simp add: quoted_end.simps [of header pos])
      then show ?thesis using True dc by (intro exI [of _ "[]"]) simp
    next
      case False
      then have b: "header ! pos = 0x5C" using q by simp
      then have n: "pos + 1 < length header" "isCHAR (header ! (pos + 1))" "quoted_end header (pos + 2) = Some e"
        using e pos by (simp_all add: quoted_end.simps [of header pos] split: if_splits)
      with 1(1) [OF pos] b 1(4) obtain s where "quoted_ok s" "drop (pos + 2) header = s @ 0x22 # drop (e + 1) header"
        "e = pos + 2 + length s" by auto
      moreover have "drop (Suc pos) header = header ! (pos + 1) # drop (pos + 2) header"
        using Cons_nth_drop_Suc [of "pos + 1" header] n(1) by simp
      ultimately show ?thesis using b n(2) dc by (intro exI [of _ "0x5C # header ! (pos + 1) # s"]) simp
    qed
  qed
qed

subsection \<open>Reading a word\<close>

definition placed :: "sts_parser \<Rightarrow> bool" where
  "placed p \<longleftrightarrow> tokenPos p \<le> length (sts_header p)"

text \<open>The parser after a word \<open>v\<close> whose text, with the blanks before it, is \<open>n\<close> octets.\<close>

abbreviation past :: "bytes \<Rightarrow> nat \<Rightarrow> sts_parser \<Rightarrow> sts_parser" where
  "past v n p \<equiv> p\<lparr>sts_token := v, tokenPos := tokenPos p + n\<rparr>"

lemma past_rest:
  assumes "placed p" "rest_of p = x @ r" "n = length x"
  shows "placed (past v n p)" "rest_of (past v n p) = r" "flags (past v n p) = flags p"
proof -
  have "tokenPos p + length x + length r = length (sts_header p)"
    using arg_cong [OF assms(2), of length] assms(1) by (simp add: rest_of_def placed_def)
  then show "placed (past v n p)" "flags (past v n p) = flags p" using assms(3) by (simp_all add: placed_def flags_def)
  have "drop n (drop (tokenPos p) (sts_header p)) = r" using assms(2,3) by (simp add: rest_of_def)
  then show "rest_of (past v n p) = r" by (simp add: rest_of_def add.commute)
qed

lemma takeWhile_blanks: "blanks ws \<Longrightarrow> takeWhile isLWS (ws @ r) = ws @ takeWhile isLWS r"
  by (induction ws) auto

lemma blanks_to:
  assumes "placed p" "rest_of p = ws @ r" "blanks ws" "r = [] \<or> \<not> isLWS (hd r)"
  shows "tokenPos p + length (takeWhile isLWS (drop (tokenPos p) (sts_header p))) = tokenPos p + length ws"
    and "tokenPos p + length ws + length r = length (sts_header p)"
    and "drop (tokenPos p + length ws) (sts_header p) = r"
proof -
  show "tokenPos p + length (takeWhile isLWS (drop (tokenPos p) (sts_header p))) = tokenPos p + length ws"
  proof -
    have "takeWhile isLWS r = []" using assms(4) by (cases r) auto
    then show ?thesis by (simp only: rest_of_def [symmetric] assms(2) takeWhile_blanks [OF assms(3)] append_Nil2)
  qed
  show "tokenPos p + length ws + length r = length (sts_header p)"
    using arg_cong [OF assms(2), of length] assms(1) by (simp add: rest_of_def placed_def)
  show "drop (tokenPos p + length ws) (sts_header p) = r"
    using past_rest(2) [OF assms(1,2) refl] by (simp add: rest_of_def)
qed

lemma next_end:
  assumes "placed p" "rest_of p = ws" "blanks ws"
  shows "nextToken p = (True, past [] (length ws) p)"
  using blanks_to [OF assms(1), of ws "[]"] assms(2,3) by (simp add: nextToken_def Let_def)

lemma lexeme_hd: "lexeme v \<Longrightarrow> v \<noteq> [] \<and> \<not> isLWS (hd v)"
  by (cases v) (auto simp: lexeme_def token_word_def quoted_word_def token_chars isLWS_def dest: token_chars(1))

lemma next_word:
  assumes "placed p" "rest_of p = ws @ v @ r" "blanks ws" "lexeme v" "token_word v \<Longrightarrow> r = [] \<or> \<not> isTOKEN (hd r)"
  shows "nextToken p = (True, past v (length ws + length v) p)"
proof -
  let ?n = "tokenPos p + length ws" and ?h = "sts_header p"
  obtain c w where v: "v = c # w" using lexeme_hd [OF assms(4)] by (cases v) auto
  have "v @ r = [] \<or> \<not> isLWS (hd (v @ r))" using lexeme_hd [OF assms(4)] by simp
  note b = blanks_to [OF assms(1-3) this]
  have lt: "?n < length ?h" using b(2) v by simp
  have ch: "?h ! ?n = c" using b(3) v lt by (metis hd_drop_conv_nth list.sel(1) append_Cons)
  have after: "drop (Suc ?n) ?h = w @ r" using b(3) v by (metis drop_Suc tl_drop list.sel(3) append_Cons)
  consider "v = [0x3B] \<or> v = [0x3D]" | "token_word v" | "quoted_word v" using assms(4) by (auto simp: lexeme_def)
  then show ?thesis
  proof cases
    case 1
    then show ?thesis using b(1) lt ch v by (auto simp: nextToken_def Let_def)
  next
    case 2
    then have "c \<noteq> 0x3B \<and> c \<noteq> 0x3D \<and> c \<noteq> 0x22" "isTOKEN c" using v token_chars by (auto simp: token_word_def)
    moreover have "takeWhile isTOKEN (drop (Suc ?n) ?h) = w"
      using after 2 v assms(5) by (cases r) (auto simp: token_word_def list_all_iff)
    ultimately show ?thesis using b(1,3) lt ch v by (simp add: nextToken_def Let_def)
  next
    case 3
    then obtain s where s: "v = 0x22 # s @ [0x22]" "quoted_ok s" by (auto simp: quoted_word_iff)
    then have "quoted_end ?h (Suc ?n) = Some (Suc ?n + length s)"
      using after v quoted_end_ok [of s "Suc ?n" ?h r] by simp
    moreover have "Suc ?n + length s < length ?h" using b(2) s by simp
    moreover have "w = s @ [0x22]" "c = 0x22" using v s by simp_all
    ultimately show ?thesis using b(1,3) lt ch v by (simp add: nextToken_def Let_def)
  qed
qed

text \<open>Conversely, what has been read was a word, and a name or number ends where its characters do.\<close>

lemma next_inv:
  assumes "nextToken p = (True, q)" "placed p"
  obtains (finished) ws where "blanks ws" "rest_of p = ws" "q = past [] (length ws) p"
  | (word) ws v r where "blanks ws" "lexeme v" "rest_of p = ws @ v @ r" "q = past v (length ws + length v) p"
      "token_word v \<longrightarrow> r = [] \<or> \<not> isTOKEN (hd r)"
proof -
  let ?h = "sts_header p" and ?ws = "takeWhile isLWS (rest_of p)" and ?r = "dropWhile isLWS (rest_of p)"
  have ws: "blanks ?ws" by (auto simp: list_all_iff dest: set_takeWhileD)
  have sp: "rest_of p = ?ws @ ?r" by simp
  have hd: "?r = [] \<or> \<not> isLWS (hd ?r)" by (rule dropWhile_hd)
  note b = blanks_to [OF assms(2) sp ws hd]
  let ?n = "tokenPos p + length ?ws"
  show thesis
  proof (cases "?r = []")
    case True
    then have r: "rest_of p = ?ws" using sp by (metis append_Nil2)
    show thesis using finished [OF ws r] next_end [OF assms(2) r ws] assms(1) by simp
  next
    case False
    then have lt: "?n < length ?h" using b(2) by (cases ?r) auto
    define c where "c = ?h ! ?n"
    have r: "?r = c # drop (Suc ?n) ?h" using b(3) Cons_nth_drop_Suc [OF lt] by (simp add: c_def)
    have n: "tokenPos p + length (takeWhile isLWS (drop (tokenPos p) ?h)) = ?n" using b(1) .
    consider (sep) "c = 0x3B \<or> c = 0x3D" | (quote) "c = 0x22" | (tok) "c \<noteq> 0x3B" "c \<noteq> 0x3D" "c \<noteq> 0x22" by auto
    then show thesis
    proof cases
      case sep
      then show thesis using word [OF ws _ _ _, of "[c]" "drop (Suc ?n) ?h"] assms(1) sp r n lt
        by (auto simp: nextToken_def Let_def c_def [symmetric] lexeme_def token_word_def token_chars)
    next
      case quote
      then obtain e where e: "quoted_end ?h (Suc ?n) = Some e" "e < length ?h"
          "q = p\<lparr>sts_token := take (Suc (e - ?n)) (drop ?n ?h), tokenPos := Suc e\<rparr>"
        using assms(1) n lt by (auto simp: nextToken_def Let_def c_def [symmetric] split: option.splits if_splits)
      then obtain s where s: "quoted_ok s" "drop (Suc ?n) ?h = s @ 0x22 # drop (Suc e) ?h" "e = Suc ?n + length s"
        using quoted_end_inv [OF e(1,2)] by auto
      have "drop ?n ?h = (0x22 # s @ [0x22]) @ drop (Suc e) ?h" using b(3) r quote s(2) by simp
      then have "take (Suc (e - ?n)) (drop ?n ?h) = 0x22 # s @ [0x22]" using s(3) by simp
      then show thesis using word [OF ws, of "0x22 # s @ [0x22]" "drop (Suc e) ?h"] e(3) s quote r sp
        by (auto simp: lexeme_def quoted_word_iff token_word_def token_chars)
    next
      case tok
      let ?w = "takeWhile isTOKEN (drop (Suc ?n) ?h)" and ?t = "dropWhile isTOKEN (drop (Suc ?n) ?h)"
      have t: "isTOKEN c" "q = p\<lparr>sts_token := take (Suc (length ?w)) (drop ?n ?h), tokenPos := Suc (?n + length ?w)\<rparr>"
        using assms(1) n lt tok by (auto simp: nextToken_def Let_def c_def [symmetric] split: if_splits)
      have "drop ?n ?h = (c # ?w) @ ?t" using b(3) r by simp
      then have "take (Suc (length ?w)) (drop ?n ?h) = c # ?w" by (metis append_eq_conv_conj length_Cons)
      moreover have "token_word (c # ?w)" using t(1) by (auto simp: token_word_def list_all_iff dest: set_takeWhileD)
      ultimately show thesis using word [OF ws, of "c # ?w" ?t] t(2) r sp dropWhile_hd [of isTOKEN "drop (Suc ?n) ?h"]
        by (simp add: lexeme_def)
    qed
  qed
qed

subsection \<open>What a field means\<close>

text \<open>A field is a list of items between semicolons: blanks alone, or a directive with the blanks around its words. As the
  parser does not look at the kind of a value, a lone \<open>;\<close> or \<open>=\<close> is one, too.\<close>

datatype sts_item =
    Blank bytes
  | Directive bytes bytes bytes "(bytes \<times> bytes \<times> bytes) option"

fun item_ok :: "sts_item \<Rightarrow> bool" where
  "item_ok (Blank ws) \<longleftrightarrow> blanks ws"
| "item_ok (Directive ws name us None) \<longleftrightarrow> blanks ws \<and> token_word name \<and> blanks us"
| "item_ok (Directive ws name us (Some (vs, v, xs))) \<longleftrightarrow>
     blanks ws \<and> token_word name \<and> blanks us \<and> blanks vs \<and> lexeme v \<and> blanks xs"

fun item_text :: "sts_item \<Rightarrow> bytes" where
  "item_text (Blank ws) = ws"
| "item_text (Directive ws name us None) = ws @ name @ us"
| "item_text (Directive ws name us (Some (vs, v, xs))) = ws @ name @ us @ 0x3D # vs @ v @ xs"

fun item_directive :: "sts_item \<Rightarrow> (bytes \<times> bytes) list" where
  "item_directive (Blank ws) = []"
| "item_directive (Directive ws name us None) = [(name, [])]"
| "item_directive (Directive ws name us (Some (vs, v, xs))) = [(name, v)]"

definition field_text :: "sts_item list \<Rightarrow> bytes" where
  "field_text items = join_bytes [0x3B] (map item_text items)"

definition age_of :: "bytes \<Rightarrow> int option" where
  "age_of v = (case toSignedInteger (unescapeMaxAge v) 10 of Some a \<Rightarrow> if 0 \<le> a then Some a else None | None \<Rightarrow> None)"

definition max_ages :: "(bytes \<times> bytes) list \<Rightarrow> bytes list" where
  "max_ages ds = map snd (filter (\<lambda>d. equals_ignoring_case (fst d) (chars ''max-age'')) ds)"

definition sub_flags :: "(bytes \<times> bytes) list \<Rightarrow> bytes list" where
  "sub_flags ds = map snd (filter (\<lambda>d. equals_ignoring_case (fst d) (chars ''includesubdomains'')) ds)"

text \<open>What RFC 6797 asks of the directives: none of the two known ones more than once, and an age that is a number. The
  result is the list of ages, at most one, and whether the subdomains are included.\<close>

definition policy_of :: "(bytes \<times> bytes) list \<Rightarrow> (int list \<times> bool) option" where
  "policy_of ds =
     (if length (max_ages ds) \<le> 1 \<and> length (sub_flags ds) \<le> 1 \<and> list_all (\<lambda>v. age_of v \<noteq> None) (max_ages ds)
      then Some (map (\<lambda>v. the (age_of v)) (max_ages ds), sub_flags ds \<noteq> []) else None)"

text \<open>The flags of the parser while it takes the directives in turn.\<close>

fun apply_directive :: "bytes \<times> bytes \<Rightarrow> bool \<times> int \<times> bool \<Rightarrow> (bool \<times> int \<times> bool) option" where
  "apply_directive (name, v) (f, a, s) =
     (if equals_ignoring_case name (chars ''max-age'')
      then if f then None else (case age_of v of None \<Rightarrow> None | Some age \<Rightarrow> Some (True, age, s))
      else if equals_ignoring_case name (chars ''includesubdomains'') then if s then None else Some (f, a, True)
      else Some (f, a, s))"

fun apply_directives :: "(bytes \<times> bytes) list \<Rightarrow> bool \<times> int \<times> bool \<Rightarrow> (bool \<times> int \<times> bool) option" where
  "apply_directives [] fl = Some fl"
| "apply_directives (d # ds) fl = (case apply_directive d fl of None \<Rightarrow> None | Some fl \<Rightarrow> apply_directives ds fl)"

lemma two_names: "equals_ignoring_case n (chars ''max-age'') \<Longrightarrow> \<not> equals_ignoring_case n (chars ''includesubdomains'')"
  by (auto simp: equals_ignoring_case_def chars_def toLower_def asciiLower_def)

lemma apply_directives_eq:
  "apply_directives ds (f, a, s) =
     (if length (max_ages ds) + of_bool f \<le> 1 \<and> length (sub_flags ds) + of_bool s \<le> 1 \<and>
         list_all (\<lambda>v. age_of v \<noteq> None) (max_ages ds)
      then Some (f \<or> max_ages ds \<noteq> [], case max_ages ds of [] \<Rightarrow> a | v # _ \<Rightarrow> the (age_of v), s \<or> sub_flags ds \<noteq> [])
      else None)"
proof (induction ds arbitrary: f a s)
  case Nil
  then show ?case by (simp add: max_ages_def sub_flags_def)
next
  case (Cons d ds)
  obtain n v where d: "d = (n, v)" by (cases d) auto
  have m: "max_ages ((n, v) # ds) = (if equals_ignoring_case n (chars ''max-age'') then v # max_ages ds else max_ages ds)"
    "sub_flags ((n, v) # ds) = (if equals_ignoring_case n (chars ''includesubdomains'') then v # sub_flags ds else sub_flags ds)"
    by (simp_all add: d max_ages_def sub_flags_def)
  consider (age) "equals_ignoring_case n (chars ''max-age'')" "\<not> equals_ignoring_case n (chars ''includesubdomains'')"
    | (sub) "\<not> equals_ignoring_case n (chars ''max-age'')" "equals_ignoring_case n (chars ''includesubdomains'')"
    | (other) "\<not> equals_ignoring_case n (chars ''max-age'')" "\<not> equals_ignoring_case n (chars ''includesubdomains'')"
    using two_names by blast
  then show ?case
  proof cases
    case age
    then show ?thesis by (cases f; cases "age_of v"; cases "max_ages ds") (simp_all add: d m Cons.IH)
  next
    case sub
    then show ?thesis by (cases s) (simp_all add: d m Cons.IH)
  next
    case other
    then show ?thesis by (simp add: d m Cons.IH)
  qed
qed

lemma processDirective_flags:
  "processDirective name v p =
     (case apply_directive (name, v) (flags p) of
        None \<Rightarrow> (False, p)
      | Some (f, a, s) \<Rightarrow> (True, p\<lparr>maxAgeFound := f, maxAge := a, subDomainsFound := s\<rparr>))"
  by (auto simp: processDirective_def flags_def age_of_def Let_def toSignedInteger_def split: option.splits)

text \<open>The parser has moved from \<open>p\<close> to \<open>q\<close>, over the token \<open>v\<close>, and \<open>r\<close> is left.\<close>

definition moved :: "sts_parser \<Rightarrow> bytes \<Rightarrow> bytes \<Rightarrow> sts_parser \<Rightarrow> bool" where
  "moved p v r q \<longleftrightarrow> placed q \<and> rest_of q = r \<and> flags q = flags p \<and> sts_token q = v"

lemma next_word_moved:
  assumes "placed p" "rest_of p = ws @ v @ r" "blanks ws" "lexeme v" "token_word v \<Longrightarrow> r = [] \<or> \<not> isTOKEN (hd r)"
  obtains q where "nextToken p = (True, q)" "moved p v r q"
proof
  show "nextToken p = (True, past v (length ws + length v) p)" by (rule next_word [OF assms])
  show "moved p v r (past v (length ws + length v) p)"
    using past_rest [OF assms(1), of "ws @ v" r] assms(2) by (simp add: moved_def)
qed

lemma next_end_moved:
  assumes "placed p" "rest_of p = ws" "blanks ws"
  obtains q where "nextToken p = (True, q)" "moved p [] [] q"
proof
  show "nextToken p = (True, past [] (length ws) p)" by (rule next_end [OF assms])
  show "moved p [] [] (past [] (length ws) p)" using past_rest [OF assms(1), of ws "[]"] assms(2) by (simp add: moved_def)
qed

lemma next_tail:
  assumes "placed p" "rest_of p = ws @ tail" "blanks ws" "tail = [] \<or> hd tail = 0x3B"
  obtains q where "nextToken p = (True, q)" "moved p (take 1 tail) (tl tail) q"
proof (cases tail)
  case Nil
  then show thesis using next_end_moved [OF assms(1), of ws] assms(2,3) that by auto
next
  case (Cons c r)
  then show thesis using next_word_moved [OF assms(1), of ws "[0x3B]" r] assms(2-4) that
    by (auto simp: lexeme_def token_word_def token_chars)
qed

lemma next_moved:
  assumes "nextToken p = (True, q)" "placed p"
  obtains (finished) "blanks (rest_of p)" "moved p [] [] q"
  | (word) ws v r where "blanks ws" "lexeme v" "rest_of p = ws @ v @ r" "moved p v r q"
      "token_word v \<longrightarrow> r = [] \<or> \<not> isTOKEN (hd r)"
proof (cases rule: next_inv [OF assms])
  case (1 ws)
  then show thesis using finished past_rest [OF assms(2), of ws "[]" "length ws" "[]"] by (simp add: moved_def)
next
  case (2 ws v r)
  then show thesis using word [of ws v r] past_rest [OF assms(2), of "ws @ v" r _ v] by (simp add: moved_def)
qed

abbreviation with_flags :: "bool \<times> int \<times> bool \<Rightarrow> sts_parser \<Rightarrow> sts_parser" where
  "with_flags fl p \<equiv> p\<lparr>maxAgeFound := fst fl, maxAge := fst (snd fl), subDomainsFound := snd (snd fl)\<rparr>"

lemma process_directive:
  "processDirective name v p =
     (case apply_directives [(name, v)] (flags p) of None \<Rightarrow> (False, p) | Some fl \<Rightarrow> (True, with_flags fl p))"
  by (auto simp: processDirective_flags split: option.splits)

lemma with_flags_simps [simp]:
  "placed (with_flags fl p) = placed p" "rest_of (with_flags fl p) = rest_of p" "flags (with_flags fl p) = fl"
  by (simp_all add: placed_def rest_of_def flags_def)

definition item_read :: "sts_parser \<Rightarrow> (bytes \<times> bytes) list \<Rightarrow> bytes \<Rightarrow> bool" where
  "item_read p ds tail \<longleftrightarrow>
     (case apply_directives ds (flags p) of
        None \<Rightarrow> \<exists>q. parseDirective p = (False, q)
      | Some fl \<Rightarrow> \<exists>q. parseDirective p = (True, q) \<and> placed q \<and> rest_of q = tl tail \<and> flags q = fl \<and> sts_token q = take 1 tail)"

lemma token_lexeme: "token_word v \<Longrightarrow> lexeme v \<and> v \<noteq> [] \<and> v \<noteq> [0x3B] \<and> v \<noteq> [0x3D] \<and> isTOKEN (hd v)"
  by (cases v) (auto simp: lexeme_def token_word_def token_chars)

lemma blanks_no_token: "blanks us \<Longrightarrow> tail = [] \<or> \<not> isTOKEN (hd tail) \<Longrightarrow> us @ tail = [] \<or> \<not> isTOKEN (hd (us @ tail))"
  using token_chars(1) by (cases us) auto

lemma semi_no_token: "tail = [] \<or> hd tail = 0x3B \<Longrightarrow> tail = [] \<or> \<not> isTOKEN (hd tail)"
  using token_chars(2) by auto

lemma read_blank:
  assumes "placed p" "rest_of p = ws @ tail" "blanks ws" "tail = [] \<or> hd tail = 0x3B"
  shows "item_read p [] tail"
proof -
  obtain q where "nextToken p = (True, q)" "moved p (take 1 tail) (tl tail) q" using next_tail [OF assms] .
  then show ?thesis using assms(4) by (cases tail) (auto simp: item_read_def moved_def parseDirective_def)
qed

lemma read_plain:
  assumes "placed p" "rest_of p = ws @ name @ us @ tail" "blanks ws" "token_word name" "blanks us"
    "tail = [] \<or> hd tail = 0x3B"
  shows "item_read p [(name, [])] tail"
proof -
  note name = token_lexeme [OF assms(4)]
  obtain p1 where 1: "nextToken p = (True, p1)" "moved p name (us @ tail) p1"
    using next_word_moved [OF assms(1,2,3)] name blanks_no_token [OF assms(5) semi_no_token [OF assms(6)]] by metis
  obtain p2 where 2: "nextToken p1 = (True, p2)" "moved p1 (take 1 tail) (tl tail) p2"
    using next_tail [of p1 us tail] 1(2) assms(5,6) by (auto simp: moved_def)
  show ?thesis
  proof (cases tail)
    case Nil
    have "nextToken (with_flags fl p2) = (True, past [] 0 (with_flags fl p2))" for fl
      using next_end [of "with_flags fl p2" "[]"] 2(2) Nil by (simp add: moved_def del: with_flags_simps(2) add: with_flags_simps(2))
    moreover have "placed (past [] 0 (with_flags fl p2)) \<and> rest_of (past [] 0 (with_flags fl p2)) = [] \<and>
        flags (past [] 0 (with_flags fl p2)) = fl" for fl
      using past_rest [of "with_flags fl p2" "[]" "[]" 0 "[]"] 2(2) Nil by (simp add: moved_def)
    ultimately show ?thesis using 1 2 name Nil
      by (auto simp: item_read_def moved_def parseDirective_def process_directive simp del: apply_directives.simps split: option.splits)
  next
    case (Cons c r)
    then show ?thesis using 1 2 name assms(6)
      by (auto simp: item_read_def moved_def parseDirective_def process_directive simp del: apply_directives.simps split: option.splits)
  qed
qed

lemma read_valued:
  assumes "placed p" "rest_of p = ws @ name @ us @ 0x3D # vs @ v @ xs @ tail" "blanks ws" "token_word name" "blanks us"
    "blanks vs" "lexeme v" "blanks xs" "tail = [] \<or> hd tail = 0x3B"
  shows "item_read p [(name, v)] tail"
proof -
  note name = token_lexeme [OF assms(4)]
  have "us @ 0x3D # vs @ v @ xs @ tail = [] \<or> \<not> isTOKEN (hd (us @ 0x3D # vs @ v @ xs @ tail))"
    by (rule blanks_no_token [OF assms(5)]) (simp add: token_chars)
  then obtain p1 where 1: "nextToken p = (True, p1)" "moved p name (us @ 0x3D # vs @ v @ xs @ tail) p1"
    using next_word_moved [OF assms(1,2,3)] name by metis
  obtain p2 where 2: "nextToken p1 = (True, p2)" "moved p1 [0x3D] (vs @ v @ xs @ tail) p2"
    using next_word_moved [of p1 us "[0x3D]" "vs @ v @ xs @ tail"] 1(2) assms(5)
    by (auto simp: moved_def lexeme_def token_word_def token_chars)
  obtain p3 where 3: "nextToken p2 = (True, p3)" "moved p2 v (xs @ tail) p3"
    using next_word_moved [of p2 vs v "xs @ tail"] 2(2) assms(6,7) blanks_no_token [OF assms(8) semi_no_token [OF assms(9)]]
    by (auto simp: moved_def)
  have "\<exists>q. nextToken (with_flags fl p3) = (True, q) \<and> moved (with_flags fl p3) (take 1 tail) (tl tail) q" for fl
    using next_tail [of "with_flags fl p3" xs tail] 3(2) assms(8,9) by (auto simp: moved_def)
  then obtain q where 4: "nextToken (with_flags fl p3) = (True, q fl)" "moved (with_flags fl p3) (take 1 tail) (tl tail) (q fl)" for fl
    by metis
  have "v \<noteq> []" using lexeme_hd [OF assms(7)] by simp
  then show ?thesis using 1 2 3 4 name
    by (auto simp: item_read_def moved_def parseDirective_def process_directive simp del: apply_directives.simps split: option.splits)
qed

lemma read_item:
  assumes "placed p" "rest_of p = item_text d @ tail" "item_ok d" "tail = [] \<or> hd tail = 0x3B"
  shows "item_read p (item_directive d) tail"
  using assms
proof (cases d rule: item_text.cases)
  case (3 ws name us vs v xs)
  then show ?thesis using read_valued [OF assms(1), of ws name us vs v xs tail] assms(2-4) by simp
qed (auto intro: read_blank read_plain)

lemma apply_append:
  "apply_directives (ds @ es) fl = (case apply_directives ds fl of None \<Rightarrow> None | Some fl \<Rightarrow> apply_directives es fl)"
  by (induction ds arbitrary: fl) (auto split: option.splits)

lemma field_text_simps [simp]:
  "field_text [d] = item_text d" "field_text (d # e # es) = item_text d @ 0x3B # field_text (e # es)"
  by (simp_all add: field_text_def)

lemma unread: "tokenPos p < length (sts_header p) \<longleftrightarrow> rest_of p \<noteq> []"
  by (auto simp: rest_of_def)

lemma read_field:
  "list_all item_ok items \<Longrightarrow> items \<noteq> [] \<Longrightarrow> placed p \<Longrightarrow> rest_of p = field_text items \<Longrightarrow>
     (case apply_directives (concat (map item_directive items)) (flags p) of
        None \<Rightarrow> \<exists>q. directives_loop p = (False, q)
      | Some fl \<Rightarrow> \<exists>q. directives_loop p = (True, q) \<and> flags q = fl)"
proof (induction items arbitrary: p rule: induct_list012)
  case (2 d)
  show ?case
  proof (cases "item_text d = []")
    case True
    then have "item_directive d = []" using 2(1) by (cases d rule: item_text.cases) (auto simp: token_word_def)
    then show ?thesis using 2 True by (simp add: directives_loop.simps [of p] unread)
  next
    case False
    have r: "item_read p (item_directive d) []" using read_item [of p d "[]"] 2 by simp
    have stop: "rest_of q = [] \<Longrightarrow> directives_loop q = (True, q)" for q by (simp add: directives_loop.simps [of q] unread)
    show ?thesis using r 2 False stop
      by (auto simp: item_read_def directives_loop.simps [of p] unread split: option.splits)
  qed
next
  case (3 d e es)
  let ?tail = "0x3B # field_text (e # es)"
  have r: "item_read p (item_directive d) ?tail" using read_item [of p d ?tail] 3 by simp
  show ?case
  proof (cases "apply_directives (item_directive d) (flags p)")
    case None
    then show ?thesis using r 3(6) by (auto simp: item_read_def directives_loop.simps [of p] unread apply_append)
  next
    case (Some fl)
    then obtain q where q: "parseDirective p = (True, q)" "placed q" "rest_of q = field_text (e # es)" "flags q = fl"
      "sts_token q = [0x3B]" using r by (auto simp: item_read_def)
    have same: "directives_loop p = directives_loop q" using q 3(6) by (simp add: directives_loop.simps [of p] unread)
    show ?thesis unfolding same using 3(2) [of q] 3(3) q Some by (simp add: apply_append)
  qed
qed simp

lemma sts_field_meaning_aux:
  assumes "list_all item_ok items" "items \<noteq> []" "sts_header p = field_text items"
  shows "case policy_of (concat (map item_directive items)) of
           None \<Rightarrow> \<exists>q. parseSTSHeader p = (False, q)
         | Some (ages, sub) \<Rightarrow> \<exists>q. parseSTSHeader p = (True, q) \<and> maxAgeFound q = (ages \<noteq> []) \<and> subDomainsFound q = sub \<and>
             maxAge q = (if ages = [] then 0 else hd ages)"
proof -
  let ?p = "p\<lparr>sts_expiry := None, maxAgeFound := False, subDomainsFound := False, maxAge := 0, tokenPos := 0, sts_token := []\<rparr>"
  have "placed ?p" "rest_of ?p = field_text items" "flags ?p = (False, 0, False)"
    using assms(3) by (simp_all add: placed_def rest_of_def flags_def)
  note f = read_field [OF assms(1,2) this(1,2), unfolded this(3) apply_directives_eq]
  show ?thesis
    using f by (cases "max_ages (concat (map item_directive items))") (auto simp: parseSTSHeader_def policy_of_def flags_def)
qed

subsection \<open>Only such fields\<close>

definition item_left :: "sts_parser \<Rightarrow> sts_parser \<Rightarrow> bool" where
  "item_left p q \<longleftrightarrow>
     placed q \<and> (\<exists>d. item_ok d \<and> rest_of p = item_text d @ (if sts_token q = [] then [] else 0x3B # rest_of q)) \<and>
     (sts_token q = [] \<longrightarrow> rest_of q = [])"

lemma tail_left:
  assumes "nextToken p = (True, q)" "placed p" "sts_token q = [] \<or> sts_token q = [0x3B]"
  obtains us where "blanks us" "rest_of p = us @ (if sts_token q = [] then [] else 0x3B # rest_of q)" "placed q"
    "sts_token q = [] \<longrightarrow> rest_of q = []"
proof (cases rule: next_moved [OF assms(1,2)])
  case 1
  then show thesis using that [of "rest_of p"] by (simp add: moved_def)
next
  case (2 ws v r)
  then show thesis using that [of ws] assms(3) lexeme_hd [of v] by (auto simp: moved_def)
qed

lemma token_lexemeD: "lexeme v \<Longrightarrow> isTOKEN (hd v) \<Longrightarrow> token_word v"
  by (auto simp: lexeme_def quoted_word_def token_chars)

lemma processed:
  "processDirective name v p = (True, q) \<Longrightarrow> placed q = placed p \<and> rest_of q = rest_of p \<and> sts_token q = sts_token p"
  using processDirective_keeps [of name v p True q] by (simp add: placed_def rest_of_def)

lemma value_left:
  assumes "nextToken p = (True, p')" "placed p" "sts_token p' \<noteq> []" "processDirective name (sts_token p') p' = (True, p'')"
    "nextToken p'' = (True, q)" "sts_token q = [] \<or> sts_token q = [0x3B]"
  obtains vs v xs where "blanks vs" "lexeme v" "blanks xs" "placed q" "sts_token q = [] \<longrightarrow> rest_of q = []"
    "rest_of p = vs @ v @ xs @ (if sts_token q = [] then [] else 0x3B # rest_of q)"
proof (cases rule: next_moved [OF assms(1,2)])
  case 1
  then show thesis using assms(3) by (simp add: moved_def)
next
  case (2 vs v r)
  have "placed p''" "rest_of p'' = r" using processed [OF assms(4)] 2(4) by (auto simp: moved_def)
  then show thesis using tail_left [OF assms(5) _ assms(6)] that 2(1-3) by metis
qed

lemma item_split:
  assumes "parseDirective p = (True, q)" "placed p" "sts_token q = [] \<or> sts_token q = [0x3B]"
  shows "item_left p q"
proof -
  obtain p1 where 1: "nextToken p = (True, p1)"
    using assms(1) by (cases "nextToken p") (auto simp: parseDirective_def Let_def split: if_splits)
  show ?thesis
  proof (cases "sts_token p1 = [] \<or> sts_token p1 = [0x3B]")
    case True
    then have "q = p1" using assms(1) 1 by (auto simp: parseDirective_def Let_def)
    then show ?thesis using tail_left [OF 1 assms(2)] assms(3) unfolding item_left_def
      by (metis item_ok.simps(1) item_text.simps(1))
  next
    case False
    let ?name = "sts_token p1"
    from assms(1) 1 False have tok: "isTOKEN (hd ?name)" by (auto simp: parseDirective_def Let_def split: if_splits)
    obtain ws r where w: "blanks ws" "rest_of p = ws @ ?name @ r" "rest_of p1 = r" "token_word ?name" "placed p1"
      using False tok by (cases rule: next_moved [OF 1 assms(2)]) (auto simp: moved_def dest: token_lexemeD)
    obtain p2 where 2: "nextToken p1 = (True, p2)"
      using assms(1) 1 False tok by (cases "nextToken p1") (auto simp: parseDirective_def Let_def split: if_splits)
    consider (semi) "sts_token p2 = [0x3B]" | (eq) "sts_token p2 = [0x3D]" | (none) "sts_token p2 = []"
      using assms(1) 1 2 False tok by (auto simp: parseDirective_def Let_def split: if_splits)
    then show ?thesis
    proof cases
      case semi
      then have "processDirective ?name [] p2 = (True, q)" using assms(1) 1 2 False tok by (simp add: parseDirective_def Let_def)
      then have q: "placed q = placed p2" "rest_of q = rest_of p2" "sts_token q = sts_token p2" by (simp_all add: processed)
      obtain us where "blanks us" "rest_of p1 = us @ 0x3B # rest_of p2" "placed p2" using tail_left [OF 2 w(5)] semi by auto
      then show ?thesis using w q semi unfolding item_left_def by (auto intro!: exI [of _ "Directive ws ?name us None"])
    next
      case none
      then obtain p3 where 3: "processDirective ?name [] p2 = (True, p3)" "nextToken p3 = (True, q)"
        using assms(1) 1 2 False tok by (auto simp: parseDirective_def Let_def split: if_splits prod.splits)
      obtain us where us: "blanks us" "rest_of p1 = us" "placed p2" "rest_of p2 = []" using tail_left [OF 2 w(5)] none by auto
      have p3: "placed p3" "rest_of p3 = []" using processed [OF 3(1)] us by auto
      obtain vs where "[] = vs @ (if sts_token q = [] then [] else 0x3B # rest_of q)" "placed q"
          "sts_token q = [] \<longrightarrow> rest_of q = []"
        using tail_left [OF 3(2) p3(1) assms(3)] p3(2) by metis
      then show ?thesis using w us unfolding item_left_def
        by (auto intro!: exI [of _ "Directive ws ?name us None"] split: if_splits)
    next
      case eq
      obtain p3 p4 where 3: "nextToken p2 = (True, p3)" "sts_token p3 \<noteq> []"
          "processDirective ?name (sts_token p3) p3 = (True, p4)" "nextToken p4 = (True, q)"
        using assms(1) 1 2 False tok eq by (auto simp: parseDirective_def Let_def split: if_splits prod.splits)
      obtain us where us: "blanks us" "rest_of p1 = us @ 0x3D # rest_of p2" "placed p2"
        using eq by (cases rule: next_moved [OF 2 w(5)]) (auto simp: moved_def)
      obtain vs v xs where "blanks vs" "lexeme v" "blanks xs" "placed q" "sts_token q = [] \<longrightarrow> rest_of q = []"
          "rest_of p2 = vs @ v @ xs @ (if sts_token q = [] then [] else 0x3B # rest_of q)"
        using value_left [OF 3(1) us(3) 3(2,3,4) assms(3)] .
      then show ?thesis using w us unfolding item_left_def
        by (auto intro!: exI [of _ "Directive ws ?name us (Some (vs, v, xs))"])
    qed
  qed
qed

lemma field_split:
  "directives_loop p = (True, q) \<Longrightarrow> placed p \<Longrightarrow>
     \<exists>items. items \<noteq> [] \<and> list_all item_ok items \<and> rest_of p = field_text items"
proof (induction p rule: directives_loop.induct)
  case (1 p)
  show ?case
  proof (cases "rest_of p = []")
    case True
    then show ?thesis by (intro exI [of _ "[Blank []]"]) simp
  next
    case False
    obtain p' where p': "parseDirective p = (True, p')" "sts_token p' = [] \<or> sts_token p' = [0x3B]"
        "directives_loop p' = (True, q)"
      using 1(2) False by (subst (asm) directives_loop.simps) (auto simp: unread split: prod.splits bool.splits if_splits)
    have left: "item_left p p'" by (rule item_split [OF p'(1) 1(3) p'(2)])
    then obtain d where d: "item_ok d" "rest_of p = item_text d @ (if sts_token p' = [] then [] else 0x3B # rest_of p')"
      by (auto simp: item_left_def)
    obtain items where "items \<noteq> []" "list_all item_ok items" "rest_of p' = field_text items"
      using 1(1) [OF _ p'(1) [symmetric] refl] p'(2,3) False left by (auto simp: unread item_left_def)
    then show ?thesis using d by (cases items) (auto intro: exI [of _ "[d]"] exI [of _ "d # items"])
  qed
qed

text \<open>C8. The parser accepts exactly the fields that are items between semicolons whose known directives make sense.\<close>

theorem sts_field_grammar:
  "fst (parseSTSHeader p) \<longleftrightarrow>
     (\<exists>items. items \<noteq> [] \<and> list_all item_ok items \<and> sts_header p = field_text items \<and>
        policy_of (concat (map item_directive items)) \<noteq> None)"
proof
  let ?p = "p\<lparr>sts_expiry := None, maxAgeFound := False, subDomainsFound := False, maxAge := 0, tokenPos := 0, sts_token := []\<rparr>"
  assume ok: "fst (parseSTSHeader p)"
  then obtain q where "directives_loop ?p = (True, q)" by (cases "directives_loop ?p") (simp add: parseSTSHeader_def)
  then obtain items where i: "items \<noteq> []" "list_all item_ok items" "sts_header p = field_text items"
    using field_split [of ?p q] by (auto simp: placed_def rest_of_def)
  then have "policy_of (concat (map item_directive items)) \<noteq> None" using ok sts_field_meaning_aux [OF i(2,1,3)]
    by (auto split: option.splits)
  then show "\<exists>items. items \<noteq> [] \<and> list_all item_ok items \<and> sts_header p = field_text items \<and>
        policy_of (concat (map item_directive items)) \<noteq> None" using i by blast
next
  assume "\<exists>items. items \<noteq> [] \<and> list_all item_ok items \<and> sts_header p = field_text items \<and>
        policy_of (concat (map item_directive items)) \<noteq> None"
  then obtain items ages sub where "items \<noteq> []" "list_all item_ok items" "sts_header p = field_text items"
      "policy_of (concat (map item_directive items)) = Some (ages, sub)" by auto
  then show "fst (parseSTSHeader p)" using sts_field_meaning_aux [of items p] by auto
qed

text \<open>C9. The directives of a field have the meaning RFC 6797 gives them, whatever blanks are around them, in whatever
  order and letter case they come and whatever unknown directives are among them: the field is refused when one of the
  two known directives comes twice or the age is no number, and otherwise the parser holds what they ask for.\<close>

theorem sts_field_meaning:
  assumes "list_all item_ok items" "items \<noteq> []" "sts_header p = field_text items"
  shows "case policy_of (concat (map item_directive items)) of
           None \<Rightarrow> \<exists>q. parseSTSHeader p = (False, q)
         | Some (ages, sub) \<Rightarrow> \<exists>q. parseSTSHeader p = (True, q) \<and> maxAgeFound q = (ages \<noteq> []) \<and> subDomainsFound q = sub \<and>
             maxAge q = (if ages = [] then 0 else hd ages)"
  by (rule sts_field_meaning_aux [OF assms])

text \<open>\<open>max-age=5\<close> and, after a blank, \<open>includeSubDomains\<close>.\<close>

definition example_items :: "sts_item list" where
  "example_items =
     [Directive [] (chars ''max-age'') [] (Some ([], chars ''5'', [])), Directive [0x20] (chars ''includeSubDomains'') [] None]"

lemma example_items:
  "list_all item_ok example_items" "example_items \<noteq> []"
  "field_text example_items = chars ''max-age=5; includeSubDomains''"
  by (simp_all add: example_items_def token_word_def lexeme_def isTOKEN_def isCHAR_def isCTL_def isSeparator_def isLWS_def chars_def)

lemma example_policy: "policy_of (concat (map item_directive example_items)) = Some ([5], True)"
  by (simp add: example_items_def policy_of_def max_ages_def sub_flags_def age_of_def equals_ignoring_case_def unescapeMaxAge_def
    toLower_def asciiLower_def parsing)

lemma sts_field_meaning_witness:
  "\<exists>q. parseSTSHeader (QHstsHeaderParser\<lparr>sts_header := chars ''max-age=5; includeSubDomains''\<rparr>) = (True, q) \<and>
     maxAgeFound q \<and> subDomainsFound q \<and> maxAge q = 5"
  using sts_field_meaning [OF example_items(1,2), of "QHstsHeaderParser\<lparr>sts_header := chars ''max-age=5; includeSubDomains''\<rparr>"]
  unfolding example_policy by (simp add: example_items(3))

end
