(* ===== verification/IpAddresses.thy ===== *)
theory IpAddresses
  imports ByteArrays
begin

text \<open>
  IP addresses in text, \<open>src/corelib/io/qipaddress.cpp\<close>: parsing and printing of IPv4 and IPv6
  addresses. A \<open>QString\<close> is the list of its UTF-16 code units, a pointer into the ASCII buffer is the
  rest of the buffer or a position in it, an IPv4 address is a 32-bit word and an IPv6 address the
  list of its 16 octets. The lemmas read printed numbers, hexadecimal words and IPv4 addresses back.
\<close>

unbundle bit_operations_syntax

subsection \<open>Text\<close>

text \<open>A \<open>QString\<close> is the list of its UTF-16 code units; a string of the sources in ASCII is widened.\<close>

type_synonym utf16 = "16 word list"

definition latin1 :: "bytes \<Rightarrow> utf16" where
  "latin1 s = map ucast s"

text \<open>The digits of a number; for 0 there is one digit.\<close>

function qulltoa :: "nat \<Rightarrow> nat \<Rightarrow> bytes" where
  "qulltoa number base =
     (let r = number mod base;
          d = of_nat (if r < 10 then 0x30 + r else 0x61 - 10 + r)
      in if base < 2 \<or> number < base then [d] else qulltoa (number div base) base @ [d])"
  by pat_completeness auto
termination by (relation "measure fst") (auto intro: div_less_dividend)

declare qulltoa.simps [simp del]

definition number8 :: "8 word \<Rightarrow> bytes" where
  "number8 v = (if v \<noteq> 0 then qulltoa (unat v) 10 else [0x30])"

text \<open>The octets of the text with a final NUL, or the position of the first character that is not ASCII.\<close>

definition checkedToAscii :: "utf16 \<Rightarrow> nat + bytes" where
  "checkedToAscii s =
     (let ok = takeWhile (\<lambda>c. c < 0x7F) s
      in if length ok < length s then Inl (length ok) else Inr (map ucast s @ [0]))"

subsection \<open>IPv4\<close>

text \<open>The pointer into the buffer is the rest of the buffer, which ends with a NUL; \<open>dotCount\<close> counts to 3.\<close>

function parse_ip4_loop :: "nat \<Rightarrow> 32 word \<Rightarrow> bytes \<Rightarrow> bool \<Rightarrow> 32 word option" where
  "parse_ip4_loop dotCount address ptr acceptLeadingZero =
     (if dotCount \<ge> 4 then None
      else if \<not> acceptLeadingZero \<and> ptr ! 0 = 0x30 \<and> ptr ! 1 \<noteq> 0x2E \<and> ptr ! 1 \<noteq> 0 then None
      else case qstrntoull (takeWhile (\<lambda>c. c \<noteq> 0) ptr) 0 of
             None \<Rightarrow> None
           | Some (ll, used) \<Rightarrow>
               let x = of_nat ll; c = ptr ! used;
                   shift = (if c = 0x2E \<or> dotCount = 3 then Some (0xFF, 8) else if dotCount = 2 then Some (0xFFFF, 16)
                            else if dotCount = 1 then Some (0xFFFFFF, 24) else None)
               in if used = 0 \<or> ll \<noteq> unat x then None
                  else if (case shift of Some (m, _) \<Rightarrow> x AND NOT m \<noteq> 0 | None \<Rightarrow> False) then None
                  else let address = (case shift of Some (_, n) \<Rightarrow> push_bit n address | None \<Rightarrow> address) OR x
                       in if dotCount = 3 \<or> c = 0 then (if c = 0 then Some address else None)
                          else if c \<noteq> 0x2E then None
                          else parse_ip4_loop (Suc dotCount) address (drop (used + 1) ptr) acceptLeadingZero)"
  by pat_completeness auto
termination by (relation "measure (\<lambda>(n, _). 4 - n)") auto

declare parse_ip4_loop.simps [simp del]

definition parseIp4Internal :: "bytes \<Rightarrow> bool \<Rightarrow> 32 word option" where
  "parseIp4Internal ptr acceptLeadingZero = parse_ip4_loop 0 0 ptr acceptLeadingZero"

definition parseIp4 :: "utf16 \<Rightarrow> 32 word option" where
  "parseIp4 s = (case checkedToAscii s of Inl _ \<Rightarrow> None | Inr buffer \<Rightarrow> parseIp4Internal buffer True)"

definition ip4_digits :: "32 word \<Rightarrow> bytes" where
  "ip4_digits address =
     number8 (ucast (drop_bit 24 address)) @ [0x2E] @ number8 (ucast (drop_bit 16 address)) @ [0x2E]
       @ number8 (ucast (drop_bit 8 address)) @ [0x2E] @ number8 (ucast address)"

definition ip4_toString :: "32 word \<Rightarrow> utf16" where
  "ip4_toString address = latin1 (ip4_digits address)"

subsection \<open>IPv6\<close>

text \<open>The loop over the fields. \<open>ptr\<close> is the position in the buffer and \<open>pos\<close> the next octet of the address;
  \<open>Inl\<close> is the position of the bad character.\<close>

function parse_ip6_loop :: "bytes \<Rightarrow> nat \<Rightarrow> nat \<Rightarrow> int \<Rightarrow> nat \<Rightarrow> bytes \<Rightarrow> nat + bytes" where
  "parse_ip6_loop buffer colonCount ptr zeroWordsToFill pos address =
     (if pos \<ge> 15 \<or> ptr \<ge> length buffer then (if pos = 16 then Inr address else Inl (length buffer - 1))
      else if buffer ! ptr = 0x3A
      then (if zeroWordsToFill < 1 then Inl ptr
            else if (pos = 0 \<or> pos = colonCount * 2) \<and> buffer ! (ptr + 1) \<noteq> 0x3A then Inl ptr
            else let ptr = (if pos = 0 \<or> pos = colonCount * 2 then ptr + 1 else ptr)
                 in parse_ip6_loop buffer colonCount (ptr + 1) 0 (pos + nat zeroWordsToFill * 2) address)
      else case qstrntoull (drop ptr buffer) 16 of
             None \<Rightarrow> Inl ptr
           | Some (ll, used) \<Rightarrow>
               if used = 0 \<or> used > 4 then Inl ptr
               else if buffer ! (ptr + used) = 0x2E
               then (if pos \<noteq> 12 then Inl ptr
                     else case parseIp4Internal (drop ptr buffer) False of
                            None \<Rightarrow> Inl ptr
                          | Some ip4 \<Rightarrow> Inr (address[12 := ucast (drop_bit 24 ip4), 13 := ucast (drop_bit 16 ip4),
                                               14 := ucast (drop_bit 8 ip4), 15 := ucast ip4]))
               else let x = of_nat ll :: 16 word;
                        address = address[pos := ucast (drop_bit 8 x), Suc pos := ucast x];
                        pos = pos + 2
                    in if buffer ! (ptr + used) = 0 then (if pos = 16 then Inr address else Inl (length buffer - 1))
                       else if buffer ! (ptr + used) \<noteq> 0x3A then Inl (ptr + used)
                       else parse_ip6_loop buffer colonCount (ptr + used + 1) zeroWordsToFill pos address)"
  by pat_completeness auto
termination by (relation "measure (\<lambda>(b, _, ptr, _). length b - ptr)") (auto simp: Let_def)

declare parse_ip6_loop.simps [simp del]

text \<open>For a text of one character the source reads the octet before the buffer; \<open>prior\<close> stands for it.\<close>

definition parseIp6 :: "byte \<Rightarrow> utf16 \<Rightarrow> nat + bytes" where
  "parseIp6 prior s =
     (case checkedToAscii s of
        Inl n \<Rightarrow> Inl n
      | Inr buffer \<Rightarrow>
          let n = length s;
              text = takeWhile (\<lambda>c. c \<noteq> 0) buffer;
              colonCount = length (filter (\<lambda>c. c = 0x3A) text);
              dotCount = length (filter (\<lambda>c. c = 0x2E) text);
              last_but_one = (if n < 2 then prior else buffer ! (n - 2))
          in if dotCount \<noteq> 0 \<and> dotCount \<noteq> 3 then Inl n
             else if colonCount = 2 \<and> n = 2 then Inr (replicate 16 0)
             else let doubled = (buffer ! 0 = 0x3A \<and> buffer ! 1 = 0x3A \<or> last_but_one = 0x3A \<and> buffer ! (n - 1) = 0x3A)
                  in if \<not> doubled \<and> (colonCount < 2 \<or> colonCount > 7) then Inl n
                     else parse_ip6_loop buffer colonCount 0
                            ((if doubled then 9 else 8) - int colonCount - (if dotCount \<noteq> 0 then 1 else 0)) 0 (replicate 16 0))"

definition toHex :: "8 word \<Rightarrow> byte" where
  "toHex c = (chars ''0123456789abcdef'') ! unat (c AND 0xF)"

text \<open>The longest run of zero words: the scan from word \<open>i\<close>, with the run found so far as its length and
  offset in octets.\<close>

definition zero_words :: "bytes \<Rightarrow> nat \<Rightarrow> nat" where
  "zero_words address i = length (takeWhile (\<lambda>j. address ! (2 * j) = 0 \<and> address ! (2 * j + 1) = 0) [i ..< 8])"

function zero_run :: "bytes \<Rightarrow> nat \<Rightarrow> nat \<Rightarrow> nat \<Rightarrow> nat \<times> nat" where
  "zero_run address i len off =
     (if i \<ge> 8 then (len, off)
      else let n = zero_words address i
           in if 2 * n > len then zero_run address (i + n + 1) (2 * n) (2 * i)
              else zero_run address (i + 1) len off)"
  by pat_completeness auto
termination by (relation "measure (\<lambda>(_, i, _). 8 - i)") auto

declare zero_run.simps [simp del]

definition word_digits :: "8 word \<Rightarrow> 8 word \<Rightarrow> bytes" where
  "word_digits a b =
     (if a \<noteq> 0
      then (if drop_bit 4 a \<noteq> 0 then [toHex (drop_bit 4 a), toHex (a AND 0xF), toHex (drop_bit 4 b), toHex (b AND 0xF)]
            else if a AND 0xF \<noteq> 0 then [toHex (a AND 0xF), toHex (drop_bit 4 b), toHex (b AND 0xF)] else [])
      else if drop_bit 4 b \<noteq> 0 then [toHex (drop_bit 4 b), toHex (b AND 0xF)] else [toHex (b AND 0xF)])"

text \<open>One word and the rest of the text; the last two words may be an IPv4 address.\<close>

definition ip6_word_then :: "bytes \<Rightarrow> bool \<Rightarrow> nat \<Rightarrow> bytes \<Rightarrow> bytes" where
  "ip6_word_then address embeddedIp4 i rest =
     (if i = 6 \<and> embeddedIp4
      then ip4_digits (push_bit 24 (ucast (address ! 12)) OR push_bit 16 (ucast (address ! 13))
             OR push_bit 8 (ucast (address ! 14)) OR ucast (address ! 15))
      else word_digits (address ! (2 * i)) (address ! (2 * i + 1)) @ (if i \<noteq> 7 then [0x3A] else []) @ rest)"

text \<open>The words from number \<open>i\<close> on; \<open>run\<close> is the first word and the number of the words that \<open>::\<close> stands for.\<close>

function ip6_words :: "bytes \<Rightarrow> bool \<Rightarrow> (nat \<times> nat) option \<Rightarrow> nat \<Rightarrow> bytes" where
  "ip6_words address embeddedIp4 run i =
     (if i \<ge> 8 then []
      else case run of
             Some (off, n) \<Rightarrow>
               if i = off then 0x3A # ip6_words address embeddedIp4 run (i + max 1 n)
               else ip6_word_then address embeddedIp4 i (ip6_words address embeddedIp4 run (i + 1))
           | None \<Rightarrow> ip6_word_then address embeddedIp4 i (ip6_words address embeddedIp4 run (i + 1)))"
  by pat_completeness auto
termination by (relation "measure (\<lambda>(_, _, _, i). 8 - i)") auto

declare ip6_words.simps [simp del]

definition ip6_toString :: "bytes \<Rightarrow> utf16" where
  "ip6_toString address =
     (let zeroes = take 10 address = replicate 10 0;
          mapped = zeroes \<and> address ! 10 = 0xFF \<and> address ! 11 = 0xFF;
          low = zeroes \<and> address ! 10 = 0 \<and> address ! 11 = 0;
          compatible = low \<and> (address ! 12 \<noteq> 0 \<or> address ! 13 \<noteq> 0 \<or> address ! 14 \<noteq> 0)
      in if low \<and> \<not> compatible \<and> address ! 15 = 0 then latin1 (chars ''::'')
         else let (len, off) = zero_run address 0 0 0
              in latin1 (if len < 4 then ip6_words address (mapped \<or> compatible) None 0
                 else (if off = 0 then [0x3A] else []) @ ip6_words address (mapped \<or> compatible) (Some (off div 2, len div 2)) 0))"

subsection \<open>Printed numbers\<close>

lemma decimal_digit:
  assumes "d < 10"
  shows "isDigitForBase (of_nat (0x30 + d)) 10" "digit_value (of_nat (0x30 + d)) = d" "(of_nat (0x30 + d) :: byte) = 0x30 \<longleftrightarrow> d = 0"
proof (atomize (full))
  have "d = 0 \<or> d = 1 \<or> d = 2 \<or> d = 3 \<or> d = 4 \<or> d = 5 \<or> d = 6 \<or> d = 7 \<or> d = 8 \<or> d = 9" using assms by arith
  then show "isDigitForBase (of_nat (0x30 + d)) 10 \<and> digit_value (of_nat (0x30 + d)) = d \<and> ((of_nat (0x30 + d) :: byte) = 0x30 \<longleftrightarrow> d = 0)"
    by (elim disjE) (simp_all add: isDigitForBase_def digit_value_def)
qed

lemma digits_value_snoc: "digits_value base (ds @ [d]) = digits_value base ds * base + digit_value d"
  by (simp add: digits_value_def)

lemma qulltoa_decimal:
  "digits_ok 10 (qulltoa n 10) \<and> digits_value 10 (qulltoa n 10) = n \<and> (hd (qulltoa n 10) = 0x30 \<longrightarrow> n = 0)"
proof (induction n rule: less_induct)
  case (less n)
  have d: "n mod 10 < 10" by simp
  show ?case
  proof (cases "n < 10")
    case True
    then have "qulltoa n 10 = [of_nat (0x30 + n)]" by (simp add: qulltoa.simps)
    then show ?thesis using decimal_digit [OF True] by (simp add: digits_ok_def digits_value_def)
  next
    case False
    then have q: "qulltoa n 10 = qulltoa (n div 10) 10 @ [of_nat (0x30 + n mod 10)]" by (subst qulltoa.simps) (simp add: Let_def)
    have IH: "digits_ok 10 (qulltoa (n div 10) 10)" "digits_value 10 (qulltoa (n div 10) 10) = n div 10"
      "hd (qulltoa (n div 10) 10) = 0x30 \<longrightarrow> n div 10 = 0" using less.IH [of "n div 10"] False by simp_all
    have "n div 10 * 10 + n mod 10 = n" "n div 10 \<noteq> 0" using False by presburger+
    moreover have "qulltoa (n div 10) 10 \<noteq> []" using IH(1) by (simp add: digits_ok_def)
    ultimately show ?thesis using IH decimal_digit [OF d] unfolding q
      by (simp add: digits_ok_def digits_value_snoc del: of_nat_add)
  qed
qed

lemma number8_decimal:
  "digits_ok 10 (number8 v)" "digits_value 10 (number8 v) = unat v" "hd (number8 v) = 0x30 \<Longrightarrow> number8 v = [0x30]" "length (number8 v) \<le> 3"
proof -
  have "isDigitForBase 0x30 10" "digit_value 0x30 = 0" by (simp_all add: isDigitForBase_def digit_value_def)
  then show "digits_ok 10 (number8 v)" "digits_value 10 (number8 v) = unat v" "hd (number8 v) = 0x30 \<Longrightarrow> number8 v = [0x30]"
    using qulltoa_decimal [of "unat v"] by (auto simp: number8_def digits_ok_def digits_value_def unat_eq_zero split: if_splits)
  have "unat v < 256" using unsigned_less [of v] by simp
  then have "unat v div 10 div 10 < 10" by simp
  then show "length (number8 v) \<le> 3"
    by (auto simp: number8_def qulltoa.simps [of "unat v"] qulltoa.simps [of "unat v div 10"] qulltoa.simps [of "unat v div 10 div 10"] Let_def)
qed

lemma low_nibble: "unat (c AND 0xF) = unat (c :: byte) mod 16"
proof -
  have "c AND 0xF = take_bit 4 c" by (simp add: take_bit_eq_mask mask_eq_exp_minus_1)
  also have "unat (take_bit 4 c) = take_bit 4 (unat c)" by (rule unsigned_take_bit_eq)
  finally show ?thesis by (simp only: take_bit_eq_mod) simp
qed

lemma nibbles: "unat c = 16 * unat (drop_bit 4 c) + unat (c AND 0xF)" "drop_bit 4 c AND 0xF = drop_bit 4 (c :: byte)"
proof -
  have b: "unat c < 256" using unsigned_less [of c] by simp
  have "unat (drop_bit 4 c) = drop_bit 4 (take_bit 8 (unat c))" by (simp add: unsigned_drop_bit_eq)
  also have "take_bit 8 (unat c) = unat c" using b by (simp add: take_bit_eq_mod)
  also have "drop_bit 4 (unat c) = unat c div 16" by (simp add: drop_bit_eq_div)
  finally show "unat c = 16 * unat (drop_bit 4 c) + unat (c AND 0xF)" unfolding low_nibble by simp
  have "drop_bit 4 c AND 0xF = take_bit 4 (drop_bit 4 c)" by (simp add: take_bit_eq_mask mask_eq_exp_minus_1)
  also have "\<dots> = drop_bit 4 (take_bit 8 c)" by (simp add: take_bit_drop_bit)
  also have "take_bit 8 c = c" by (rule take_bit_word_eq_self) simp
  finally show "drop_bit 4 c AND 0xF = drop_bit 4 c" .
qed

lemma hex_digit:
  "isDigitForBase (toHex c) 16" "digit_value (toHex c) = unat (c AND 0xF)" "toHex c = 0x30 \<longleftrightarrow> c AND 0xF = 0"
proof (atomize (full))
  define n where "n = unat (c AND 0xF)"
  have n: "n \<in> set [0..<16]" by (simp add: n_def low_nibble)
  have z: "c AND 0xF = 0 \<longleftrightarrow> n = 0" by (simp add: n_def unat_eq_zero)
  have "list_all (\<lambda>n. isDigitForBase (chars ''0123456789abcdef'' ! n) 16 \<and> digit_value (chars ''0123456789abcdef'' ! n) = n
      \<and> (chars ''0123456789abcdef'' ! n = 0x30 \<longleftrightarrow> n = 0)) [0..<16]"
    by code_simp
  then have "isDigitForBase (chars ''0123456789abcdef'' ! n) 16 \<and> digit_value (chars ''0123456789abcdef'' ! n) = n
      \<and> (chars ''0123456789abcdef'' ! n = 0x30 \<longleftrightarrow> n = 0)"
    using n unfolding list_all_iff by blast
  then show "isDigitForBase (toHex c) 16 \<and> digit_value (toHex c) = unat (c AND 0xF) \<and> (toHex c = 0x30 \<longleftrightarrow> c AND 0xF = 0)"
    by (simp add: toHex_def n_def [symmetric] z)
qed

lemma nibble_digit: "digit_value (toHex (a AND 0xF)) = unat (a AND 0xF)" "digit_value (toHex (drop_bit 4 a)) = unat (drop_bit 4 a)"
  using hex_digit(2) [of "a AND 0xF"] hex_digit(2) [of "drop_bit 4 a"] by (simp_all only: and.assoc and.idem nibbles(2))

text \<open>The text of a word is one to four hexadecimal digits.\<close>

lemma hex_sums:
  "(((0 * 16 + p) * 16 + q) * 16 + r) * 16 + s = 256 * (16 * p + q) + (16 * r + s)"
  "((0 * 16 + q) * 16 + r) * 16 + s = 256 * (16 * 0 + q) + (16 * r + s)"
  "(0 * 16 + r) * 16 + s = 256 * 0 + (16 * r + s)" "0 * 16 + s = 256 * 0 + (16 * 0 + s)" for p q r s :: nat
  by simp_all

lemma word_digits_value: "digits_value 16 (word_digits a b) = 256 * unat a + unat b"
proof -
  note a = nibbles(1) [of a] and b = nibbles(1) [of b]
  show ?thesis
  proof (cases "a = 0")
    case True
    then have u: "unat a = 0" by simp
    show ?thesis
    proof (cases "drop_bit 4 b = 0")
      case z: True
      then have w: "word_digits a b = [toHex (b AND 0xF)]" using True by (simp only: word_digits_def simp_thms if_False)
      have "digits_value 16 (word_digits a b) = 256 * 0 + (16 * 0 + unat (b AND 0xF))"
        by (simp only: w digits_value_def foldl.simps nibble_digit hex_sums(4))
      then show ?thesis by (subst b) (simp only: z u unat_0)
    next
      case False
      then have w: "word_digits a b = [toHex (drop_bit 4 b), toHex (b AND 0xF)]" using True by (simp only: word_digits_def simp_thms if_False if_True)
      have "digits_value 16 (word_digits a b) = 256 * 0 + (16 * unat (drop_bit 4 b) + unat (b AND 0xF))"
        by (simp only: w digits_value_def foldl.simps nibble_digit hex_sums(3))
      then show ?thesis by (simp only: u b [symmetric])
    qed
  next
    case False
    show ?thesis
    proof (cases "drop_bit 4 a = 0")
      case z: True
      have "a AND 0xF \<noteq> 0"
      proof
        assume l: "a AND 0xF = 0"
        have "unat a = 0" unfolding a z l by simp
        then show False using False by (simp add: unat_eq_zero)
      qed
      then have w: "word_digits a b = [toHex (a AND 0xF), toHex (drop_bit 4 b), toHex (b AND 0xF)]"
        using False z by (simp only: word_digits_def simp_thms if_False if_True)
      have "digits_value 16 (word_digits a b) = 256 * (16 * 0 + unat (a AND 0xF)) + (16 * unat (drop_bit 4 b) + unat (b AND 0xF))"
        by (simp only: w digits_value_def foldl.simps nibble_digit hex_sums(2))
      then show ?thesis by (subst a) (simp only: z unat_0 b [symmetric])
    next
      case z: False
      then have w: "word_digits a b = [toHex (drop_bit 4 a), toHex (a AND 0xF), toHex (drop_bit 4 b), toHex (b AND 0xF)]"
        using False by (simp only: word_digits_def simp_thms if_False if_True)
      have "digits_value 16 (word_digits a b)
          = 256 * (16 * unat (drop_bit 4 a) + unat (a AND 0xF)) + (16 * unat (drop_bit 4 b) + unat (b AND 0xF))"
        by (simp only: w digits_value_def foldl.simps nibble_digit hex_sums(1))
      then show ?thesis by (simp only: a [symmetric] b [symmetric])
    qed
  qed
qed

lemma word_digits_ok: "digits_ok 16 (word_digits a b)" "length (word_digits a b) \<le> 4"
proof -
  have nz: "a AND 0xF \<noteq> 0" if "a \<noteq> 0" "drop_bit 4 a = 0"
  proof
    assume l: "a AND 0xF = 0"
    have "unat a = 0" unfolding nibbles(1) [of a] that(2) l by simp
    then show False using that(1) by (simp add: unat_eq_zero)
  qed
  consider "word_digits a b = [toHex (drop_bit 4 a), toHex (a AND 0xF), toHex (drop_bit 4 b), toHex (b AND 0xF)]"
    | "word_digits a b = [toHex (a AND 0xF), toHex (drop_bit 4 b), toHex (b AND 0xF)]"
    | "word_digits a b = [toHex (drop_bit 4 b), toHex (b AND 0xF)]" | "word_digits a b = [toHex (b AND 0xF)]"
    unfolding word_digits_def using nz
    by (cases "a = 0"; cases "drop_bit 4 a = 0"; cases "drop_bit 4 b = 0"; simp only: if_True if_False simp_thms; blast)
  then show "digits_ok 16 (word_digits a b)" "length (word_digits a b) \<le> 4"
    by (cases; simp add: digits_ok_def hex_digit(1))+
qed

subsection \<open>Reading a field\<close>

lemma from_chars_digits:
  assumes "digits_ok base ds" "digits_value base ds \<le> limit" "\<not> isDigitForBase c base"
  shows "from_chars limit base (ds @ c # rest) = Some (digits_value base ds, length ds)"
proof -
  have "takeWhile (\<lambda>x. isDigitForBase x base) (ds @ c # rest) = ds"
    using assms(1,3) by (auto simp: digits_ok_def list_all_iff)
  then show ?thesis using assms(1,2) by (simp add: from_chars_def digits_ok_def digits_value_def Let_def)
qed

lemma from_chars_all:
  assumes "digits_ok base ds" "digits_value base ds \<le> limit"
  shows "from_chars limit base ds = Some (digits_value base ds, length ds)"
  using from_digits [OF assms, of "[]"] by (simp add: spaces_def)

lemma byte_less: "unat (v :: byte) < 256"
  using unsigned_less [of v] by simp

lemma read_number:
  assumes "digits_ok base ds" "base = 10 \<or> base = 16" "digits_value base ds < 2 ^ 64" "\<not> isDigitForBase c base" "c \<noteq> 0x78" "c \<noteq> 0x58"
  shows "from_chars (2 ^ 64 - 1) base (ds @ c # rest) = Some (digits_value base ds, length ds)" "takeWhile ascii_isspace (ds @ c # rest) = []"
    "hd (ds @ c # rest) \<noteq> 0x2D" "hd (ds @ c # rest) \<noteq> 0x2B" "scanPrefix (ds @ c # rest) base = (0, base)"
proof -
  obtain d r where d: "ds = d # r" using assms(1) by (cases ds) (auto simp: digits_ok_def)
  then have "isDigitForBase d base" using assms(1) by (simp add: digits_ok_def)
  then have n: "d \<noteq> 0x2B" "d \<noteq> 0x2D" "\<not> ascii_isspace d" using assms(2) digit_not [of base d] by auto
  show "from_chars (2 ^ 64 - 1) base (ds @ c # rest) = Some (digits_value base ds, length ds)"
    using assms(1,3,4) by (intro from_chars_digits) simp_all
  show "takeWhile ascii_isspace (ds @ c # rest) = []" "hd (ds @ c # rest) \<noteq> 0x2D" "hd (ds @ c # rest) \<noteq> 0x2B" using n by (simp_all add: d)
  obtain x t where x: "r @ c # rest = x # t" by (cases "r @ c # rest") auto
  then have "x = c \<or> isDigitForBase x base" using assms(1) by (cases r) (auto simp: d digits_ok_def)
  then have "x \<noteq> 0x78" "x \<noteq> 0x58" using assms(2,5,6) digit_not [of base x] by auto
  then show "scanPrefix (ds @ c # rest) base = (0, base)" using assms(2) by (auto simp: d x scanPrefix_def)
qed

lemma read_hex:
  assumes "digits_ok 16 ds" "digits_value 16 ds < 2 ^ 64" "\<not> isDigitForBase c 16" "c \<noteq> 0x78" "c \<noteq> 0x58"
  shows "qstrntoull (ds @ c # rest) 16 = Some (digits_value 16 ds, length ds)"
  using read_number [OF assms(1) _ assms(2-5), of rest] by (simp add: qstrntoull_def)

lemma read_decimal:
  assumes "c = 0x2E \<or> c = 0"
  shows "qstrntoull (takeWhile (\<lambda>c. c \<noteq> 0) (number8 v @ c # rest)) 0 = Some (unat v, length (number8 v))"
proof -
  note n = number8_decimal [of v]
  have le: "unat v < 2 ^ 64" using byte_less [of v] by simp
  have nz: "d \<noteq> 0" if "d \<in> set (number8 v)" for d
    using n(1) that by (auto simp: digits_ok_def list_all_iff isDigitForBase_def)
  obtain d r where d: "number8 v = d # r" using n(1) by (cases "number8 v") (auto simp: digits_ok_def)
  then have dd: "isDigitForBase d 10" using n(1) by (simp add: digits_ok_def)
  then have s: "d \<noteq> 0x2B" "d \<noteq> 0x2D" "\<not> ascii_isspace d" "isAsciiDigit d" using digit_not [of 10 d]
    by (auto simp: isDigitForBase_def isAsciiDigit_def word_le_nat_alt word_less_nat_alt split: if_splits)
  have one: "r = []" if "d = 0x30" using n(3) that by (simp add: d)
  have w: "takeWhile (\<lambda>c. c \<noteq> 0) (number8 v @ c # rest)
      = number8 v @ (if c = 0 then [] else c # takeWhile (\<lambda>c. c \<noteq> 0) rest)"
    using nz assms by auto
  define t where "t = (if c = 0 then [] else c # takeWhile (\<lambda>c. c \<noteq> 0) rest)"
  have t: "t = [] \<or> (\<exists>u. t = 0x2E # u)" using assms by (auto simp: t_def)
  have dot: "\<not> isDigitForBase 0x2E b" for b by (simp add: isDigitForBase_def)
  have f: "from_chars (2 ^ 64 - 1) 10 (number8 v @ t) = Some (unat v, length (number8 v))"
    using t from_chars_digits [OF n(1) _ dot, of "2 ^ 64 - 1"] from_chars_all [OF n(1), of "2 ^ 64 - 1"] n(2) le by auto
  have zero: "unat v = 0" "isDigitForBase 0x30 8" if "d = 0x30"
    using one [OF that] that n(2) by (simp_all add: d digits_value_def digit_value_def isDigitForBase_def)
  have "scanPrefix (number8 v @ t) 0 = (0, if d = 0x30 then 8 else 10)"
    using s t one by (auto simp: d scanPrefix_def)
  moreover have "from_chars (2 ^ 64 - 1) 8 (number8 v @ t) = Some (unat v, length (number8 v))" if "d = 0x30"
    using that one [OF that] zero [OF that] t dot [of 8] by (auto simp: d from_chars_def digit_value_def)
  ultimately have "qstrntoull (number8 v @ t) 0 = Some (unat v, length (number8 v))"
    using f s by (simp add: qstrntoull_def d)
  then show ?thesis by (simp only: w t_def)
qed

lemma ip4_round:
  assumes "c = 0x2E \<or> c = 0" "n < 4" "n = 3 \<longleftrightarrow> c = 0" "ptr = number8 v @ c # rest"
  shows "parse_ip4_loop n a ptr lead = (if n = 3 then Some (push_bit 8 a OR ucast v) else parse_ip4_loop (Suc n) (push_bit 8 a OR ucast v) rest lead)"
proof -
  note q = read_decimal [OF assms(1), of v rest, folded assms(4)]
  have x: "(of_nat (unat v) :: 32 word) = ucast v" by simp
  have u: "unat (ucast v :: 32 word) = unat v" using byte_less [of v] by (simp add: unsigned_ucast_eq take_bit_eq_mod)
  have e: "(0xFF :: 32 word) = mask 8" by (simp add: mask_eq_exp_minus_1)
  have m: "(ucast v :: 32 word) AND NOT 0xFF = 0"
    unfolding e by (rule bit_word_eqI) (auto simp: bit_simps dest: bit_imp_le_length)
  have l: "number8 v \<noteq> []" using number8_decimal(1) [of v] by (simp add: digits_ok_def)
  obtain d r where d: "number8 v = d # r" using l by (cases "number8 v") auto
  have z: "\<not> (\<not> lead \<and> ptr ! 0 = 0x30 \<and> ptr ! 1 \<noteq> 0x2E \<and> ptr ! 1 \<noteq> 0)"
    using number8_decimal(3) [of v] assms(1) by (auto simp: assms(4) d)
  have c: "ptr ! length (number8 v) = c" "drop (length (number8 v) + 1) ptr = rest" by (simp_all add: assms(4) nth_append)
  show ?thesis
    using assms(2,3) z q x u m l c assms(1) by (subst parse_ip4_loop.simps) (auto simp: Let_def)
qed

lemma ucast_back: "ucast (ucast c :: 16 word) = (c :: byte)"
  by (rule bit_word_eqI) (simp add: bit_simps)

lemma ascii_latin1:
  assumes "\<And>c. c \<in> set s \<Longrightarrow> c < 0x7F"
  shows "checkedToAscii (latin1 s) = Inr (s @ [0])"
proof -
  have "ucast c < (0x7F :: 16 word)" if "c \<in> set s" for c
    using assms [OF that] by (simp add: word_less_nat_alt unsigned_ucast_eq take_bit_eq_mod order.strict_trans1 [OF mod_less_eq_dividend])
  then have w: "takeWhile (\<lambda>c. c < 0x7F) (latin1 s) = latin1 s" by (auto simp: latin1_def)
  have "map ucast (latin1 s) = s" by (simp add: latin1_def comp_def ucast_back)
  then show ?thesis unfolding checkedToAscii_def Let_def w by simp
qed

lemma digit_ascii: "isDigitForBase d 16 \<longrightarrow> d < 0x7F \<and> d \<noteq> 0 \<and> d \<noteq> 0x3A \<and> d \<noteq> 0x2E"
  by (rule all_bytes [of "\<lambda>d. isDigitForBase d 16 \<longrightarrow> d < 0x7F \<and> d \<noteq> 0 \<and> d \<noteq> 0x3A \<and> d \<noteq> 0x2E"]) code_simp

lemma digits_ascii: "digits_ok base ds \<Longrightarrow> base \<le> 16 \<Longrightarrow> d \<in> set ds \<Longrightarrow> d < 0x7F \<and> d \<noteq> 0 \<and> d \<noteq> 0x3A \<and> d \<noteq> 0x2E"
proof -
  assume "digits_ok base ds" "base \<le> 16" "d \<in> set ds"
  then have "isDigitForBase d 16" by (auto simp: digits_ok_def list_all_iff isDigitForBase_def Let_def split: if_splits dest!: bspec)
  then show ?thesis using digit_ascii by blast
qed

lemma ip4_octets:
  "push_bit 8 (push_bit 8 (push_bit 8 (push_bit 8 0 OR ucast (ucast (drop_bit 24 a) :: byte)) OR ucast (ucast (drop_bit 16 a) :: byte))
     OR ucast (ucast (drop_bit 8 a) :: byte)) OR ucast (ucast a :: byte) = (a :: 32 word)" (is "?l = a")
proof (rule bit_word_eqI)
  fix n assume "n < LENGTH(32)"
  then consider "n < 8" | "8 \<le> n" "n < 16" | "16 \<le> n" "n < 24" | "24 \<le> n" "n < 32" by force
  then show "bit ?l n = bit a n"
    by cases (auto simp: bit_simps)
qed

lemma parse_ip4_digits: "parseIp4Internal (ip4_digits a @ 0 # rest) lead = Some a"
  unfolding parseIp4Internal_def ip4_digits_def using ip4_octets [of a]
  by (simp add: ip4_round [of "0x2E" _ _ _ "_ @ _"] ip4_round [of 0 "Suc (Suc (Suc 0))" _ _ rest])

lemma ip4_digits_chars: "c \<in> set (ip4_digits a) \<Longrightarrow> c < 0x7F \<and> c \<noteq> 0 \<and> c \<noteq> 0x3A"
  using digits_ascii [OF number8_decimal(1)] by (auto simp: ip4_digits_def)

lemma ip4_dots: "filter (\<lambda>c. c = 0x2E) (ip4_digits a) = [0x2E, 0x2E, 0x2E]"
proof -
  have "filter (\<lambda>c. c = 0x2E) (number8 v) = []" for v
    using digits_ascii [OF number8_decimal(1) [of v]] by (auto simp: filter_empty_conv)
  then show ?thesis by (simp add: ip4_digits_def)
qed

text \<open>A printed IPv4 address is read back.\<close>

theorem ip4_text: "parseIp4 (ip4_toString a) = Some a"
  unfolding parseIp4_def ip4_toString_def
  using ascii_latin1 [of "ip4_digits a"] ip4_digits_chars parse_ip4_digits [of a "[]"] by simp

end
