(* ===== verification/Ip6Addresses.thy ===== *)
theory Ip6Addresses
  imports IpAddresses
begin

text \<open>Printed IPv6 addresses (\<open>corelib/io/qipaddress.cpp\<close>): what \<open>toString\<close> writes, its run of zeros and its counts of colons and
  dots, and the proof that \<open>parseIp6\<close> reads all of it back.\<close>

subsection \<open>Printed IPv6 addresses\<close>

lemma word_octets:
  "ucast (drop_bit 8 (of_nat (256 * unat a + unat b) :: 16 word)) = (a :: byte)"
  "ucast (of_nat (256 * unat a + unat b) :: 16 word) = (b :: byte)"
proof -
  have w: "(of_nat (256 * unat a + unat b) :: 16 word) = push_bit 8 (ucast a) OR ucast b"
  proof -
    have "(push_bit 8 (ucast a) :: 16 word) OR ucast b = push_bit 8 (ucast a) + ucast b"
      by (rule disjunctive_add [symmetric]) (auto simp: bit_simps dest: bit_imp_le_length)
    then show ?thesis by (simp add: push_bit_eq_mult)
  qed
  show "ucast (drop_bit 8 (of_nat (256 * unat a + unat b) :: 16 word)) = a" "ucast (of_nat (256 * unat a + unat b) :: 16 word) = b"
    unfolding w by (rule bit_word_eqI; auto simp: bit_simps dest: bit_imp_le_length)+
qed

lemma word_digits_hd: "word_digits a b \<noteq> [] \<and> isDigitForBase (hd (word_digits a b)) 16"
  using word_digits_ok(1) [of a b] by (cases "word_digits a b") (auto simp: digits_ok_def)

lemma digit_no_colon: "isDigitForBase d 16 \<Longrightarrow> d \<noteq> 0x3A \<and> d \<noteq> 0x2E \<and> d \<noteq> 0"
  using digit_ascii by blast

lemma drop_at: "drop ptr buffer = x # r \<Longrightarrow> ptr < length buffer \<and> buffer ! ptr = x"
  by (metis drop_eq_Nil hd_drop_conv_nth list.distinct(1) list.sel(1) not_le)

lemma drop_nth: "drop ptr buffer = s @ x # r \<Longrightarrow> buffer ! (ptr + length s) = x \<and> drop (ptr + length s + 1) buffer = r"
proof -
  assume s: "drop ptr buffer = s @ x # r"
  have "drop (length s) (drop ptr buffer) = x # r" by (simp add: s)
  then have "drop (ptr + length s) buffer = x # r" by (simp add: add.commute)
  then show ?thesis using drop_at [of "ptr + length s" buffer x r] by (metis Suc_eq_plus1 drop_Suc list.sel(3) tl_drop)
qed

lemma word_step:
  assumes "drop ptr buffer = word_digits a b @ c # rest" "c = 0x3A \<or> c = 0" "pos < 15"
  shows "parse_ip6_loop buffer cc ptr z pos addr =
           (let addr = addr[pos := a, Suc pos := b]
            in if c = 0 then (if pos + 2 = 16 then Inr addr else Inl (length buffer - 1))
               else parse_ip6_loop buffer cc (ptr + length (word_digits a b) + 1) z (pos + 2) addr)"
proof -
  note w = word_digits_ok [of a b] word_digits_value [of a b] word_digits_hd [of a b]
  obtain d r where d: "word_digits a b = d # r" using w(4) by (cases "word_digits a b") auto
  have p: "ptr < length buffer" "buffer ! ptr = d" using drop_at [of ptr buffer d] assms(1) d by auto
  have c: "buffer ! ptr \<noteq> 0x3A" using digit_no_colon w(4) d p by auto
  have "digits_value 16 (word_digits a b) < 2 ^ 64" using w(3) byte_less [of a] byte_less [of b] by simp
  then have q: "qstrntoull (drop ptr buffer) 16 = Some (256 * unat a + unat b, length (word_digits a b))"
    using read_hex [OF w(1) _ _ _ _, of c rest] assms(1,2) w(3) by (auto simp: isDigitForBase_def)
  have n: "buffer ! (ptr + length (word_digits a b)) = c" using drop_nth [OF assms(1)] by simp
  have l: "length (word_digits a b) \<noteq> 0" "\<not> 4 < length (word_digits a b)" using w(2,4) by auto
  show ?thesis
    using assms(2,3) p(1) c q n l word_octets [of a b]
    by (subst parse_ip6_loop.simps) (auto simp: Let_def)
qed

lemma digit_value_less: "isDigitForBase d 16 \<longrightarrow> digit_value d < 16"
  by (rule all_bytes [of "\<lambda>d. isDigitForBase d 16 \<longrightarrow> digit_value d < 16"]) code_simp

lemma digits_value_less: "list_all (\<lambda>d. isDigitForBase d 16) ds \<Longrightarrow> digits_value 16 ds < 16 ^ length ds"
proof (induction ds rule: rev_induct)
  case (snoc d ds)
  then have "digits_value 16 ds + 1 \<le> 16 ^ length ds" "digit_value d < 16" using digit_value_less by auto
  then have "digits_value 16 ds * 16 + digit_value d < (16 ^ length ds) * 16" by linarith
  then show ?case by (simp add: digits_value_snoc mult.commute)
qed (simp add: digits_value_def)

lemma ip4_step:
  assumes "drop ptr buffer = ip4_digits v @ [0]"
  shows "parse_ip6_loop buffer cc ptr z 12 addr =
           Inr (addr[12 := ucast (drop_bit 24 v), 13 := ucast (drop_bit 16 v), 14 := ucast (drop_bit 8 v), 15 := ucast v])"
proof -
  let ?n = "number8 (ucast (drop_bit 24 v))"
  obtain rest where t: "ip4_digits v @ [0] = ?n @ 0x2E # rest" by (simp add: ip4_digits_def)
  note n = number8_decimal [of "ucast (drop_bit 24 v)"]
  have h: "digits_ok 16 ?n"
    using n(1) by (auto simp: digits_ok_def list_all_iff isDigitForBase_def Let_def split: if_splits)
  then have "digits_value 16 ?n < 16 ^ length ?n" by (simp add: digits_ok_def digits_value_less)
  also have "\<dots> \<le> 16 ^ 3" using n(4) by (intro power_increasing) auto
  finally have less: "digits_value 16 ?n < 2 ^ 64" by simp
  obtain d r where d: "?n = d # r" using h by (cases ?n) (auto simp: digits_ok_def)
  have p: "ptr < length buffer" "buffer ! ptr = d" using drop_at [of ptr buffer d] assms t d by auto
  have c: "d \<noteq> 0x3A" using h d digit_no_colon by (auto simp: digits_ok_def)
  have q: "qstrntoull (drop ptr buffer) 16 = Some (digits_value 16 ?n, length ?n)"
    unfolding assms t by (rule read_hex [OF h less]) (simp_all add: isDigitForBase_def)
  have dot: "buffer ! (ptr + length ?n) = 0x2E" using drop_nth [of ptr buffer ?n] assms t by simp
  have v: "parseIp4Internal (drop ptr buffer) False = Some v" unfolding assms by (rule parse_ip4_digits)
  show ?thesis
    using p c q dot v n(4) d by (subst parse_ip6_loop.simps) (auto simp: Let_def)
qed

subsection \<open>The words of an address\<close>

abbreviation zero_word :: "bytes \<Rightarrow> nat \<Rightarrow> bool" where
  "zero_word a j \<equiv> a ! (2 * j) = 0 \<and> a ! (2 * j + 1) = 0"

abbreviation part_read :: "bytes \<Rightarrow> nat \<Rightarrow> bytes" where
  "part_read a i \<equiv> take (2 * i) a @ replicate (16 - 2 * i) 0"

lemma part_read_word:
  assumes "length a = 16" "i < 8"
  shows "(part_read a i)[2 * i := a ! (2 * i), Suc (2 * i) := a ! (2 * i + 1)] = part_read a (Suc i)"
  using assms by (intro nth_equalityI) (auto simp: nth_list_update nth_append less_Suc_eq)

lemma part_read_run:
  assumes "length a = 16" "i + n \<le> 8" "\<And>j. i \<le> j \<Longrightarrow> j < i + n \<Longrightarrow> zero_word a j"
  shows "part_read a (i + n) = part_read a i"
proof (intro nth_equalityI)
  fix k assume "k < length (part_read a (i + n))"
  then have k: "k < 16" using assms by simp
  have "a ! k = 0" if "2 * i \<le> k" "k < 2 * (i + n)"
  proof -
    have "zero_word a (k div 2)" using assms(3) [of "k div 2"] that by auto
    moreover have "k = 2 * (k div 2) \<or> k = 2 * (k div 2) + 1" by presburger
    ultimately show ?thesis by metis
  qed
  then show "part_read a (i + n) ! k = part_read a i ! k" using k assms by (auto simp: nth_append)
qed (use assms in simp)

lemma ip4_of_octets:
  fixes x y z w :: byte
  defines "v \<equiv> push_bit 24 (ucast x) OR push_bit 16 (ucast y) OR push_bit 8 (ucast z) OR (ucast w :: 32 word)"
  shows "ucast (drop_bit 24 v) = x" "ucast (drop_bit 16 v) = y" "ucast (drop_bit 8 v) = z" "ucast v = w"
  unfolding v_def by (rule bit_word_eqI; auto simp: bit_simps dest: bit_imp_le_length)+

text \<open>A run of zero words as \<open>toString\<close> takes it, and the loop over the text from word \<open>i\<close> on.\<close>

definition run_ok :: "bytes \<Rightarrow> bool \<Rightarrow> (nat \<times> nat) option \<Rightarrow> bool" where
  "run_ok a emb run \<longleftrightarrow>
     (case run of None \<Rightarrow> \<not> emb
      | Some (off, n) \<Rightarrow> 2 \<le> n \<and> off + n \<le> 8 \<and> (\<forall>j. off \<le> j \<and> j < off + n \<longrightarrow> zero_word a j) \<and> (emb \<longrightarrow> off = 0 \<and> n \<noteq> 8))"

lemma words_read:
  assumes "length a = 16" "run_ok a emb run"
  shows "i < 8 \<Longrightarrow> drop ptr buffer = ip6_words a emb run i @ [0] \<Longrightarrow>
    (case run of None \<Rightarrow> True | Some (off, n) \<Rightarrow> off + n \<le> i \<or> 0 < off \<and> i \<le> off \<and> cc \<noteq> off \<and> z = int n) \<Longrightarrow>
    parse_ip6_loop buffer cc ptr z (2 * i) (part_read a i) = Inr a"
proof (induction "8 - i" arbitrary: i ptr z rule: less_induct)
  case (less i ptr z)
  show ?case
  proof (cases "\<exists>n. run = Some (i, n)")
    case True
    then obtain n where run: "run = Some (i, n)" by blast
    have n: "2 \<le> n" "i + n \<le> 8" "\<And>j. i \<le> j \<Longrightarrow> j < i + n \<Longrightarrow> zero_word a j" using assms(2) run by (auto simp: run_ok_def)
    have z: "0 < i" "cc \<noteq> i" "z = int n" using less.prems(3) run n(1) by auto
    have t: "drop ptr buffer = 0x3A # ip6_words a emb run (i + n) @ [0]"
      using less.prems(1,2) run n(1) by (subst (asm) ip6_words.simps) (simp add: max_def)
    have p: "ptr < length buffer" "buffer ! ptr = 0x3A" "drop (ptr + 1) buffer = ip6_words a emb run (i + n) @ [0]"
      using drop_at [OF t] drop_nth [of ptr buffer "[]"] t by simp_all
    have step: "parse_ip6_loop buffer cc ptr z (2 * i) (part_read a i) =
        parse_ip6_loop buffer cc (ptr + 1) 0 (2 * (i + n)) (part_read a (i + n))"
      using p z n(1) less.prems(1) part_read_run [OF assms(1) n(2,3)]
      by (subst parse_ip6_loop.simps) (auto simp: algebra_simps)
    show ?thesis
    proof (cases "i + n = 8")
      case True
      then show ?thesis unfolding step using assms(1) by (subst parse_ip6_loop.simps) simp
    next
      case False
      then show ?thesis unfolding step
        using less.hyps [of "i + n" "ptr + 1" 0] n p(3) run by simp
    qed
  next
    case False
    then have t: "ip6_words a emb run i = ip6_word_then a emb i (ip6_words a emb run (i + 1))"
      using less.prems(1) by (subst ip6_words.simps) (auto split: option.split)
    show ?thesis
    proof (cases "i = 6 \<and> emb")
      case True
      let ?v = "push_bit 24 (ucast (a ! 12)) OR push_bit 16 (ucast (a ! 13)) OR push_bit 8 (ucast (a ! 14)) OR (ucast (a ! 15) :: 32 word)"
      have "drop ptr buffer = ip4_digits ?v @ [0]" using less.prems(2) t True by (simp add: ip6_word_then_def)
      note ip4_step [OF this, unfolded ip4_of_octets, of cc z "part_read a 6"]
      moreover have "(part_read a 6)[12 := a ! 12, 13 := a ! 13, 14 := a ! 14, 15 := a ! 15] = a"
        using assms(1) by (intro nth_equalityI) (auto simp: nth_list_update nth_append less_Suc_eq eval_nat_numeral)
      ultimately show ?thesis using True by simp
    next
      case word: False
      let ?w = "word_digits (a ! (2 * i)) (a ! (2 * i + 1))"
      note r = part_read_word [OF assms(1) less.prems(1)]
      show ?thesis
      proof (cases "i = 7")
        case True
        then have "drop ptr buffer = ?w @ 0 # []"
          using less.prems(2) t word by (simp add: ip6_word_then_def ip6_words.simps [of a emb run 8])
        from word_step [OF this, of "2 * i" cc z "part_read a i"] show ?thesis using r True assms(1) by (simp add: Let_def)
      next
        case False
        then have d: "drop ptr buffer = ?w @ 0x3A # (ip6_words a emb run (i + 1) @ [0])"
          using less.prems(2) t word by (auto simp: ip6_word_then_def)
        have "parse_ip6_loop buffer cc ptr z (2 * i) (part_read a i) =
            parse_ip6_loop buffer cc (ptr + length ?w + 1) z (2 * (i + 1)) (part_read a (i + 1))"
          using word_step [OF d, of "2 * i" cc z "part_read a i"] r less.prems(1) by (simp add: Let_def)
        moreover have "\<not> (\<exists>n. run = Some (i, n))" by fact
        ultimately show ?thesis
          using less.hyps [of "i + 1" "ptr + length ?w + 1" z] less.prems(1,3) False drop_nth [OF d]
          by (auto split: option.splits)
      qed
    qed
  qed
qed

abbreviation colons :: "bytes \<Rightarrow> nat" where
  "colons s \<equiv> length (filter (\<lambda>c. c = 0x3A) s)"

abbreviation dots :: "bytes \<Rightarrow> nat" where
  "dots s \<equiv> length (filter (\<lambda>c. c = 0x2E) s)"

lemma word_digits_chars: "c \<in> set (word_digits a b) \<Longrightarrow> c < 0x7F \<and> c \<noteq> 0 \<and> c \<noteq> 0x3A \<and> c \<noteq> 0x2E"
  using digits_ascii [OF word_digits_ok(1)] by blast

lemma word_digits_counts [simp]: "colons (word_digits a b) = 0" "dots (word_digits a b) = 0"
  using word_digits_chars by (auto simp: filter_empty_conv)

lemma ip4_digits_counts [simp]: "colons (ip4_digits v) = 0" "dots (ip4_digits v) = 3"
  using ip4_digits_chars by (auto simp: filter_empty_conv ip4_dots)

lemma digits_end [simp]: "word_digits a b \<noteq> []" "last (word_digits a b) \<noteq> 0x3A" "hd (word_digits a b) \<noteq> 0x3A"
  using word_digits_hd [of a b] word_digits_chars [of "last (word_digits a b)" a b] word_digits_chars [of "hd (word_digits a b)" a b]
  by simp_all

lemma ip4_digits_end [simp]: "ip4_digits v \<noteq> []" "last (ip4_digits v) \<noteq> 0x3A"
proof -
  show n: "ip4_digits v \<noteq> []" by (simp add: ip4_digits_def)
  show "last (ip4_digits v) \<noteq> 0x3A" using ip4_digits_chars [of "last (ip4_digits v)" v] last_in_set [OF n] by blast
qed

lemma ip6_words_8 [simp]: "ip6_words a emb run 8 = []"
  by (simp add: ip6_words.simps)

lemma words_chars: "c \<in> set (ip6_words a emb run i) \<Longrightarrow> c < 0x7F \<and> c \<noteq> 0"
proof (induction "8 - i" arbitrary: i rule: less_induct)
  case less
  then show ?case
    using word_digits_chars ip4_digits_chars
    by (subst (asm) (2) ip6_words.simps) (force simp: ip6_word_then_def split: if_splits option.splits)
qed

definition run_passed :: "(nat \<times> nat) option \<Rightarrow> nat \<Rightarrow> bool" where
  "run_passed run i \<longleftrightarrow> (case run of None \<Rightarrow> True | Some (off, n) \<Rightarrow> off < i)"

lemma words_plain:
  "i < 8 \<Longrightarrow> run_passed run i \<Longrightarrow>
     ip6_words a emb run i = ip6_word_then a emb i (ip6_words a emb run (i + 1))"
  by (subst ip6_words.simps) (auto simp: run_passed_def split: option.splits)

lemma words_tail:
  "i < 8 \<Longrightarrow> run_passed run i \<Longrightarrow>
     colons (ip6_words a emb run i) = (if emb \<and> i \<le> 6 then 6 - i else 7 - i) \<and>
     dots (ip6_words a emb run i) = (if emb \<and> i \<le> 6 then 3 else 0) \<and>
     ip6_words a emb run i \<noteq> [] \<and> last (ip6_words a emb run i) \<noteq> 0x3A"
proof (induction "8 - i" arbitrary: i rule: less_induct)
  case less
  have p: "run_passed run (i + 1)" using less.prems(2) by (auto simp: run_passed_def split: option.splits)
  note w = words_plain [OF less.prems]
  consider "emb \<and> i = 6" | "i = 7" | "i < 7" "\<not> (emb \<and> i = 6)" using less.prems(1) by linarith
  then show ?case
  proof cases
    case 1
    then show ?thesis using w by (simp add: ip6_word_then_def)
  next
    case 2
    then show ?thesis using w by (simp add: ip6_word_then_def)
  next
    case 3
    then have "i + 1 < 8" "8 - (i + 1) < 8 - i" by simp_all
    note IH = less.hyps [OF this(2) this(1) p]
    have t: "ip6_words a emb run i = word_digits (a ! (2 * i)) (a ! (2 * i + 1)) @ 0x3A # ip6_words a emb run (i + 1)"
      using w 3 by (auto simp: ip6_word_then_def)
    show ?thesis unfolding t using IH 3 by (cases emb) simp_all
  qed
qed

lemma words_run:
  assumes "2 \<le> n" "off + n \<le> 8"
  shows "i \<le> off \<Longrightarrow>
     colons (ip6_words a False (Some (off, n)) i) = off - i + 1 + (if off + n = 8 then 0 else 7 - (off + n)) \<and>
     dots (ip6_words a False (Some (off, n)) i) = 0 \<and>
     (off + n = 8 \<longrightarrow> i < off \<longrightarrow> (\<exists>s. ip6_words a False (Some (off, n)) i = s @ [0x3A, 0x3A])) \<and>
     (off + n < 8 \<longrightarrow> ip6_words a False (Some (off, n)) i \<noteq> [] \<and> last (ip6_words a False (Some (off, n)) i) \<noteq> 0x3A)"
proof (induction "off - i" arbitrary: i)
  case 0
  then have w: "ip6_words a False (Some (off, n)) i = 0x3A # ip6_words a False (Some (off, n)) (off + n)"
    using assms by (subst ip6_words.simps) (simp add: max_def)
  show ?case
  proof (cases "off + n = 8")
    case True
    then show ?thesis using 0 w by simp
  next
    case False
    then show ?thesis using 0 w assms words_tail [of "off + n" "Some (off, n)" a False] by (simp add: run_passed_def)
  qed
next
  case (Suc d)
  then have i: "i < off" "i + 1 \<le> off" "d = off - (i + 1)" by simp_all
  have w: "ip6_words a False (Some (off, n)) i =
      word_digits (a ! (2 * i)) (a ! (2 * i + 1)) @ 0x3A # ip6_words a False (Some (off, n)) (i + 1)"
    using i assms by (subst ip6_words.simps) (simp add: ip6_word_then_def)
  note IH = Suc.hyps(1) [OF i(3,2)]
  show ?case
  proof (cases "i + 1 = off")
    case True
    then have o: "ip6_words a False (Some (off, n)) (i + 1) = 0x3A # ip6_words a False (Some (off, n)) (off + n)"
      using assms by (subst ip6_words.simps) (simp add: max_def)
    show ?thesis using IH i(1) True w o assms by auto
  next
    case False
    then show ?thesis using IH i w by (auto simp: Suc_diff_le)
  qed
qed

subsection \<open>The run of zeros\<close>

lemma zero_words_run: "i + zero_words a i \<le> max 8 i" "i \<le> j \<Longrightarrow> j < i + zero_words a i \<Longrightarrow> zero_word a j"
proof -
  have le: "zero_words a i \<le> length [i..<8]" unfolding zero_words_def by (rule length_takeWhile_le)
  then show "i + zero_words a i \<le> max 8 i" by (cases "i \<le> 8") auto
  assume j: "i \<le> j" "j < i + zero_words a i"
  then have "j - i < length (takeWhile (\<lambda>j. zero_word a j) [i..<8])" unfolding zero_words_def by linarith
  note m = nth_mem [OF this] takeWhile_nth [OF this]
  have n: "[i..<8] ! (j - i) = j" using j le by simp
  have "j \<in> set (takeWhile (\<lambda>j. zero_word a j) [i..<8])" using m(1) unfolding m(2) n .
  from set_takeWhileD [OF this] show "zero_word a j" by blast
qed

definition run_found :: "bytes \<Rightarrow> nat \<times> nat \<Rightarrow> bool" where
  "run_found a r \<longleftrightarrow>
     (\<exists>off n. r = (2 * n, 2 * off) \<and> off + n \<le> 8 \<and> (\<forall>j. off \<le> j \<and> j < off + n \<longrightarrow> zero_word a j))"

lemma zero_run_found: "run_found a (len, off) \<Longrightarrow> run_found a (zero_run a i len off)"
proof (induction a i len off rule: zero_run.induct)
  case (1 a i len off)
  show ?case
  proof (cases "i \<ge> 8")
    case True
    then show ?thesis using 1(3) by (simp add: zero_run.simps [of a i])
  next
    case False
    have "run_found a (2 * zero_words a i, 2 * i)"
      using zero_words_run [where a = a and i = i] False by (auto simp: run_found_def)
    then show ?thesis using 1 False by (simp add: zero_run.simps [of a i] Let_def)
  qed
qed

lemma zero_run_short: "6 \<le> i \<Longrightarrow> 10 \<le> len \<Longrightarrow> zero_run a i len off = (len, off)"
proof (induction a i len off rule: zero_run.induct)
  case (1 a i len off)
  have "2 * zero_words a i \<le> len" if "i < 8" using zero_words_run(1) [of i a] that 1(3,4) by simp
  then have "\<not> len < 2 * zero_words a i \<or> 8 \<le> i" by fastforce
  then show ?case using 1 by (cases "8 \<le> i") (simp_all add: zero_run.simps [of a i] Let_def)
qed

lemma zero_run_front:
  assumes "5 \<le> zero_words a 0"
  shows "zero_run a 0 0 0 = (2 * zero_words a 0, 0)"
  using assms zero_run_short [of "zero_words a 0 + 1" "2 * zero_words a 0" a 0]
  by (simp add: zero_run.simps [of a 0] Let_def)

lemma zero_words_front:
  assumes "take 10 a = replicate 10 0" "length a = 16"
  shows "5 \<le> zero_words a 0"
proof -
  have z: "a ! k = 0" if "k < 10" for k
    using arg_cong [OF assms(1), of "\<lambda>s. s ! k"] that by simp
  have "[0..<8] = [0..<5] @ [5..<8 :: nat]" by (simp add: upt_rec)
  moreover have "takeWhile (\<lambda>j. zero_word a j) ([0..<5] @ [5..<8]) = [0..<5] @ takeWhile (\<lambda>j. zero_word a j) [5..<8]"
    by (rule takeWhile_append2) (auto intro!: z)
  ultimately show ?thesis by (simp add: zero_words_def)
qed

subsection \<open>The whole text\<close>

lemma parse_text:
  assumes "\<And>c. c \<in> set t \<Longrightarrow> c < 0x7F \<and> c \<noteq> 0" "dots t = 0 \<or> dots t = 3" "2 < length t"
  defines "d \<equiv> t ! 0 = 0x3A \<and> t ! 1 = 0x3A \<or> t ! (length t - 2) = 0x3A \<and> t ! (length t - 1) = 0x3A"
  assumes "d \<or> 2 \<le> colons t \<and> colons t \<le> 7"
  shows "parseIp6 prior (latin1 t) =
           parse_ip6_loop (t @ [0]) (colons t) 0 ((if d then 9 else 8) - int (colons t) - (if dots t \<noteq> 0 then 1 else 0)) 0 (replicate 16 0)"
proof -
  have "checkedToAscii (latin1 t) = Inr (t @ [0])" by (rule ascii_latin1) (use assms(1) in blast)
  moreover have "takeWhile (\<lambda>c. c \<noteq> 0) (t @ [0]) = t" using assms(1) by (simp add: takeWhile_append)
  moreover have "length (latin1 t) = length t" by (simp add: latin1_def)
  ultimately show ?thesis
    using assms(2,3,5) unfolding parseIp6_def by (simp add: Let_def nth_append d_def del: filter_append) auto
qed

lemma first_word:
  "run = None \<or> (\<exists>off n. run = Some (off, n) \<and> 0 < off) \<Longrightarrow>
     ip6_words a False run 0 = word_digits (a ! 0) (a ! 1) @ 0x3A # ip6_words a False run 1"
  by (subst ip6_words.simps) (auto simp: ip6_word_then_def split: option.split)

lemma last_nth: "t \<noteq> [] \<Longrightarrow> t ! (length t - 1) = last t"
  by (simp add: last_conv_nth)

lemma read_inner:
  assumes "length a = 16" "run_ok a False run" "run = None \<or> (\<exists>off n. run = Some (off, n) \<and> 0 < off)"
  shows "parseIp6 prior (latin1 (ip6_words a False run 0)) = Inr a"
proof -
  let ?t = "ip6_words a False run 0"
  note f = first_word [OF assms(3), of a]
  have len: "2 < length ?t \<or> (\<exists>off n. run = Some (off, n) \<and> off + n = 8)"
  proof (cases "run = None \<or> (\<exists>off n. run = Some (off, n) \<and> 1 < off)")
    case True
    then have "ip6_words a False run 1 = word_digits (a ! 2) (a ! 3) @ 0x3A # ip6_words a False run 2"
      by (subst ip6_words.simps) (auto simp: ip6_word_then_def eval_nat_numeral split: option.split)
    then show ?thesis using f by (cases "word_digits (a ! 0) (a ! 1)"; cases "word_digits (a ! 2) (a ! 3)") auto
  next
    case False
    then obtain n where run: "run = Some (1, n)" using assms(3) by fastforce
    then have "2 \<le> n" "1 + n \<le> 8" using assms(2) by (auto simp: run_ok_def)
    then have "run = Some (1, n)" "1 + n = 8 \<or> ip6_words a False run 1 = 0x3A # ip6_words a False run (1 + n) \<and> ip6_words a False run (1 + n) \<noteq> []"
      using run words_tail [of "1 + n" run a False] by (auto simp: ip6_words.simps [of a False "Some (Suc 0, n)" "Suc 0"] max_def run_passed_def)
    then show ?thesis using f by (cases "word_digits (a ! 0) (a ! 1)"; cases "ip6_words a False run (1 + n)") auto
  qed
  have "?t ! 0 = hd (word_digits (a ! 0) (a ! 1))" by (simp only: f) (simp add: hd_conv_nth nth_append)
  then have hd: "?t ! 0 \<noteq> 0x3A" by simp
  have start: "drop 0 (?t @ [0]) = ?t @ [0]" "replicate 16 0 = part_read a 0" by simp_all
  show ?thesis
  proof (cases run)
    case None
    have c: "colons ?t = 7" "dots ?t = 0" "?t \<noteq> []" "last ?t \<noteq> 0x3A"
      using words_tail [of 0 run a False] None by (simp_all add: run_passed_def)
    have "parseIp6 prior (latin1 ?t) = parse_ip6_loop (?t @ [0]) 7 0 1 0 (replicate 16 0)"
      using parse_text [of ?t prior] words_chars c hd len None last_nth [OF c(3)] by simp
    then show ?thesis using words_read [OF assms(1,2), of 0 0 "?t @ [0]" 7 1] None by simp
  next
    case (Some r)
    then obtain off n where r: "run = Some (off, n)" "0 < off" using assms(3) by auto
    have n: "2 \<le> n" "off + n \<le> 8" using assms(2) r by (simp_all add: run_ok_def)
    note w = words_run [OF n, of 0 a, folded r(1)]
    have loop: "parse_ip6_loop (?t @ [0]) cc 0 (int n) 0 (replicate 16 0) = Inr a" if "cc \<noteq> off" for cc
      using words_read [OF assms(1,2), of 0 0 "?t @ [0]" cc "int n"] r that by simp
    show ?thesis
    proof (cases "off + n = 8")
      case True
      then obtain s where s: "?t = s @ [0x3A, 0x3A]" using w r(2) by auto
      have c: "colons ?t = off + 1" "dots ?t = 0" using w True by simp_all
      have e: "?t ! (length ?t - 2) = 0x3A \<and> ?t ! (length ?t - 1) = 0x3A" by (simp add: s nth_append)
      have "s \<noteq> []" using hd by (cases s) (auto simp: s)
      then have "2 < length ?t" by (cases s) (simp_all add: s)
      then have "parseIp6 prior (latin1 ?t) = parse_ip6_loop (?t @ [0]) (off + 1) 0 (9 - int (off + 1)) 0 (replicate 16 0)"
        using parse_text [of ?t prior] words_chars c e by simp
      moreover have "9 - int (off + 1) = int n" using True by simp
      ultimately show ?thesis using loop [of "off + 1"] by simp
    next
      case False
      have c: "colons ?t = 8 - n" "dots ?t = 0" "?t \<noteq> []" "last ?t \<noteq> 0x3A" using w False n r(2) by auto
      have "2 < length ?t" using len False r by auto
      moreover have "2 \<le> 8 - n \<and> 8 - n \<le> 7" using n False r(2) by linarith
      ultimately have "parseIp6 prior (latin1 ?t) = parse_ip6_loop (?t @ [0]) (8 - n) 0 (8 - int (8 - n)) 0 (replicate 16 0)"
        using parse_text [of ?t prior] words_chars c hd last_nth [OF c(3)] n False r(2) by simp
      moreover have "8 - int (8 - n) = int n" using n by simp
      ultimately show ?thesis using loop [of "8 - n"] n False by simp
    qed
  qed
qed

lemma read_front:
  assumes "length a = 16" "run_ok a emb (Some (0, n))" "n < 8"
  shows "parseIp6 prior (latin1 (0x3A # ip6_words a emb (Some (0, n)) 0)) = Inr a"
proof -
  let ?run = "Some (0, n)" and ?t = "0x3A # ip6_words a emb (Some (0, n)) 0" and ?r = "ip6_words a emb (Some (0, n)) n"
  have n: "2 \<le> n" "0 + n \<le> 8" "\<And>j. 0 \<le> j \<Longrightarrow> j < 0 + n \<Longrightarrow> zero_word a j" using assms(2) by (auto simp: run_ok_def)
  have t: "?t = 0x3A # 0x3A # ?r" using n by (subst ip6_words.simps) (simp add: max_def)
  have c: "colons ?r = (if emb \<and> n \<le> 6 then 6 - n else 7 - n)" "dots ?r = (if emb \<and> n \<le> 6 then 3 else 0)" "?r \<noteq> []"
    using words_tail [of n ?run a emb] assms(3) n(1) by (simp_all add: run_passed_def)
  have z: "9 - int (colons ?t) - (if dots ?t \<noteq> 0 then 1 else 0) = int n"
    using c(1,2) assms(3) unfolding t by auto
  have chars: "\<And>c. c \<in> set ?t \<Longrightarrow> c < 0x7F \<and> c \<noteq> 0" using words_chars unfolding t by force
  have "parseIp6 prior (latin1 ?t) = parse_ip6_loop (?t @ [0]) (colons ?t) 0 (int n) 0 (replicate 16 0)"
  proof -
    have d: "?t ! 0 = 0x3A \<and> ?t ! 1 = 0x3A" "2 < length ?t" "dots ?t = 0 \<or> dots ?t = 3" using c unfolding t by auto
    show ?thesis using parse_text [where t = ?t and prior = prior, OF chars d(3,2) disjI1 [OF disjI1 [OF d(1)]]] d(1) z
      by (simp only: simp_thms if_True)
  qed
  also have "\<dots> = parse_ip6_loop (?t @ [0]) (colons ?t) 2 0 (2 * n) (part_read a n)"
    using n(1) part_read_run [OF assms(1) n(2,3)] unfolding t
    by (subst parse_ip6_loop.simps) (auto simp: mult.commute numeral_2_eq_2)
  also have "\<dots> = Inr a" using words_read [OF assms(1,2), of n 2 "?t @ [0]" "colons ?t" 0] assms(3) unfolding t by simp
  finally show ?thesis .
qed

lemma ip6_text:
  assumes "length a = 16"
  shows "parseIp6 prior (ip6_toString a) = Inr a"
proof -
  define zeroes where "zeroes \<longleftrightarrow> take 10 a = replicate 10 0"
  define low where "low \<longleftrightarrow> zeroes \<and> a ! 10 = 0 \<and> a ! 11 = 0"
  define emb where "emb \<longleftrightarrow> zeroes \<and> a ! 10 = 0xFF \<and> a ! 11 = 0xFF \<or> low \<and> (a ! 12 \<noteq> 0 \<or> a ! 13 \<noteq> 0 \<or> a ! 14 \<noteq> 0)"
  show ?thesis
  proof (cases "low \<and> \<not> (a ! 12 \<noteq> 0 \<or> a ! 13 \<noteq> 0 \<or> a ! 14 \<noteq> 0) \<and> a ! 15 = 0")
    case True
    then have "ip6_toString a = latin1 (chars ''::'')" by (simp add: ip6_toString_def low_def zeroes_def)
    moreover have "parseIp6 prior (latin1 (chars ''::'')) = Inr (replicate 16 0)"
      using ascii_latin1 [of "chars ''::''"] by (simp add: parseIp6_def chars_def latin1_def)
    moreover have "replicate 16 0 = a"
    proof (intro nth_equalityI)
      fix k assume "k < length (replicate 16 (0 :: byte))"
      then consider "k < 10" | "k \<in> {10, 11, 12, 13, 14, 15}" by fastforce
      then show "replicate 16 0 ! k = a ! k"
      proof cases
        case 1
        then have "a ! k = take 10 a ! k" by simp
        also have "\<dots> = 0" using True 1 by (simp add: low_def zeroes_def del: nth_take)
        finally show ?thesis using 1 by simp
      qed (use True in \<open>auto simp: low_def\<close>)
    qed (simp add: assms)
    ultimately show ?thesis by simp
  next
    case False
    obtain len off where z: "zero_run a 0 0 0 = (len, off)" by (cases "zero_run a 0 0 0")
    have out: "ip6_toString a = latin1 (if len < 4 then ip6_words a emb None 0
        else (if off = 0 then [0x3A] else []) @ ip6_words a emb (Some (off div 2, len div 2)) 0)"
      using False z unfolding ip6_toString_def Let_def emb_def low_def zeroes_def by auto
    have "run_found a (zero_run a 0 0 0)" by (rule zero_run_found) (auto simp: run_found_def)
    then obtain o' n where r: "len = 2 * n" "off = 2 * o'" "o' + n \<le> 8" "\<And>j. o' \<le> j \<Longrightarrow> j < o' + n \<Longrightarrow> zero_word a j"
      unfolding z by (auto simp: run_found_def)
    have n8: "n < 8"
    proof (rule ccontr)
      assume "\<not> n < 8"
      then have all: "zero_word a j" if "j < 8" for j using r(3,4) that by auto
      have nth: "a ! k = 0" if "k < 16" for k
      proof -
        have "zero_word a (k div 2)" using all that by simp
        moreover have "k = 2 * (k div 2) \<or> k = 2 * (k div 2) + 1" by presburger
        ultimately show ?thesis by metis
      qed
      have "take 10 a = replicate 10 0" by (intro nth_equalityI) (simp_all add: assms nth)
      then show False using False nth by (simp add: low_def zeroes_def)
    qed
    have front: "o' = 0 \<and> 5 \<le> n" if emb
    proof -
      have "5 \<le> zero_words a 0" using that zero_words_front [OF _ assms] by (auto simp: emb_def low_def zeroes_def)
      then show ?thesis using zero_run_front [of a] z r by auto
    qed
    show ?thesis
    proof (cases "len < 4")
      case True
      then have e: "emb = False" using front r by auto
      show ?thesis unfolding out e using True read_inner [OF assms, of None] by (simp add: run_ok_def)
    next
      case long: False
      have run: "run_ok a emb (Some (o', n))" using r long front n8 by (auto simp: run_ok_def)
      show ?thesis
      proof (cases "o' = 0")
        case True
        then show ?thesis using read_front [OF assms, of emb n prior] run n8 long r unfolding out by simp
      next
        case False
        then have e: "emb = False" using front by auto
        show ?thesis using read_inner [OF assms run [unfolded e]] False long r unfolding out e by simp
      qed
    qed
  qed
qed

text \<open>C15. A printed IPv6 address is read back, with the run of zeros that \<open>::\<close> stands for and the IPv4 address at its
  end, whatever octet is before the buffer.\<close>

theorem ip6_roundtrip: "length a = 16 \<Longrightarrow> parseIp6 prior (ip6_toString a) = Inr a"
  by (rule ip6_text)

lemma ip6_roundtrip_witness:
  "parseIp6 0x3A (ip6_toString (replicate 10 0 @ [0xFF, 0xFF, 127, 0, 0, 1])) = Inr (replicate 10 0 @ [0xFF, 0xFF, 127, 0, 0, 1])"
  by (rule ip6_roundtrip) simp

end
