(* ===== verification/TextCodecs.thy ===== *)
theory TextCodecs
  imports IpAddresses
begin

text \<open>
  Conversions of text: \<open>QString::toUtf8\<close> and \<open>QString::fromUtf8\<close> (\<open>QUtf8\<close> and \<open>QUtf8Functions\<close> of
  \<open>corelib/text/qstringconverter.cpp\<close> and \<open>qstringconverter_p.h\<close>), \<open>QByteArray::toHex\<close> and \<open>fromHex\<close>
  (\<open>qbytearray.cpp\<close>), \<open>QString::toLatin1\<close> (\<open>qstring.cpp\<close>), and the names of the keys that
  \<open>qhstsstore.cpp\<close> makes with them. The vector code that copies runs of ASCII does what the loops do one unit at a time.
\<close>

unbundle bit_operations_syntax

subsection \<open>Surrogates\<close>

definition isHighSurrogate :: "32 word \<Rightarrow> bool" where
  "isHighSurrogate ucs4 \<longleftrightarrow> ucs4 AND 0xfffffc00 = 0xd800"

definition isLowSurrogate :: "32 word \<Rightarrow> bool" where
  "isLowSurrogate ucs4 \<longleftrightarrow> ucs4 AND 0xfffffc00 = 0xdc00"

definition isSurrogate :: "32 word \<Rightarrow> bool" where
  "isSurrogate ucs4 \<longleftrightarrow> ucs4 - 0xd800 < 2048"

definition requiresSurrogates :: "32 word \<Rightarrow> bool" where
  "requiresSurrogates ucs4 \<longleftrightarrow> ucs4 \<ge> 0x10000"

definition surrogateToUcs4 :: "16 word \<Rightarrow> 16 word \<Rightarrow> 32 word" where
  "surrogateToUcs4 high low = push_bit 10 (ucast high) + ucast low - 0x35fdc00"

definition highSurrogate :: "32 word \<Rightarrow> 16 word" where
  "highSurrogate ucs4 = ucast (drop_bit 10 ucs4 + 0xd7c0)"

definition lowSurrogate :: "32 word \<Rightarrow> 16 word" where
  "lowSurrogate ucs4 = ucast (ucs4 mod 0x400 + 0xdc00)"

subsection \<open>UTF-8\<close>

datatype utf8_error = Utf8_Error | EndOfString

text \<open>One unit with the units after it: an error, or the octets and the units that are left.\<close>

definition toUtf8 :: "16 word \<Rightarrow> utf16 \<Rightarrow> utf8_error + bytes \<times> utf16" where
  "toUtf8 u src =
     (if u < 0x80 then Inr ([ucast u], src)
      else if u < 0x0800 then Inr ([0xc0 OR ucast (drop_bit 6 u), 0x80 OR ucast (u AND 0x3f)], src)
      else if \<not> isSurrogate (ucast u)
      then Inr ([0xe0 OR ucast (drop_bit 12 u), 0x80 OR (ucast (drop_bit 6 u) AND 0x3f), 0x80 OR ucast (u AND 0x3f)], src)
      else case src of
             [] \<Rightarrow> Inl EndOfString
           | low # rest \<Rightarrow>
               if \<not> isHighSurrogate (ucast u) then Inl Utf8_Error
               else if \<not> isLowSurrogate (ucast low) then Inl Utf8_Error
               else let ucs4 = surrogateToUcs4 u low; u = ucast ucs4 :: 16 word
                    in Inr ([0xf0 OR (ucast (drop_bit 18 ucs4) AND 0xf), 0x80 OR (ucast (drop_bit 12 ucs4) AND 0x3f),
                             0x80 OR (ucast (drop_bit 6 u) AND 0x3f), 0x80 OR ucast (u AND 0x3f)], rest))"

lemma toUtf8_shorter: "toUtf8 u src = Inr (bs, rest) \<Longrightarrow> length rest < Suc (length src)"
  by (auto simp: toUtf8_def Let_def split: if_splits list.splits)

text \<open>The handler of errors gets the output pointer by value: the question mark it writes is overwritten by what follows, and
  cut off at the end.\<close>

function convertFromUnicode :: "utf16 \<Rightarrow> bytes" where
  "convertFromUnicode [] = []"
| "convertFromUnicode (u # src) =
     (case toUtf8 u src of
        Inl _ \<Rightarrow> convertFromUnicode src
      | Inr (bs, rest) \<Rightarrow> bs @ convertFromUnicode rest)"
  by pat_completeness auto
termination by (relation "measure length") (auto dest: toUtf8_shorter)

definition isContinuationByte :: "byte \<Rightarrow> bool" where
  "isContinuationByte b \<longleftrightarrow> b AND 0xc0 = 0x80"

text \<open>The octets after the first one of a sequence of \<open>n\<close>, whose value so far is \<open>uc\<close>.\<close>

definition fromUtf8_rest :: "nat \<Rightarrow> 32 word \<Rightarrow> 32 word \<Rightarrow> bytes \<Rightarrow> utf8_error + utf16 \<times> bytes" where
  "fromUtf8_rest n min_uc uc src =
     (if length src < n - 1
      then (if length src > 0 \<and> \<not> isContinuationByte (src ! 0) then Inl Utf8_Error
            else if length src > 1 \<and> \<not> isContinuationByte (src ! 1) then Inl Utf8_Error
            else Inl EndOfString)
      else if \<not> isContinuationByte (src ! 0) then Inl Utf8_Error
      else let uc = push_bit 6 uc OR ucast (src ! 0 AND 0x3f)
           in if n > 2 \<and> \<not> isContinuationByte (src ! 1) then Inl Utf8_Error
              else let uc = (if n > 2 then push_bit 6 uc OR ucast (src ! 1 AND 0x3f) else uc)
                   in if n > 3 \<and> \<not> isContinuationByte (src ! 2) then Inl Utf8_Error
                      else let uc = (if n > 3 then push_bit 6 uc OR ucast (src ! 2 AND 0x3f) else uc)
                           in if uc < min_uc then Inl Utf8_Error
                              else if isSurrogate uc \<or> uc > 0x10ffff then Inl Utf8_Error
                              else Inr (if \<not> requiresSurrogates uc then [ucast uc] else [highSurrogate uc, lowSurrogate uc],
                                        drop (n - 1) src))"

definition fromUtf8 :: "byte \<Rightarrow> bytes \<Rightarrow> utf8_error + utf16 \<times> bytes" where
  "fromUtf8 b src =
     (if b < 0x80 then Inr ([ucast b], src)
      else if b \<le> 0xC1 then Inl Utf8_Error
      else if b < 0xe0 then fromUtf8_rest 2 0x80 (ucast (b AND 0x1f)) src
      else if b < 0xf0 then fromUtf8_rest 3 0x800 (ucast (b AND 0x0f)) src
      else if b < 0xf5 then fromUtf8_rest 4 0x10000 (ucast (b AND 0x07)) src
      else Inl Utf8_Error)"

lemma fromUtf8_shorter: "fromUtf8 b src = Inr (us, rest) \<Longrightarrow> length rest < Suc (length src)"
  by (auto simp: fromUtf8_def fromUtf8_rest_def Let_def split: if_splits)

text \<open>The loop of \<open>convertToUnicode\<close>, which replaces an octet that starts no sequence.\<close>

function decode_utf8 :: "bytes \<Rightarrow> utf16" where
  "decode_utf8 [] = []"
| "decode_utf8 (b # src) =
     (case fromUtf8 b src of
        Inl _ \<Rightarrow> 0xfffd # decode_utf8 src
      | Inr (us, rest) \<Rightarrow> us @ decode_utf8 rest)"
  by pat_completeness auto
termination by (relation "measure length") (auto dest: fromUtf8_shorter)

definition utf8bom :: bytes where
  "utf8bom = [0xef, 0xbb, 0xbf]"

definition convertToUnicode :: "bytes \<Rightarrow> utf16" where
  "convertToUnicode s = decode_utf8 (if startsWith s utf8bom then drop (length utf8bom) s else s)"

subsection \<open>Hexadecimal digits and Latin-1\<close>

definition hex_toHex :: "bytes \<Rightarrow> bytes" where
  "hex_toHex data = concat (map (\<lambda>b. [toHex (drop_bit 4 b), toHex (b AND 0xf)]) data)"

definition fromHexDigit :: "byte \<Rightarrow> byte option" where
  "fromHexDigit c =
     (if c \<ge> 0x30 \<and> c \<le> 0x39 then Some (c - 0x30)
      else if c \<ge> 0x41 \<and> c \<le> 0x46 then Some (c - 0x41 + 10)
      else if c \<ge> 0x61 \<and> c \<le> 0x66 then Some (c - 0x61 + 10)
      else None)"

text \<open>The loop of \<open>fromHex\<close> over the digits from the last one, with the octets found so far.\<close>

fun fromHex_loop :: "bool \<Rightarrow> bytes \<Rightarrow> bytes \<Rightarrow> bytes" where
  "fromHex_loop odd_digit result [] = result"
| "fromHex_loop odd_digit result (ch # chs) =
     (case fromHexDigit ch of
        None \<Rightarrow> fromHex_loop odd_digit result chs
      | Some tmp \<Rightarrow>
          if odd_digit then fromHex_loop False (tmp # result) chs
          else fromHex_loop True ((hd result OR push_bit 4 tmp) # tl result) chs)"

definition hex_fromHex :: "bytes \<Rightarrow> bytes" where
  "hex_fromHex hexEncoded = fromHex_loop True [] (rev hexEncoded)"

definition toLatin1 :: "utf16 \<Rightarrow> bytes" where
  "toLatin1 s = map (\<lambda>u. if u > 0xff then 0x3F else ucast u) s"

subsection \<open>The keys of a store\<close>

definition host_name_to_settings_key :: "utf16 \<Rightarrow> utf16" where
  "host_name_to_settings_key hostName = latin1 (hex_toHex (convertFromUnicode hostName))"

definition settings_key_to_host_name :: "utf16 \<Rightarrow> utf16" where
  "settings_key_to_host_name key = convertToUnicode (hex_fromHex (toLatin1 key))"

subsection \<open>Octets come back from their digits\<close>

lemma digit_toHex: "fromHexDigit (toHex c) = Some (c AND 0xf)"
proof -
  have "list_all (\<lambda>n. fromHexDigit (chars ''0123456789abcdef'' ! n) = Some (word_of_nat n)) [0..<16]" by code_simp
  moreover have "unat (c AND 0xf) < 16" by (simp only: low_nibble)
  ultimately have "fromHexDigit (toHex c) = Some (word_of_nat (unat (c AND 0xf)))" by (simp only: list_all_iff set_upt toHex_def) simp
  then show ?thesis by (simp only: of_nat_unat ucast_id)
qed

lemma nibbles_join: "(b AND 15) OR (push_bit 4 (drop_bit 4 b) AND 240) = (b :: byte)"
proof -
  have "list_all (\<lambda>n. ((word_of_nat n :: byte) AND 15) OR (push_bit 4 (drop_bit 4 (word_of_nat n)) AND 240) = word_of_nat n) [0..<256]"
    by code_simp
  then show ?thesis by (rule all_bytes)
qed

lemma fromHex_digits: "fromHex_loop True bs (rev (hex_toHex cs)) = cs @ bs"
proof (induction cs arbitrary: bs rule: rev_induct)
  case (snoc c cs)
  have "fromHex_loop True bs (rev (hex_toHex (cs @ [c]))) = fromHex_loop True (c # bs) (rev (hex_toHex cs))"
    by (simp add: hex_toHex_def digit_toHex nibbles_join)
  then show ?case by (simp add: snoc.IH)
qed (simp add: hex_toHex_def)

lemma fromHex_toHex: "hex_fromHex (hex_toHex cs) = cs"
  using fromHex_digits [of "[]" cs] by (simp add: hex_fromHex_def)

lemma toLatin1_latin1: "toLatin1 (latin1 cs) = cs"
proof -
  have "list_all (\<lambda>n. \<not> ucast (word_of_nat n :: byte) > (0xff :: 16 word) \<and> ucast (ucast (word_of_nat n :: byte) :: 16 word) = (word_of_nat n :: byte)) [0..<256]"
    by code_simp
  then have "\<not> ucast b > (0xff :: 16 word) \<and> ucast (ucast b :: 16 word) = b" for b :: byte by (rule all_bytes)
  then show ?thesis by (induction cs) (simp_all add: toLatin1_def latin1_def)
qed

lemma settings_key: "settings_key_to_host_name (host_name_to_settings_key h) = convertToUnicode (convertFromUnicode h)"
  by (simp add: settings_key_to_host_name_def host_name_to_settings_key_def toLatin1_latin1 fromHex_toHex)

subsection \<open>UTF-8 is read back\<close>

text \<open>Numbers as sequences of six bits: the first octet holds the highest, each other octet six of them.\<close>

lemma join_six: "j < 64 \<Longrightarrow> push_bit 6 (word_of_nat k) OR word_of_nat j = (word_of_nat (64 * k + j) :: 32 word)"
proof -
  assume j: "j < 64"
  have "push_bit 6 (drop_bit 6 x) OR take_bit 6 x = x" for x :: nat by (rule bit_eqI) (auto simp: bit_simps)
  from this [of "64 * k + j"] have "push_bit 6 k OR j = 64 * k + j" using j by (simp add: drop_bit_eq_div take_bit_eq_mod)
  then show ?thesis by (metis of_nat_or_eq push_bit_of_nat)
qed

lemma continuation:
  assumes "j < 64"
  shows "isContinuationByte (0x80 OR word_of_nat j)" "ucast ((0x80 OR word_of_nat j :: byte) AND 0x3f) = (word_of_nat j :: 32 word)"
proof -
  have "list_all (\<lambda>j. isContinuationByte (0x80 OR word_of_nat j) \<and> ucast ((0x80 OR word_of_nat j :: byte) AND 0x3f) = (word_of_nat j :: 32 word)) [0..<64]"
    by code_simp
  then have "isContinuationByte (0x80 OR word_of_nat j) \<and> ucast ((0x80 OR word_of_nat j :: byte) AND 0x3f) = (word_of_nat j :: 32 word)"
    using assms by (simp add: list_all_iff)
  then show "isContinuationByte (0x80 OR word_of_nat j)" "ucast ((0x80 OR word_of_nat j :: byte) AND 0x3f) = (word_of_nat j :: 32 word)"
    by blast+
qed

lemma lead_two:
  assumes "2 \<le> k" "k < 32" shows "fromUtf8 (0xc0 OR word_of_nat k) src = fromUtf8_rest 2 0x80 (word_of_nat k) src"
proof -
  have l: "list_all (\<lambda>k. \<not> (0xc0 OR word_of_nat k :: byte) < 0x80 \<and> \<not> (0xc0 OR word_of_nat k :: byte) \<le> 0xC1 \<and> (0xc0 OR word_of_nat k :: byte) < 0xe0
      \<and> ucast ((0xc0 OR word_of_nat k :: byte) AND 0x1f) = (word_of_nat k :: 32 word)) [2..<32]" by code_simp
  from bspec [OF l [unfolded list_all_iff], of k] assms show ?thesis by (simp only: set_upt atLeastLessThan_iff fromUtf8_def if_False if_True simp_thms)
qed

lemma lead_three:
  assumes "k < 16" shows "fromUtf8 (0xe0 OR word_of_nat k) src = fromUtf8_rest 3 0x800 (word_of_nat k) src"
proof -
  have l: "list_all (\<lambda>k. \<not> (0xe0 OR word_of_nat k :: byte) < 0x80 \<and> \<not> (0xe0 OR word_of_nat k :: byte) \<le> 0xC1 \<and> \<not> (0xe0 OR word_of_nat k :: byte) < 0xe0
      \<and> (0xe0 OR word_of_nat k :: byte) < 0xf0 \<and> ucast ((0xe0 OR word_of_nat k :: byte) AND 0x0f) = (word_of_nat k :: 32 word)) [0..<16]" by code_simp
  from bspec [OF l [unfolded list_all_iff], of k] assms show ?thesis by (simp only: set_upt atLeastLessThan_iff fromUtf8_def if_False if_True simp_thms)
qed

lemma lead_four:
  assumes "k < 5" shows "fromUtf8 (0xf0 OR word_of_nat k) src = fromUtf8_rest 4 0x10000 (word_of_nat k) src"
proof -
  have l: "list_all (\<lambda>k. \<not> (0xf0 OR word_of_nat k :: byte) < 0x80 \<and> \<not> (0xf0 OR word_of_nat k :: byte) \<le> 0xC1 \<and> \<not> (0xf0 OR word_of_nat k :: byte) < 0xe0
      \<and> \<not> (0xf0 OR word_of_nat k :: byte) < 0xf0 \<and> (0xf0 OR word_of_nat k :: byte) < 0xf5
      \<and> ucast ((0xf0 OR word_of_nat k :: byte) AND 0x07) = (word_of_nat k :: 32 word)) [0..<5]" by code_simp
  from bspec [OF l [unfolded list_all_iff], of k] assms show ?thesis by (simp only: set_upt atLeastLessThan_iff fromUtf8_def if_False if_True simp_thms)
qed

text \<open>The pieces of a unit or a code point as numbers.\<close>

lemma low_six: "ucast (u AND 0x3f) = (word_of_nat (unat u mod 64) :: byte)" for u :: "'a::len word"
proof -
  have "u AND 0x3f = take_bit 6 u" by (simp add: take_bit_eq_mask mask_eq_exp_minus_1)
  also have "unat (take_bit 6 u) = take_bit 6 (unat u)" by (rule unsigned_take_bit_eq)
  finally have "unat (u AND 0x3f) = unat u mod 64" by (simp only: take_bit_eq_mod) simp
  then show ?thesis by (metis of_nat_unat)
qed

lemma surrogate_range: "isSurrogate w \<longleftrightarrow> 0xd800 \<le> unat w \<and> unat w < 0xe000"
proof -
  have "unat w < 4294967296" using unsigned_less [of w] by simp
  then show ?thesis by (auto simp: isSurrogate_def word_less_nat_alt unat_sub_if_size word_size word_le_nat_alt)
qed

lemma high_bits: "unat (w AND 0xfffffc00) = unat w div 1024 * 1024" for w :: "32 word"
proof -
  have w: "unat w < 4294967296" using unsigned_less [of w] by simp
  have p: "(4294966272 :: nat) = push_bit 10 (mask 22)" by (simp add: mask_eq_exp_minus_1 push_bit_eq_mult)
  have "n AND 4294966272 = push_bit 10 (take_bit 22 (drop_bit 10 n))" for n :: nat
    unfolding p by (rule bit_eqI) (auto simp: bit_simps)
  then have "unat (w AND 0xfffffc00) = push_bit 10 (take_bit 22 (drop_bit 10 (unat w)))" by (simp add: unsigned_and_eq)
  then show ?thesis using w by (simp add: take_bit_eq_mod drop_bit_eq_div push_bit_eq_mult)
qed

lemma high_low_range:
  "isHighSurrogate w \<longleftrightarrow> 0xd800 \<le> unat w \<and> unat w < 0xdc00"
  "isLowSurrogate w \<longleftrightarrow> 0xdc00 \<le> unat w \<and> unat w < 0xe000"
  unfolding isHighSurrogate_def isLowSurrogate_def word_unat_eq_iff high_bits by simp_all linarith+
lemma unat_ucast16: "unat (ucast u :: 32 word) = unat (u :: 16 word)"
proof -
  have "unat u < 65536" using unsigned_less [of u] by simp
  then show ?thesis by (simp add: unsigned_ucast_eq take_bit_eq_mod)
qed

lemma unat_join:
  assumes "isHighSurrogate (ucast u)" "isLowSurrogate (ucast l)"
  shows "unat (surrogateToUcs4 u l) = 0x10000 + (unat u - 0xd800) * 0x400 + (unat l - 0xdc00)"
proof -
  have r: "0xd800 \<le> unat u" "unat u < 0xdc00" "0xdc00 \<le> unat l" "unat l < 0xe000"
    using assms by (simp_all add: high_low_range unat_ucast16)
  have a: "unat (push_bit 10 (ucast u) :: 32 word) = 1024 * unat u"
    using r by (simp add: push_bit_eq_mult unat_word_ariths unat_ucast16)
  have b: "unat (push_bit 10 (ucast u) + ucast l :: 32 word) = 1024 * unat u + unat l"
    using r by (simp add: unat_word_ariths a unat_ucast16)
  have c: "unat (push_bit 10 (ucast u) + ucast l - 0x35fdc00 :: 32 word) = 1024 * unat u + unat l - 0x35fdc00"
    using r b by (simp add: unat_sub_if_size word_le_nat_alt)
  show ?thesis using r by (simp add: surrogateToUcs4_def c)
qed
lemma piece: "unat (drop_bit k u) = unat u div 2 ^ k" for u :: "'a::len word"
proof -
  have "unat (drop_bit k u) = drop_bit k (take_bit LENGTH('a) (unat u))" by (rule unsigned_drop_bit_eq)
  also have "take_bit LENGTH('a) (unat u) = unat u" by (rule take_bit_nat_eq_self) (rule unsigned_less)
  finally show ?thesis by (simp only: drop_bit_eq_div)
qed

lemma upper: "ucast (drop_bit k u) = word_of_nat (unat u div 2 ^ k)" for u :: "'a::len word"
  by (simp only: piece [symmetric] of_nat_unat)

lemma code_point:
  assumes "n < 4294967296"
  shows "unat (word_of_nat n :: 32 word) = n" "(word_of_nat n :: 32 word) < numeral m \<longleftrightarrow> n < unat (numeral m :: 32 word)"
    "(word_of_nat n :: 32 word) > numeral m \<longleftrightarrow> n > unat (numeral m :: 32 word)"
    "isSurrogate (word_of_nat n) \<longleftrightarrow> 0xd800 \<le> n \<and> n < 0xe000" "requiresSurrogates (word_of_nat n) \<longleftrightarrow> 0x10000 \<le> n"
proof -
  show n: "unat (word_of_nat n :: 32 word) = n" using assms by (simp add: unat_of_nat)
  show "(word_of_nat n :: 32 word) < numeral m \<longleftrightarrow> n < unat (numeral m :: 32 word)"
    "(word_of_nat n :: 32 word) > numeral m \<longleftrightarrow> n > unat (numeral m :: 32 word)" by (simp_all only: word_less_nat_alt n)
  show "isSurrogate (word_of_nat n) \<longleftrightarrow> 0xd800 \<le> n \<and> n < 0xe000" by (simp only: surrogate_range n)
  show "requiresSurrogates (word_of_nat n) \<longleftrightarrow> 0x10000 \<le> n" by (simp add: requiresSurrogates_def word_le_nat_alt n)
qed

lemma unit_back: "n < 4294967296 \<Longrightarrow> ucast (word_of_nat n :: 32 word) = (word_of_nat n :: 16 word)"
  by (simp add: unsigned_of_nat take_bit_eq_mod)

lemma rest_two:
  assumes "128 \<le> n" "n < 2048"
  shows "fromUtf8_rest 2 0x80 (word_of_nat (n div 64)) ((0x80 OR word_of_nat (n mod 64)) # xs) = Inr ([word_of_nat n], xs)"
proof -
  have j: "n mod 64 < 64" by simp
  have l: "n < 4294967296" using assms by simp
  have v: "push_bit 6 (word_of_nat (n div 64)) OR word_of_nat (n mod 64) = (word_of_nat n :: 32 word)"
    using join_six [OF j, of "n div 64"] by simp
  show ?thesis
    unfolding fromUtf8_rest_def Let_def
    by (simp only: length_Cons nth_Cons_0 continuation [OF j])
       (use assms v in \<open>simp add: code_point [OF l] unit_back [OF l]\<close>)
qed

lemma rest_three:
  assumes "2048 \<le> n" "n < 65536" "\<not> (0xd800 \<le> n \<and> n < 0xe000)"
  shows "fromUtf8_rest 3 0x800 (word_of_nat (n div 4096)) ((0x80 OR word_of_nat (n div 64 mod 64)) # (0x80 OR word_of_nat (n mod 64)) # xs)
    = Inr ([word_of_nat n], xs)"
proof -
  have j: "n mod 64 < 64" "n div 64 mod 64 < 64" by simp_all
  have l: "n < 4294967296" using assms by simp
  have "n div 4096 = n div 64 div 64" by (simp add: div_mult2_eq [symmetric])
  then have w: "push_bit 6 (word_of_nat (n div 4096)) OR word_of_nat (n div 64 mod 64) = (word_of_nat (n div 64) :: 32 word)"
    using join_six [OF j(2), of "n div 64 div 64"] by simp
  have v: "push_bit 6 (word_of_nat (n div 64)) OR word_of_nat (n mod 64) = (word_of_nat n :: 32 word)"
    using join_six [OF j(1), of "n div 64"] by simp
  have i: "((0x80 OR word_of_nat (n div 64 mod 64)) # (0x80 OR word_of_nat (n mod 64)) # xs) ! 1 = (0x80 OR word_of_nat (n mod 64) :: byte)" by simp
  show ?thesis
    unfolding fromUtf8_rest_def Let_def
    by (simp only: length_Cons nth_Cons_0 i continuation [OF j(1)] continuation [OF j(2)])
       (use assms v w in \<open>simp add: code_point [OF l] unit_back [OF l]\<close>)
qed

lemma rest_four:
  assumes "0x10000 \<le> n" "n < 0x110000"
  shows "fromUtf8_rest 4 0x10000 (word_of_nat (n div 262144)) ((0x80 OR word_of_nat (n div 4096 mod 64))
      # (0x80 OR word_of_nat (n div 64 mod 64)) # (0x80 OR word_of_nat (n mod 64)) # xs)
    = Inr ([word_of_nat (n div 1024 + 0xd7c0), word_of_nat (n mod 1024 + 0xdc00)], xs)"
proof -
  have j: "n mod 64 < 64" "n div 64 mod 64 < 64" "n div 4096 mod 64 < 64" by simp_all
  have l: "n < 4294967296" using assms by simp
  have d: "n div 4096 = n div 64 div 64" "n div 262144 = n div 4096 div 64" by (simp_all add: div_mult2_eq [symmetric])
  have x: "push_bit 6 (word_of_nat (n div 262144)) OR word_of_nat (n div 4096 mod 64) = (word_of_nat (n div 4096) :: 32 word)"
    using join_six [OF j(3), of "n div 4096 div 64"] unfolding d(2) by simp
  have w: "push_bit 6 (word_of_nat (n div 4096)) OR word_of_nat (n div 64 mod 64) = (word_of_nat (n div 64) :: 32 word)"
    using join_six [OF j(2), of "n div 64 div 64"] unfolding d(1) by simp
  have v: "push_bit 6 (word_of_nat (n div 64)) OR word_of_nat (n mod 64) = (word_of_nat n :: 32 word)"
    using join_six [OF j(1), of "n div 64"] by simp
  define ys where "ys = (0x80 OR word_of_nat (n div 4096 mod 64)) # (0x80 OR word_of_nat (n div 64 mod 64)) # (0x80 OR word_of_nat (n mod 64)) # xs"
  have i: "ys ! 0 = (0x80 OR word_of_nat (n div 4096 mod 64) :: byte)" "ys ! 1 = (0x80 OR word_of_nat (n div 64 mod 64) :: byte)"
    "ys ! 2 = (0x80 OR word_of_nat (n mod 64) :: byte)" "drop 3 ys = xs" "\<not> length ys < 3" by (simp_all add: ys_def)
  have c: "4 - 1 = (3 :: nat)" "(2 :: nat) < 4" "(3 :: nat) < 4" by simp_all
  have h: "highSurrogate (word_of_nat n) = word_of_nat (n div 1024 + 0xd7c0)"
  proof -
    have "unat (drop_bit 10 (word_of_nat n :: 32 word)) = n div 1024" using piece [of 10 "word_of_nat n :: 32 word"] code_point(1) [OF l] by simp
    then have "drop_bit 10 (word_of_nat n :: 32 word) = word_of_nat (n div 1024)" by (metis of_nat_unat ucast_id)
    then have "highSurrogate (word_of_nat n) = ucast (word_of_nat (n div 1024 + 0xd7c0) :: 32 word)" by (simp add: highSurrogate_def)
    then show ?thesis using unit_back [of "n div 1024 + 0xd7c0"] assms(2) by simp
  qed
  have m: "(word_of_nat n :: 32 word) mod 0x400 = word_of_nat (n mod 1024)"
    using code_point(1) [OF l] by (simp add: word_unat_eq_iff unat_mod unat_of_nat)
  have g: "lowSurrogate (word_of_nat n) = word_of_nat (n mod 1024 + 0xdc00)"
  proof -
    have "lowSurrogate (word_of_nat n) = ucast (word_of_nat (n mod 1024 + 0xdc00) :: 32 word)" by (simp add: lowSurrogate_def m)
    then show ?thesis using unit_back [of "n mod 1024 + 0xdc00"] by simp
  qed
  show ?thesis
    unfolding ys_def [symmetric] fromUtf8_rest_def Let_def
    by (simp only: i c continuation [OF j(1)] continuation [OF j(2)] continuation [OF j(3)] if_True if_False simp_thms v w x)
       (use assms in \<open>simp add: code_point [OF l] h g\<close>)
qed

lemma unat_octet: "unat (ucast u :: byte) = unat u mod 256" for u :: "'a::len word"
proof -
  have "unat (word_of_nat (unat u) :: byte) = unat u mod 256" by (simp only: unat_of_nat) simp
  then show ?thesis unfolding of_nat_unat .
qed

lemma middle: "(ucast (drop_bit k w) AND 0x3f :: byte) = word_of_nat (unat w div 2 ^ k mod 64)" for w :: "'a::len word"
proof -
  have "(ucast (drop_bit k w) AND 0x3f :: byte) = word_of_nat (unat (ucast (drop_bit k w) :: byte) mod 64)"
    using low_six [of "ucast (drop_bit k w) :: byte"] by (simp only: ucast_id)
  also have "unat (ucast (drop_bit k w) :: byte) mod 64 = unat (drop_bit k w) mod 64"
    by (simp add: unsigned_ucast_eq take_bit_eq_mod mod_mod_cancel)
  finally show ?thesis unfolding piece .
qed

lemma surrogate_large: "isSurrogate (ucast u) \<Longrightarrow> \<not> u < 0x80 \<and> \<not> u < 0x0800" for u :: "16 word"
  by (simp add: surrogate_range unat_ucast16 word_less_nat_alt)

text \<open>A pair of surrogates, as the number of its code point and as four octets.\<close>

lemma pair_number:
  assumes "isHighSurrogate (ucast u)" "isLowSurrogate (ucast l)"
  defines "m \<equiv> unat (surrogateToUcs4 u l)"
  shows "0x10000 \<le> m" "m < 0x110000" "m div 1024 + 0xd7c0 = unat u" "m mod 1024 + 0xdc00 = unat l"
proof -
  have r: "0xd800 \<le> unat u" "unat u < 0xdc00" "0xdc00 \<le> unat l" "unat l < 0xe000"
    using assms(1,2) by (simp_all add: high_low_range unat_ucast16)
  have e: "m = 1024 * (unat u - 0xd800 + 64) + (unat l - 0xdc00)" "unat l - 0xdc00 < 1024"
    using r unat_join [OF assms(1,2)] by (simp_all add: m_def)
  then show "0x10000 \<le> m" "m < 0x110000" using r by auto
  have "(1024 * x + y) div 1024 = x" "(1024 * x + y) mod 1024 = y" if "y < 1024" for x y :: nat using that by simp_all
  from this [OF e(2)] have "m div 1024 = unat u - 0xd800 + 64" "m mod 1024 = unat l - 0xdc00" unfolding e(1) by blast+
  then show "m div 1024 + 0xd7c0 = unat u" "m mod 1024 + 0xdc00 = unat l" using r by simp_all
qed

lemma pair_octets:
  fixes w :: "32 word"
  defines "m \<equiv> unat w" and "v \<equiv> ucast w :: 16 word"
  assumes "m < 0x110000"
  shows "(ucast (drop_bit 18 w) AND 0xf :: byte) = word_of_nat (m div 262144)"
    "(ucast (drop_bit 12 w) AND 0x3f :: byte) = word_of_nat (m div 4096 mod 64)"
    "(ucast (drop_bit 6 v) AND 0x3f :: byte) = word_of_nat (m div 64 mod 64)"
    "(ucast (v AND 0x3f) :: byte) = word_of_nat (m mod 64)"
proof -
  have "list_all (\<lambda>k. (word_of_nat k AND 0xf :: byte) = word_of_nat k) [0..<5]" by code_simp
  then have "(word_of_nat (m div 262144) AND 0xf :: byte) = word_of_nat (m div 262144)" using assms(3) by (simp only: list_all_iff set_upt) auto
  moreover have "(ucast (drop_bit 18 w) :: byte) = word_of_nat (m div 262144)" using upper [of 18 w] by (simp add: m_def)
  ultimately show "(ucast (drop_bit 18 w) AND 0xf :: byte) = word_of_nat (m div 262144)" by simp
  show "(ucast (drop_bit 12 w) AND 0x3f :: byte) = word_of_nat (m div 4096 mod 64)" using middle [of 12 w] by (simp add: m_def)
  have v: "unat v = m mod 65536" by (simp add: m_def v_def unsigned_ucast_eq take_bit_eq_mod)
  have "m mod (64 * 1024) div 64 = m div 64 mod 1024" by (simp only: mod_mult2_eq)
  then have d: "m mod 65536 div 64 mod 64 = m div 64 mod 64" "m mod 65536 mod 64 = m mod 64" by (simp_all add: mod_mod_cancel)
  show "(ucast (drop_bit 6 v) AND 0x3f :: byte) = word_of_nat (m div 64 mod 64)"
    using middle [of 6 v] by (simp only: v d power_numeral Num.pow.simps Num.sqr.simps) (simp add: d)
  show "(ucast (v AND 0x3f) :: byte) = word_of_nat (m mod 64)" using low_six [of v] by (simp only: v d)
qed

lemma pair_roundtrip:
  assumes "isHighSurrogate (ucast u)" "isLowSurrogate (ucast l)" "toUtf8 u (l # src) = Inr (bs, rest)"
  shows "\<exists>b bs'. bs = b # bs' \<and> (\<forall>xs. fromUtf8 b (bs' @ xs) = Inr ([u, l], xs))"
proof -
  define m where "m = unat (surrogateToUcs4 u l)"
  note m = pair_number [OF assms(1,2), folded m_def]
  note t = pair_octets [of "surrogateToUcs4 u l", folded m_def, OF m(2)]
  have k: "m div 262144 < 5" using m(2) by auto
  define bs' :: bytes where "bs' = [0x80 OR word_of_nat (m div 4096 mod 64), 0x80 OR word_of_nat (m div 64 mod 64), 0x80 OR word_of_nat (m mod 64)]"
  have "isSurrogate (ucast u)" using assms(1) by (simp add: high_low_range surrogate_range)
  then have "bs = (0xf0 OR word_of_nat (m div 262144)) # bs'"
    using assms surrogate_large [of u] by (simp add: toUtf8_def Let_def t bs'_def)
  moreover have "fromUtf8 (0xf0 OR word_of_nat (m div 262144)) (bs' @ xs) = Inr ([u, l], xs)" for xs
    using rest_four [OF m(1,2), of xs] unfolding lead_four [OF k] m(3,4) by (simp add: bs'_def)
  ultimately show ?thesis by blast
qed

text \<open>Each unit, or pair of surrogates, is read back from its octets.\<close>

lemma unit_roundtrip:
  assumes "toUtf8 u src = Inr (bs, rest)"
  obtains b bs' us where "bs = b # bs'" "\<And>xs. fromUtf8 b (bs' @ xs) = Inr (us, xs)" "u # src = us @ rest"
proof -
  define n where "n = unat u"
  have u: "word_of_nat n = u" "n < 65536" using unsigned_less [of u] by (simp_all add: n_def)
  have up: "(ucast (drop_bit k u) :: byte) = word_of_nat (n div 2 ^ k)" for k unfolding upper n_def ..
  have mid: "(ucast (drop_bit 6 u) AND 0x3f :: byte) = word_of_nat (n div 64 mod 64)" using middle [of 6 u] by (simp add: n_def)
  note low = low_six [of u, folded n_def]
  consider "u < 0x80" | "\<not> u < 0x80" "u < 0x0800" | "\<not> u < 0x80" "\<not> u < 0x0800" "\<not> isSurrogate (ucast u)" | "\<not> u < 0x80" "\<not> u < 0x0800" "isSurrogate (ucast u)" by blast
  then show thesis
  proof cases
    case 1
    then have "bs = [ucast u]" "rest = src" using assms by (simp_all add: toUtf8_def)
    moreover have c: "unat (ucast u :: byte) = n"
      using 1 unat_octet [of u] by (simp add: n_def word_less_nat_alt)
    moreover have "(ucast u :: byte) < 0x80" using 1 by (simp add: word_less_nat_alt c n_def)
    moreover have "ucast (ucast u :: byte) = u" using c u(1) by (metis of_nat_unat)
    ultimately show thesis by (intro that [of "ucast u" "[]" "[u]"]) (simp_all add: fromUtf8_def)
  next
    case 2
    then have n: "128 \<le> n" "n < 2048" by (simp_all add: n_def word_le_nat_alt word_less_nat_alt)
    then have k: "2 \<le> n div 64" "n div 64 < 32" by auto
    have "bs = [0xc0 OR word_of_nat (n div 64), 0x80 OR word_of_nat (n mod 64)]" "rest = src"
      using assms 2 up [of 6] by (simp_all add: toUtf8_def low)
    moreover have "fromUtf8 (0xc0 OR word_of_nat (n div 64)) ([0x80 OR word_of_nat (n mod 64)] @ xs) = Inr ([u], xs)" for xs
      using rest_two [OF n] unfolding lead_two [OF k] u by simp
    ultimately show thesis by (intro that [of "0xc0 OR word_of_nat (n div 64)" "[0x80 OR word_of_nat (n mod 64)]" "[u]"]) simp_all
  next
    case 3
    then have n: "2048 \<le> n" "n < 65536" "\<not> (0xd800 \<le> n \<and> n < 0xe000)"
      using u(2) by (simp_all add: n_def word_le_nat_alt word_less_nat_alt surrogate_range unat_ucast16)
    then have k: "n div 4096 < 16" by auto
    have "bs = [0xe0 OR word_of_nat (n div 4096), 0x80 OR word_of_nat (n div 64 mod 64), 0x80 OR word_of_nat (n mod 64)]" "rest = src"
      using assms 3 up [of 12] mid by (simp_all add: toUtf8_def low)
    moreover have "fromUtf8 (0xe0 OR word_of_nat (n div 4096)) ([0x80 OR word_of_nat (n div 64 mod 64), 0x80 OR word_of_nat (n mod 64)] @ xs) = Inr ([u], xs)" for xs
      using rest_three [OF n] unfolding lead_three [OF k] u by simp
    ultimately show thesis by (intro that [of "0xe0 OR word_of_nat (n div 4096)" "[0x80 OR word_of_nat (n div 64 mod 64), 0x80 OR word_of_nat (n mod 64)]" "[u]"]) simp_all
  next
    case 4
    then obtain l where l: "src = l # rest" "isHighSurrogate (ucast u)" "isLowSurrogate (ucast l)"
      using assms by (auto simp: toUtf8_def Let_def split: list.splits if_splits)
    show thesis using pair_roundtrip [OF l(2,3)] assms that [where us = "[u, l]"] by (metis append_Cons append_Nil l(1))
  qed
qed

text \<open>Text without stray surrogates, and which does not begin with a byte order mark, is what a conversion to UTF-8 keeps.\<close>

fun well_formed :: "utf16 \<Rightarrow> bool" where
  "well_formed [] = True"
| "well_formed (u # src) =
     (if \<not> isSurrogate (ucast u) then well_formed src
      else case src of [] \<Rightarrow> False
           | low # rest \<Rightarrow> isHighSurrogate (ucast u) \<and> isLowSurrogate (ucast low) \<and> well_formed rest)"

lemma well_formed_unit: "well_formed (u # src) \<Longrightarrow> \<exists>bs rest. toUtf8 u src = Inr (bs, rest) \<and> well_formed rest"
  using surrogate_large [of u] by (cases "isSurrogate (ucast u)"; cases src) (auto simp: toUtf8_def Let_def)

lemma decode_encode: "well_formed s \<Longrightarrow> decode_utf8 (convertFromUnicode s) = s"
proof (induction "length s" arbitrary: s rule: less_induct)
  case less
  show ?case
  proof (cases s)
    case (Cons u src)
    obtain bs rest where e: "toUtf8 u src = Inr (bs, rest)" "well_formed rest"
      using well_formed_unit less.prems unfolding Cons by blast
    obtain b bs' us where d: "bs = b # bs'" "\<And>xs. fromUtf8 b (bs' @ xs) = Inr (us, xs)" "u # src = us @ rest"
      using unit_roundtrip [OF e(1)] by metis
    have "decode_utf8 (convertFromUnicode rest) = rest"
      using toUtf8_shorter [OF e(1)] by (intro less.hyps) (simp_all add: Cons e(2))
    moreover have "convertFromUnicode (u # src) = b # bs' @ convertFromUnicode rest" by (simp add: e(1) d(1))
    ultimately show ?thesis unfolding Cons by (simp only: decode_utf8.simps d(2) sum.case prod.case d(3))
  qed simp
qed

definition key_text :: "utf16 \<Rightarrow> bool" where
  "key_text s \<longleftrightarrow> well_formed s \<and> (s \<noteq> [] \<longrightarrow> hd s \<noteq> 0xfeff)"

text \<open>The octets of a byte order mark are those of the unit \<open>0xfeff\<close>.\<close>

lemma bom_decoded: "decode_utf8 (utf8bom @ xs) = 0xfeff # decode_utf8 xs"
  by (simp add: utf8bom_def fromUtf8_def fromUtf8_rest_def isContinuationByte_def isSurrogate_def requiresSurrogates_def Let_def)

theorem utf8_roundtrip: "key_text s \<Longrightarrow> convertToUnicode (convertFromUnicode s) = s"
proof -
  assume s: "key_text s"
  have d: "decode_utf8 (convertFromUnicode s) = s" using s by (simp add: key_text_def decode_encode)
  have "\<not> startsWith (convertFromUnicode s) utf8bom"
  proof
    assume "startsWith (convertFromUnicode s) utf8bom"
    then have "convertFromUnicode s = utf8bom @ drop (length utf8bom) (convertFromUnicode s)"
      unfolding startsWith_def by (metis append_take_drop_id)
    then obtain xs where "convertFromUnicode s = utf8bom @ xs" ..
    then have "s = 0xfeff # decode_utf8 xs" using d bom_decoded by simp
    then show False using s by (simp add: key_text_def)
  qed
  then show ?thesis by (simp add: convertToUnicode_def d)
qed

text \<open>A stray surrogate leaves no trace, not even a question mark.\<close>

theorem stray_surrogate_dropped:
  assumes "isSurrogate (ucast u)" "src = [] \<or> \<not> isHighSurrogate (ucast u) \<or> \<not> isLowSurrogate (ucast (hd src))"
  shows "convertFromUnicode (u # src) = convertFromUnicode src"
  using surrogate_large [OF assms(1)] assms by (cases src) (auto simp: toUtf8_def)

end
