(* ===== verification/HstsCache.thy ===== *)
theory HstsCache
  imports HstsHeaders Ip6Addresses TextCodecs
begin

text \<open>Strict transport security (\<open>network/access/qhsts.cpp\<close>, \<open>qhsts_p.h\<close>, \<open>qhstspolicy.cpp\<close>, \<open>qhstsstore.cpp\<close>): the
  policies, the cache of the known hosts, the store the policies are kept in between runs, and how the field of a reply
  changes them.\<close>

unbundle bit_operations_syntax

subsection \<open>Tables\<close>

text \<open>A \<open>std::map\<close> and the keys of a \<open>QSettings\<close> group: the entries in the order of their keys.\<close>

definition table_put :: "('k :: linorder) \<Rightarrow> 'v \<Rightarrow> ('k \<times> 'v) list \<Rightarrow> ('k \<times> 'v) list" where
  "table_put k v m = takeWhile (\<lambda>e. fst e < k) m @ (k, v) # dropWhile (\<lambda>e. fst e \<le> k) m"

definition table_erase :: "'k \<Rightarrow> ('k \<times> 'v) list \<Rightarrow> ('k \<times> 'v) list" where
  "table_erase k m = filter (\<lambda>e. fst e \<noteq> k) m"

subsection \<open>Policies\<close>

text \<open>\<open>set_host\<close> is what \<open>QUrl\<close> makes of a host name that is set; \<open>now\<close> is the time an operation runs.\<close>

record hsts_policy =
  hp_host :: utf16
  hp_expiry :: datetime
  includesSubDomains :: bool

definition QHstsPolicy :: "(utf16 \<Rightarrow> utf16) \<Rightarrow> datetime \<Rightarrow> bool \<Rightarrow> utf16 \<Rightarrow> hsts_policy" where
  "QHstsPolicy set_host expires sub host = \<lparr>hp_host = set_host host, hp_expiry = expires, includesSubDomains = sub\<rparr>"

definition isExpired :: "int \<Rightarrow> hsts_policy \<Rightarrow> bool" where
  "isExpired now p \<longleftrightarrow> (case hp_expiry p of None \<Rightarrow> True | Some e \<Rightarrow> e \<le> now)"

subsection \<open>The store\<close>

record hsts_store =
  observedPolicies :: "hsts_policy list"
  settings :: "(utf16 \<times> bytes) list"
  isWritable :: bool

text \<open>\<open>QDataStream\<close> writes a \<open>qint64\<close> in eight octets, the highest first, and a \<open>bool\<close> in one.\<close>

definition be64 :: "int \<Rightarrow> bytes" where
  "be64 x = (let w = of_int x :: 64 word in map (\<lambda>i. ucast (drop_bit (8 * (7 - i)) w)) [0..<8])"

definition from_be64 :: "bytes \<Rightarrow> int" where
  "from_be64 bs = sint (foldl (\<lambda>w b. push_bit 8 w OR ucast b) (0 :: 64 word) bs)"

definition addToObserved :: "hsts_policy \<Rightarrow> hsts_store \<Rightarrow> hsts_store" where
  "addToObserved p s = s\<lparr>observedPolicies := observedPolicies s @ [p]\<rparr>"

definition evictPolicy :: "utf16 \<Rightarrow> hsts_store \<Rightarrow> hsts_store" where
  "evictPolicy key s = s\<lparr>settings := table_erase key (settings s)\<rparr>"

definition serializePolicy :: "utf16 \<Rightarrow> hsts_policy \<Rightarrow> hsts_store \<Rightarrow> hsts_store" where
  "serializePolicy key p s =
     s\<lparr>settings := table_put key (be64 (case hp_expiry p of Some e \<Rightarrow> e | None \<Rightarrow> 0) @ [of_bool (includesSubDomains p)]) (settings s)\<rparr>"

definition deserializePolicy :: "bytes \<Rightarrow> (datetime \<times> bool) option" where
  "deserializePolicy bs = (if length bs < 9 then None else Some (Some (from_be64 (take 8 bs)), bs ! 8 \<noteq> 0))"

definition synchronize :: "int \<Rightarrow> hsts_store \<Rightarrow> hsts_store" where
  "synchronize now s =
     (if \<not> isWritable s then s
      else (fold (\<lambda>p s. if isExpired now p then evictPolicy (host_name_to_settings_key (hp_host p)) s else serializePolicy (host_name_to_settings_key (hp_host p)) p s)
              (observedPolicies s) s)\<lparr>observedPolicies := []\<rparr>)"

fun read_keys :: "(utf16 \<Rightarrow> utf16) \<Rightarrow> (utf16 \<times> bytes) list \<Rightarrow> hsts_store \<Rightarrow> hsts_policy list \<times> hsts_store" where
  "read_keys set_host [] s = ([], s)"
| "read_keys set_host ((key, bs) # entries) s =
     (case deserializePolicy bs of
        Some (expires, sub) \<Rightarrow>
          (let (ps, s) = read_keys set_host entries s in (QHstsPolicy set_host expires sub (settings_key_to_host_name key) # ps, s))
      | None \<Rightarrow> read_keys set_host entries (if isWritable s then evictPolicy key s else s))"

definition readPolicies :: "(utf16 \<Rightarrow> utf16) \<Rightarrow> hsts_store \<Rightarrow> hsts_policy list \<times> hsts_store" where
  "readPolicies set_host s = read_keys set_host (settings s) s"

subsection \<open>The cache\<close>

record hsts_cache =
  knownHosts :: "(utf16 \<times> hsts_policy) list"
  hstsStore :: "hsts_store option"

text \<open>What \<open>QUrl\<close> makes of a host name that is set, and the octet before the buffer of \<open>parseIp6\<close>.\<close>

record hsts_env =
  setHost :: "utf16 \<Rightarrow> utf16"
  octet_before :: byte

record url =
  url_isValid :: bool
  url_host :: utf16

definition is_valid_domain_name :: "hsts_env \<Rightarrow> utf16 \<Rightarrow> bool" where
  "is_valid_domain_name env host \<longleftrightarrow>
     host \<noteq> [] \<and> parseIp4 host = None \<and> (case parseIp6 (octet_before env) host of Inr _ \<Rightarrow> False | Inl _ \<Rightarrow> True)"

definition observe :: "hsts_policy \<Rightarrow> hsts_cache \<Rightarrow> hsts_cache" where
  "observe p c = c\<lparr>hstsStore := map_option (addToObserved p) (hstsStore c)\<rparr>"

definition synchronize_store :: "hsts_env \<Rightarrow> int \<Rightarrow> hsts_cache \<Rightarrow> hsts_cache" where
  "synchronize_store env now c = c\<lparr>hstsStore := map_option (synchronize now) (hstsStore c)\<rparr>"

definition updateKnownHost_name :: "hsts_env \<Rightarrow> int \<Rightarrow> utf16 \<Rightarrow> datetime \<Rightarrow> bool \<Rightarrow> hsts_cache \<Rightarrow> hsts_cache" where
  "updateKnownHost_name env now host expires sub c =
     (if \<not> is_valid_domain_name env host then c
      else let newPolicy = QHstsPolicy (setHost env) expires sub host
           in case map_of (knownHosts c) host of
                None \<Rightarrow> if isExpired now newPolicy then c
                        else observe newPolicy (c\<lparr>knownHosts := table_put host newPolicy (knownHosts c)\<rparr>)
              | Some p \<Rightarrow>
                  if isExpired now newPolicy then observe newPolicy (c\<lparr>knownHosts := table_erase host (knownHosts c)\<rparr>)
                  else if p \<noteq> newPolicy then observe newPolicy (c\<lparr>knownHosts := table_put host newPolicy (knownHosts c)\<rparr>)
                  else c)"

definition updateKnownHost :: "hsts_env \<Rightarrow> int \<Rightarrow> url \<Rightarrow> datetime \<Rightarrow> bool \<Rightarrow> hsts_cache \<Rightarrow> hsts_cache" where
  "updateKnownHost env now u expires sub c =
     (if \<not> url_isValid u then c else synchronize_store env now (updateKnownHost_name env now (url_host u) expires sub c))"

definition updateFromPolicies :: "hsts_env \<Rightarrow> int \<Rightarrow> hsts_policy list \<Rightarrow> hsts_cache \<Rightarrow> hsts_cache" where
  "updateFromPolicies env now ps c =
     (let c = fold (\<lambda>p. updateKnownHost_name env now (hp_host p) (hp_expiry p) (includesSubDomains p)) ps c
      in if ps \<noteq> [] then synchronize_store env now c else c)"

definition policies :: "hsts_cache \<Rightarrow> hsts_policy list" where
  "policies c = map snd (knownHosts c)"

definition hsts_clear :: "hsts_cache \<Rightarrow> hsts_cache" where
  "hsts_clear c = c\<lparr>knownHosts := []\<rparr>"

text \<open>A cache gets its store once: the policies it knows go to the store first, then those of the store to the cache.\<close>

definition setStore :: "hsts_env \<Rightarrow> int \<Rightarrow> hsts_store \<Rightarrow> hsts_cache \<Rightarrow> hsts_cache" where
  "setStore env now s c =
     (let s = (if knownHosts c \<noteq> [] then synchronize now (fold addToObserved (policies c) s) else s);
          (restored, s) = readPolicies (setHost env) s
      in updateFromPolicies env now restored (c\<lparr>hstsStore := Some s\<rparr>))"

definition updateFromHeaders :: "hsts_env \<Rightarrow> int \<Rightarrow> http_headers \<Rightarrow> url \<Rightarrow> hsts_cache \<Rightarrow> hsts_cache" where
  "updateFromHeaders env now headers u c =
     (if \<not> url_isValid u then c
      else let (ok, parser) = sts_parse now headers QHstsHeaderParser
           in if ok
              then synchronize_store env now
                     (updateKnownHost_name env now (url_host u) (sts_expiry parser) (subDomainsFound parser) c)
              else c)"

text \<open>The name and its superdomains in turn. \<open>None\<close>: the policy of an entry that has been erased is read.\<close>

fun index_dot :: "utf16 \<Rightarrow> nat option" where
  "index_dot [] = None"
| "index_dot (c # s) = (if c = 0x2E then Some 0 else map_option Suc (index_dot s))"

lemma index_dot_less: "index_dot s = Some d \<Longrightarrow> d < length s"
  by (induction s arbitrary: d) (auto split: if_splits)

function known_loop :: "int \<Rightarrow> utf16 \<Rightarrow> bool \<Rightarrow> hsts_cache \<Rightarrow> (bool \<times> hsts_cache) option" where
  "known_loop now fragment superDomainMatch c =
     (if fragment = [] then Some (False, c)
      else let chop = (\<lambda>c. case index_dot fragment of
                             None \<Rightarrow> Some (False, c)
                           | Some dot \<Rightarrow> known_loop now (drop (dot + 1) fragment) True c)
           in case map_of (knownHosts c) fragment of
                None \<Rightarrow> chop c
              | Some p \<Rightarrow>
                  if isExpired now p
                  then (if hstsStore c \<noteq> None then None else chop (c\<lparr>knownHosts := table_erase fragment (knownHosts c)\<rparr>))
                  else if \<not> superDomainMatch \<or> includesSubDomains p then Some (True, c)
                  else chop c)"
  by pat_completeness auto
termination by (relation "measure (\<lambda>(_, f, _). length f)") (auto dest: index_dot_less)

declare known_loop.simps [simp del]

definition isKnownHost :: "hsts_env \<Rightarrow> int \<Rightarrow> url \<Rightarrow> hsts_cache \<Rightarrow> (bool \<times> hsts_cache) option" where
  "isKnownHost env now u c =
     (if \<not> url_isValid u \<or> \<not> is_valid_domain_name env (url_host u) then Some (False, c) else known_loop now (url_host u) False c)"

subsection \<open>Sorted tables\<close>

definition sorted_table :: "('k :: linorder \<times> 'v) list \<Rightarrow> bool" where
  "sorted_table m \<longleftrightarrow> sorted_wrt (<) (map fst m)"

text \<open>What a client needs of a table: a lookup after an insertion or a removal, and what they keep.\<close>

locale finite_table =
  fixes ok :: "'t \<Rightarrow> bool" and lookup :: "'t \<Rightarrow> 'k \<Rightarrow> 'v option" and put :: "'k \<Rightarrow> 'v \<Rightarrow> 't \<Rightarrow> 't" and erase :: "'k \<Rightarrow> 't \<Rightarrow> 't"
  assumes ok_put: "ok t \<Longrightarrow> ok (put k v t)" and ok_erase: "ok t \<Longrightarrow> ok (erase k t)"
    and lookup_put: "ok t \<Longrightarrow> lookup (put k v t) = (lookup t)(k \<mapsto> v)"
    and lookup_erase: "ok t \<Longrightarrow> lookup (erase k t) = (lookup t)(k := None)"
begin

definition alter :: "'k \<times> 'v option \<Rightarrow> 't \<Rightarrow> 't" where
  "alter e t = (case snd e of None \<Rightarrow> erase (fst e) t | Some v \<Rightarrow> put (fst e) v t)"

lemma ok_alter: "ok t \<Longrightarrow> ok (alter e t)"
  by (auto simp: alter_def ok_put ok_erase split: option.split)

lemma lookup_alter: "ok t \<Longrightarrow> lookup (alter e t) = (lookup t)(fst e := snd e)"
  by (auto simp: alter_def lookup_put lookup_erase split: option.split)

lemma changes: "ok t \<Longrightarrow> ok (fold alter es t) \<and> lookup (fold alter es t) = fold (\<lambda>e m. m(fst e := snd e)) es (lookup t)"
  by (induction es arbitrary: t) (simp_all add: ok_alter lookup_alter)

lemma last_change:
  "ok t \<Longrightarrow> lookup (fold alter es t) k = (case map_of (rev es) k of None \<Rightarrow> lookup t k | Some v \<Rightarrow> v)"
proof -
  have "fold (\<lambda>e m. m(fst e := snd e)) es m k = (case map_of (rev es) k of None \<Rightarrow> m k | Some v \<Rightarrow> v)" for m :: "'k \<Rightarrow> 'v option"
    by (induction es rule: rev_induct) auto
  then show "ok t \<Longrightarrow> ?thesis" by (simp add: changes)
qed

end

lemma table_put_Cons:
  "sorted_table ((a, b) # m) \<Longrightarrow>
     table_put k v ((a, b) # m) = (if a < k then (a, b) # table_put k v m else if a = k then (k, v) # m else (k, v) # (a, b) # m)"
  by (cases m) (auto simp: table_put_def sorted_table_def)

lemma sorted_table_simps [simp]:
  "sorted_table []" "sorted_table ((a, b) # m) \<longleftrightarrow> (\<forall>k\<in>fst ` set m. a < k) \<and> sorted_table m"
  by (auto simp: sorted_table_def)

lemma table_put_Nil: "table_put k v [] = [(k, v)]"
  by (simp add: table_put_def)

lemma table_put_spec:
  "sorted_table m \<Longrightarrow> fst ` set (table_put k v m) = insert k (fst ` set m) \<and> sorted_table (table_put k v m) \<and>
     map_of (table_put k v m) = (map_of m)(k \<mapsto> v)"
proof (induction m)
  case Nil
  then show ?case by (simp add: table_put_Nil)
next
  case (Cons e m)
  obtain a b where e: "e = (a, b)" by (cases e)
  have m: "sorted_table m" "\<forall>k\<in>fst ` set m. a < k" using Cons(2) e by simp_all
  consider "a < k" | "a = k" | "k < a" by (metis linorder_cases)
  then show ?case
  proof cases
    case 1
    then show ?thesis using Cons(1) [OF m(1)] m Cons(2) by (auto simp: e table_put_Cons)
  next
    case 2
    then show ?thesis using m Cons(2) by (auto simp: e table_put_Cons)
  next
    case 3
    then show ?thesis using m Cons(2) by (auto simp: e table_put_Cons)
  qed
qed

lemma erased_lookup: "map_of (table_erase k m) = (map_of m)(k := None)"
  by (induction m) (auto simp: table_erase_def fun_eq_iff)

lemma sorted_erase: "sorted_table m \<Longrightarrow> sorted_table (table_erase k m)"
  by (auto simp: sorted_table_def table_erase_def sorted_wrt_map intro: sorted_wrt_filter)

interpretation key_table: finite_table sorted_table map_of table_put table_erase
  by unfold_locales (simp_all add: table_put_spec sorted_erase erased_lookup)

subsection \<open>Known hosts\<close>

text \<open>RFC 6797, 8.2: a live policy for the name, or one for a superdomain that includes the subdomains.\<close>

definition superdomain :: "utf16 \<Rightarrow> utf16 \<Rightarrow> bool" where
  "superdomain s host \<longleftrightarrow> s \<noteq> [] \<and> (\<exists>x. host = x @ 0x2E # s)"

definition known :: "int \<Rightarrow> (utf16 \<Rightarrow> hsts_policy option) \<Rightarrow> utf16 \<Rightarrow> bool" where
  "known now m host \<longleftrightarrow>
     (\<exists>p. m host = Some p \<and> \<not> isExpired now p) \<or>
     (\<exists>s p. superdomain s host \<and> m s = Some p \<and> \<not> isExpired now p \<and> includesSubDomains p)"

text \<open>A lookup may drop expired policies and nothing else.\<close>

definition pruned :: "int \<Rightarrow> hsts_cache \<Rightarrow> hsts_cache \<Rightarrow> bool" where
  "pruned now c c' \<longleftrightarrow>
     hstsStore c' = hstsStore c \<and> (sorted_table (knownHosts c) \<longrightarrow> sorted_table (knownHosts c')) \<and>
     (\<forall>k. map_of (knownHosts c') k = map_of (knownHosts c) k \<or>
        map_of (knownHosts c') k = None \<and> (\<exists>p. map_of (knownHosts c) k = Some p \<and> isExpired now p))"

lemma pruned_refl [simp]: "pruned now c c"
  by (simp add: pruned_def)

lemma pruned_erase:
  assumes "pruned now (c\<lparr>knownHosts := table_erase f (knownHosts c)\<rparr>) c'" "map_of (knownHosts c) f = Some p" "isExpired now p"
  shows "pruned now c c'"
  unfolding pruned_def
proof (intro conjI allI impI)
  show "hstsStore c' = hstsStore c" using assms(1) by (simp add: pruned_def)
  show "sorted_table (knownHosts c) \<Longrightarrow> sorted_table (knownHosts c')" using assms(1) by (simp add: pruned_def sorted_erase)
  fix k
  show "map_of (knownHosts c') k = map_of (knownHosts c) k \<or>
      map_of (knownHosts c') k = None \<and> (\<exists>p. map_of (knownHosts c) k = Some p \<and> isExpired now p)"
    using assms unfolding pruned_def by (cases "k = f") (auto simp: erased_lookup split: if_splits)
qed

lemma index_dot_split:
  "index_dot f = None \<Longrightarrow> 0x2E \<notin> set f"
  "index_dot f = Some d \<Longrightarrow> 0x2E \<notin> set (take d f) \<and> f = take d f @ 0x2E # drop (d + 1) f"
  by (induction f arbitrary: d) (auto split: if_splits)

lemma split_at_char:
  "c \<notin> set x \<Longrightarrow> x @ c # r = y @ c # s \<Longrightarrow> r = s \<or> (\<exists>z. r = z @ c # s)"
proof (induction x arbitrary: y)
  case Nil
  then show ?case by (cases y) auto
next
  case (Cons a x)
  then show ?case by (cases y) auto
qed

lemma superdomain_dot:
  "index_dot f = None \<Longrightarrow> \<not> superdomain s f"
  "index_dot f = Some d \<Longrightarrow> superdomain s f \<longleftrightarrow> s \<noteq> [] \<and> (s = drop (d + 1) f \<or> superdomain s (drop (d + 1) f))"
proof -
  show "index_dot f = None \<Longrightarrow> \<not> superdomain s f" using index_dot_split(1) [of f] by (auto simp: superdomain_def)
  assume "index_dot f = Some d"
  then obtain x r where f: "0x2E \<notin> set x" "f = x @ 0x2E # r" "r = drop (d + 1) f" using index_dot_split(2) by metis
  have "(\<exists>y. x @ 0x2E # r = y @ 0x2E # s) \<longleftrightarrow> s = r \<or> (\<exists>y. r = y @ 0x2E # s)"
  proof
    assume "\<exists>y. x @ 0x2E # r = y @ 0x2E # s"
    then obtain y where y: "x @ 0x2E # r = y @ 0x2E # s" ..
    show "s = r \<or> (\<exists>y. r = y @ 0x2E # s)" using split_at_char [OF f(1) y] by auto
  qed (auto intro: exI [of _ x] exI [of _ "x @ 0x2E # y" for y])
  then show "superdomain s f \<longleftrightarrow> s \<noteq> [] \<and> (s = drop (d + 1) f \<or> superdomain s (drop (d + 1) f))"
    using f unfolding superdomain_def by metis
qed

definition known_from :: "int \<Rightarrow> (utf16 \<Rightarrow> hsts_policy option) \<Rightarrow> bool \<Rightarrow> utf16 \<Rightarrow> bool" where
  "known_from now m super f \<longleftrightarrow>
     f \<noteq> [] \<and> ((\<exists>p. m f = Some p \<and> \<not> isExpired now p \<and> (\<not> super \<or> includesSubDomains p)) \<or>
     (\<exists>s p. superdomain s f \<and> m s = Some p \<and> \<not> isExpired now p \<and> includesSubDomains p))"

lemma known_from_erase: "m f = Some p \<Longrightarrow> isExpired now p \<Longrightarrow> known_from now (m(f := None)) super g = known_from now m super g"
proof -
  assume "m f = Some p" "isExpired now p"
  then have "((m(f := None)) s = Some q \<and> \<not> isExpired now q \<and> X) = (m s = Some q \<and> \<not> isExpired now q \<and> X)" for s q X
    by auto
  then show ?thesis by (simp only: known_from_def)
qed

lemma known_from_dot:
  assumes "f \<noteq> []" "\<nexists>p. m f = Some p \<and> \<not> isExpired now p \<and> (\<not> super \<or> includesSubDomains p)"
  shows "known_from now m super f = (case index_dot f of None \<Rightarrow> False | Some d \<Rightarrow> known_from now m True (drop (d + 1) f))"
proof (cases "index_dot f")
  case None
  then show ?thesis using assms by (auto simp: known_from_def superdomain_dot(1))
next
  case (Some d)
  have "s \<noteq> [] \<and> r \<noteq> []" if "superdomain s r" for s r using that by (auto simp: superdomain_def)
  then show ?thesis using assms unfolding known_from_def superdomain_dot(2) [OF Some] Some option.case by blast
qed

lemma known_loop_spec:
  "hstsStore c = None \<or> (\<forall>k p. map_of (knownHosts c) k = Some p \<longrightarrow> \<not> isExpired now p) \<Longrightarrow>
     \<exists>c'. known_loop now f super c = Some (known_from now (map_of (knownHosts c)) super f, c') \<and> pruned now c c'"
proof (induction now f super c rule: known_loop.induct)
  case (1 now f super c)
  let ?m = "map_of (knownHosts c)"
  show ?case
  proof (cases "f = [] \<or> (\<exists>p. ?m f = Some p \<and> \<not> isExpired now p \<and> (\<not> super \<or> includesSubDomains p))")
    case True
    then show ?thesis by (auto simp: known_loop.simps [of now f] known_from_def)
  next
    case False
    then have f: "f \<noteq> []" "\<nexists>p. ?m f = Some p \<and> \<not> isExpired now p \<and> (\<not> super \<or> includesSubDomains p)" by simp_all
    note spec = known_from_dot [of f ?m now super, OF f]
    show ?thesis
    proof (cases "\<exists>p. ?m f = Some p \<and> isExpired now p")
      case True
      then obtain p where p: "?m f = Some p" "isExpired now p" by blast
      then have none: "hstsStore c = None" using 1(2) by blast
      let ?c = "c\<lparr>knownHosts := table_erase f (knownHosts c)\<rparr>"
      show ?thesis
      proof (cases "index_dot f")
        case None
        then show ?thesis using f p none spec pruned_erase [OF _ p, of ?c] by (auto simp: known_loop.simps [of now f])
      next
        case (Some d)
        have "known_loop now f super c = known_loop now (drop (d + 1) f) True ?c"
          using f p none Some by (simp add: known_loop.simps [of now f])
        moreover have "\<exists>c'. known_loop now (drop (d + 1) f) True ?c =
            Some (known_from now (map_of (knownHosts ?c)) True (drop (d + 1) f), c') \<and> pruned now ?c c'"
          using 1(1) [OF f(1) Some, of ?c] none by simp
        ultimately show ?thesis using spec Some pruned_erase [OF _ p] known_from_erase [of ?m f p now True "drop (d + 1) f", OF p]
          by (auto simp: erased_lookup)
      qed
    next
      case False
      show ?thesis
      proof (cases "index_dot f")
        case None
        then show ?thesis using f False spec by (auto simp: known_loop.simps [of now f] split: option.split)
      next
        case (Some d)
        have step: "known_loop now f super c = known_loop now (drop (d + 1) f) True c"
          using f False Some by (auto simp: known_loop.simps [of now f] Let_def split: option.split)
        show ?thesis using 1(1) [OF f(1) Some 1(2)] step spec Some by simp
      qed
    qed
  qed
qed

lemma isKnownHost_aux:
  assumes "hstsStore c = None \<or> (\<forall>k p. map_of (knownHosts c) k = Some p \<longrightarrow> \<not> isExpired now p)"
  shows "\<exists>c'. isKnownHost env now u c =
           Some (url_isValid u \<and> is_valid_domain_name env (url_host u) \<and> known now (map_of (knownHosts c)) (url_host u), c') \<and>
           pruned now c c'"
proof (cases "url_isValid u \<and> is_valid_domain_name env (url_host u)")
  case True
  then have "known_from now (map_of (knownHosts c)) False (url_host u) = known now (map_of (knownHosts c)) (url_host u)"
    by (auto simp: known_from_def known_def is_valid_domain_name_def)
  then show ?thesis using known_loop_spec [OF assms, of "url_host u" False] True by (simp add: isKnownHost_def)
qed (auto simp: isKnownHost_def)

lemma isKnownHost_expired:
  assumes "url_isValid u" "is_valid_domain_name env (url_host u)" "map_of (knownHosts c) (url_host u) = Some p" "isExpired now p"
    "hstsStore c \<noteq> None"
  shows "isKnownHost env now u c = None"
  using assms by (simp add: isKnownHost_def is_valid_domain_name_def known_loop.simps [of now "url_host u"])

subsection \<open>Updates\<close>

definition cache_ok :: "hsts_env \<Rightarrow> hsts_cache \<Rightarrow> bool" where
  "cache_ok env c \<longleftrightarrow>
     sorted_table (knownHosts c) \<and>
     (\<forall>h p. map_of (knownHosts c) h = Some p \<longrightarrow> hp_host p = setHost env h \<and> is_valid_domain_name env h)"

definition host_update ::
  "hsts_env \<Rightarrow> int \<Rightarrow> utf16 \<Rightarrow> datetime \<Rightarrow> bool \<Rightarrow> (utf16 \<Rightarrow> hsts_policy option) \<Rightarrow> utf16 \<Rightarrow> hsts_policy option" where
  "host_update env now host expires sub m =
     (let p = QHstsPolicy (setHost env) expires sub host
      in if is_valid_domain_name env host then m(host := if isExpired now p then None else Some p) else m)"

lemma synchronize_keeps [simp]: "knownHosts (synchronize_store env now c) = knownHosts c"
  by (simp add: synchronize_store_def)

lemma observe_keeps [simp]: "knownHosts (observe p c) = knownHosts c"
  by (simp add: observe_def)

lemma update_name_refines:
  assumes "cache_ok env c"
  shows "map_of (knownHosts (updateKnownHost_name env now host expires sub c)) =
           host_update env now host expires sub (map_of (knownHosts c))"
    and "cache_ok env (updateKnownHost_name env now host expires sub c)"
proof -
  let ?p = "QHstsPolicy (setHost env) expires sub host"
  have s: "sorted_table (knownHosts c)" using assms by (simp add: cache_ok_def)
  show m: "map_of (knownHosts (updateKnownHost_name env now host expires sub c)) =
      host_update env now host expires sub (map_of (knownHosts c))"
    using key_table.lookup_put [OF s] key_table.lookup_erase [OF s]
    by (auto simp: updateKnownHost_name_def host_update_def Let_def fun_eq_iff split: option.split)
  have "sorted_table (knownHosts (updateKnownHost_name env now host expires sub c))"
    using s key_table.ok_put [OF s] key_table.ok_erase [OF s]
    by (auto simp: updateKnownHost_name_def Let_def split: option.split)
  then show "cache_ok env (updateKnownHost_name env now host expires sub c)"
    using assms unfolding cache_ok_def m by (auto simp: host_update_def Let_def QHstsPolicy_def split: if_splits)
qed

lemma update_policies_refine:
  assumes "cache_ok env c"
  shows "map_of (knownHosts (updateFromPolicies env now ps c)) =
           fold (\<lambda>p. host_update env now (hp_host p) (hp_expiry p) (includesSubDomains p)) ps (map_of (knownHosts c))"
    and "cache_ok env (updateFromPolicies env now ps c)"
proof -
  let ?f = "\<lambda>p. updateKnownHost_name env now (hp_host p) (hp_expiry p) (includesSubDomains p)"
  let ?g = "\<lambda>p. host_update env now (hp_host p) (hp_expiry p) (includesSubDomains p)"
  have f: "cache_ok env (fold ?f ps c) \<and> map_of (knownHosts (fold ?f ps c)) = fold ?g ps (map_of (knownHosts c))"
    using assms
  proof (induction ps arbitrary: c)
    case (Cons p ps)
    show ?case using Cons.IH [OF update_name_refines(2) [OF Cons.prems]] update_name_refines(1) [OF Cons.prems]
      by (simp only: fold_simps o_apply) 
  qed (simp only: fold_simps id_apply simp_thms)
  have k: "knownHosts (updateFromPolicies env now ps c) = knownHosts (fold ?f ps c)"
    by (simp add: updateFromPolicies_def Let_def)
  show "map_of (knownHosts (updateFromPolicies env now ps c)) = fold ?g ps (map_of (knownHosts c))"
    unfolding k using f by blast
  show "cache_ok env (updateFromPolicies env now ps c)"
    using f unfolding cache_ok_def k by blast
qed

text \<open>A \<open>QUrl\<close> that changes nothing, as it does with plain names, and a cache to look at.\<close>

definition plain_env :: hsts_env where
  "plain_env = \<lparr>setHost = \<lambda>h. h, octet_before = 0\<rparr>"

definition name_url :: "string \<Rightarrow> url" where
  "name_url s = \<lparr>url_isValid = True, url_host = latin1 (chars s)\<rparr>"

definition example_cache :: hsts_cache where
  "example_cache =
     \<lparr>knownHosts = [(latin1 (chars ''a.b''), QHstsPolicy (\<lambda>h. h) (Some 5000) True (latin1 (chars ''a.b'')))], hstsStore = None\<rparr>"

definition empty_store :: hsts_store where
  "empty_store = \<lparr>observedPolicies = [], settings = [], isWritable = True\<rparr>"

lemma example_names:
  "is_valid_domain_name plain_env (latin1 (chars ''a.b''))" "is_valid_domain_name plain_env (latin1 (chars ''x.a.b''))"
  by code_simp+

lemma example_cache_ok: "cache_ok plain_env example_cache"
  using example_names(1) by (simp add: cache_ok_def example_cache_def QHstsPolicy_def plain_env_def)

lemma example_superdomain: "superdomain (latin1 (chars ''a.b'')) (latin1 (chars ''x.a.b''))"
  by (simp add: superdomain_def latin1_def chars_def)

text \<open>C21. The cache is a map from hosts to policies: an update with a live policy enters it, one with an expired policy
  removes the host, and an address or an empty name changes nothing.\<close>

theorem known_hosts_refine_map:
  assumes "cache_ok env c"
  shows "map_of (knownHosts (updateKnownHost env now u expires sub c)) =
           (if url_isValid u then host_update env now (url_host u) expires sub (map_of (knownHosts c)) else map_of (knownHosts c)) \<and>
         map_of (knownHosts (updateFromPolicies env now ps c)) =
           fold (\<lambda>p. host_update env now (hp_host p) (hp_expiry p) (includesSubDomains p)) ps (map_of (knownHosts c)) \<and>
         cache_ok env (updateKnownHost env now u expires sub c) \<and> cache_ok env (updateFromPolicies env now ps c)"
  using update_name_refines [OF assms] update_policies_refine [OF assms] assms
  by (simp add: updateKnownHost_def cache_ok_def)

lemma known_hosts_refine_map_witness:
  "map_of (knownHosts (updateKnownHost plain_env 0 (name_url ''x.a.b'') (Some 7) False example_cache)) (latin1 (chars ''x.a.b'')) =
     Some (QHstsPolicy (\<lambda>h. h) (Some 7) False (latin1 (chars ''x.a.b'')))"
  using known_hosts_refine_map [OF example_cache_ok, of 0 "name_url ''x.a.b''" "Some 7" False "[]"] example_names(2)
  by (simp add: name_url_def host_update_def isExpired_def QHstsPolicy_def plain_env_def)


text \<open>C14. The lookup implements RFC 6797: a host is known just when there is a live policy for it or a live policy of a
  superdomain that includes the subdomains, and it changes the cache by dropping expired policies at most. It says
  so for a cache without a store, and for one with a store as long as no policy has expired.\<close>

theorem known_host_spec:
  assumes "hstsStore c = None \<or> (\<forall>k p. map_of (knownHosts c) k = Some p \<longrightarrow> \<not> isExpired now p)"
  shows "\<exists>c'. isKnownHost env now u c =
           Some (url_isValid u \<and> is_valid_domain_name env (url_host u) \<and> known now (map_of (knownHosts c)) (url_host u), c') \<and>
           pruned now c c'"
  by (rule isKnownHost_aux [OF assms])

lemma known_host_spec_witness:
  "\<exists>b c'. isKnownHost plain_env 0 (name_url ''a.b'') example_cache = Some (b, c') \<and> b \<and> pruned 0 example_cache c'"
proof -
  have "hstsStore example_cache = None" by (simp add: example_cache_def)
  moreover have "known 0 (map_of (knownHosts example_cache)) (latin1 (chars ''a.b''))"
    by (simp add: known_def example_cache_def QHstsPolicy_def isExpired_def)
  ultimately show ?thesis using known_host_spec [of example_cache 0 plain_env "name_url ''a.b''"] example_names(1)
    by (auto simp: name_url_def)
qed


subsection \<open>From a reply to the lookups\<close>

definition field_policy :: "bytes \<Rightarrow> (int \<times> bool) option" where
  "field_policy v =
     (let (ok, q) = parseSTSHeader (QHstsHeaderParser\<lparr>sts_header := v\<rparr>)
      in if ok \<and> maxAgeFound q then Some (maxAge q, subDomainsFound q) else None)"

lemma parse_fresh: "parseSTSHeader (p\<lparr>sts_header := v\<rparr>) = parseSTSHeader (QHstsHeaderParser\<lparr>sts_header := v\<rparr>)"
  by (cases p) (simp add: parseSTSHeader_def QHstsHeaderParser_def)

lemma parse_values_first:
  "case List.map_filter field_policy vs of
     [] \<Rightarrow> \<not> fst (parse_values now vs p)
   | (age, sub) # _ \<Rightarrow> \<exists>q. parse_values now vs p = (True, q) \<and> sts_expiry q = addSecs age (Some now) \<and> subDomainsFound q = sub"
proof (induction vs arbitrary: p)
  case Nil
  then show ?case by (simp add: List.map_filter_def)
next
  case (Cons v vs)
  obtain ok q where q: "parseSTSHeader (p\<lparr>sts_header := v\<rparr>) = (ok, q)" by (cases "parseSTSHeader (p\<lparr>sts_header := v\<rparr>)")
  have f: "field_policy v = (if ok \<and> maxAgeFound q then Some (maxAge q, subDomainsFound q) else None)"
    using q by (simp add: field_policy_def parse_fresh [where p = p and v = v, symmetric])
  show ?case
  proof (cases "ok \<and> maxAgeFound q")
    case True
    then show ?thesis using q f by simp
  next
    case False
    then have step: "parse_values now (v # vs) p = parse_values now vs q" using q by auto
    have none: "field_policy v = None" unfolding f using False by auto
    show ?thesis unfolding step using none Cons.IH [of q] by simp
  qed
qed

lemma update_headers_refines:
  assumes "cache_ok env c" "url_isValid u"
    and "List.map_filter field_policy (headers_values (chars ''strict-transport-security'') headers) = (age, sub) # rest"
  shows "map_of (knownHosts (updateFromHeaders env now headers u c)) =
           host_update env now (url_host u) (addSecs age (Some now)) sub (map_of (knownHosts c))"
    and "hstsStore c = None \<Longrightarrow> hstsStore (updateFromHeaders env now headers u c) = None"
proof -
  obtain q where q: "sts_parse now headers QHstsHeaderParser = (True, q)" "sts_expiry q = addSecs age (Some now)" "subDomainsFound q = sub"
    using parse_values_first [where vs = "headers_values (chars ''strict-transport-security'') headers" and now = now and p = QHstsHeaderParser] assms(3)
    by (auto simp: sts_parse_def)
  then show "map_of (knownHosts (updateFromHeaders env now headers u c)) =
      host_update env now (url_host u) (addSecs age (Some now)) sub (map_of (knownHosts c))"
    using assms(1,2) by (simp add: updateFromHeaders_def update_name_refines)
  show "hstsStore c = None \<Longrightarrow> hstsStore (updateFromHeaders env now headers u c) = None"
    using q assms(2) by (auto simp: updateFromHeaders_def updateKnownHost_name_def observe_def synchronize_store_def Let_def split: option.split)
qed

definition sts_field :: "bytes \<Rightarrow> http_headers" where
  "sts_field v = Some [\<lparr>h_name = HeaderName (chars ''strict-transport-security''), h_value = v\<rparr>]"

lemma sts_field_values: "headers_values (chars ''strict-transport-security'') (sts_field v) = [v]"
  by (simp add: sts_field_def headers_values_def values_of_name_def headers_isEmpty_def header_list_def)

lemma field_policy_items:
  assumes "list_all item_ok items" "items \<noteq> []" "policy_of (concat (map item_directive items)) = Some ([age], sub)"
  shows "List.map_filter field_policy [field_text items] = [(age, sub)]"
  using sts_field_meaning_aux [OF assms(1,2), of "QHstsHeaderParser\<lparr>sts_header := field_text items\<rparr>"] assms(3)
  by (auto simp: field_policy_def)

definition huge_items :: "sts_item list" where
  "huge_items = [Directive [] (chars ''max-age'') [] (Some ([], chars ''9223372036854775807'', []))]"

lemma huge_items:
  "list_all item_ok huge_items" "huge_items \<noteq> []" "field_text huge_items = chars ''max-age=9223372036854775807''"
  "policy_of (concat (map item_directive huge_items)) = Some ([9223372036854775807], False)"
  by (simp_all add: huge_items_def token_word_def lexeme_def isTOKEN_def isCHAR_def isCTL_def isSeparator_def isLWS_def
    policy_of_def max_ages_def sub_flags_def age_of_def equals_ignoring_case_def unescapeMaxAge_def toLower_def asciiLower_def parsing)

lemmas example_fields =
  field_policy_items [OF example_items(1,2) example_policy, unfolded example_items(3)]
  field_policy_items [OF huge_items(1,2,4), unfolded huge_items(3)]

text \<open>C6. A reply whose first usable field asks for \<open>age\<close> seconds makes its host known until they are over, with its
  subdomains when the field includes them.\<close>

theorem hsts_enforced:
  assumes "cache_ok env c" "hstsStore c = None" "url_isValid u" "is_valid_domain_name env (url_host u)"
    and "List.map_filter field_policy (headers_values (chars ''strict-transport-security'') headers) = (age, sub) # rest"
    and "fits_i64 (age * 1000)" "fits_i64 (now + age * 1000)" "now \<le> t" "t < now + age * 1000"
    and "url_isValid w" "is_valid_domain_name env (url_host w)"
    and "url_host w = url_host u \<or> sub \<and> superdomain (url_host u) (url_host w)"
  shows "\<exists>c'. isKnownHost env t w (updateFromHeaders env now headers u c) = Some (True, c')"
proof -
  let ?c = "updateFromHeaders env now headers u c"
  have e: "addSecs age (Some now) = Some (now + age * 1000)" using assms(6,7) by (simp add: addSecs_def addMSecs_def)
  then have "map_of (knownHosts ?c) (url_host u) = Some (QHstsPolicy (setHost env) (Some (now + age * 1000)) sub (url_host u))"
    using update_headers_refines(1) [OF assms(1,3,5), of now] assms(4,8,9)
    by (simp add: host_update_def isExpired_def QHstsPolicy_def)
  then have "known t (map_of (knownHosts ?c)) (url_host w)"
    using assms(9,12) by (auto simp: known_def isExpired_def QHstsPolicy_def)
  then show ?thesis
    using isKnownHost_aux [of ?c t env w] update_headers_refines(2) [OF assms(1,3,5,2)] assms(10,11) by auto
qed

lemma hsts_enforced_witness:
  "\<exists>c'. isKnownHost plain_env 4999 (name_url ''x.a.b'')
     (updateFromHeaders plain_env 0 (sts_field (chars ''max-age=5; includeSubDomains'')) (name_url ''a.b'') example_cache) = Some (True, c')"
  using hsts_enforced [OF example_cache_ok, of "name_url ''a.b''" "sts_field (chars ''max-age=5; includeSubDomains'')"
      5 True "[]" 0 4999 "name_url ''x.a.b''"] example_names example_fields(1) example_superdomain
  by (simp add: sts_field_values name_url_def fits_i64_def example_cache_def)


text \<open>C29. An age so large that the end of its time is no 64-bit number of milliseconds makes the cache forget the host
  instead of remembering it: the time is invalid, and a policy with an invalid time counts as expired.\<close>

theorem huge_age_forgets:
  assumes "cache_ok env c" "url_isValid u" "is_valid_domain_name env (url_host u)"
    and "List.map_filter field_policy (headers_values (chars ''strict-transport-security'') headers) = (age, sub) # rest"
    and "\<not> fits_i64 (age * 1000) \<or> \<not> fits_i64 (now + age * 1000)"
  shows "map_of (knownHosts (updateFromHeaders env now headers u c)) (url_host u) = None"
  using update_headers_refines(1) [OF assms(1,2,4), of now] assms(3,5)
  by (auto simp: host_update_def isExpired_def QHstsPolicy_def addSecs_def addMSecs_def Let_def)

lemma huge_age_forgets_witness:
  "map_of (knownHosts (updateFromHeaders plain_env 0 (sts_field (chars ''max-age=9223372036854775807'')) (name_url ''a.b'')
     example_cache)) (latin1 (chars ''a.b'')) = None"
  using huge_age_forgets [OF example_cache_ok, of "name_url ''a.b''" "sts_field (chars ''max-age=9223372036854775807'')"
      9223372036854775807 False "[]" 0] example_names(1) example_fields(2)
  by (simp add: sts_field_values name_url_def fits_i64_def)


subsection \<open>The store\<close>

lemma be64_step:
  "push_bit 8 (drop_bit (n + 8) w) OR ucast (ucast (drop_bit n w) :: byte) = drop_bit n (w :: 64 word)"
  by (rule bit_word_eqI) (auto simp: bit_simps)

lemma be64_prefix:
  "j \<le> 8 \<Longrightarrow> foldl (\<lambda>w b. push_bit 8 w OR ucast b) 0 (map (\<lambda>i. ucast (drop_bit (8 * (7 - i)) w) :: byte) [0..<j]) =
     drop_bit (64 - 8 * j) (w :: 64 word)"
proof (induction j)
  case 0
  have "drop_bit 64 w = 0" by (rule bit_word_eqI) (simp add: bit_simps)
  then show ?case by simp
next
  case (Suc j)
  have "64 - 8 * j = 8 * (7 - j) + 8" "64 - 8 * Suc j = 8 * (7 - j)" using Suc(2) by auto
  then show ?case using Suc be64_step [of "8 * (7 - j)" w] by simp
qed

lemma from_be64_be64: "fits_i64 x \<Longrightarrow> from_be64 (be64 x) = x"
  using be64_prefix [of 8 "of_int x :: 64 word"]
  by (simp add: from_be64_def be64_def Let_def fits_i64_def signed_of_int signed_take_bit_int_eq_self)

lemma length_be64 [simp]: "length (be64 x) = 8"
  by (simp add: be64_def Let_def)

lemma deserialize_serialized:
  "fits_i64 e \<Longrightarrow> deserializePolicy (be64 e @ [of_bool b]) = Some (Some e, b)"
  by (simp add: deserializePolicy_def from_be64_be64 nth_append)

lemma store_keeps [simp]:
  "settings (addToObserved p s) = settings s" "isWritable (addToObserved p s) = isWritable s"
  "observedPolicies (addToObserved p s) = observedPolicies s @ [p]"
  by (simp_all add: addToObserved_def)

lemma fold_observed:
  "settings (fold addToObserved ps s) = settings s \<and> isWritable (fold addToObserved ps s) = isWritable s \<and>
     observedPolicies (fold addToObserved ps s) = observedPolicies s @ ps"
  by (induction ps arbitrary: s) simp_all

definition policy_octets :: "hsts_policy \<Rightarrow> bytes" where
  "policy_octets p = be64 (case hp_expiry p of Some e \<Rightarrow> e | None \<Rightarrow> 0) @ [of_bool (includesSubDomains p)]"

text \<open>A synchronisation is a list of changes of the table of settings: a removal for an expired policy, an entry otherwise.\<close>

definition store_change :: "int \<Rightarrow> hsts_policy \<Rightarrow> utf16 \<times> bytes option" where
  "store_change now p = (host_name_to_settings_key (hp_host p), if isExpired now p then None else Some (policy_octets p))"

lemma synchronize_changes:
  assumes "isWritable s"
  shows "synchronize now s =
           s\<lparr>observedPolicies := [], settings := fold key_table.alter (map (store_change now) (observedPolicies s)) (settings s)\<rparr>"
proof -
  let ?f = "\<lambda>p s. if isExpired now p then evictPolicy (host_name_to_settings_key (hp_host p)) s else serializePolicy (host_name_to_settings_key (hp_host p)) p s"
  have "fold ?f ps s = s\<lparr>settings := fold key_table.alter (map (store_change now) ps) (settings s)\<rparr>" for ps s
    by (induction ps arbitrary: s)
      (simp_all add: key_table.alter_def store_change_def evictPolicy_def serializePolicy_def policy_octets_def)
  then show ?thesis using assms by (simp add: synchronize_def)
qed

lemma map_of_function: "(\<forall>e\<in>set es. snd e = f (fst e)) \<Longrightarrow> map_of es k = (if k \<in> fst ` set es then Some (f k) else None)"
  by (induction es) auto

lemma table_entries: "sorted_table m \<Longrightarrow> (k, v) \<in> set m \<longleftrightarrow> map_of m k = Some v"
proof -
  assume "sorted_table m"
  then have "distinct (map fst m)" by (simp add: sorted_table_def strict_sorted_iff)
  then show ?thesis by simp
qed

lemma read_all:
  "(\<And>k bs. (k, bs) \<in> set entries \<Longrightarrow> \<exists>d. deserializePolicy bs = Some d) \<Longrightarrow>
     read_keys set_host entries s =
       (map (\<lambda>(k, bs). QHstsPolicy set_host (fst (the (deserializePolicy bs))) (snd (the (deserializePolicy bs))) (settings_key_to_host_name k)) entries, s)"
proof (induction entries)
  case (Cons e entries)
  obtain k bs where e: "e = (k, bs)" by (cases e)
  obtain d where "deserializePolicy bs = Some d" using Cons.prems [of k bs] e by auto
  moreover have "read_keys set_host entries s =
      (map (\<lambda>(k, bs). QHstsPolicy set_host (fst (the (deserializePolicy bs))) (snd (the (deserializePolicy bs))) (settings_key_to_host_name k)) entries, s)"
    using Cons.prems by (intro Cons.IH) (metis list.set_intros(2))
  ultimately show ?case by (cases d) (simp add: e)
qed simp

text \<open>Policies that a store can give back: live ones with a time in 64 bits and host names without stray surrogates, which \<open>QUrl\<close> leaves as they are.\<close>

definition storable :: "hsts_env \<Rightarrow> int \<Rightarrow> (utf16 \<times> hsts_policy) list \<Rightarrow> bool" where
  "storable env now hosts \<longleftrightarrow>
     (\<forall>h p. map_of hosts h = Some p \<longrightarrow>
        hp_host p = h \<and> setHost env h = h \<and> key_text h \<and> is_valid_domain_name env h \<and>
        \<not> isExpired now p \<and> (\<forall>e. hp_expiry p = Some e \<longrightarrow> fits_i64 e))"

lemma storable_key:
  "storable env now hosts \<Longrightarrow> map_of hosts h = Some p \<Longrightarrow> settings_key_to_host_name (host_name_to_settings_key h) = h"
  unfolding storable_def settings_key by (blast intro: utf8_roundtrip)

lemma stored_table:
  assumes "sorted_table hosts" "storable env now hosts"
  defines "t \<equiv> fold key_table.alter (map (store_change now) (map snd hosts)) []"
  shows "map_of t k = (if k \<in> host_name_to_settings_key ` fst ` set hosts
           then Some (policy_octets (the (map_of hosts (settings_key_to_host_name k)))) else None)"
    and "sorted_table t"
proof -
  let ?es = "map (store_change now) (map snd hosts)"
  have entry: "map_of hosts h = Some p \<Longrightarrow>
      store_change now p = (host_name_to_settings_key h, Some (policy_octets p)) \<and> settings_key_to_host_name (host_name_to_settings_key h) = h" for h p
    using assms(2) storable_key [OF assms(2)] by (simp add: storable_def store_change_def)
  have mem: "(h, p) \<in> set hosts \<longleftrightarrow> map_of hosts h = Some p" for h p using table_entries [OF assms(1)] .
  have f: "\<forall>e\<in>set (rev ?es). snd e = Some (policy_octets (the (map_of hosts (settings_key_to_host_name (fst e)))))"
    using entry mem by fastforce
  have d: "fst ` set (rev ?es) = host_name_to_settings_key ` fst ` set hosts" using entry mem by (force simp: image_iff)
  have "sorted_table ([] :: (utf16 \<times> bytes) list)" by simp
  note l = key_table.last_change [OF this, of ?es k]
  show "map_of t k = (if k \<in> host_name_to_settings_key ` fst ` set hosts
      then Some (policy_octets (the (map_of hosts (settings_key_to_host_name k)))) else None)"
    unfolding t_def l map_of_function [OF f] d by simp
  show "sorted_table t" using key_table.changes [of "[] :: (utf16 \<times> bytes) list"] by (simp add: t_def)
qed

lemma restored_policies:
  assumes "sorted_table hosts" "storable env now hosts"
    and "settings s = fold key_table.alter (map (store_change now) (map snd hosts)) []"
  obtains ps where "readPolicies (setHost env) s = (ps, s)" "set ps = {p. \<exists>h. map_of hosts h = Some p}"
proof -
  note t = stored_table [OF assms(1,2), folded assms(3)]
  have octets: "deserializePolicy (policy_octets p) = Some (hp_expiry p, includesSubDomains p)" if "map_of hosts h = Some p" for h p
  proof -
    have "\<not> isExpired now p" "\<forall>e. hp_expiry p = Some e \<longrightarrow> fits_i64 e" using assms(2) that unfolding storable_def by blast+
    then show ?thesis by (cases "hp_expiry p") (simp_all add: isExpired_def policy_octets_def deserialize_serialized)
  qed
  have entry: "\<exists>h p. map_of hosts h = Some p \<and> k = host_name_to_settings_key h \<and> bs = policy_octets p" if e: "(k, bs) \<in> set (settings s)" for k bs
  proof -
    have "map_of (settings s) k = Some bs" using e table_entries [OF t(2)] by simp
    then obtain h p where "k = host_name_to_settings_key h" "(h, p) \<in> set hosts" "bs = policy_octets (the (map_of hosts (settings_key_to_host_name k)))"
      unfolding t(1) by (auto split: if_splits)
    moreover have "map_of hosts h = Some p" using calculation(2) table_entries [OF assms(1)] by simp
    ultimately show ?thesis using storable_key [OF assms(2)] by auto
  qed
  let ?q = "\<lambda>(k, bs). QHstsPolicy (setHost env) (fst (the (deserializePolicy bs))) (snd (the (deserializePolicy bs))) (settings_key_to_host_name k)"
  have same: "?q (host_name_to_settings_key h, policy_octets p) = p" if "map_of hosts h = Some p" for h p
  proof -
    have "hp_host p = h \<and> setHost env h = h \<and> settings_key_to_host_name (host_name_to_settings_key h) = h"
      using assms(2) that storable_key [OF assms(2) that] unfolding storable_def by blast
    then show ?thesis using octets [OF that] by (cases p) (simp add: QHstsPolicy_def)
  qed
  have "\<exists>d. deserializePolicy bs = Some d" if "(k, bs) \<in> set (settings s)" for k bs
    using entry [OF that] octets by metis
  from read_all [OF this] have "readPolicies (setHost env) s = (map ?q (settings s), s)"
    unfolding readPolicies_def .
  moreover have "set (map ?q (settings s)) = {p. \<exists>h. map_of hosts h = Some p}"
  proof (intro equalityI subsetI)
    fix p assume "p \<in> set (map ?q (settings s))"
    then obtain k bs where "(k, bs) \<in> set (settings s)" "p = ?q (k, bs)" by auto
    then obtain h p' where "map_of hosts h = Some p'" "k = host_name_to_settings_key h" "bs = policy_octets p'" using entry by blast
    then show "p \<in> {p. \<exists>h. map_of hosts h = Some p}" using same [of h p'] \<open>p = ?q (k, bs)\<close> by auto
  next
    fix p assume "p \<in> {p. \<exists>h. map_of hosts h = Some p}"
    then obtain h where h: "map_of hosts h = Some p" by blast
    then have "(h, p) \<in> set hosts" by (rule map_of_SomeD)
    then have k: "host_name_to_settings_key h \<in> host_name_to_settings_key ` fst ` set hosts" by force
    have "settings_key_to_host_name (host_name_to_settings_key h) = h" by (rule storable_key [OF assms(2) h])
    then have "map_of (settings s) (host_name_to_settings_key h) = Some (policy_octets p)"
      using t(1) [of "host_name_to_settings_key h"] h k by simp
    then have "(host_name_to_settings_key h, policy_octets p) \<in> set (settings s)" by (rule map_of_SomeD)
    then have "?q (host_name_to_settings_key h, policy_octets p) \<in> ?q ` set (settings s)" by (rule imageI)
    then show "p \<in> set (map ?q (settings s))" unfolding same [OF h] set_map .
  qed
  ultimately show thesis by (rule that)
qed

lemma fold_host_updates:
  assumes "\<And>p. p \<in> set ps \<Longrightarrow>
      m (hp_host p) = Some p \<and> setHost env (hp_host p) = hp_host p \<and> is_valid_domain_name env (hp_host p)"
  shows "fold (\<lambda>p. host_update env t (hp_host p) (hp_expiry p) (includesSubDomains p)) ps n h =
           (if h \<in> hp_host ` set ps then (case m h of Some p \<Rightarrow> if isExpired t p then None else Some p | None \<Rightarrow> None) else n h)"
  using assms
proof (induction ps arbitrary: n)
  case (Cons p ps)
  have p: "m (hp_host p) = Some p" "setHost env (hp_host p) = hp_host p" "is_valid_domain_name env (hp_host p)"
    using Cons.prems [of p] by simp_all
  then have u: "host_update env t (hp_host p) (hp_expiry p) (includesSubDomains p) n = n(hp_host p := if isExpired t p then None else Some p)"
    by (cases p) (simp add: host_update_def QHstsPolicy_def)
  have "fold (\<lambda>p. host_update env t (hp_host p) (hp_expiry p) (includesSubDomains p)) ps
        (n(hp_host p := if isExpired t p then None else Some p)) h =
      (if h \<in> hp_host ` set ps then (case m h of Some p \<Rightarrow> if isExpired t p then None else Some p | None \<Rightarrow> None)
       else (n(hp_host p := if isExpired t p then None else Some p)) h)"
    by (rule Cons.IH) (rule Cons.prems, simp)
  then show ?case using p(1) by (simp add: u)
qed simp

lemma update_same:
  assumes "map_of (knownHosts c) (hp_host p) = Some p" "setHost env (hp_host p) = hp_host p" "\<not> isExpired now p"
  shows "updateKnownHost_name env now (hp_host p) (hp_expiry p) (includesSubDomains p) c = c"
  using assms by (cases p) (simp add: updateKnownHost_name_def QHstsPolicy_def Let_def)

lemma update_all_same:
  "(\<And>p. p \<in> set ps \<Longrightarrow> map_of (knownHosts c) (hp_host p) = Some p \<and> setHost env (hp_host p) = hp_host p \<and> \<not> isExpired now p) \<Longrightarrow>
     fold (\<lambda>p. updateKnownHost_name env now (hp_host p) (hp_expiry p) (includesSubDomains p)) ps c = c"
  by (induction ps) (simp_all add: update_same)

text \<open>A cache that gets an empty store writes its policies there and keeps them.\<close>

lemma store_filled:
  assumes "cache_ok env c" "storable env now (knownHosts c)" "isWritable s" "settings s = []" "observedPolicies s = []"
  defines "s' \<equiv> s\<lparr>settings := fold key_table.alter (map (store_change now) (map snd (knownHosts c))) []\<rparr>"
  shows "setStore env now s c = c\<lparr>hstsStore := Some s'\<rparr>"
proof -
  have sorted: "sorted_table (knownHosts c)" using assms(1) by (simp add: cache_ok_def)
  have "(if knownHosts c \<noteq> [] then synchronize now (fold addToObserved (policies c) s) else s) = s'"
    using assms(3-5) fold_observed [of "policies c" s] synchronize_changes [of "fold addToObserved (policies c) s"]
    by (cases s; cases "fold addToObserved (policies c) s") (simp add: s'_def policies_def)
  moreover obtain ps where ps: "readPolicies (setHost env) s' = (ps, s')"
      "set ps = {p. \<exists>h. map_of (knownHosts c) h = Some p}"
    using restored_policies [OF sorted assms(2), of s'] by (auto simp: s'_def)
  have "map_of (knownHosts c) (hp_host p) = Some p \<and> setHost env (hp_host p) = hp_host p \<and> \<not> isExpired now p"
    if "p \<in> set ps" for p
    using that assms(2) unfolding ps(2) storable_def by auto
  then have same: "fold (\<lambda>p. updateKnownHost_name env now (hp_host p) (hp_expiry p) (includesSubDomains p)) ps
      (c\<lparr>hstsStore := Some s'\<rparr>) = c\<lparr>hstsStore := Some s'\<rparr>"
    by (intro update_all_same) simp
  have sync: "synchronize now s' = s'"
    using synchronize_changes [of s'] assms(3,5) by (cases s) (simp add: s'_def)
  have "updateFromPolicies env now ps (c\<lparr>hstsStore := Some s'\<rparr>) = c\<lparr>hstsStore := Some s'\<rparr>"
    by (simp add: updateFromPolicies_def same Let_def synchronize_store_def sync)
  ultimately show ?thesis using ps(1) by (simp add: setStore_def)
qed

text \<open>C16. What a cache has put into its store, a cache that opens the store later has again, less what has expired by then:
  the policies under the names of their hosts, which the store keeps as hexadecimal digits of UTF-8.\<close>

theorem hsts_store_roundtrip:
  assumes "cache_ok env c" "storable env now (knownHosts c)" "isWritable s" "settings s = []" "observedPolicies s = []"
    and "hstsStore (setStore env now s c) = Some s'"
  shows "map_of (knownHosts (setStore env t s' \<lparr>knownHosts = [], hstsStore = None\<rparr>)) h =
           (case map_of (knownHosts c) h of Some p \<Rightarrow> if isExpired t p then None else Some p | None \<Rightarrow> None)"
proof -
  have sorted: "sorted_table (knownHosts c)" using assms(1) by (simp add: cache_ok_def)
  have s': "settings s' = fold key_table.alter (map (store_change now) (map snd (knownHosts c))) []"
    using assms(6) unfolding store_filled [OF assms(1-5)] by auto
  obtain ps where ps: "readPolicies (setHost env) s' = (ps, s')"
      "set ps = {p. \<exists>h. map_of (knownHosts c) h = Some p}"
    by (rule restored_policies [OF sorted assms(2) s'])
  let ?c = "\<lparr>knownHosts = [], hstsStore = Some s'\<rparr>"
  have "setStore env t s' \<lparr>knownHosts = [], hstsStore = None\<rparr> = updateFromPolicies env t ps ?c"
    by (simp add: setStore_def ps(1))
  moreover have "cache_ok env ?c" by (simp add: cache_ok_def)
  moreover have "map_of (knownHosts c) (hp_host p) = Some p \<and> setHost env (hp_host p) = hp_host p \<and> is_valid_domain_name env (hp_host p)"
    if "p \<in> set ps" for p
    using that assms(2) unfolding ps(2) storable_def by auto
  note fold_host_updates [OF this, of ps t Map.empty h]
  moreover have "h \<in> hp_host ` set ps \<longleftrightarrow> map_of (knownHosts c) h \<noteq> None"
    using assms(2) unfolding ps(2) storable_def by (force simp: image_iff)
  ultimately show ?thesis using update_policies_refine(1) [of env ?c t ps] by (auto split: option.split)
qed

lemma key_text_example: "key_text (latin1 (chars ''a.b''))"
  by (simp add: key_text_def latin1_def chars_def isSurrogate_def)

lemma hsts_store_roundtrip_witness:
  "\<exists>s'. hstsStore (setStore plain_env 0 empty_store example_cache) = Some s' \<and>
     map_of (knownHosts (setStore plain_env 4999 s' \<lparr>knownHosts = [], hstsStore = None\<rparr>)) (latin1 (chars ''a.b'')) =
       Some (QHstsPolicy (\<lambda>h. h) (Some 5000) True (latin1 (chars ''a.b'')))"
proof -
  have 1: "storable plain_env 0 (knownHosts example_cache)"
    using example_names(1) key_text_example by (simp add: storable_def example_cache_def plain_env_def QHstsPolicy_def isExpired_def fits_i64_def)
  have 2: "isWritable empty_store" "settings empty_store = []" "observedPolicies empty_store = []" by (simp_all add: empty_store_def)
  obtain s' where s': "hstsStore (setStore plain_env 0 empty_store example_cache) = Some s'"
    unfolding store_filled [OF example_cache_ok 1 2] by auto
  show ?thesis using s' hsts_store_roundtrip [OF example_cache_ok 1 2 s', of 4999 "latin1 (chars ''a.b'')"]
    by (simp add: example_cache_def QHstsPolicy_def isExpired_def)
qed



subsection \<open>Addresses\<close>

text \<open>C28. A host that is an IP address in the form \<open>toString\<close> gives it is never a known host, and no reply from it and
  no update for it changes what the cache knows (RFC 6797, 8.1.1).\<close>

theorem addresses_never_known:
  assumes "url_host u = ip4_toString v \<or> (\<exists>a. length a = 16 \<and> url_host u = ip6_toString a)"
  shows "isKnownHost env now u c = Some (False, c) \<and> knownHosts (updateKnownHost env now u expires sub c) = knownHosts c \<and>
         knownHosts (updateFromHeaders env now headers u c) = knownHosts c"
proof -
  have "\<not> is_valid_domain_name env (url_host u)"
    using assms by (auto simp: is_valid_domain_name_def ip4_text ip6_text)
  then show ?thesis
    by (auto simp: isKnownHost_def updateKnownHost_def updateFromHeaders_def updateKnownHost_name_def split: prod.split)
qed

lemma addresses_never_known_witness:
  "isKnownHost plain_env 0 \<lparr>url_isValid = True, url_host = ip6_toString (replicate 15 0 @ [1])\<rparr> example_cache = Some (False, example_cache)"
proof -
  have "length (replicate 15 0 @ [1 :: byte]) = 16" by simp
  then show ?thesis
    using addresses_never_known [of "\<lparr>url_isValid = True, url_host = ip6_toString (replicate 15 0 @ [1])\<rparr>" 0 plain_env 0 example_cache
      None False None] by (metis url.select_convs(2))
qed

end
